(* ===== verification/Prelude.thy ===== *)
theory Prelude
  imports Main "HOL-Library.Word"
begin

unbundle bit_operations_syntax

declare One_nat_def [simp del]

text \<open>
  The vocabulary every component shares: the machine types of the C sources, the outcome
  of running a kernel operation, the combinators that compose operations the way the C
  code composes statements, byte ranges (\<open>memmove\<close> into the middle of a block), the
  little-endian encoding of 16 and 32 bit fields, and two locales: a fixed-width
  encoding (\<open>codec\<close>) and a transition system with an inductive invariant
  (\<open>machine\<close>).
\<close>

named_theorems kop \<open>symbolic execution of kernel operations\<close>
named_theorems layout \<open>lengths and offsets of on-disk structures\<close>

section \<open>Machine types\<close>

type_synonym byte = "8 word"
type_synonym u16 = "16 word"
type_synonym u32 = "32 word"

section \<open>Outcomes of kernel operations\<close>

text \<open>
  An operation takes the machine state and either returns (\<open>Ok\<close>), calls
  \<open>panic\<close> (\<open>Panic\<close>, with the message), gives up the processor because it has to
  wait (\<open>Block\<close>, with a note of what it waits for), or performs an access the C
  language leaves undefined, such as an index past the end of an array (\<open>Fault\<close>).
  Every outcome carries the state at that point: after a panic the disk is what the next
  boot finds.
\<close>

datatype ('a, 's) outcome =
    Ok 'a 's
  | Panic string 's
  | Block string 's
  | Fault string 's

type_synonym ('s, 'a) kop = "'s \<Rightarrow> ('a, 's) outcome"

definition ret :: "'a \<Rightarrow> ('s, 'a) kop" where
  "ret x = (\<lambda>s. Ok x s)"

definition panic :: "string \<Rightarrow> ('s, 'a) kop" where
  "panic msg = (\<lambda>s. Panic msg s)"

definition fault :: "string \<Rightarrow> ('s, 'a) kop" where
  "fault msg = (\<lambda>s. Fault msg s)"

definition block :: "string \<Rightarrow> ('s, 'a) kop" where
  "block msg = (\<lambda>s. Block msg s)"

definition bnd :: "('s, 'a) kop \<Rightarrow> ('a \<Rightarrow> ('s, 'b) kop) \<Rightarrow> ('s, 'b) kop" where
  "bnd m f = (\<lambda>s. case m s of
      Ok x t \<Rightarrow> f x t
    | Panic e t \<Rightarrow> Panic e t
    | Block e t \<Rightarrow> Block e t
    | Fault e t \<Rightarrow> Fault e t)"

definition seq :: "('s, 'a) kop \<Rightarrow> ('s, 'b) kop \<Rightarrow> ('s, 'b) kop" where
  "seq m k = bnd m (\<lambda>_. k)"

definition getf :: "('s \<Rightarrow> 'a) \<Rightarrow> ('s, 'a) kop" where
  "getf f = (\<lambda>s. Ok (f s) s)"

definition upd :: "('s \<Rightarrow> 's) \<Rightarrow> ('s, unit) kop" where
  "upd f = (\<lambda>s. Ok () (f s))"

definition whenc :: "bool \<Rightarrow> ('s, unit) kop \<Rightarrow> ('s, unit) kop" where
  "whenc b m = (if b then m else ret ())"

text \<open>\<open>if(cond) panic(msg);\<close>\<close>

definition panic_if :: "bool \<Rightarrow> string \<Rightarrow> ('s, unit) kop" where
  "panic_if b msg = (if b then panic msg else ret ())"

text \<open>\<open>for(i = 0; i < n; i++) body(i);\<close> over the list of index values.\<close>

primrec for_each :: "'i list \<Rightarrow> ('i \<Rightarrow> ('s, unit) kop) \<Rightarrow> ('s, unit) kop" where
  "for_each [] body = ret ()"
| "for_each (i # ks) body = seq (body i) (for_each ks body)"

text \<open>
  A search loop: run \<open>body\<close> on each index until it returns \<open>Some\<close> (a \<open>return\<close>
  or \<open>goto\<close> out of the loop); \<open>None\<close> when the loop runs to its end.
\<close>

primrec search_each :: "'i list \<Rightarrow> ('i \<Rightarrow> ('s, 'a option) kop) \<Rightarrow> ('s, 'a option) kop" where
  "search_each [] body = ret None"
| "search_each (i # ks) body =
     bnd (body i) (\<lambda>r. case r of Some x \<Rightarrow> ret (Some x) | None \<Rightarrow> search_each ks body)"

lemma ret_apply [simp, kop]: "ret x s = Ok x s"
  by (simp add: ret_def)

lemma panic_apply [simp, kop]: "panic m s = Panic m s"
  by (simp add: panic_def)

lemma fault_apply [simp, kop]: "fault m s = Fault m s"
  by (simp add: fault_def)

lemma block_apply [simp, kop]: "block m s = Block m s"
  by (simp add: block_def)

lemma getf_apply [simp, kop]: "getf f s = Ok (f s) s"
  by (simp add: getf_def)

lemma upd_apply [simp, kop]: "upd f s = Ok () (f s)"
  by (simp add: upd_def)

lemma panic_if_apply [simp, kop]: "panic_if b m s = (if b then Panic m s else Ok () s)"
  by (simp add: panic_if_def)

lemma whenc_apply [simp, kop]: "whenc b m s = (if b then m s else Ok () s)"
  by (simp add: whenc_def)

lemma bnd_apply [simp, kop]:
  "bnd m f s = (case m s of Ok x t \<Rightarrow> f x t | Panic e t \<Rightarrow> Panic e t
     | Block e t \<Rightarrow> Block e t | Fault e t \<Rightarrow> Fault e t)"
  by (simp add: bnd_def)

lemma seq_apply [simp, kop]:
  "seq m k s = (case m s of Ok x t \<Rightarrow> k t | Panic e t \<Rightarrow> Panic e t
     | Block e t \<Rightarrow> Block e t | Fault e t \<Rightarrow> Fault e t)"
  by (simp add: seq_def bnd_def)

lemma bnd_Ok: "m s = Ok x t \<Longrightarrow> bnd m f s = f x t"
  by (simp add: bnd_def)

lemma seq_Ok: "m s = Ok x t \<Longrightarrow> seq m k s = k t"
  by (simp add: seq_def)

lemma bnd_ret [simp]: "bnd (ret x) f = f x"
  by (rule ext) (simp add: bnd_def)

lemma bnd_assoc: "bnd (bnd m f) g = bnd m (\<lambda>x. bnd (f x) g)"
  by (rule ext) (simp add: bnd_def split: outcome.splits)

lemma bnd_OkE:
  assumes "bnd m f s = Ok y u"
  obtains x t where "m s = Ok x t" and "f x t = Ok y u"
  using assms by (auto simp: bnd_def split: outcome.splits)

lemma seq_OkE:
  assumes "seq m k s = Ok y u"
  obtains x t where "m s = Ok x t" and "k t = Ok y u"
  using assms by (auto simp: seq_def bnd_def split: outcome.splits)

lemma for_each_append:
  "for_each (xs @ ys) body = seq (for_each xs body) (for_each ys body)"
  by (induction xs) (simp_all add: fun_eq_iff split: outcome.splits)

text \<open>
  What a loop does follows from what its body does: if every iteration returns and
  preserves \<open>I\<close> as the index list is consumed, so does the loop. \<open>J dn s\<close> is the
  invariant after the iterations \<open>dn\<close>.
\<close>

lemma for_each_invariant:
  assumes "J dn s"
    and "\<And>pre i post t. ks = pre @ i # post \<Longrightarrow> J (dn @ pre) t \<Longrightarrow>
           \<exists>t'. body i t = Ok () t' \<and> J (dn @ pre @ [i]) t'"
  shows "\<exists>t. for_each ks body s = Ok () t \<and> J (dn @ ks) t"
  using assms
proof (induction ks arbitrary: dn s)
  case Nil
  then show ?case by simp
next
  case (Cons i ks)
  obtain s' where s': "body i s = Ok () s'" and J': "J (dn @ [i]) s'"
    using Cons.prems(1) Cons.prems(2) [of "[]" i ks s] by auto
  have "\<exists>t. for_each ks body s' = Ok () t \<and> J ((dn @ [i]) @ ks) t"
  proof (rule Cons.IH [OF J'])
    fix pre j post t
    assume "ks = pre @ j # post" and "J ((dn @ [i]) @ pre) t"
    then show "\<exists>t'. body j t = Ok () t' \<and> J ((dn @ [i]) @ pre @ [j]) t'"
      using Cons.prems(2) [of "i # pre" j post t] by simp
  qed
  with s' show ?case by simp
qed

section \<open>Total correctness\<close>

text \<open>
  \<open>wp m Q s\<close>: run from \<open>s\<close>, the operation returns, and its result and final state
  satisfy \<open>Q\<close>. The rules follow the combinators, so that a proof walks through the
  statements of a function in their order.
\<close>

definition wp :: "('s, 'a) kop \<Rightarrow> ('a \<Rightarrow> 's \<Rightarrow> bool) \<Rightarrow> 's \<Rightarrow> bool" where
  "wp m Q s \<longleftrightarrow> (\<exists>x t. m s = Ok x t \<and> Q x t)"

lemma wpI: "m s = Ok x t \<Longrightarrow> Q x t \<Longrightarrow> wp m Q s"
  by (auto simp: wp_def)

lemma wpE:
  assumes "wp m Q s"
  obtains x t where "m s = Ok x t" "Q x t"
  using assms by (auto simp: wp_def)

lemma wp_ret [simp]: "wp (ret x) Q s \<longleftrightarrow> Q x s"
  and wp_getf [simp]: "wp (getf f) Q s \<longleftrightarrow> Q (f s) s"
  and wp_upd [simp]: "wp (upd g) R s \<longleftrightarrow> R () (g s)"
  and wp_panic_if [simp]: "wp (panic_if b msg) R s \<longleftrightarrow> \<not> b \<and> R () s"
  by (simp_all add: wp_def)

lemma wp_bnd [simp]: "wp (bnd m f) Q s \<longleftrightarrow> wp m (\<lambda>x. wp (f x) Q) s"
  by (auto simp: wp_def split: outcome.splits)

lemma wp_seq [simp]: "wp (seq m k) Q s \<longleftrightarrow> wp m (\<lambda>_. wp k Q) s"
  by (simp add: seq_def)

lemma wp_whenc [simp]: "wp (whenc b m) Q s \<longleftrightarrow> (if b then wp m Q s else Q () s)"
  by (simp add: wp_def)

lemma wp_if [simp]: "wp (if b then m else k) Q s \<longleftrightarrow> (if b then wp m Q s else wp k Q s)"
  by simp

lemma wp_Let [simp]: "wp (Let x f) Q s \<longleftrightarrow> wp (f x) Q s"
  by simp

lemma wp_for_each_Nil [simp]: "wp (for_each [] body) R s \<longleftrightarrow> R () s"
  by (simp add: wp_def)

lemma wp_for_each_append:
  "wp (for_each (xs @ ys) body) Q s \<longleftrightarrow> wp (for_each xs body) (\<lambda>_. wp (for_each ys body) Q) s"
  unfolding for_each_append by (rule wp_seq)

lemma wp_for_each_single: "wp (for_each [i] body) Q s \<longleftrightarrow> wp (body i) Q s"
  by (auto simp: wp_def split: outcome.splits)

lemma wp_mono: "wp m Q s \<Longrightarrow> (\<And>x t. Q x t \<Longrightarrow> R x t) \<Longrightarrow> wp m R s"
  by (auto simp: wp_def)

lemma wp_for_upto:
  assumes "J 0 s"
    and "\<And>i t. i < n \<Longrightarrow> J i t \<Longrightarrow> wp (body i) (\<lambda>_. J (Suc i)) t"
    and "\<And>t. J n t \<Longrightarrow> Q () t"
  shows "wp (for_each [0..<n] body) Q s"
proof -
  have all: "wp (for_each [0..<k] body) (\<lambda>_. J k) s" if "k \<le> n" for k
    using that
  proof (induction k)
    case 0
    then show ?case using assms(1) by (simp add: wp_def)
  next
    case (Suc k)
    then have "wp (for_each [0..<k] body) (\<lambda>_. J k) s" by simp
    then have "wp (for_each [0..<k] body) (\<lambda>_. wp (body k) (\<lambda>_. J (Suc k))) s"
      by (rule wp_mono) (rule assms(2), use Suc.prems in simp_all)
    then show ?case unfolding upt_Suc_append [OF le0] wp_for_each_append wp_for_each_single .
  qed
  show ?thesis by (rule wp_mono [OF all [OF order_refl]]) (simp add: assms(3))
qed

text \<open>The program under \<open>wp\<close> is taken apart by the rules above, not by the simplifier.\<close>

lemma wp_weak_cong [cong]: "s = t \<Longrightarrow> wp m Q s = wp m Q t"
  by simp

section \<open>Byte ranges\<close>

text \<open>
  \<open>bslice off n bs\<close> reads \<open>n\<close> bytes at offset \<open>off\<close>; \<open>bsplice off src bs\<close>
  overwrites the bytes at \<open>off\<close> with \<open>src\<close>, as \<open>memmove(bs + off, src, len)\<close>
  does when the range lies inside \<open>bs\<close>.
\<close>

definition bslice :: "nat \<Rightarrow> nat \<Rightarrow> 'a list \<Rightarrow> 'a list" where
  "bslice off n bs = take n (drop off bs)"

definition bsplice :: "nat \<Rightarrow> 'a list \<Rightarrow> 'a list \<Rightarrow> 'a list" where
  "bsplice off src bs = take off bs @ src @ drop (off + length src) bs"

lemma length_bslice [simp]: "off + n \<le> length bs \<Longrightarrow> length (bslice off n bs) = n"
  by (simp add: bslice_def)

lemma length_bsplice [simp]:
  "off + length src \<le> length bs \<Longrightarrow> length (bsplice off src bs) = length bs"
  by (simp add: bsplice_def)

lemma bslice_bsplice_same [simp]:
  "off + length src \<le> length bs \<Longrightarrow> bslice off (length src) (bsplice off src bs) = src"
  by (simp add: bsplice_def bslice_def)

lemma bsplice_bslice_same [simp]:
  "off + n \<le> length bs \<Longrightarrow> bsplice off (bslice off n bs) bs = bs"
  by (simp add: bsplice_def bslice_def min_def)
    (metis add.commute append_take_drop_id drop_drop)

lemma bsplice_Nil [simp]: "bsplice off [] bs = bs"
  by (simp add: bsplice_def)

lemma bslice_nth: "off + n \<le> length bs \<Longrightarrow> i < n \<Longrightarrow> bslice off n bs ! i = bs ! (off + i)"
  by (simp add: bslice_def)

lemma bsplice_nth:
  "off + length src \<le> length bs \<Longrightarrow> i < length bs \<Longrightarrow>
   bsplice off src bs ! i =
     (if off \<le> i \<and> i < off + length src then src ! (i - off) else bs ! i)"
  by (auto simp: bsplice_def nth_append min_def)

lemma bslice_eq_iff:
  assumes "off + n \<le> length a" and "length b = length a"
  shows "bslice off n a = bslice off n b \<longleftrightarrow> (\<forall>i. off \<le> i \<and> i < off + n \<longrightarrow> a ! i = b ! i)"
proof
  assume eq: "bslice off n a = bslice off n b"
  show "\<forall>i. off \<le> i \<and> i < off + n \<longrightarrow> a ! i = b ! i"
  proof (intro allI impI)
    fix i assume i: "off \<le> i \<and> i < off + n"
    have "bslice off n a ! (i - off) = bslice off n b ! (i - off)" by (simp add: eq)
    moreover have "i - off < n" and "off + (i - off) = i" using i by auto
    ultimately show "a ! i = b ! i"
      using bslice_nth [of off n a "i - off"] bslice_nth [of off n b "i - off"] assms by simp
  qed
next
  assume "\<forall>i. off \<le> i \<and> i < off + n \<longrightarrow> a ! i = b ! i"
  then show "bslice off n a = bslice off n b"
    using assms by (intro nth_equalityI) (auto simp: bslice_nth)
qed

lemma bslice_bsplice_disjoint:
  assumes "off + length src \<le> length bs" and "off' + n \<le> length bs"
    and "off' + n \<le> off \<or> off + length src \<le> off'"
  shows "bslice off' n (bsplice off src bs) = bslice off' n bs"
  using assms by (subst bslice_eq_iff) (auto simp: bsplice_nth)

lemma nth_outside_slices_eq:
  assumes "length a = length b" and "off + n \<le> length a"
    and "\<And>i. i < length a \<Longrightarrow> \<not> (off \<le> i \<and> i < off + n) \<Longrightarrow> a ! i = b ! i"
  shows "bsplice off (bslice off n b) a = b"
  using assms by (intro nth_equalityI) (auto simp: bsplice_nth bslice_nth)

section \<open>Fixed-width encodings\<close>

text \<open>
  The on-disk structures are C structs read and written through casts. An encoding with a
  fixed width and both round trips is all the layers above rely on; each width is
  interpreted once, and structures are built from interpreted fields.
\<close>

definition fetchw :: "(byte list \<Rightarrow> 'v) \<Rightarrow> nat \<Rightarrow> byte list \<Rightarrow> nat \<Rightarrow> 'v" where
  "fetchw dec width bs off = dec (bslice off width bs)"

definition storew :: "('v \<Rightarrow> byte list) \<Rightarrow> byte list \<Rightarrow> nat \<Rightarrow> 'v \<Rightarrow> byte list" where
  "storew enc bs off v = bsplice off (enc v) bs"

locale codec =
  fixes enc :: "'v \<Rightarrow> byte list" and dec :: "byte list \<Rightarrow> 'v" and width :: nat
  assumes enc_length: "length (enc v) = width"
    and dec_enc: "dec (enc v) = v"
    and enc_dec: "length bs = width \<Longrightarrow> enc (dec bs) = bs"
begin

lemma length_store: "off + width \<le> length bs \<Longrightarrow> length (storew enc bs off v) = length bs"
  by (simp add: storew_def enc_length)

lemma fetch_store: "off + width \<le> length bs \<Longrightarrow> fetchw dec width (storew enc bs off v) off = v"
  using bslice_bsplice_same [of off "enc v" bs] by (simp add: fetchw_def storew_def enc_length dec_enc)

lemma fetch_store_other:
  "off + width \<le> length bs \<Longrightarrow> off' + width \<le> length bs \<Longrightarrow>
   off' + width \<le> off \<or> off + width \<le> off' \<Longrightarrow>
   fetchw dec width (storew enc bs off v) off' = fetchw dec width bs off'"
  by (simp add: fetchw_def storew_def enc_length bslice_bsplice_disjoint)

lemma store_fetch: "off + width \<le> length bs \<Longrightarrow> storew enc bs off (fetchw dec width bs off) = bs"
  by (simp add: fetchw_def storew_def enc_dec)

lemma enc_inject: "enc v = enc w \<longleftrightarrow> v = w"
  by (metis dec_enc)

end

definition bytes_of_u16 :: "u16 \<Rightarrow> byte list" where
  "bytes_of_u16 w = [ucast w, ucast (drop_bit 8 w)]"

definition u16_of_bytes :: "byte list \<Rightarrow> u16" where
  "u16_of_bytes bs = ucast (bs ! 0) OR push_bit 8 (ucast (bs ! 1))"

definition bytes_of_u32 :: "u32 \<Rightarrow> byte list" where
  "bytes_of_u32 w = [ucast w, ucast (drop_bit 8 w), ucast (drop_bit 16 w), ucast (drop_bit 24 w)]"

definition u32_of_bytes :: "byte list \<Rightarrow> u32" where
  "u32_of_bytes bs = ucast (bs ! 0) OR push_bit 8 (ucast (bs ! 1))
     OR push_bit 16 (ucast (bs ! 2)) OR push_bit 24 (ucast (bs ! 3))"

lemma bit_byte_high: "8 \<le> n \<Longrightarrow> \<not> bit (b :: byte) n"
  using bit_imp_le_length [of b n] by auto

interpretation cu16: codec bytes_of_u16 u16_of_bytes 2
proof unfold_locales
  fix v :: u16
  show "length (bytes_of_u16 v) = 2" by (simp add: bytes_of_u16_def)
  show "u16_of_bytes (bytes_of_u16 v) = v"
    by (rule bit_word_eqI) (auto simp: u16_of_bytes_def bytes_of_u16_def bit_simps not_less)
next
  fix bs :: "byte list"
  assume "length bs = 2"
  then obtain a b where bs: "bs = [a, b]"
    by (auto simp: length_Suc_conv numeral_2_eq_2)
  show "bytes_of_u16 (u16_of_bytes bs) = bs"
    unfolding bs bytes_of_u16_def u16_of_bytes_def
    by (auto intro!: bit_word_eqI simp: bit_simps bit_byte_high)
qed

interpretation cu32: codec bytes_of_u32 u32_of_bytes 4
proof unfold_locales
  fix v :: u32
  show "length (bytes_of_u32 v) = 4" by (simp add: bytes_of_u32_def)
  show "u32_of_bytes (bytes_of_u32 v) = v"
  proof (rule bit_word_eqI)
    fix n assume "n < LENGTH(32)"
    then consider "n < 8" | "8 \<le> n" "n < 16" | "16 \<le> n" "n < 24" | "24 \<le> n" "n < 32"
      by fastforce
    then show "bit (u32_of_bytes (bytes_of_u32 v)) n = bit v n"
      by cases (auto simp: u32_of_bytes_def bytes_of_u32_def bit_simps)
  qed
next
  fix bs :: "byte list"
  assume "length bs = 4"
  then obtain a b c d where bs: "bs = [a, b, c, d]"
    by (auto simp: length_Suc_conv numeral_eq_Suc)
  show "bytes_of_u32 (u32_of_bytes bs) = bs"
    unfolding bs bytes_of_u32_def u32_of_bytes_def
    by (auto intro!: bit_word_eqI simp: bit_simps bit_byte_high)
qed

definition get16 :: "byte list \<Rightarrow> nat \<Rightarrow> u16" where
  "get16 bs off = fetchw u16_of_bytes 2 bs off"

definition put16 :: "byte list \<Rightarrow> nat \<Rightarrow> u16 \<Rightarrow> byte list" where
  "put16 bs off v = storew bytes_of_u16 bs off v"

definition get32 :: "byte list \<Rightarrow> nat \<Rightarrow> u32" where
  "get32 bs off = fetchw u32_of_bytes 4 bs off"

definition put32 :: "byte list \<Rightarrow> nat \<Rightarrow> u32 \<Rightarrow> byte list" where
  "put32 bs off v = storew bytes_of_u32 bs off v"

lemma length_put32 [simp]: "off + 4 \<le> length bs \<Longrightarrow> length (put32 bs off v) = length bs"
  by (simp add: put32_def cu32.length_store)

lemma get32_put32 [simp]: "off + 4 \<le> length bs \<Longrightarrow> get32 (put32 bs off v) off = v"
  by (simp add: put32_def get32_def cu32.fetch_store)

lemma get32_put32_other [simp]:
  "off + 4 \<le> length bs \<Longrightarrow> off' + 4 \<le> length bs \<Longrightarrow> off' + 4 \<le> off \<or> off + 4 \<le> off' \<Longrightarrow>
   get32 (put32 bs off v) off' = get32 bs off'"
  by (simp add: put32_def get32_def cu32.fetch_store_other)

lemma length_put16 [simp]: "off + 2 \<le> length bs \<Longrightarrow> length (put16 bs off v) = length bs"
  by (simp add: put16_def cu16.length_store)

lemma get16_put16 [simp]: "off + 2 \<le> length bs \<Longrightarrow> get16 (put16 bs off v) off = v"
  by (simp add: put16_def get16_def cu16.fetch_store)

section \<open>Transition systems\<close>

text \<open>
  A protocol between several processes is a step relation; what holds in the start states
  and is kept by every step holds in every reachable state.
\<close>

inductive reach :: "('st \<Rightarrow> bool) \<Rightarrow> ('st \<Rightarrow> 'st \<Rightarrow> bool) \<Rightarrow> 'st \<Rightarrow> bool"
  for start :: "'st \<Rightarrow> bool" and step :: "'st \<Rightarrow> 'st \<Rightarrow> bool" where
  reach_start: "start s \<Longrightarrow> reach start step s"
| reach_step: "reach start step s \<Longrightarrow> step s t \<Longrightarrow> reach start step t"

locale machine =
  fixes start :: "'st \<Rightarrow> bool" and step :: "'st \<Rightarrow> 'st \<Rightarrow> bool" and inv :: "'st \<Rightarrow> bool"
  assumes inv_start: "start s \<Longrightarrow> inv s"
    and inv_step: "inv s \<Longrightarrow> step s t \<Longrightarrow> inv t"
begin

lemma reach_inv: "reach start step s \<Longrightarrow> inv s"
  by (induction rule: reach.induct) (auto intro: inv_start inv_step)

lemma reach_step_inv: "reach start step s \<Longrightarrow> step s t \<Longrightarrow> inv s \<and> inv t"
  using reach_inv inv_step by blast

end

section \<open>Arrays\<close>

text \<open>The first index at which a table scan (\<open>for(p = tab; p < tab+N; p++) if(P(p)) ...\<close>) stops.\<close>

fun find_index :: "('a \<Rightarrow> bool) \<Rightarrow> 'a list \<Rightarrow> nat option" where
  "find_index P [] = None"
| "find_index P (x # xs) = (if P x then Some 0 else map_option Suc (find_index P xs))"

lemma find_index_Some:
  "find_index P xs = Some i \<longleftrightarrow> i < length xs \<and> P (xs ! i) \<and> (\<forall>j<i. \<not> P (xs ! j))"
proof (induction xs arbitrary: i)
  case Nil
  then show ?case by simp
next
  case (Cons x xs)
  show ?case
  proof (cases "P x")
    case True
    then show ?thesis by (cases i) auto
  next
    case False
    with Cons show ?thesis by (cases i) (auto simp: All_less_Suc2)
  qed
qed

lemma find_index_None: "find_index P xs = None \<longleftrightarrow> (\<forall>i<length xs. \<not> P (xs ! i))"
  by (induction xs) (auto simp: All_less_Suc2)

lemma for_upto:
  assumes "J 0 s"
    and "\<And>k t. k < n \<Longrightarrow> J k t \<Longrightarrow> \<exists>t'. body k t = Ok () t' \<and> J (Suc k) t'"
  shows "\<exists>t. for_each [0..<n] body s = Ok () t \<and> J n t"
proof -
  have "\<exists>t. for_each [0..<n] body s = Ok () t \<and> J (length ([] @ [0..<n])) t"
  proof (rule for_each_invariant [where J = "\<lambda>dn. J (length dn)"])
    show "J (length []) s" by (simp add: assms(1))
    fix pre i post t
    assume eq: "[0..<n] = pre @ i # post" and J: "J (length ([] @ pre)) t"
    have len: "length pre < n" using arg_cong [OF eq, of length] by simp
    have "[0..<n] ! length pre = i" using eq by simp
    then have "i = length pre" using len by simp
    then show "\<exists>t'. body i t = Ok () t' \<and> J (length ([] @ pre @ [i])) t'"
      using assms(2) [OF len, of t] J by simp
  qed
  then show ?thesis by simp
qed

section \<open>Searching a list\<close>

text \<open>A search loop whose body stops at the first index with \<open>P\<close>.\<close>

lemma search_each_find:
  assumes "I s"
    and "\<And>k t. k \<in> set ks \<Longrightarrow> \<not> P k \<Longrightarrow> I t \<Longrightarrow> \<exists>t'. body k t = Ok None t' \<and> I t'"
    and "\<And>k t. k \<in> set ks \<Longrightarrow> P k \<Longrightarrow> I t \<Longrightarrow> \<exists>x t'. body k t = Ok (Some x) t' \<and> Q k x t'"
  shows "case List.find P ks of
      None \<Rightarrow> \<exists>t. search_each ks body s = Ok None t \<and> I t
    | Some k \<Rightarrow> \<exists>x t. search_each ks body s = Ok (Some x) t \<and> Q k x t"
  using assms
proof (induction ks arbitrary: s)
  case (Cons k ks)
  show ?case
  proof (cases "P k")
    case True
    then show ?thesis using Cons.prems(1) Cons.prems(3) [of k s] by auto
  next
    case False
    then obtain s' where s': "body k s = Ok None s'" "I s'" using Cons.prems(1) Cons.prems(2) [of k s] by auto
    have "case List.find P ks of None \<Rightarrow> \<exists>t. search_each ks body s' = Ok None t \<and> I t
        | Some k \<Rightarrow> \<exists>x t. search_each ks body s' = Ok (Some x) t \<and> Q k x t"
      by (rule Cons.IH [OF s'(2)]) (use Cons.prems in auto)
    then show ?thesis using False s'(1) by (simp split: option.splits)
  qed
qed simp

lemma find_SomeD: "List.find P xs = Some x \<Longrightarrow> x \<in> set xs \<and> P x"
  by (auto simp: find_Some_iff)

lemma find_exists: "\<exists>x\<in>set xs. P x \<Longrightarrow> \<exists>x. List.find P xs = Some x"
  by (cases "List.find P xs") (auto simp: find_None_iff)

lemma find_unique:
  assumes "x \<in> set xs" "P x" and "\<And>y. y \<in> set xs \<Longrightarrow> P y \<Longrightarrow> y = x"
  shows "List.find P xs = Some x"
proof -
  obtain z where z: "List.find P xs = Some z" using find_exists [of xs P] assms(1,2) by blast
  then have "z = x" using find_SomeD [OF z] assms(3) by blast
  with z show ?thesis by simp
qed

end
