(* ===== verification/Params.thy ===== *)
theory Params
  imports Prelude
begin

text \<open>
  The compile-time parameters of the kernel (\<open>param.h\<close>, \<open>fs.h\<close>, \<open>stat.h\<close>,
  \<open>fcntl.h\<close>) and the structures of the on-disk format: \<open>superblock\<close>, \<open>dinode\<close>
  and \<open>dirent\<close>. The structures are records; their layout in a disk block is given by
  the offsets the C compiler gives their fields (all fields are naturally aligned, so
  there is no padding).
\<close>

section \<open>Limits\<close>

abbreviation (input) NPROC :: nat where "NPROC \<equiv> 64"
abbreviation (input) KSTACKSIZE :: nat where "KSTACKSIZE \<equiv> 4096"
abbreviation (input) NCPU :: nat where "NCPU \<equiv> 8"
abbreviation (input) NOFILE :: nat where "NOFILE \<equiv> 16"
abbreviation (input) NFILE :: nat where "NFILE \<equiv> 100"
abbreviation (input) NINODE :: nat where "NINODE \<equiv> 50"
abbreviation (input) NDEV :: nat where "NDEV \<equiv> 10"
abbreviation (input) ROOTDEV :: nat where "ROOTDEV \<equiv> 1"
abbreviation (input) MAXARG :: nat where "MAXARG \<equiv> 32"
abbreviation (input) MAXOPBLOCKS :: nat where "MAXOPBLOCKS \<equiv> 10"
abbreviation (input) LOGSIZE :: nat where "LOGSIZE \<equiv> 30"
abbreviation (input) NBUF :: nat where "NBUF \<equiv> 30"
abbreviation (input) FSSIZE :: nat where "FSSIZE \<equiv> 1000"

section \<open>File system format\<close>

abbreviation (input) ROOTINO :: nat where "ROOTINO \<equiv> 1"
abbreviation (input) BSIZE :: nat where "BSIZE \<equiv> 512"
abbreviation (input) NDIRECT :: nat where "NDIRECT \<equiv> 12"
abbreviation (input) NINDIRECT :: nat where "NINDIRECT \<equiv> 128"
abbreviation (input) MAXFILE :: nat where "MAXFILE \<equiv> 140"
abbreviation (input) DIRSIZ :: nat where "DIRSIZ \<equiv> 14"
abbreviation (input) BPB :: nat where "BPB \<equiv> 4096"
abbreviation (input) DINODESZ :: nat where "DINODESZ \<equiv> 64"
abbreviation (input) DIRENTSZ :: nat where "DIRENTSZ \<equiv> 16"
abbreviation (input) IPB :: nat where "IPB \<equiv> 8"

abbreviation (input) T_DIR :: u16 where "T_DIR \<equiv> 1"
abbreviation (input) T_FILE :: u16 where "T_FILE \<equiv> 2"
abbreviation (input) T_DEV :: u16 where "T_DEV \<equiv> 3"

abbreviation (input) O_RDONLY :: u32 where "O_RDONLY \<equiv> 0"
abbreviation (input) O_WRONLY :: u32 where "O_WRONLY \<equiv> 1"
abbreviation (input) O_RDWR :: u32 where "O_RDWR \<equiv> 2"
abbreviation (input) O_CREATE :: u32 where "O_CREATE \<equiv> 0x200"

text \<open>
  The parameters are related as the headers define them: \<open>LOGSIZE\<close> and \<open>NBUF\<close> are
  \<open>MAXOPBLOCKS*3\<close>, \<open>NINDIRECT\<close> is \<open>BSIZE / sizeof(uint)\<close>, \<open>IPB\<close> is
  \<open>BSIZE / sizeof(struct dinode)\<close>, \<open>BPB\<close> is \<open>BSIZE*8\<close>.
\<close>

lemma params_related:
  "LOGSIZE = MAXOPBLOCKS * 3" "NBUF = MAXOPBLOCKS * 3" "NINDIRECT = BSIZE div 4"
  "MAXFILE = NDIRECT + NINDIRECT" "IPB = BSIZE div DINODESZ" "BPB = BSIZE * 8"
  by simp_all

record superblock =
  sb_size :: nat
  sb_nblocks :: nat
  sb_ninodes :: nat
  sb_nlog :: nat
  sb_logstart :: nat
  sb_inodestart :: nat
  sb_bmapstart :: nat

definition dec_superblock :: "byte list \<Rightarrow> superblock" where
  "dec_superblock bs =
     \<lparr>sb_size = unat (get32 bs 0), sb_nblocks = unat (get32 bs 4), sb_ninodes = unat (get32 bs 8),
      sb_nlog = unat (get32 bs 12), sb_logstart = unat (get32 bs 16),
      sb_inodestart = unat (get32 bs 20), sb_bmapstart = unat (get32 bs 24)\<rparr>"

definition enc_superblock :: "superblock \<Rightarrow> byte list" where
  "enc_superblock sb =
     bytes_of_u32 (of_nat (sb_size sb)) @ bytes_of_u32 (of_nat (sb_nblocks sb)) @
     bytes_of_u32 (of_nat (sb_ninodes sb)) @ bytes_of_u32 (of_nat (sb_nlog sb)) @
     bytes_of_u32 (of_nat (sb_logstart sb)) @ bytes_of_u32 (of_nat (sb_inodestart sb)) @
     bytes_of_u32 (of_nat (sb_bmapstart sb))"

text \<open>Block containing inode \<open>i\<close>, and block of the free map containing the bit of block \<open>b\<close>.\<close>

definition IBLOCK :: "nat \<Rightarrow> superblock \<Rightarrow> nat" where
  "IBLOCK i sb = i div IPB + sb_inodestart sb"

definition BBLOCK :: "nat \<Rightarrow> superblock \<Rightarrow> nat" where
  "BBLOCK b sb = b div BPB + sb_bmapstart sb"

record dinode =
  di_type :: u16
  di_major :: u16
  di_minor :: u16
  di_nlink :: u16
  di_size :: u32
  di_addrs :: "u32 list"

definition dec_dinode :: "byte list \<Rightarrow> dinode" where
  "dec_dinode bs =
     \<lparr>di_type = get16 bs 0, di_major = get16 bs 2, di_minor = get16 bs 4, di_nlink = get16 bs 6,
      di_size = get32 bs 8, di_addrs = map (\<lambda>i. get32 bs (12 + 4 * i)) [0..<NDIRECT + 1]\<rparr>"

definition enc_dinode :: "dinode \<Rightarrow> byte list" where
  "enc_dinode d =
     bytes_of_u16 (di_type d) @ bytes_of_u16 (di_major d) @ bytes_of_u16 (di_minor d) @
     bytes_of_u16 (di_nlink d) @ bytes_of_u32 (di_size d) @ concat (map bytes_of_u32 (di_addrs d))"

record dirent =
  de_inum :: u16
  de_name :: "byte list"

definition dec_dirent :: "byte list \<Rightarrow> dirent" where
  "dec_dirent bs = \<lparr>de_inum = get16 bs 0, de_name = bslice 2 DIRSIZ bs\<rparr>"

definition enc_dirent :: "dirent \<Rightarrow> byte list" where
  "enc_dirent de = bytes_of_u16 (de_inum de) @ de_name de"

section \<open>Round trips of the on-disk structures\<close>

lemma bslice_append_left: "off + n \<le> length a \<Longrightarrow> bslice off n (a @ b) = bslice off n a"
  by (simp add: bslice_def)

lemma bslice_append_right: "length a \<le> off \<Longrightarrow> bslice off n (a @ b) = bslice (off - length a) n b"
  by (simp add: bslice_def)

lemma bslice_whole: "length a = n \<Longrightarrow> bslice 0 n a = a"
  by (simp add: bslice_def)

lemma get16_enc_append [simp]: "get16 (bytes_of_u16 v @ bs) 0 = v"
  by (simp add: get16_def fetchw_def bslice_append_left bslice_whole cu16.enc_length cu16.dec_enc)

lemma get32_enc_append [simp]: "get32 (bytes_of_u32 v @ bs) 0 = v"
  by (simp add: get32_def fetchw_def bslice_append_left bslice_whole cu32.enc_length cu32.dec_enc)

lemma get16_skip: "length a \<le> off \<Longrightarrow> get16 (a @ bs) off = get16 bs (off - length a)"
  by (simp add: get16_def fetchw_def bslice_append_right)

lemma get32_skip: "length a \<le> off \<Longrightarrow> get32 (a @ bs) off = get32 bs (off - length a)"
  by (simp add: get32_def fetchw_def bslice_append_right)

lemma get32_concat:
  "i < length xs \<Longrightarrow> get32 (concat (map bytes_of_u32 xs)) (4 * i) = xs ! i"
proof (induction xs arbitrary: i)
  case Nil
  then show ?case by simp
next
  case (Cons x xs)
  show ?case
  proof (cases i)
    case 0
    then show ?thesis by simp
  next
    case (Suc j)
    with Cons show ?thesis by (simp add: get32_skip cu32.enc_length)
  qed
qed

lemmas struct_fetch = get16_skip get32_skip cu16.enc_length cu32.enc_length

lemma length_concat_u32 [layout]: "length (concat (map bytes_of_u32 xs)) = 4 * length xs"
  by (induction xs) (simp_all add: cu32.enc_length)

lemma length_enc_dinode [layout]:
  "length (di_addrs d) = NDIRECT + 1 \<Longrightarrow> length (enc_dinode d) = DINODESZ"
  by (simp add: enc_dinode_def layout cu16.enc_length cu32.enc_length)

lemma length_enc_dirent [layout]: "length (de_name d) = DIRSIZ \<Longrightarrow> length (enc_dirent d) = DIRENTSZ"
  by (simp add: enc_dirent_def cu16.enc_length)

lemma dec_enc_dinode:
  assumes "length (di_addrs d) = NDIRECT + 1"
  shows "dec_dinode (enc_dinode d) = d"
proof -
  have "map (\<lambda>i. get32 (enc_dinode d) (12 + 4 * i)) [0..<13] = di_addrs d"
    using assms
    by (intro nth_equalityI) (simp_all add: enc_dinode_def struct_fetch get32_concat)
  then show ?thesis
    by (simp add: dec_dinode_def) (simp add: enc_dinode_def struct_fetch)
qed

lemma dec_enc_dirent:
  "length (de_name d) = DIRSIZ \<Longrightarrow> dec_dirent (enc_dirent d) = d"
  by (simp add: dec_dirent_def enc_dirent_def bslice_append_right bslice_whole cu16.enc_length)

end
