(* ===== verification/Kernel.thy ===== *)
theory Kernel
  imports Params
begin

text \<open>
  The state every kernel component shares: the process table (\<open>proc.h\<close>, \<open>proc.c\<close>),
  the process running on this processor, and the spinlocks this processor holds. The
  records of the other components extend \<open>kst\<close>, so an operation of a lower layer runs
  unchanged inside a higher one.

  Spinlocks appear here as the list \<open>held\<close> of the locks held by the processor that runs
  the operation; \<open>lock\<close> and \<open>unlock\<close> panic exactly where \<open>acquire\<close> and
  \<open>release\<close> do. The theory \<open>Spinlock\<close> models \<open>spinlock.c\<close> itself and shows that
  its operations refine these two.
\<close>

section \<open>Names of locks and sleep channels\<close>

datatype lid =
    LPtable | LBcache | LIde | LLog | LIcache | LFtable | LKmem | LTicks | LCons
  | LBuf nat | LInode nat | LPipe nat

datatype chan =
    ChLog | ChTicks | ChInput | ChBuf nat | ChSleeplock lid | ChPipeR nat | ChPipeW nat | ChProc nat

section \<open>Processes\<close>

datatype procstate = UNUSED | EMBRYO | SLEEPING | RUNNABLE | RUNNING | ZOMBIE

record trapframe =
  tf_edi :: u32
  tf_esi :: u32
  tf_ebp :: u32
  tf_oesp :: u32
  tf_ebx :: u32
  tf_edx :: u32
  tf_ecx :: u32
  tf_eax :: u32
  tf_gs :: u16
  tf_fs :: u16
  tf_es :: u16
  tf_ds :: u16
  tf_trapno :: u32
  tf_err :: u32
  tf_eip :: u32
  tf_cs :: u16
  tf_eflags :: u32
  tf_esp :: u32
  tf_ss :: u16

record cxt =
  cx_edi :: u32
  cx_esi :: u32
  cx_ebx :: u32
  cx_ebp :: u32
  cx_eip :: u32

text \<open>
  \<open>struct proc\<close>: pointers into the process, file and inode tables are table indices
  (\<open>None\<close> is the null pointer).
\<close>

record proc =
  p_sz :: u32
  p_pgdir :: u32
  p_kstack :: u32
  p_state :: procstate
  p_pid :: int
  p_parent :: "nat option"
  p_tf :: trapframe
  p_context :: cxt
  p_chan :: "chan option"
  p_killed :: bool
  p_ofile :: "nat option list"
  p_cwd :: "nat option"
  p_name :: "byte list"

definition zero_tf :: trapframe where
  "zero_tf = \<lparr>tf_edi = 0, tf_esi = 0, tf_ebp = 0, tf_oesp = 0, tf_ebx = 0, tf_edx = 0, tf_ecx = 0,
     tf_eax = 0, tf_gs = 0, tf_fs = 0, tf_es = 0, tf_ds = 0, tf_trapno = 0, tf_err = 0, tf_eip = 0,
     tf_cs = 0, tf_eflags = 0, tf_esp = 0, tf_ss = 0\<rparr>"

definition zero_cx :: cxt where
  "zero_cx = \<lparr>cx_edi = 0, cx_esi = 0, cx_ebx = 0, cx_ebp = 0, cx_eip = 0\<rparr>"

text \<open>A slot of the process table in the zero-initialised kernel image.\<close>

definition zero_proc :: proc where
  "zero_proc = \<lparr>p_sz = 0, p_pgdir = 0, p_kstack = 0, p_state = UNUSED, p_pid = 0, p_parent = None,
     p_tf = zero_tf, p_context = zero_cx, p_chan = None, p_killed = False,
     p_ofile = replicate NOFILE None, p_cwd = None, p_name = replicate 16 0\<rparr>"

record kst =
  held :: "lid list"
  ptable :: "proc list"
  cur :: "nat option"
  nextpid :: int
  initproc :: "nat option"

section \<open>Spinlocks as seen by one processor\<close>

definition lock :: "lid \<Rightarrow> ('z kst_scheme, unit) kop" where
  "lock l = (\<lambda>s. if l \<in> set (held s) then Panic ''acquire'' s
                 else Ok () (s\<lparr>held := l # held s\<rparr>))"

definition unlock :: "lid \<Rightarrow> ('z kst_scheme, unit) kop" where
  "unlock l = (\<lambda>s. if l \<in> set (held s) then Ok () (s\<lparr>held := remove1 l (held s)\<rparr>)
                   else Panic ''release'' s)"

lemma lock_free [simp, kop]: "l \<notin> set (held s) \<Longrightarrow> lock l s = Ok () (s\<lparr>held := l # held s\<rparr>)"
  by (simp add: lock_def)

lemma unlock_held [simp, kop]:
  "l \<in> set (held s) \<Longrightarrow> unlock l s = Ok () (s\<lparr>held := remove1 l (held s)\<rparr>)"
  by (simp add: unlock_def)

section \<open>The process table\<close>

definition myproc :: "('z kst_scheme, nat option) kop" where
  "myproc = getf cur"

definition proc_at :: "'z kst_scheme \<Rightarrow> nat \<Rightarrow> proc" where
  "proc_at s i = ptable s ! i"

definition set_proc :: "nat \<Rightarrow> (proc \<Rightarrow> proc) \<Rightarrow> ('z kst_scheme, unit) kop" where
  "set_proc i f = upd (\<lambda>s. s\<lparr>ptable := (ptable s)[i := f (ptable s ! i)]\<rparr>)"

text \<open>\<open>myproc()->pid\<close> and \<open>myproc()->killed\<close>, where a process is running.\<close>

definition curpid :: "'z kst_scheme \<Rightarrow> int" where
  "curpid s = (case cur s of Some i \<Rightarrow> p_pid (ptable s ! i) | None \<Rightarrow> 0)"

definition curkilled :: "'z kst_scheme \<Rightarrow> bool" where
  "curkilled s = (case cur s of Some i \<Rightarrow> p_killed (ptable s ! i) | None \<Rightarrow> False)"

section \<open>Sleep and wakeup\<close>

text \<open>
  \<open>wakeup1\<close>: every process sleeping on the channel becomes runnable.
\<close>

definition wake_proc :: "chan \<Rightarrow> proc \<Rightarrow> proc" where
  "wake_proc c p = (if p_state p = SLEEPING \<and> p_chan p = Some c then p\<lparr>p_state := RUNNABLE\<rparr> else p)"

definition wakeup1 :: "chan \<Rightarrow> ('z kst_scheme, unit) kop" where
  "wakeup1 c = upd (\<lambda>s. s\<lparr>ptable := map (wake_proc c) (ptable s)\<rparr>)"

definition wakeup :: "chan \<Rightarrow> ('z kst_scheme, unit) kop" where
  "wakeup c = seq (lock LPtable) (seq (wakeup1 c) (unlock LPtable))"

text \<open>
  \<open>sched\<close>: the checks before the context switch. The switch itself hands the processor
  to the scheduler, so in the run of this process the outcome is \<open>Block\<close>. The interrupt
  flag is off whenever a spinlock is held (see \<open>Spinlock\<close>), so that check cannot fire
  once the first one has passed and is not part of \<open>held\<close>.
\<close>

definition sched_checks :: "('z kst_scheme, unit) kop" where
  "sched_checks =
     bnd myproc (\<lambda>p. bnd (getf held) (\<lambda>h. bnd (getf ptable) (\<lambda>pt.
       seq (panic_if (LPtable \<notin> set h) ''sched ptable.lock'')
      (seq (panic_if (length h \<noteq> 1) ''sched locks'')
           (case p of None \<Rightarrow> fault ''sched: no process''
            | Some i \<Rightarrow> panic_if (p_state (pt ! i) = RUNNING) ''sched running'')))))"

definition sched :: "('z kst_scheme, unit) kop" where
  "sched = seq sched_checks (block ''sched'')"

text \<open>
  \<open>sleep\<close> in three parts: up to the call of \<open>sched\<close>, the switch, and what runs when
  the process is scheduled again.
\<close>

definition sleep_enter :: "chan \<Rightarrow> lid \<Rightarrow> ('z kst_scheme, unit) kop" where
  "sleep_enter c lk =
     bnd myproc (\<lambda>p. case p of None \<Rightarrow> panic ''sleep''
      | Some i \<Rightarrow>
         seq (whenc (lk \<noteq> LPtable) (seq (lock LPtable) (unlock lk)))
             (set_proc i (\<lambda>q. q\<lparr>p_chan := Some c, p_state := SLEEPING\<rparr>)))"

definition sleep_leave :: "lid \<Rightarrow> ('z kst_scheme, unit) kop" where
  "sleep_leave lk =
     bnd myproc (\<lambda>p. case p of None \<Rightarrow> panic ''sleep''
      | Some i \<Rightarrow>
         seq (set_proc i (\<lambda>q. q\<lparr>p_chan := None\<rparr>))
             (whenc (lk \<noteq> LPtable) (seq (unlock LPtable) (lock lk))))"

definition sleep :: "chan \<Rightarrow> lid \<Rightarrow> ('z kst_scheme, unit) kop" where
  "sleep c lk = seq (sleep_enter c lk) (seq sched (sleep_leave lk))"

text \<open>
  What the rest of the machine does between the two halves of \<open>sleep\<close> when this process
  is the one the scheduler picks next: the scheduler, which owns \<open>ptable.lock\<close> across the
  switch, marks it running.
\<close>

definition resume :: "('z kst_scheme, unit) kop" where
  "resume = bnd myproc (\<lambda>p. case p of None \<Rightarrow> fault ''resume''
     | Some i \<Rightarrow> set_proc i (\<lambda>q. q\<lparr>p_state := RUNNING\<rparr>))"

section \<open>Sleep-locks\<close>

text \<open>
  \<open>struct sleeplock\<close> (\<open>sleeplock.h\<close>): the flag and the holder's pid, with the embedded
  spinlock named by \<open>lid\<close>. A lock sits inside a buffer or an inode, so the operations
  take the accessors of the place it is stored.
\<close>

record sleeplock =
  sl_locked :: bool
  sl_pid :: int

definition initsleeplock :: sleeplock where
  "initsleeplock = \<lparr>sl_locked = False, sl_pid = 0\<rparr>"

definition acquiresleep ::
  "lid \<Rightarrow> ('z kst_scheme \<Rightarrow> sleeplock) \<Rightarrow> (sleeplock \<Rightarrow> 'z kst_scheme \<Rightarrow> 'z kst_scheme)
     \<Rightarrow> ('z kst_scheme, unit) kop" where
  "acquiresleep l getl setl =
     seq (lock l)
    (bnd (getf getl) (\<lambda>lk.
       if sl_locked lk then sleep (ChSleeplock l) l
       else seq (upd (\<lambda>s. setl \<lparr>sl_locked = True, sl_pid = curpid s\<rparr> s)) (unlock l)))"

definition releasesleep ::
  "lid \<Rightarrow> (sleeplock \<Rightarrow> 'z kst_scheme \<Rightarrow> 'z kst_scheme) \<Rightarrow> ('z kst_scheme, unit) kop" where
  "releasesleep l setl =
     seq (lock l)
    (seq (upd (setl \<lparr>sl_locked = False, sl_pid = 0\<rparr>))
    (seq (wakeup (ChSleeplock l)) (unlock l)))"

definition holdingsleep ::
  "lid \<Rightarrow> ('z kst_scheme \<Rightarrow> sleeplock) \<Rightarrow> ('z kst_scheme, bool) kop" where
  "holdingsleep l getl =
     seq (lock l)
    (bnd (getf (\<lambda>s. sl_locked (getl s) \<and> sl_pid (getl s) = curpid s)) (\<lambda>r.
     seq (unlock l) (ret r)))"

section \<open>Frame lemmas\<close>

lemma curpid_held [simp]: "curpid (s\<lparr>held := h\<rparr>) = curpid s"
  by (simp add: curpid_def split: option.split)

lemma holdingsleep_exec [simp]:
  "l \<notin> set (held s) \<Longrightarrow>
   holdingsleep l g s =
     Ok (sl_locked (g (s\<lparr>held := l # held s\<rparr>)) \<and> sl_pid (g (s\<lparr>held := l # held s\<rparr>)) = curpid s) s"
  by (simp add: holdingsleep_def)

lemma wakeup_exec [simp]:
  "LPtable \<notin> set (held s) \<Longrightarrow> wakeup c s = Ok () (s\<lparr>ptable := map (wake_proc c) (ptable s)\<rparr>)"
  by (simp add: wakeup_def wakeup1_def)

end
