(* ===== verification/Ide.thy ===== *)
theory Ide
  imports Kernel
begin

text \<open>
  Disk buffers (\<open>buf.h\<close>) and the two disk drivers: the IDE driver (\<open>ide.c\<close>), with its
  queue of requests served by interrupts, and the in-memory disk (\<open>memide.c\<close>).

  The device side is a drive with 28-bit logical block addressing: \<open>disk\<close> is the content
  a read returns, \<open>dcmds\<close> the sequence of commands the driver has issued. A write changes
  \<open>disk\<close> when the driver sends it; when the data becomes durable is a question of the
  drive's write cache, which the theory of crashes answers from \<open>dcmds\<close>. A drive may
  report an error on a read (\<open>badsec\<close>).
\<close>

section \<open>State\<close>

record buf =
  b_valid :: bool
  b_dirty :: bool
  b_dev :: nat
  b_blockno :: nat
  b_lock :: sleeplock
  b_refcnt :: nat
  b_data :: "byte list"

datatype dcmd = DRead nat nat | DWrite nat nat "byte list" | DFlush

record bst = kst +
  bufs :: "buf list"
  mru :: "nat list"
  idequeue :: "nat list"
  havedisk1 :: bool
  disk :: "nat \<Rightarrow> nat \<Rightarrow> byte list"
  dcmds :: "dcmd list"
  badsec :: "nat \<Rightarrow> nat \<Rightarrow> bool"

definition bufi :: "'z bst_scheme \<Rightarrow> nat \<Rightarrow> buf" where
  "bufi s i = bufs s ! i"

definition set_buf :: "nat \<Rightarrow> (buf \<Rightarrow> buf) \<Rightarrow> ('z bst_scheme, unit) kop" where
  "set_buf i f = upd (\<lambda>s. s\<lparr>bufs := (bufs s)[i := f (bufs s ! i)]\<rparr>)"

definition buf_getl :: "nat \<Rightarrow> 'z bst_scheme \<Rightarrow> sleeplock" where
  "buf_getl i s = b_lock (bufs s ! i)"

definition buf_setl :: "nat \<Rightarrow> sleeplock \<Rightarrow> 'z bst_scheme \<Rightarrow> 'z bst_scheme" where
  "buf_setl i l s = s\<lparr>bufs := (bufs s)[i := (bufs s ! i)\<lparr>b_lock := l\<rparr>]\<rparr>"

section \<open>The request registers\<close>

text \<open>
  The bytes \<open>idestart\<close> writes to ports 0x1f2 to 0x1f6: the sector count, the sector number
  in three bytes, and the device byte with the drive bit and the top four bits.
\<close>

definition ide_regs :: "nat \<Rightarrow> nat \<Rightarrow> byte list" where
  "ide_regs dev blockno =
     (let sector_per_block = BSIZE div 512;
          sector = (of_nat (blockno * sector_per_block) :: u32)
      in [of_nat sector_per_block,
          ucast (sector AND 0xff),
          ucast (drop_bit 8 sector AND 0xff),
          ucast (drop_bit 16 sector AND 0xff),
          ucast ((0xe0 :: u32) OR push_bit 4 (of_nat dev AND 1) OR (drop_bit 24 sector AND 0x0f))])"

text \<open>The drive and sector a drive reads from those registers.\<close>

definition regs_drive :: "byte list \<Rightarrow> nat" where
  "regs_drive r = unat (drop_bit 4 (r ! 4) AND 1)"

definition regs_lba :: "byte list \<Rightarrow> nat" where
  "regs_lba r = unat ((ucast (r ! 1) :: u32) OR push_bit 8 (ucast (r ! 2)) OR push_bit 16 (ucast (r ! 3))
     OR push_bit 24 (ucast (r ! 4) AND 0x0f))"

section \<open>The IDE driver\<close>

text \<open>
  Start the request for buffer \<open>b\<close>, which as an index is never the null pointer. The
  busy-wait \<open>idewait\<close> only delays.
\<close>

definition idestart :: "nat \<Rightarrow> ('z bst_scheme, unit) kop" where
  "idestart b =
     bnd (getf (\<lambda>s. bufs s ! b)) (\<lambda>bf.
     seq (panic_if (b_blockno bf \<ge> FSSIZE) ''incorrect blockno'')
    (seq (panic_if (BSIZE div 512 > 7) ''idestart'')
    (let r = ide_regs (b_dev bf) (b_blockno bf); d = regs_drive r; n = regs_lba r in
     if b_dirty bf
     then upd (\<lambda>s. s\<lparr>disk := (disk s)(d := (disk s d)(n := b_data bf)),
                    dcmds := dcmds s @ [DWrite d n (b_data bf)]\<rparr>)
     else upd (\<lambda>s. s\<lparr>dcmds := dcmds s @ [DRead d n]\<rparr>))))"

text \<open>Interrupt handler: finish the request at the head of the queue and start the next.\<close>

definition ideintr :: "('z bst_scheme, unit) kop" where
  "ideintr =
     seq (lock LIde)
    (bnd (getf idequeue) (\<lambda>q.
     case q of [] \<Rightarrow> unlock LIde
     | b # rest \<Rightarrow>
        seq (upd (\<lambda>s. s\<lparr>idequeue := rest\<rparr>))
       (bnd (getf (\<lambda>s. bufs s ! b)) (\<lambda>bf.
        let r = ide_regs (b_dev bf) (b_blockno bf); d = regs_drive r; n = regs_lba r in
        bnd (getf (\<lambda>s. \<not> b_dirty bf \<and> \<not> badsec s d n)) (\<lambda>rd.
        seq (whenc rd (bnd (getf disk) (\<lambda>dk. set_buf b (\<lambda>x. x\<lparr>b_data := dk d n\<rparr>))))
       (seq (set_buf b (\<lambda>x. x\<lparr>b_valid := True, b_dirty := False\<rparr>))
       (seq (wakeup (ChBuf b))
       (seq (case rest of [] \<Rightarrow> ret () | c # _ \<Rightarrow> idestart c)
            (unlock LIde)))))))))"

text \<open>
  While the process sleeps in \<open>iderw\<close> the disk interrupts: handlers run until one of them
  makes the process runnable. \<open>k\<close> bounds the number of interrupts by the length of the
  queue, since every handler removes one request.
\<close>

primrec ide_interrupts :: "nat \<Rightarrow> ('z bst_scheme, unit) kop" where
  "ide_interrupts 0 = block ''disk''"
| "ide_interrupts (Suc k) =
     seq ideintr
    (bnd (getf (\<lambda>s. case cur s of None \<Rightarrow> False | Some p \<Rightarrow> p_state (ptable s ! p) = RUNNABLE)) (\<lambda>awake.
     if awake then ret () else ide_interrupts k))"

definition sleep_disk :: "nat \<Rightarrow> ('z bst_scheme, unit) kop" where
  "sleep_disk b =
     seq (sleep_enter (ChBuf b) LIde)
    (seq sched_checks
    (seq (unlock LPtable)
    (bnd (getf (\<lambda>s. length (idequeue s))) (\<lambda>k.
     seq (ide_interrupts k)
    (seq (lock LPtable)
    (seq resume
         (sleep_leave LIde)))))))"

primrec iderw_wait :: "nat \<Rightarrow> nat \<Rightarrow> ('z bst_scheme, unit) kop" where
  "iderw_wait 0 b = block ''iderw''"
| "iderw_wait (Suc k) b =
     bnd (getf (\<lambda>s. bufs s ! b)) (\<lambda>bf.
     if b_valid bf \<and> \<not> b_dirty bf then ret ()
     else seq (sleep_disk b) (iderw_wait k b))"

text \<open>Sync a buffer with the disk.\<close>

definition iderw :: "nat \<Rightarrow> ('z bst_scheme, unit) kop" where
  "iderw b =
     bnd (holdingsleep (LBuf b) (buf_getl b)) (\<lambda>h.
     seq (panic_if (\<not> h) ''iderw: buf not locked'')
    (bnd (getf (\<lambda>s. bufs s ! b)) (\<lambda>bf.
     seq (panic_if (b_valid bf \<and> \<not> b_dirty bf) ''iderw: nothing to do'')
    (bnd (getf havedisk1) (\<lambda>hd1.
     seq (panic_if (b_dev bf \<noteq> 0 \<and> \<not> hd1) ''iderw: ide disk 1 not present'')
    (seq (lock LIde)
    (seq (upd (\<lambda>s. s\<lparr>idequeue := idequeue s @ [b]\<rparr>))
    (bnd (getf idequeue) (\<lambda>q.
     seq (whenc (hd q = b) (idestart b))
    (seq (iderw_wait (Suc (length q)) b)
         (unlock LIde)))))))))))"

text \<open>The write barrier: the FLUSH CACHE command, issued under the driver's lock.\<close>

definition ideflush :: "('z bst_scheme, unit) kop" where
  "ideflush = seq (lock LIde) (seq (upd (\<lambda>s. s\<lparr>dcmds := dcmds s @ [DFlush]\<rparr>)) (unlock LIde))"

section \<open>The memory disk\<close>

text \<open>
  \<open>memide.c\<close>: the same interface on an image in memory of \<open>disksize\<close> blocks; a request
  completes before \<open>iderw\<close> returns. The image is drive 1 of \<open>disk\<close>.
\<close>

definition mem_iderw :: "nat \<Rightarrow> nat \<Rightarrow> ('z bst_scheme, unit) kop" where
  "mem_iderw disksize b =
     bnd (holdingsleep (LBuf b) (buf_getl b)) (\<lambda>h.
     seq (panic_if (\<not> h) ''iderw: buf not locked'')
    (bnd (getf (\<lambda>s. bufs s ! b)) (\<lambda>bf.
     seq (panic_if (b_valid bf \<and> \<not> b_dirty bf) ''iderw: nothing to do'')
    (seq (panic_if (b_dev bf \<noteq> 1) ''iderw: request not for disk 1'')
    (seq (panic_if (b_blockno bf \<ge> disksize) ''iderw: block out of range'')
    (seq (if b_dirty bf
          then seq (set_buf b (\<lambda>x. x\<lparr>b_dirty := False\<rparr>))
                   (upd (\<lambda>s. s\<lparr>disk := (disk s)(1 := (disk s 1)(b_blockno bf := b_data bf))\<rparr>))
          else bnd (getf disk) (\<lambda>dk. set_buf b (\<lambda>x. x\<lparr>b_data := dk 1 (b_blockno bf)\<rparr>)))
         (set_buf b (\<lambda>x. x\<lparr>b_valid := True\<rparr>))))))))"

section \<open>Addressing\<close>

text \<open>The registers name the drive and the sector the caller asked for.\<close>

lemma reg_masks:
  "(0xff :: u32) = mask 8" "(0x0f :: u32) = mask 4" "(0xe0 :: u32) = push_bit 5 (mask 3)"
  by (simp_all add: mask_eq_exp_minus_1 push_bit_eq_mult)

lemma regs_drive_ide_regs: "regs_drive (ide_regs dev blockno) = dev mod 2"
proof -
  have "bit (ide_regs dev blockno ! 4) 4 = odd dev"
    unfolding ide_regs_def Let_def reg_masks
    by (simp add: bit_simps and_one_eq flip: of_nat_mod)
  then have "drop_bit 4 (ide_regs dev blockno ! 4) AND 1 = of_bool (odd dev)"
    by (simp add: and_one_eq bit_iff_odd_drop_bit mod_2_eq_odd)
  then show ?thesis by (simp add: regs_drive_def mod_2_eq_odd)
qed

lemma regs_lba_ide_regs:
  assumes "blockno < 2 ^ 28"
  shows "regs_lba (ide_regs dev blockno) = blockno"
proof -
  let ?r = "ide_regs dev blockno"
  let ?w = "(ucast (?r ! 1) :: u32) OR push_bit 8 (ucast (?r ! 2)) OR push_bit 16 (ucast (?r ! 3))
     OR push_bit 24 (ucast (?r ! 4) AND 0x0f)"
  have high: "\<not> bit blockno n" if "28 \<le> n" for n
  proof -
    have "blockno < 2 ^ n" using assms that by (meson less_le_trans power_increasing one_le_numeral)
    then show ?thesis by (simp add: bit_iff_odd)
  qed
  have "?w = of_nat blockno"
  proof (rule bit_word_eqI)
    fix n assume "n < LENGTH(32)"
    then consider "n < 8" | "8 \<le> n" "n < 16" | "16 \<le> n" "n < 24" | "24 \<le> n" "n < 28" | "28 \<le> n" "n < 32"
      by fastforce
    then show "bit ?w n = bit (of_nat blockno :: u32) n"
      unfolding ide_regs_def Let_def reg_masks
      by cases (simp_all add: bit_simps high less_diff_conv2 le_diff_conv2)
  qed
  then show ?thesis using assms by (simp add: regs_lba_def unat_of_nat)
qed

section \<open>A request from an idle driver\<close>

lemma curpid_bst [simp]:
  "curpid (s\<lparr>bufs := a\<rparr>) = curpid s" "curpid (s\<lparr>mru := b\<rparr>) = curpid s"
  "curpid (s\<lparr>idequeue := c\<rparr>) = curpid s" "curpid (s\<lparr>disk := d\<rparr>) = curpid s"
  "curpid (s\<lparr>dcmds := e\<rparr>) = curpid s"
  by (simp_all add: curpid_def split: option.split)

lemma buf_getl_held [simp]: "buf_getl i (s\<lparr>held := h\<rparr>) = buf_getl i s"
  by (simp add: buf_getl_def)

text \<open>
  The process table after a sleep that ended with the wakeup on channel \<open>c\<close>: everybody
  sleeping on the channel is runnable, and process \<open>p\<close> runs again.
\<close>

definition slept :: "chan \<Rightarrow> nat \<Rightarrow> proc list \<Rightarrow> proc list" where
  "slept c p pt = (map (wake_proc c) pt)[p := (pt ! p)\<lparr>p_state := RUNNING, p_chan := None\<rparr>]"

lemma length_slept [simp]: "length (slept c p pt) = length pt"
  by (simp add: slept_def)

lemma slept_exec:
  "p < length pt \<Longrightarrow>
   (map (wake_proc c) (pt[p := (pt ! p)\<lparr>p_chan := Some c, p_state := SLEEPING\<rparr>]))
     [p := (pt ! p)\<lparr>p_state := RUNNING, p_chan := None\<rparr>] = slept c p pt"
  by (simp add: slept_def map_update)

text \<open>
  Reading or writing one buffer when no other request is pending: the request goes to the
  addressed block, the buffer ends valid and clean, and the caller runs again.
\<close>

definition synced :: "nat \<Rightarrow> 'z bst_scheme \<Rightarrow> 'z bst_scheme" where
  "synced b s =
     (let bf = bufs s ! b; d = b_dev bf mod 2; n = b_blockno bf in
      if b_dirty bf
      then s\<lparr>bufs := (bufs s)[b := bf\<lparr>b_valid := True, b_dirty := False\<rparr>],
             disk := (disk s)(d := (disk s d)(n := b_data bf)),
             dcmds := dcmds s @ [DWrite d n (b_data bf)]\<rparr>
      else s\<lparr>bufs := (bufs s)[b := bf\<lparr>b_data := (if badsec s d n then b_data bf else disk s d n),
                          b_valid := True, b_dirty := False\<rparr>],
             dcmds := dcmds s @ [DRead d n]\<rparr>)"

definition finished :: "nat \<Rightarrow> 'z bst_scheme \<Rightarrow> buf" where
  "finished b s =
     (let bf = bufs s ! b; d = b_dev bf mod 2; n = b_blockno bf in
      bf\<lparr>b_data := (if b_dirty bf \<or> badsec s d n then b_data bf else disk s d n),
         b_valid := True, b_dirty := False\<rparr>)"

lemma finished_kst [simp]:
  "finished b (s\<lparr>held := h\<rparr>) = finished b s" "finished b (s\<lparr>ptable := pt\<rparr>) = finished b s"
  "finished b (s\<lparr>idequeue := q\<rparr>) = finished b s" "finished b (s\<lparr>dcmds := c\<rparr>) = finished b s"
  by (simp_all add: finished_def Let_def)

lemma finished_clean [simp]: "b_valid (finished b s)" "\<not> b_dirty (finished b s)"
  by (simp_all add: finished_def Let_def)

lemma ideintr_last:
  assumes "LIde \<notin> set (held s)" "LPtable \<notin> set (held s)" "idequeue s = [b]" "b < length (bufs s)"
    and "b_blockno (bufs s ! b) < FSSIZE"
  shows "ideintr s = Ok () (s\<lparr>idequeue := [], bufs := (bufs s)[b := finished b s],
           ptable := map (wake_proc (ChBuf b)) (ptable s)\<rparr>)"
  using assms
  by (auto simp: ideintr_def set_buf_def regs_drive_ide_regs regs_lba_ide_regs Let_def finished_def
      intro!: bst.equality)

lemma wake_self [simp]:
  "p < length pt \<Longrightarrow> wake_proc c ((pt ! p)\<lparr>p_chan := Some c, p_state := SLEEPING\<rparr>)
     = (pt ! p)\<lparr>p_chan := Some c, p_state := RUNNABLE\<rparr>"
  by (simp add: wake_proc_def)

lemma sleep_disk_exec:
  assumes "held s = [LIde]" "idequeue s = [b]" "b < length (bufs s)"
    and "b_blockno (bufs s ! b) < FSSIZE"
    and "cur s = Some p" "p < length (ptable s)"
  shows "sleep_disk b s = Ok () (s\<lparr>idequeue := [], bufs := (bufs s)[b := finished b s],
           ptable := slept (ChBuf b) p (ptable s)\<rparr>)"
  using assms
  by (simp add: sleep_disk_def sleep_enter_def sched_checks_def myproc_def set_proc_def
      resume_def sleep_leave_def ideintr_last map_update slept_def)

lemma iderw_exec:
  assumes "held s = []" "idequeue s = []" "b_dev (bufs s ! b) = 0 \<or> havedisk1 s"
    and "cur s = Some p" "p < length (ptable s)"
    and "b < length (bufs s)" "b_blockno (bufs s ! b) < FSSIZE"
    and "sl_locked (b_lock (bufs s ! b))" "sl_pid (b_lock (bufs s ! b)) = curpid s"
    and "\<not> (b_valid (bufs s ! b) \<and> \<not> b_dirty (bufs s ! b))"
  shows "iderw b s = Ok () ((synced b s)\<lparr>ptable := slept (ChBuf b) p (ptable s)\<rparr>)"
proof (cases "b_dirty (bufs s ! b)")
  case True
  show ?thesis
    using assms True
    by (simp add: iderw_def buf_getl_def idestart_def regs_drive_ide_regs regs_lba_ide_regs Let_def
        sleep_disk_exec) (rule bst.equality; simp add: synced_def finished_def Let_def)
next
  case False
  then have "\<not> b_valid (bufs s ! b)" using assms by simp
  then show ?thesis
    using assms False
    by (simp add: iderw_def buf_getl_def idestart_def regs_drive_ide_regs regs_lba_ide_regs Let_def
        sleep_disk_exec) (rule bst.equality; simp add: synced_def finished_def Let_def)
qed

section \<open>Properties\<close>

text \<open>
  C15: The bytes \<open>idestart\<close> writes to the controller's ports address the block and the drive
  the buffer names, for every block number that fits the 28 bits of the sector registers.
\<close>
theorem ide_addressing:
  assumes "blockno < 2 ^ 28"
  shows "regs_lba (ide_regs dev blockno) = blockno \<and> regs_drive (ide_regs dev blockno) = dev mod 2"
  using regs_lba_ide_regs [OF assms] regs_drive_ide_regs by simp

theorem ide_addressing_witness:
  "regs_lba (ide_regs 1 999) = 999 \<and> regs_drive (ide_regs 1 999) = 1 mod 2"
  by (rule ide_addressing) simp

end
