(* ===== verification/Bio.thy ===== *)
theory Bio
  imports Ide
begin

text \<open>
  The buffer cache (\<open>bio.c\<close>): a fixed pool of buffers on a list in most-recently-used
  order. \<open>mru\<close> is that list, from \<open>head.next\<close> to \<open>head.prev\<close>.

  The lemmas show that a block is cached at most once, that an unlocked clean buffer
  holds what is on the disk, that a dirty buffer is never recycled, and that
  \<open>bread\<close>, \<open>bwrite\<close> and \<open>brelse\<close> return whenever a recyclable buffer is left.
\<close>

section \<open>Operations\<close>

text \<open>\<open>binit\<close> pushes the buffers one by one at the head of the list.\<close>

definition binit :: "('z bst_scheme, unit) kop" where
  "binit =
     seq (upd (\<lambda>s. s\<lparr>mru := []\<rparr>))
         (for_each [0..<NBUF] (\<lambda>b.
            seq (set_buf b (\<lambda>x. x\<lparr>b_lock := initsleeplock\<rparr>))
                (upd (\<lambda>s. s\<lparr>mru := b # mru s\<rparr>))))"

definition bget :: "nat \<Rightarrow> nat \<Rightarrow> ('z bst_scheme, nat) kop" where
  "bget dev blockno =
     seq (lock LBcache)
    (bnd (getf (\<lambda>s. List.find (\<lambda>b. b_dev (bufs s ! b) = dev \<and> b_blockno (bufs s ! b) = blockno) (mru s)))
     (\<lambda>cached. case cached of
        Some b \<Rightarrow>
          seq (set_buf b (\<lambda>x. x\<lparr>b_refcnt := b_refcnt x + 1\<rparr>))
         (seq (unlock LBcache)
         (seq (acquiresleep (LBuf b) (buf_getl b) (buf_setl b))
              (ret b)))
      | None \<Rightarrow>
          bnd (getf (\<lambda>s. List.find (\<lambda>b. b_refcnt (bufs s ! b) = 0 \<and> \<not> b_dirty (bufs s ! b)) (rev (mru s))))
          (\<lambda>unused. case unused of
             Some b \<Rightarrow>
               seq (set_buf b (\<lambda>x. x\<lparr>b_dev := dev, b_blockno := blockno,
                      b_valid := False, b_dirty := False, b_refcnt := 1\<rparr>))
              (seq (unlock LBcache)
              (seq (acquiresleep (LBuf b) (buf_getl b) (buf_setl b))
                   (ret b)))
           | None \<Rightarrow> panic ''bget: no buffers'')))"

definition bread :: "nat \<Rightarrow> nat \<Rightarrow> ('z bst_scheme, nat) kop" where
  "bread dev blockno =
     bnd (bget dev blockno) (\<lambda>b.
     bnd (getf (\<lambda>s. bufs s ! b)) (\<lambda>bf.
     seq (whenc (\<not> b_valid bf) (iderw b))
         (ret b)))"

definition bwrite :: "nat \<Rightarrow> ('z bst_scheme, unit) kop" where
  "bwrite b =
     bnd (holdingsleep (LBuf b) (buf_getl b)) (\<lambda>h.
     seq (panic_if (\<not> h) ''bwrite'')
    (seq (set_buf b (\<lambda>x. x\<lparr>b_dirty := True\<rparr>))
         (iderw b)))"

text \<open>
  \<open>brelse\<close>: \<open>refcnt\<close> is a \<open>uint\<close>, so decrementing it at zero would wrap around.
\<close>

definition udec :: "nat \<Rightarrow> nat" where
  "udec n = (if n = 0 then 2 ^ 32 - 1 else n - 1)"

definition brelse :: "nat \<Rightarrow> ('z bst_scheme, unit) kop" where
  "brelse b =
     bnd (holdingsleep (LBuf b) (buf_getl b)) (\<lambda>h.
     seq (panic_if (\<not> h) ''brelse'')
    (seq (releasesleep (LBuf b) (buf_setl b))
    (seq (lock LBcache)
    (seq (set_buf b (\<lambda>x. x\<lparr>b_refcnt := udec (b_refcnt x)\<rparr>))
    (bnd (getf (\<lambda>s. b_refcnt (bufs s ! b))) (\<lambda>n.
     seq (whenc (n = 0) (upd (\<lambda>s. s\<lparr>mru := b # remove1 b (mru s)\<rparr>)))
         (unlock LBcache)))))))"

section \<open>Invariant\<close>

text \<open>
  The processor runs a process, holds no spinlock, no disk request is pending and the
  root disk has no bad sector: the state between two statements of a system call.
\<close>

definition quiet :: "'z bst_scheme \<Rightarrow> bool" where
  "quiet s \<longleftrightarrow> held s = [] \<and> idequeue s = [] \<and> havedisk1 s \<and> (\<forall>n. \<not> badsec s ROOTDEV n) \<and>
     (case cur s of None \<Rightarrow> False
      | Some p \<Rightarrow> p < length (ptable s) \<and> p_state (ptable s ! p) = RUNNING)"

text \<open>
  Structure of the cache: sizes, the list is a permutation of the buffers, every buffer
  with an identity is valid, and no two buffers cache the same block.
\<close>

definition buf_ok :: "buf \<Rightarrow> bool" where
  "buf_ok bf \<longleftrightarrow> length (b_data bf) = BSIZE \<and> (b_valid bf \<longleftrightarrow> b_dev bf = ROOTDEV) \<and>
     (b_dirty bf \<longrightarrow> b_valid bf) \<and> (b_valid bf \<longrightarrow> b_blockno bf < FSSIZE)"

definition cache_ok :: "buf list \<Rightarrow> nat list \<Rightarrow> (nat \<Rightarrow> nat \<Rightarrow> byte list) \<Rightarrow> bool" where
  "cache_ok bs l dk \<longleftrightarrow> length bs = NBUF \<and> distinct l \<and> set l = {..<NBUF} \<and>
     (\<forall>d n. length (dk d n) = BSIZE) \<and>
     (\<forall>i<NBUF. buf_ok (bs ! i)) \<and>
     (\<forall>i<NBUF. \<forall>j<NBUF. b_valid (bs ! i) \<longrightarrow> b_valid (bs ! j) \<longrightarrow>
        b_blockno (bs ! i) = b_blockno (bs ! j) \<longrightarrow> i = j)"

definition bwf :: "'z bst_scheme \<Rightarrow> bool" where
  "bwf s \<longleftrightarrow> cache_ok (bufs s) (mru s) (disk s)"

text \<open>
  The running process holds exactly the buffers in the domain of \<open>H\<close>, which names the
  block of each; no other buffer is in use. A clean buffer that is not held has the
  content of its disk block.
\<close>

definition slot_ok :: "int \<Rightarrow> (nat \<Rightarrow> byte list) \<Rightarrow> nat option \<Rightarrow> buf \<Rightarrow> bool" where
  "slot_ok pid md h bf = (case h of
      Some n \<Rightarrow> sl_locked (b_lock bf) \<and> sl_pid (b_lock bf) = pid \<and> b_refcnt bf = 1 \<and>
        b_valid bf \<and> b_blockno bf = n
    | None \<Rightarrow> \<not> sl_locked (b_lock bf) \<and> b_refcnt bf = 0 \<and>
        (b_valid bf \<longrightarrow> \<not> b_dirty bf \<longrightarrow> b_data bf = md (b_blockno bf)))"

definition bholds :: "(nat \<rightharpoonup> nat) \<Rightarrow> 'z bst_scheme \<Rightarrow> bool" where
  "bholds H s \<longleftrightarrow> dom H \<subseteq> {..<NBUF} \<and>
     (\<forall>i<NBUF. slot_ok (curpid s) (disk s ROOTDEV) (H i) (bufs s ! i))"

definition binv :: "(nat \<rightharpoonup> nat) \<Rightarrow> 'z bst_scheme \<Rightarrow> bool" where
  "binv H s \<longleftrightarrow> quiet s \<and> bwf s \<and> bholds H s"

section \<open>Abstract state\<close>

text \<open>
  What the layers above rely on: the content a process sees in each block (the cached
  copy if there is one, else the disk), the content of the root disk, the blocks pinned
  in the cache by their dirty flag, and the writes and barriers sent to the disk.
\<close>

record bspec =
  view :: "nat \<Rightarrow> byte list"
  media :: "nat \<Rightarrow> byte list"
  pinned :: "nat set"
  wtrace :: "dcmd list"

definition cached_in :: "'z bst_scheme \<Rightarrow> nat \<Rightarrow> nat option" where
  "cached_in s n =
     List.find (\<lambda>i. b_valid (bufs s ! i) \<and> b_blockno (bufs s ! i) = n) [0..<length (bufs s)]"

definition bview :: "'z bst_scheme \<Rightarrow> nat \<Rightarrow> byte list" where
  "bview s n = (case cached_in s n of Some i \<Rightarrow> b_data (bufs s ! i) | None \<Rightarrow> disk s ROOTDEV n)"

definition dirty_blocks :: "'z bst_scheme \<Rightarrow> nat set" where
  "dirty_blocks s = {b_blockno bf | bf. bf \<in> set (bufs s) \<and> b_dirty bf}"

definition is_write :: "dcmd \<Rightarrow> bool" where
  "is_write c = (case c of DRead _ _ \<Rightarrow> False | _ \<Rightarrow> True)"

definition babs :: "'z bst_scheme \<Rightarrow> bspec" where
  "babs s = \<lparr>view = bview s, media = disk s ROOTDEV, pinned = dirty_blocks s,
             wtrace = filter is_write (dcmds s)\<rparr>"

text \<open>
  What the operations leave alone: everything above the cache, and the process table
  apart from the scheduling state of processes.
\<close>

definition pcore :: "proc \<Rightarrow> proc" where
  "pcore p = p\<lparr>p_state := UNUSED, p_chan := None\<rparr>"

definition bframe :: "'z bst_scheme \<Rightarrow> 'z bst_scheme \<Rightarrow> bool" where
  "bframe s t \<longleftrightarrow> bst.more t = bst.more s \<and> cur t = cur s \<and> nextpid t = nextpid s \<and>
     initproc t = initproc s \<and> map pcore (ptable t) = map pcore (ptable s)"

lemma bframe_refl [simp]: "bframe s s"
  by (simp add: bframe_def)

lemma bframe_trans [trans]: "bframe s t \<Longrightarrow> bframe t u \<Longrightarrow> bframe s u"
  by (simp add: bframe_def)

section \<open>Consequences of the invariant\<close>

lemma bwf_sizes [simp]:
  assumes "bwf s"
  shows "length (bufs s) = NBUF" "distinct (mru s)" "set (mru s) = {..<NBUF}"
    "length (disk s d n) = BSIZE"
  using assms unfolding bwf_def cache_ok_def by blast+

lemma bwf_buf_ok: "bwf s \<Longrightarrow> i < NBUF \<Longrightarrow> buf_ok (bufs s ! i)"
  unfolding bwf_def cache_ok_def by blast

lemma bwf_buf:
  assumes "bwf s" "i < NBUF"
  shows "length (b_data (bufs s ! i)) = BSIZE" "b_valid (bufs s ! i) \<longleftrightarrow> b_dev (bufs s ! i) = ROOTDEV"
    "b_dirty (bufs s ! i) \<Longrightarrow> b_valid (bufs s ! i)"
    "b_valid (bufs s ! i) \<Longrightarrow> b_blockno (bufs s ! i) < FSSIZE"
  using bwf_buf_ok [OF assms] unfolding buf_ok_def by blast+

lemma bwf_unique:
  assumes "bwf s" "i < NBUF" "j < NBUF" "b_valid (bufs s ! i)" "b_valid (bufs s ! j)"
    and "b_blockno (bufs s ! i) = b_blockno (bufs s ! j)"
  shows "i = j"
  using assms unfolding bwf_def cache_ok_def by blast

lemma bholds_slot:
  "bholds H s \<Longrightarrow> i < NBUF \<Longrightarrow> slot_ok (curpid s) (disk s ROOTDEV) (H i) (bufs s ! i)"
  by (simp add: bholds_def)

lemma bholds_dom: "bholds H s \<Longrightarrow> H i = Some n \<Longrightarrow> i < NBUF"
  by (auto simp: bholds_def)

lemma bholdsD:
  assumes "bholds H s" "H i = Some n"
  shows "i < NBUF" "sl_locked (b_lock (bufs s ! i))" "sl_pid (b_lock (bufs s ! i)) = curpid s"
    "b_refcnt (bufs s ! i) = 1" "b_valid (bufs s ! i)" "b_blockno (bufs s ! i) = n"
  using bholds_dom [OF assms] bholds_slot [OF assms(1) bholds_dom [OF assms]] assms(2)
  by (simp_all add: slot_ok_def)

lemma bfreeD:
  assumes "bholds H s" "H i = None" "i < NBUF"
  shows "\<not> sl_locked (b_lock (bufs s ! i))" "b_refcnt (bufs s ! i) = 0"
    "b_valid (bufs s ! i) \<Longrightarrow> \<not> b_dirty (bufs s ! i) \<Longrightarrow>
       b_data (bufs s ! i) = disk s ROOTDEV (b_blockno (bufs s ! i))"
  using bholds_slot [OF assms(1,3)] assms(2) by (simp_all add: slot_ok_def)

text \<open>Changing one buffer.\<close>

lemma bwf_update:
  assumes "bwf s" "b < NBUF" "buf_ok x"
    and new: "\<And>j. j < NBUF \<Longrightarrow> j \<noteq> b \<Longrightarrow> b_valid x \<Longrightarrow> b_valid (bufs s ! j) \<Longrightarrow>
           b_blockno (bufs s ! j) \<noteq> b_blockno x"
  shows "bwf (s\<lparr>bufs := (bufs s)[b := x]\<rparr>)"
proof -
  let ?t = "s\<lparr>bufs := (bufs s)[b := x]\<rparr>"
  have nth: "bufs ?t ! i = (if i = b then x else bufs s ! i)" if "i < NBUF" for i
    using that assms(1,2) by simp
  have one: "buf_ok (bufs ?t ! i)" if "i < NBUF" for i
    unfolding nth [OF that] using assms(3) bwf_buf_ok [OF assms(1) that] by simp
  have two: "i = j" if "i < NBUF" "j < NBUF" "b_valid (bufs ?t ! i)" "b_valid (bufs ?t ! j)"
      "b_blockno (bufs ?t ! i) = b_blockno (bufs ?t ! j)" for i j
    using that(3-5) bwf_unique [OF assms(1) that(1,2)] new [OF that(1)] new [OF that(2)]
    unfolding nth [OF that(1)] nth [OF that(2)]
    by (cases "i = b"; cases "j = b") auto
  have sizes: "length (bufs ?t) = NBUF \<and> distinct (mru ?t) \<and> set (mru ?t) = {..<NBUF} \<and>
      (\<forall>d n. length (disk ?t d n) = BSIZE)" using assms(1) by simp
  show ?thesis
    unfolding bwf_def cache_ok_def using sizes one two by blast
qed

lemma bwf_media:
  assumes "bwf s" "length d = BSIZE"
  shows "bwf (s\<lparr>disk := (disk s)(dv := (disk s dv)(n := d))\<rparr>)"
proof -
  have "\<forall>e m. length (((disk s)(dv := (disk s dv)(n := d))) e m) = BSIZE" using assms by simp
  then show ?thesis using assms(1) unfolding bwf_def cache_ok_def by simp
qed

lemma bwf_mru:
  assumes "bwf s" "distinct l" "set l = {..<NBUF}"
  shows "bwf (s\<lparr>mru := l\<rparr>)"
  using assms unfolding bwf_def cache_ok_def by simp

section \<open>Lemmas on the abstract state\<close>

lemma bview_cached:
  assumes "bwf s" "i < NBUF" "b_valid (bufs s ! i)"
  shows "bview s (b_blockno (bufs s ! i)) = b_data (bufs s ! i)"
proof -
  have "b_blockno (bufs s ! j) \<noteq> b_blockno (bufs s ! i)" if "j < i" "b_valid (bufs s ! j)" for j
    using bwf_unique [OF assms(1) _ assms(2) that(2) assms(3)] assms(2) that(1) by force
  then have "cached_in s (b_blockno (bufs s ! i)) = Some i"
    using assms unfolding cached_in_def find_Some_iff
    by (intro exI [of _ i]) simp
  then show ?thesis by (simp add: bview_def)
qed

lemma bview_uncached:
  assumes "\<And>i. i < length (bufs s) \<Longrightarrow> b_valid (bufs s ! i) \<Longrightarrow> b_blockno (bufs s ! i) \<noteq> n"
  shows "bview s n = disk s ROOTDEV n"
proof -
  have "cached_in s n = None" unfolding cached_in_def find_None_iff using assms by auto
  then show ?thesis by (simp add: bview_def)
qed

lemma dirty_blocks_nth:
  "dirty_blocks s = {b_blockno (bufs s ! i) | i. i < length (bufs s) \<and> b_dirty (bufs s ! i)}"
  unfolding dirty_blocks_def in_set_conv_nth by blast

text \<open>
  Giving buffer \<open>b\<close> the content \<open>x\<close>. If it cached another block before, that block's
  content was on the disk.
\<close>

lemma bview_update:
  fixes s :: "'z bst_scheme"
  assumes wf: "bwf s" and b: "b < NBUF" and wf': "bwf (s\<lparr>bufs := (bufs s)[b := x]\<rparr>)" and x: "b_valid x"
    and old: "b_valid (bufs s ! b) \<Longrightarrow> b_blockno (bufs s ! b) \<noteq> b_blockno x \<Longrightarrow>
        b_data (bufs s ! b) = disk s ROOTDEV (b_blockno (bufs s ! b))"
  shows "bview (s\<lparr>bufs := (bufs s)[b := x]\<rparr>) = (bview s)(b_blockno x := b_data x)"
proof
  let ?t = "s\<lparr>bufs := (bufs s)[b := x]\<rparr>"
  fix m
  have nth: "bufs ?t ! i = (if i = b then x else bufs s ! i)" if "i < NBUF" for i
    using that wf b by simp
  show "bview ?t m = ((bview s)(b_blockno x := b_data x)) m"
  proof (cases "m = b_blockno x")
    case True
    then show ?thesis using bview_cached [OF wf' b] x nth [OF b] by simp
  next
    case ne: False
    show ?thesis
    proof (cases "\<exists>j<NBUF. j \<noteq> b \<and> b_valid (bufs s ! j) \<and> b_blockno (bufs s ! j) = m")
      case True
      then obtain j where "j < NBUF" "j \<noteq> b" "b_valid (bufs s ! j)" "b_blockno (bufs s ! j) = m" by blast
      then show ?thesis using bview_cached [OF wf, of j] bview_cached [OF wf', of j] nth [of j] ne by simp
    next
      case False
      then have "b_blockno (bufs ?t ! i) \<noteq> m" if "i < NBUF" "b_valid (bufs ?t ! i)" for i
        using that ne nth [OF that(1)] by (cases "i = b") auto
      then have t: "bview ?t m = disk s ROOTDEV m"
        using wf by (subst bview_uncached) simp_all
      have "bview s m = disk s ROOTDEV m"
      proof (cases "b_valid (bufs s ! b) \<and> b_blockno (bufs s ! b) = m")
        case True
        then show ?thesis using bview_cached [OF wf b] old ne by simp
      next
        case F: False
        then show ?thesis using False wf by (subst bview_uncached) force+
      qed
      then show ?thesis using t ne by simp
    qed
  qed
qed

lemma dirty_update:
  fixes s :: "'z bst_scheme"
  assumes wf: "bwf s" and b: "b < NBUF" and wf': "bwf (s\<lparr>bufs := (bufs s)[b := x]\<rparr>)" and x: "b_valid x"
    and old: "b_dirty (bufs s ! b) \<Longrightarrow> b_blockno (bufs s ! b) = b_blockno x"
  shows "dirty_blocks (s\<lparr>bufs := (bufs s)[b := x]\<rparr>) =
     (if b_dirty x then insert (b_blockno x) (dirty_blocks s) else dirty_blocks s - {b_blockno x})"
proof -
  let ?t = "s\<lparr>bufs := (bufs s)[b := x]\<rparr>"
  have nth: "bufs ?t ! i = (if i = b then x else bufs s ! i)" if "i < NBUF" for i
    using that wf b by simp
  have other: "b_blockno (bufs s ! i) \<noteq> b_blockno x" if "i < NBUF" "i \<noteq> b" "b_dirty (bufs s ! i)" for i
    using bwf_unique [OF wf' that(1) b] nth [OF that(1)] nth [OF b] that bwf_buf(3) [OF wf that(1)] x by auto
  have "n \<in> dirty_blocks ?t \<longleftrightarrow> (n = b_blockno x \<and> b_dirty x) \<or>
      (\<exists>i<NBUF. i \<noteq> b \<and> b_dirty (bufs s ! i) \<and> b_blockno (bufs s ! i) = n)" for n
  proof -
    have "n \<in> dirty_blocks ?t \<longleftrightarrow> (\<exists>i<NBUF. b_dirty (bufs ?t ! i) \<and> b_blockno (bufs ?t ! i) = n)"
      unfolding dirty_blocks_nth using wf by auto
    then show ?thesis using nth b by metis
  qed
  moreover have "n \<in> dirty_blocks s \<longleftrightarrow> (n = b_blockno (bufs s ! b) \<and> b_dirty (bufs s ! b)) \<or>
      (\<exists>i<NBUF. i \<noteq> b \<and> b_dirty (bufs s ! i) \<and> b_blockno (bufs s ! i) = n)" for n
    unfolding dirty_blocks_nth using b wf by auto
  ultimately show ?thesis using other old by (auto split: if_splits)
qed

section \<open>Frames of the invariant\<close>

lemma bwf_frame [simp]:
  "bwf (s\<lparr>held := h\<rparr>) = bwf s" "bwf (s\<lparr>ptable := pt\<rparr>) = bwf s" "bwf (s\<lparr>dcmds := c\<rparr>) = bwf s"
  by (simp_all add: bwf_def)

lemma bview_frame [simp]:
  "bview (s\<lparr>held := h\<rparr>) = bview s" "bview (s\<lparr>ptable := pt\<rparr>) = bview s" "bview (s\<lparr>dcmds := c\<rparr>) = bview s"
  "bview (s\<lparr>mru := l\<rparr>) = bview s"
  by (simp_all add: fun_eq_iff bview_def cached_in_def split: option.split)

lemma dirty_frame [simp]:
  "dirty_blocks (s\<lparr>held := h\<rparr>) = dirty_blocks s" "dirty_blocks (s\<lparr>ptable := pt\<rparr>) = dirty_blocks s"
  "dirty_blocks (s\<lparr>dcmds := c\<rparr>) = dirty_blocks s" "dirty_blocks (s\<lparr>mru := l\<rparr>) = dirty_blocks s"
  "dirty_blocks (s\<lparr>disk := d\<rparr>) = dirty_blocks s"
  by (simp_all add: dirty_blocks_def)

lemma quiet_frame [simp]:
  "quiet (s\<lparr>bufs := bs\<rparr>) = quiet s" "quiet (s\<lparr>mru := l\<rparr>) = quiet s" "quiet (s\<lparr>disk := d\<rparr>) = quiet s"
  "quiet (s\<lparr>dcmds := c\<rparr>) = quiet s"
  by (simp_all add: quiet_def split: option.split)

lemma bholds_frame [simp]:
  "bholds H (s\<lparr>mru := l\<rparr>) = bholds H s" "bholds H (s\<lparr>dcmds := c\<rparr>) = bholds H s"
  by (simp_all add: bholds_def)

lemma pcore_wake [simp]: "pcore (wake_proc c p) = pcore p"
  by (simp add: pcore_def wake_proc_def)

lemma map_pcore_wake [simp]: "map pcore (map (wake_proc c) pt) = map pcore pt"
  by simp

lemma map_pcore_slept [simp]: "map pcore (slept c p pt) = map pcore pt"
proof (rule nth_equalityI)
  fix i assume "i < length (map pcore (slept c p pt))"
  then show "map pcore (slept c p pt) ! i = map pcore pt ! i"
    by (cases "i = p") (simp_all add: slept_def pcore_def wake_proc_def)
qed simp

lemma pcore_fields [simp]:
  "p_pid (pcore p) = p_pid p" "p_ofile (pcore p) = p_ofile p" "p_cwd (pcore p) = p_cwd p"
  "p_killed (pcore p) = p_killed p" "p_sz (pcore p) = p_sz p" "p_parent (pcore p) = p_parent p"
  by (simp_all add: pcore_def)

lemma map_pcore_nth:
  assumes "map pcore pt = map pcore pt'" "p < length pt'"
  shows "pcore (pt ! p) = pcore (pt' ! p)"
proof -
  have "length pt = length pt'" using assms(1) map_eq_imp_length_eq by blast
  then show ?thesis using assms by (metis nth_map)
qed

lemma quietE:
  assumes "quiet s"
  obtains p where "cur s = Some p" "p < length (ptable s)" "p_state (ptable s ! p) = RUNNING"
    "held s = []" "idequeue s = []" "havedisk1 s" "\<And>n. \<not> badsec s ROOTDEV n"
  using assms by (auto simp: quiet_def split: option.splits)

lemma curpid_pcore:
  assumes "quiet s" "map pcore pt = map pcore (ptable s)"
  shows "curpid (s\<lparr>ptable := pt\<rparr>) = curpid s"
proof -
  obtain p where p: "cur s = Some p" "p < length (ptable s)" by (rule quietE [OF assms(1)])
  have "p_pid (pt ! p) = p_pid (ptable s ! p)"
    using map_pcore_nth [OF assms(2) p(2)] by (metis pcore_fields(1))
  then show ?thesis using p by (simp add: curpid_def)
qed

lemma quiet_wake [simp]:
  "quiet s \<Longrightarrow> ptable s = pt \<Longrightarrow> quiet (s\<lparr>ptable := map (wake_proc c) pt\<rparr>)"
  by (auto simp: quiet_def wake_proc_def split: option.splits)

lemma quiet_slept [simp]:
  "quiet s \<Longrightarrow> cur s = Some p \<Longrightarrow> ptable s = pt \<Longrightarrow> quiet (s\<lparr>ptable := slept c p pt\<rparr>)"
  by (auto simp: quiet_def slept_def)

lemma bholds_ptable [simp]:
  "quiet s \<Longrightarrow> map pcore pt = map pcore (ptable s) \<Longrightarrow> bholds H (s\<lparr>ptable := pt\<rparr>) = bholds H s"
  by (simp add: bholds_def curpid_pcore)

text \<open>Buffer \<open>b\<close> takes the place \<open>h\<close> in the set of held buffers.\<close>

lemma bholds_update:
  assumes "bholds H s" "b < NBUF" "length (bufs s) = NBUF"
    and "slot_ok (curpid s) (disk s ROOTDEV) h x"
  shows "bholds (H(b := h)) (s\<lparr>bufs := (bufs s)[b := x]\<rparr>)"
  using assms by (auto simp: bholds_def nth_list_update split: if_splits)

lemma bholds_media:
  assumes "bholds H s" "bwf s" "H b = Some n"
  shows "bholds H (s\<lparr>disk := (disk s)(ROOTDEV := (disk s ROOTDEV)(n := d))\<rparr>)"
  unfolding bholds_def
proof (intro conjI allI impI)
  show "dom H \<subseteq> {..<NBUF}" using assms by (simp add: bholds_def)
  fix i assume i: "i < NBUF"
  let ?t = "s\<lparr>disk := (disk s)(ROOTDEV := (disk s ROOTDEV)(n := d))\<rparr>"
  have "b_blockno (bufs s ! i) \<noteq> n" if "H i = None" "b_valid (bufs s ! i)"
    using that bwf_unique [OF assms(2) i _ that(2), of b] bholdsD [OF assms(1,3)] assms(3) by auto
  then show "slot_ok (curpid ?t) (disk ?t ROOTDEV) (H i) (bufs ?t ! i)"
    using bholds_slot [OF assms(1) i] by (simp add: slot_ok_def split: option.splits)
qed

section \<open>The operations\<close>

text \<open>A free sleep-lock is taken at once; releasing wakes those who wait for it.\<close>

definition grabbed :: "int \<Rightarrow> buf \<Rightarrow> buf" where
  "grabbed pid bf = bf\<lparr>b_refcnt := 1, b_lock := \<lparr>sl_locked = True, sl_pid = pid\<rparr>\<rparr>"

lemma bget_cached:
  assumes inv: "binv H s" and b: "b < NBUF" "b_valid (bufs s ! b)" "b_blockno (bufs s ! b) = n" "H b = None"
  shows "bget ROOTDEV n s = Ok b (s\<lparr>bufs := (bufs s)[b := grabbed (curpid s) (bufs s ! b)]\<rparr>)"
proof -
  have wf: "bwf s" and q: "quiet s" and h: "bholds H s" using inv by (simp_all add: binv_def)
  have "List.find (\<lambda>b. b_dev (bufs s ! b) = ROOTDEV \<and> b_blockno (bufs s ! b) = n) (mru s) = Some b"
  proof (rule find_unique)
    show "y = b" if "y \<in> set (mru s)" "b_dev (bufs s ! y) = ROOTDEV \<and> b_blockno (bufs s ! y) = n" for y
    proof -
      have y: "y < NBUF" using that(1) wf by simp
      then have "b_valid (bufs s ! y)" using bwf_buf(2) [OF wf] that(2) by blast
      then show ?thesis using bwf_unique [OF wf y b(1) _ b(2)] that(2) b(3) by simp
    qed
  qed (use b wf bwf_buf(2) [OF wf b(1)] in auto)
  moreover have "held s = []" using q by (simp add: quiet_def)
  ultimately show ?thesis
    using bfreeD [OF h b(4) b(1)] wf b(1)
    by (simp add: bget_def set_buf_def acquiresleep_def buf_getl_def buf_setl_def grabbed_def)
qed

lemma bget_recycled:
  assumes inv: "binv H s"
    and new: "\<And>i. i < NBUF \<Longrightarrow> b_valid (bufs s ! i) \<Longrightarrow> b_blockno (bufs s ! i) \<noteq> n"
    and room: "\<exists>i<NBUF. H i = None \<and> \<not> b_dirty (bufs s ! i)"
  obtains b where "b < NBUF" "H b = None" "\<not> b_dirty (bufs s ! b)"
    "bget ROOTDEV n s = Ok b (s\<lparr>bufs := (bufs s)[b :=
        grabbed (curpid s) ((bufs s ! b)\<lparr>b_dev := ROOTDEV, b_blockno := n, b_valid := False, b_dirty := False\<rparr>)]\<rparr>)"
proof -
  have wf: "bwf s" and q: "quiet s" and h: "bholds H s" using inv by (simp_all add: binv_def)
  have none: "List.find (\<lambda>b. b_dev (bufs s ! b) = ROOTDEV \<and> b_blockno (bufs s ! b) = n) (mru s) = None"
    unfolding find_None_iff bwf_sizes(3) [OF wf] lessThan_iff using new bwf_buf(2) [OF wf] by blast
  obtain i where i: "i < NBUF" "H i = None" "\<not> b_dirty (bufs s ! i)" using room by blast
  have "i \<in> set (rev (mru s))" "b_refcnt (bufs s ! i) = 0"
    using bfreeD(2) [OF h i(2,1)] i(1) wf by simp_all
  then obtain b where b: "List.find (\<lambda>b. b_refcnt (bufs s ! b) = 0 \<and> \<not> b_dirty (bufs s ! b)) (rev (mru s)) = Some b"
    using find_exists i(3) by (metis (mono_tags, lifting))
  have b': "b < NBUF" "b_refcnt (bufs s ! b) = 0" "\<not> b_dirty (bufs s ! b)"
    using find_SomeD [OF b] wf by auto
  have Hb: "H b = None"
    using b'(2) bholdsD(4) [OF h, of b] by (cases "H b") simp_all
  have "held s = []" using q by (simp add: quiet_def)
  then have "bget ROOTDEV n s = Ok b (s\<lparr>bufs := (bufs s)[b :=
        grabbed (curpid s) ((bufs s ! b)\<lparr>b_dev := ROOTDEV, b_blockno := n, b_valid := False, b_dirty := False\<rparr>)]\<rparr>)"
    using none b bfreeD(1) [OF h Hb b'(1)] wf b'(1)
    by (simp add: bget_def set_buf_def acquiresleep_def buf_getl_def buf_setl_def grabbed_def)
  then show thesis using that b'(1,3) Hb by blast
qed

text \<open>Not every buffer is held or dirty as long as fewer blocks than buffers are.\<close>

definition room :: "(nat \<rightharpoonup> nat) \<Rightarrow> bspec \<Rightarrow> nat \<Rightarrow> bool" where
  "room H a n \<longleftrightarrow> n \<in> pinned a \<or> card (pinned a \<union> ran H) < NBUF"

lemma finite_dirty [simp]: "finite (dirty_blocks s)"
proof -
  have "dirty_blocks s \<subseteq> b_blockno ` set (bufs s)" by (auto simp: dirty_blocks_def)
  then show ?thesis by (rule finite_subset) simp
qed

lemma finite_held: "bholds H s \<Longrightarrow> finite (ran H)"
  by (metis bholds_def finite_lessThan finite_ran finite_subset)

lemma room_buffer:
  assumes wf: "bwf s" and h: "bholds H s" and few: "card (dirty_blocks s \<union> ran H) < NBUF"
  shows "\<exists>i<NBUF. H i = None \<and> \<not> b_dirty (bufs s ! i)"
proof (rule ccontr)
  assume "\<not> ?thesis"
  then have all: "b_dirty (bufs s ! i) \<or> (\<exists>n. H i = Some n)" if "i < NBUF" for i
    using that by (meson not_None_eq)
  have valid: "b_valid (bufs s ! i)" if "i < NBUF" for i
    using all [OF that] bwf_buf(3) [OF wf that] bholdsD(5) [OF h] by blast
  have "inj_on (\<lambda>i. b_blockno (bufs s ! i)) {..<NBUF}"
    by (rule inj_onI, rule bwf_unique [OF wf]) (simp_all add: valid)
  moreover have "(\<lambda>i. b_blockno (bufs s ! i)) ` {..<NBUF} \<subseteq> dirty_blocks s \<union> ran H"
  proof (rule image_subsetI)
    fix i assume "i \<in> {..<NBUF}"
    then have i: "i < NBUF" by simp
    show "b_blockno (bufs s ! i) \<in> dirty_blocks s \<union> ran H"
      using all [OF i]
    proof
      assume "b_dirty (bufs s ! i)"
      then show ?thesis using i unfolding dirty_blocks_nth bwf_sizes(1) [OF wf] by blast
    next
      assume "\<exists>n. H i = Some n"
      then show ?thesis using bholdsD(6) [OF h] by (auto intro: ranI)
    qed
  qed
  ultimately have "card {..<NBUF} \<le> card (dirty_blocks s \<union> ran H)"
    using finite_held [OF h] by (intro card_inj_on_le) simp_all
  with few show False by simp
qed

text \<open>A change of buffer \<open>b\<close> that keeps its block.\<close>

lemma retouch:
  fixes s :: "'z bst_scheme"
  assumes wf: "bwf s" and b: "b < NBUF" "b_valid (bufs s ! b)" "b_blockno (bufs s ! b) = n"
    and x: "b_valid x" "b_dev x = ROOTDEV" "b_blockno x = n" "length (b_data x) = BSIZE"
  shows "bwf (s\<lparr>bufs := (bufs s)[b := x]\<rparr>)" (is "bwf ?t")
    and "bview (s\<lparr>bufs := (bufs s)[b := x]\<rparr>) = (bview s)(n := b_data x)"
    and "dirty_blocks (s\<lparr>bufs := (bufs s)[b := x]\<rparr>) =
      (if b_dirty x then insert n (dirty_blocks s) else dirty_blocks s - {n})"
proof -
  have ok: "buf_ok x" using bwf_buf(4) [OF wf b(1,2)] x b by (simp add: buf_ok_def)
  have "b_blockno (bufs s ! j) \<noteq> b_blockno x" if "j < NBUF" "j \<noteq> b" "b_valid (bufs s ! j)" for j
    using bwf_unique [OF wf that(1) b(1) that(3) b(2)] that(2) b(3) x(3) by metis
  then show wf': "bwf ?t" using bwf_update [OF wf b(1) ok] by blast
  show "bview ?t = (bview s)(n := b_data x)"
    using bview_update [OF wf b(1) wf' x(1)] b(3) x(3) by simp
  show "dirty_blocks ?t = (if b_dirty x then insert n (dirty_blocks s) else dirty_blocks s - {n})"
    using dirty_update [OF wf b(1) wf' x(1)] b(3) x(3) by simp
qed

lemma dirty_iff:
  assumes wf: "bwf s" and b: "b < NBUF" "b_valid (bufs s ! b)" "b_blockno (bufs s ! b) = n"
  shows "n \<in> dirty_blocks s \<longleftrightarrow> b_dirty (bufs s ! b)"
proof
  assume "n \<in> dirty_blocks s"
  then obtain i where i: "i < NBUF" "b_dirty (bufs s ! i)" "b_blockno (bufs s ! i) = n"
    unfolding dirty_blocks_nth bwf_sizes(1) [OF wf] by blast
  then have "i = b" using bwf_unique [OF wf i(1) b(1) bwf_buf(3) [OF wf i(1,2)] b(2)] b(3) by simp
  with i show "b_dirty (bufs s ! b)" by simp
next
  assume "b_dirty (bufs s ! b)"
  then show "n \<in> dirty_blocks s" unfolding dirty_blocks_nth bwf_sizes(1) [OF wf] using b by blast
qed

text \<open>The block is in the cache.\<close>

lemma bread_hit:
  assumes inv: "binv H s" and b: "b < NBUF" "b_valid (bufs s ! b)" "b_blockno (bufs s ! b) = n" "H b = None"
  shows "\<exists>t. bread ROOTDEV n s = Ok b t \<and> binv (H(b \<mapsto> n)) t \<and> babs t = babs s \<and> bframe s t"
proof -
  have wf: "bwf s" and q: "quiet s" and h: "bholds H s" using inv by (simp_all add: binv_def)
  let ?x = "grabbed (curpid s) (bufs s ! b)"
  let ?t = "s\<lparr>bufs := (bufs s)[b := ?x]\<rparr>"
  have x: "b_valid ?x" "b_dev ?x = ROOTDEV" "b_blockno ?x = n" "length (b_data ?x) = BSIZE"
    "b_data ?x = b_data (bufs s ! b)" "b_dirty ?x = b_dirty (bufs s ! b)"
    "slot_ok (curpid s) (disk s ROOTDEV) (Some n) ?x"
    using bwf_buf [OF wf b(1)] b by (simp_all add: grabbed_def slot_ok_def)
  note t = retouch [OF wf b(1-3) x(1-4)]
  have "bview ?t = bview s" using t(2) bview_cached [OF wf b(1,2)] x b by auto
  moreover have "dirty_blocks ?t = dirty_blocks s" using t(3) dirty_iff [OF wf b(1-3)] x(6) by auto
  moreover have "bholds (H(b \<mapsto> n)) ?t"
    using bholds_update [OF h b(1) _ x(7)] wf by simp
  moreover have "bread ROOTDEV n s = Ok b ?t"
    using bget_cached [OF inv b] x(1) wf b(1) by (simp add: bread_def)
  ultimately show ?thesis using t(1) q by (simp add: binv_def babs_def bframe_def)
qed

text \<open>The block comes from the disk.\<close>

lemma bread_miss:
  assumes inv: "binv H s" and n: "n < FSSIZE"
    and new: "\<And>i. i < NBUF \<Longrightarrow> b_valid (bufs s ! i) \<Longrightarrow> b_blockno (bufs s ! i) \<noteq> n"
    and room: "\<exists>i<NBUF. H i = None \<and> \<not> b_dirty (bufs s ! i)"
  shows "\<exists>b t. bread ROOTDEV n s = Ok b t \<and> H b = None \<and> binv (H(b \<mapsto> n)) t \<and> babs t = babs s \<and> bframe s t"
proof -
  have wf: "bwf s" and q: "quiet s" and h: "bholds H s" using inv by (simp_all add: binv_def)
  obtain p where p: "cur s = Some p" "p < length (ptable s)" "held s = []" "idequeue s = []" "havedisk1 s"
    "\<not> badsec s ROOTDEV n" using quietE [OF q] by metis
  obtain b where b: "b < NBUF" "H b = None" "\<not> b_dirty (bufs s ! b)"
    and get: "bget ROOTDEV n s = Ok b (s\<lparr>bufs := (bufs s)[b := grabbed (curpid s)
      ((bufs s ! b)\<lparr>b_dev := ROOTDEV, b_blockno := n, b_valid := False, b_dirty := False\<rparr>)]\<rparr>)"
    by (rule bget_recycled [OF inv new room])
  let ?y = "grabbed (curpid s)
      ((bufs s ! b)\<lparr>b_dev := ROOTDEV, b_blockno := n, b_valid := False, b_dirty := False\<rparr>)"
  let ?s1 = "s\<lparr>bufs := (bufs s)[b := ?y]\<rparr>"
  let ?x = "?y\<lparr>b_data := disk s ROOTDEV n, b_valid := True, b_dirty := False\<rparr>"
  let ?u = "s\<lparr>bufs := (bufs s)[b := ?x]\<rparr>"
  let ?t = "?u\<lparr>dcmds := dcmds s @ [DRead ROOTDEV n], ptable := slept (ChBuf b) p (ptable s)\<rparr>"
  have x: "b_valid ?x" "buf_ok ?x" "b_blockno ?x = n" "b_data ?x = disk s ROOTDEV n" "\<not> b_dirty ?x"
    "slot_ok (curpid s) (disk s ROOTDEV) (Some n) ?x"
    using wf n by (simp_all add: grabbed_def buf_ok_def slot_ok_def)
  have "iderw b ?s1 = Ok () ((synced b ?s1)\<lparr>ptable := slept (ChBuf b) p (ptable ?s1)\<rparr>)"
    using p n b wf by (intro iderw_exec) (simp_all add: grabbed_def)
  also have "(synced b ?s1)\<lparr>ptable := slept (ChBuf b) p (ptable ?s1)\<rparr> = ?t"
    using p b wf by (simp add: synced_def grabbed_def)
  finally have run: "bread ROOTDEV n s = Ok b ?t"
    using get wf b by (simp add: bread_def grabbed_def)
  have wf': "bwf ?u" by (rule bwf_update [OF wf b(1) x(2)], unfold x(3), rule new; assumption)
  have "bview ?u = bview s"
    using bview_update [OF wf b(1) wf' x(1)] bfreeD(3) [OF h b(2,1) _ b(3)] x bview_uncached [of s n] new wf by auto
  moreover have "dirty_blocks ?u = dirty_blocks s"
  proof -
    have "n \<notin> dirty_blocks s"
      unfolding dirty_blocks_nth bwf_sizes(1) [OF wf] using bwf_buf(3) [OF wf] new by blast
    then show ?thesis using dirty_update [OF wf b(1) wf' x(1)] x b by simp
  qed
  moreover have "bholds (H(b \<mapsto> n)) ?t"
    using bholds_update [OF h b(1) _ x(6)] wf q by simp
  ultimately show ?thesis using run b wf' q p
    by (intro exI [of _ b] exI [of _ ?t]) (simp add: binv_def babs_def bframe_def is_write_def)
qed

lemma bview_media:
  assumes wf: "bwf s" and b: "b < NBUF" "b_valid (bufs s ! b)" "b_blockno (bufs s ! b) = n"
  shows "bview (s\<lparr>disk := (disk s)(ROOTDEV := (disk s ROOTDEV)(n := d))\<rparr>) = bview s"
proof
  fix m
  have "cached_in s n \<noteq> None"
    unfolding cached_in_def find_None_iff bwf_sizes(1) [OF wf] using b by auto
  then show "bview (s\<lparr>disk := (disk s)(ROOTDEV := (disk s ROOTDEV)(n := d))\<rparr>) m = bview s m"
    by (cases "m = n") (auto simp: bview_def cached_in_def split: option.splits)
qed

lemma bread_spec:
  assumes inv: "binv H s" and n: "n < FSSIZE" "n \<notin> ran H" and rm: "room H (babs s) n"
  shows "\<exists>b t. bread ROOTDEV n s = Ok b t \<and> H b = None \<and> binv (H(b \<mapsto> n)) t \<and> babs t = babs s \<and> bframe s t"
proof -
  have wf: "bwf s" and h: "bholds H s" using inv by (simp_all add: binv_def)
  show ?thesis
  proof (cases "\<exists>i<NBUF. b_valid (bufs s ! i) \<and> b_blockno (bufs s ! i) = n")
    case True
    then obtain b where b: "b < NBUF" "b_valid (bufs s ! b)" "b_blockno (bufs s ! b) = n" by blast
    have "H b = None" using b(3) n(2) bholdsD(6) [OF h] by (cases "H b") (auto intro: ranI)
    then show ?thesis using bread_hit [OF inv b] by blast
  next
    case False
    then have "n \<notin> dirty_blocks s"
      unfolding dirty_blocks_nth bwf_sizes(1) [OF wf] using bwf_buf(3) [OF wf] by blast
    then have "card (dirty_blocks s \<union> ran H) < NBUF" using rm by (simp add: room_def babs_def)
    from room_buffer [OF wf h this] show ?thesis using False by (intro bread_miss [OF inv n(1)]) blast+
  qed
qed

text \<open>Writing a held buffer through to the disk.\<close>

lemma bwrite_spec:
  fixes s :: "'z bst_scheme"
  assumes inv: "binv H s" and hb: "H b = Some n"
  shows "\<exists>t. bwrite b s = Ok () t \<and> binv H t \<and> bframe s t \<and>
     babs t = (babs s)\<lparr>media := (media (babs s))(n := view (babs s) n), pinned := pinned (babs s) - {n},
        wtrace := wtrace (babs s) @ [DWrite ROOTDEV n (view (babs s) n)]\<rparr>"
proof -
  have wf: "bwf s" and q: "quiet s" and h: "bholds H s" using inv by (simp_all add: binv_def)
  obtain p where p: "cur s = Some p" "p < length (ptable s)" "held s = []" "idequeue s = []" "havedisk1 s"
    using quietE [OF q] by metis
  note b = bholdsD [OF h hb]
  note v = bview_cached [OF wf b(1,5)]
  let ?d = "b_data (bufs s ! b)"
  let ?s1 = "s\<lparr>bufs := (bufs s)[b := (bufs s ! b)\<lparr>b_dirty := True\<rparr>]\<rparr>"
  let ?x = "(bufs s ! b)\<lparr>b_valid := True, b_dirty := False\<rparr>"
  let ?u = "s\<lparr>bufs := (bufs s)[b := ?x]\<rparr>"
  let ?w = "?u\<lparr>disk := (disk s)(ROOTDEV := (disk s ROOTDEV)(n := ?d))\<rparr>"
  let ?t = "?w\<lparr>dcmds := dcmds s @ [DWrite ROOTDEV n ?d], ptable := slept (ChBuf b) p (ptable s)\<rparr>"
  have x: "b_valid ?x" "b_dev ?x = ROOTDEV" "b_blockno ?x = n" "length (b_data ?x) = BSIZE"
    "slot_ok (curpid s) (disk s ROOTDEV) (Some n) ?x"
    using b bwf_buf [OF wf b(1)] by (simp_all add: slot_ok_def)
  note u = retouch [OF wf b(1,5,6) x(1-4)]
  have "iderw b ?s1 = Ok () ((synced b ?s1)\<lparr>ptable := slept (ChBuf b) p (ptable ?s1)\<rparr>)"
    using p b wf bwf_buf(4) [OF wf b(1,5)] by (intro iderw_exec) simp_all
  also have "(synced b ?s1)\<lparr>ptable := slept (ChBuf b) p (ptable ?s1)\<rparr> = ?t"
    using p b wf x(2) by (simp add: synced_def Let_def)
  finally have run: "bwrite b s = Ok () ?t"
    using p(3) b by (simp add: bwrite_def set_buf_def buf_getl_def)
  have hu: "bholds H ?u" using bholds_update [OF h b(1) _ x(5)] wf hb by (simp add: fun_upd_idem)
  have hw: "bholds H ?w" using bholds_media [OF hu u(1) hb] by simp
  have ww: "bwf ?w" using bwf_media [OF u(1), of ?d ROOTDEV n] x(4) by simp
  have vn: "bview s n = ?d" using v b(6) by simp
  have "bview ?w = bview ?u"
    using bview_media [OF u(1) b(1), of n ?d] x wf b(1) by simp
  also have "\<dots> = bview s" using u(2) vn by auto
  finally show ?thesis
    using run hw ww q p u(3) vn
    by (intro exI [of _ ?t]) (simp add: binv_def babs_def bframe_def is_write_def)
qed

text \<open>Releasing a held buffer. A clean one must agree with the disk.\<close>

lemma brelse_spec:
  fixes s :: "'z bst_scheme"
  assumes inv: "binv H s" and hb: "H b = Some n"
    and clean: "n \<in> pinned (babs s) \<or> view (babs s) n = media (babs s) n"
  shows "\<exists>t. brelse b s = Ok () t \<and> binv (H(b := None)) t \<and> babs t = babs s \<and> bframe s t"
proof -
  have wf: "bwf s" and q: "quiet s" and h: "bholds H s" using inv by (simp_all add: binv_def)
  have hd: "held s = []" using quietE [OF q] by metis
  note b = bholdsD [OF h hb]
  have vn: "bview s n = b_data (bufs s ! b)" using bview_cached [OF wf b(1,5)] b(6) by simp
  let ?x = "(bufs s ! b)\<lparr>b_lock := \<lparr>sl_locked = False, sl_pid = 0\<rparr>, b_refcnt := 0\<rparr>"
  let ?u = "s\<lparr>bufs := (bufs s)[b := ?x]\<rparr>"
  let ?t = "?u\<lparr>ptable := map (wake_proc (ChSleeplock (LBuf b))) (ptable s), mru := b # remove1 b (mru s)\<rparr>"
  have x: "b_valid ?x" "b_dev ?x = ROOTDEV" "b_blockno ?x = n" "length (b_data ?x) = BSIZE"
    using b bwf_buf [OF wf b(1)] by simp_all
  note u = retouch [OF wf b(1,5,6) x]
  have dn: "n \<in> dirty_blocks s \<longleftrightarrow> b_dirty (bufs s ! b)" by (rule dirty_iff [OF wf b(1,5,6)])
  have sl: "slot_ok (curpid s) (disk s ROOTDEV) None ?x"
    using clean b(6) vn dn by (auto simp: slot_ok_def babs_def)
  have run: "brelse b s = Ok () ?t"
    using hd b wf
    by (simp add: brelse_def set_buf_def buf_getl_def buf_setl_def releasesleep_def udec_def)
  have "bholds (H(b := None)) ?u" using bholds_update [OF h b(1) _ sl] wf by simp
  moreover have "bview ?u = bview s" using u(2) vn by auto
  moreover have "dirty_blocks ?u = dirty_blocks s" using u(3) dn by auto
  moreover have "bwf ?t"
    using u(1) wf b(1) by (intro bwf_mru) (simp_all add: insert_absorb)
  ultimately show ?thesis
    using run q by (intro exI [of _ ?t]) (simp add: binv_def babs_def bframe_def)
qed

text \<open>Changing the data of a held buffer, and pinning it in the cache.\<close>

definition set_data :: "nat \<Rightarrow> byte list \<Rightarrow> ('z bst_scheme, unit) kop" where
  "set_data b d = set_buf b (\<lambda>x. x\<lparr>b_data := d\<rparr>)"

definition set_dirty :: "nat \<Rightarrow> ('z bst_scheme, unit) kop" where
  "set_dirty b = set_buf b (\<lambda>x. x\<lparr>b_dirty := True\<rparr>)"

definition get_data :: "nat \<Rightarrow> ('z bst_scheme, byte list) kop" where
  "get_data b = getf (\<lambda>s. b_data (bufs s ! b))"

lemma get_data_spec:
  assumes "binv H s" "H b = Some n"
  shows "get_data b s = Ok (view (babs s) n) s"
  using assms bview_cached [of s b] bholdsD [of H s b n] by (simp add: get_data_def binv_def babs_def)

lemma set_data_spec:
  fixes s :: "'z bst_scheme"
  assumes inv: "binv H s" and hb: "H b = Some n" and d: "length d = BSIZE"
  shows "\<exists>t. set_data b d s = Ok () t \<and> binv H t \<and> bframe s t \<and>
    babs t = (babs s)\<lparr>view := (view (babs s))(n := d)\<rparr>"
proof -
  have wf: "bwf s" and q: "quiet s" and h: "bholds H s" using inv by (simp_all add: binv_def)
  note b = bholdsD [OF h hb]
  let ?x = "(bufs s ! b)\<lparr>b_data := d\<rparr>"
  let ?t = "s\<lparr>bufs := (bufs s)[b := ?x]\<rparr>"
  have x: "b_valid ?x" "b_dev ?x = ROOTDEV" "b_blockno ?x = n" "length (b_data ?x) = BSIZE"
    "slot_ok (curpid s) (disk s ROOTDEV) (Some n) ?x"
    using b bwf_buf [OF wf b(1)] d by (simp_all add: slot_ok_def)
  note u = retouch [OF wf b(1,5,6) x(1-4)]
  have "bholds H ?t" using bholds_update [OF h b(1) _ x(5)] wf hb by (simp add: fun_upd_idem)
  moreover have "dirty_blocks ?t = dirty_blocks s" using u(3) dirty_iff [OF wf b(1,5,6)] by auto
  ultimately show ?thesis
    using u(1,2) q by (simp add: set_data_def set_buf_def binv_def babs_def bframe_def)
qed

lemma set_dirty_spec:
  fixes s :: "'z bst_scheme"
  assumes inv: "binv H s" and hb: "H b = Some n"
  shows "\<exists>t. set_dirty b s = Ok () t \<and> binv H t \<and> bframe s t \<and>
    babs t = (babs s)\<lparr>pinned := insert n (pinned (babs s))\<rparr>"
proof -
  have wf: "bwf s" and q: "quiet s" and h: "bholds H s" using inv by (simp_all add: binv_def)
  note b = bholdsD [OF h hb]
  let ?x = "(bufs s ! b)\<lparr>b_dirty := True\<rparr>"
  let ?t = "s\<lparr>bufs := (bufs s)[b := ?x]\<rparr>"
  have x: "b_valid ?x" "b_dev ?x = ROOTDEV" "b_blockno ?x = n" "length (b_data ?x) = BSIZE"
    "slot_ok (curpid s) (disk s ROOTDEV) (Some n) ?x"
    using b bwf_buf [OF wf b(1)] by (simp_all add: slot_ok_def)
  note u = retouch [OF wf b(1,5,6) x(1-4)]
  have "bholds H ?t" using bholds_update [OF h b(1) _ x(5)] wf hb by (simp add: fun_upd_idem)
  moreover have "bview ?t = bview s" using u(2) bview_cached [OF wf b(1,5)] b(6) by auto
  ultimately show ?thesis
    using u(1,3) q by (simp add: set_dirty_def set_buf_def binv_def babs_def bframe_def)
qed

section \<open>The contract of the cache\<close>

text \<open>
  What the log and the file system rely on, as a contract over any block cache:
  \<open>inv H s\<close> says that the running process holds the buffers in \<open>H\<close>, \<open>spec s\<close> is
  the abstract state. The client lemmas give the patterns the sources use: read and
  release, read-modify-write, copy part of a block into another.
\<close>

locale block_cache =
  fixes inv :: "(nat \<rightharpoonup> nat) \<Rightarrow> 's \<Rightarrow> bool"
    and spec :: "'s \<Rightarrow> bspec"
    and fr :: "'s \<Rightarrow> 's \<Rightarrow> bool"
    and rd :: "nat \<Rightarrow> ('s, nat) kop"
    and wr rel pin :: "nat \<Rightarrow> ('s, unit) kop"
    and geta :: "nat \<Rightarrow> ('s, byte list) kop"
    and seta :: "nat \<Rightarrow> byte list \<Rightarrow> ('s, unit) kop"
  assumes rd_ok: "inv H s \<Longrightarrow> n < FSSIZE \<Longrightarrow> n \<notin> ran H \<Longrightarrow> room H (spec s) n \<Longrightarrow>
      \<exists>b t. rd n s = Ok b t \<and> H b = None \<and> inv (H(b \<mapsto> n)) t \<and> spec t = spec s \<and> fr s t"
    and wr_ok: "inv H s \<Longrightarrow> H b = Some n \<Longrightarrow>
      \<exists>t. wr b s = Ok () t \<and> inv H t \<and> fr s t \<and>
        spec t = (spec s)\<lparr>media := (media (spec s))(n := view (spec s) n), pinned := pinned (spec s) - {n},
          wtrace := wtrace (spec s) @ [DWrite ROOTDEV n (view (spec s) n)]\<rparr>"
    and rel_ok: "inv H s \<Longrightarrow> H b = Some n \<Longrightarrow>
      n \<in> pinned (spec s) \<or> view (spec s) n = media (spec s) n \<Longrightarrow>
      \<exists>t. rel b s = Ok () t \<and> inv (H(b := None)) t \<and> spec t = spec s \<and> fr s t"
    and pin_ok: "inv H s \<Longrightarrow> H b = Some n \<Longrightarrow>
      \<exists>t. pin b s = Ok () t \<and> inv H t \<and> fr s t \<and> spec t = (spec s)\<lparr>pinned := insert n (pinned (spec s))\<rparr>"
    and geta_ok: "inv H s \<Longrightarrow> H b = Some n \<Longrightarrow> geta b s = Ok (view (spec s) n) s"
    and seta_ok: "inv H s \<Longrightarrow> H b = Some n \<Longrightarrow> length d = BSIZE \<Longrightarrow>
      \<exists>t. seta b d s = Ok () t \<and> inv H t \<and> fr s t \<and> spec t = (spec s)\<lparr>view := (view (spec s))(n := d)\<rparr>"
    and fr_refl: "fr s s"
    and fr_trans: "fr s t \<Longrightarrow> fr t u \<Longrightarrow> fr s u"
    and sizes: "inv H s \<Longrightarrow> length (view (spec s) n) = BSIZE"
    and clean: "inv H s \<Longrightarrow> n \<notin> pinned (spec s) \<Longrightarrow> n \<notin> ran H \<Longrightarrow> view (spec s) n = media (spec s) n"
begin

lemma fr_trans4: "fr a b \<Longrightarrow> fr b c \<Longrightarrow> fr c d \<Longrightarrow> fr d e \<Longrightarrow> fr a e"
  by (metis fr_trans)

text \<open>Read a block and release it, computing \<open>f\<close> from its content.\<close>

lemma peek:
  assumes "inv H s" "n < FSSIZE" "n \<notin> ran H" "room H (spec s) n"
  shows "\<exists>t. bnd (rd n) (\<lambda>b. bnd (geta b) (\<lambda>d. seq (rel b) (ret (f d)))) s = Ok (f (view (spec s) n)) t
     \<and> inv H t \<and> spec t = spec s \<and> fr s t"
proof -
  obtain b t where r: "rd n s = Ok b t" "H b = None" "inv (H(b \<mapsto> n)) t" "spec t = spec s" "fr s t"
    using rd_ok [OF assms] by blast
  have g: "geta b t = Ok (view (spec s) n) t" using geta_ok [OF r(3), of b n] r(4) by simp
  obtain u where u: "rel b t = Ok () u" "inv ((H(b \<mapsto> n))(b := None)) u" "spec u = spec t" "fr t u"
    using rel_ok [OF r(3), of b n] clean [OF assms(1) _ assms(3)] r(4) by fastforce
  have "(H(b \<mapsto> n))(b := None) = H" using r(2) by auto
  then show ?thesis using r g u fr_trans by fastforce
qed

text \<open>The laws as rules for \<open>wp\<close>.\<close>

lemma rd_wp:
  assumes "inv H s" "n < FSSIZE" "n \<notin> ran H" "room H (spec s) n"
    and "\<And>b t. H b = None \<Longrightarrow> inv (H(b \<mapsto> n)) t \<Longrightarrow> spec t = spec s \<Longrightarrow> fr s t \<Longrightarrow> Q b t"
  shows "wp (rd n) Q s"
  using rd_ok [OF assms(1-4)] assms(5) by (auto simp: wp_def)

lemma wr_wp:
  assumes "inv H s" "H b = Some n"
    and "\<And>t. inv H t \<Longrightarrow> fr s t \<Longrightarrow>
        spec t = (spec s)\<lparr>media := (media (spec s))(n := view (spec s) n), pinned := pinned (spec s) - {n},
          wtrace := wtrace (spec s) @ [DWrite ROOTDEV n (view (spec s) n)]\<rparr> \<Longrightarrow> Q () t"
  shows "wp (wr b) Q s"
  using wr_ok [OF assms(1,2)] assms(3) by (auto simp: wp_def)

lemma rel_wp:
  assumes "inv H s" "H b = Some n" "n \<in> pinned (spec s) \<or> view (spec s) n = media (spec s) n"
    and "\<And>t. inv (H(b := None)) t \<Longrightarrow> spec t = spec s \<Longrightarrow> fr s t \<Longrightarrow> Q () t"
  shows "wp (rel b) Q s"
  using rel_ok [OF assms(1-3)] assms(4) by (auto simp: wp_def)

lemma pin_wp:
  assumes "inv H s" "H b = Some n"
    and "\<And>t. inv H t \<Longrightarrow> fr s t \<Longrightarrow> spec t = (spec s)\<lparr>pinned := insert n (pinned (spec s))\<rparr> \<Longrightarrow> Q () t"
  shows "wp (pin b) Q s"
  using pin_ok [OF assms(1,2)] assms(3) by (auto simp: wp_def)

lemma geta_wp:
  assumes "inv H s" "H b = Some n" "Q (view (spec s) n) s"
  shows "wp (geta b) Q s"
  using geta_ok [OF assms(1,2)] assms(3) by (auto simp: wp_def)

lemma seta_wp:
  assumes "inv H s" "H b = Some n" "length d = BSIZE"
    and "\<And>t. inv H t \<Longrightarrow> fr s t \<Longrightarrow> spec t = (spec s)\<lparr>view := (view (spec s))(n := d)\<rparr> \<Longrightarrow> Q () t"
  shows "wp (seta b d) Q s"
  using seta_ok [OF assms(1-3)] assms(4) by (auto simp: wp_def)

text \<open>Release the two buffers held, in the given order.\<close>

lemma release_two:
  assumes "inv [x \<mapsto> n, y \<mapsto> m] s" "x \<noteq> y"
    and "n \<in> pinned (spec s) \<or> view (spec s) n = media (spec s) n"
    and "m \<in> pinned (spec s) \<or> view (spec s) m = media (spec s) m"
  shows "\<exists>t. seq (rel x) (rel y) s = Ok () t \<and> inv Map.empty t \<and> spec t = spec s \<and> fr s t"
proof -
  obtain t where t: "rel x s = Ok () t" "inv ([x \<mapsto> n, y \<mapsto> m](x := None)) t" "spec t = spec s" "fr s t"
    using rel_ok [OF assms(1), of x n] assms(2,3) by auto
  have 1: "[x \<mapsto> n, y \<mapsto> m](x := None) = [y \<mapsto> m]" and 2: "[y \<mapsto> m](y := None) = Map.empty"
    using assms(2) by auto
  obtain u where "rel y t = Ok () u" "inv ([y \<mapsto> m](y := None)) u" "spec u = spec t" "fr t u"
    using rel_ok [OF t(2) [unfolded 1], of y m] assms(4) t(3) by auto
  then show ?thesis using t fr_trans unfolding 2 by fastforce
qed

text \<open>Read a block, change its content and write it through.\<close>

lemma rmw_wp:
  assumes "inv H s" "n < FSSIZE" "n \<notin> ran H" "room H (spec s) n" "length (f (view (spec s) n)) = BSIZE"
    and "\<And>t. inv H t \<Longrightarrow> fr s t \<Longrightarrow>
        spec t = (spec s)\<lparr>view := (view (spec s))(n := f (view (spec s) n)),
          media := (media (spec s))(n := f (view (spec s) n)), pinned := pinned (spec s) - {n},
          wtrace := wtrace (spec s) @ [DWrite ROOTDEV n (f (view (spec s) n))]\<rparr> \<Longrightarrow> Q () t"
  shows "wp (bnd (rd n) (\<lambda>b. bnd (geta b) (\<lambda>d. seq (seta b (f d)) (seq (wr b) (rel b))))) Q s"
  unfolding wp_bnd wp_seq
proof (rule rd_wp [OF assms(1-4)])
  fix b t assume b: "H b = None" "inv (H(b \<mapsto> n)) t" "spec t = spec s" "fr s t"
  have h: "(H(b \<mapsto> n)) b = Some n" by simp
  show "wp (geta b) (\<lambda>x. wp (seta b (f x)) (\<lambda>_. wp (wr b) (\<lambda>_. wp (rel b) Q))) t"
  proof (rule geta_wp [OF b(2) h], rule seta_wp [OF b(2) h])
    show "length (f (view (spec t) n)) = BSIZE" using assms(5) b(3) by simp
    fix t1 assume 1: "inv (H(b \<mapsto> n)) t1" "fr t t1" "spec t1 = (spec t)\<lparr>view := (view (spec t))(n := f (view (spec t) n))\<rparr>"
    show "wp (wr b) (\<lambda>_. wp (rel b) Q) t1"
    proof (rule wr_wp [OF 1(1) h], rule rel_wp)
      fix t2 t3
      assume 2: "inv (H(b \<mapsto> n)) t2" "fr t1 t2" "spec t2 = (spec t1)\<lparr>media := (media (spec t1))(n := view (spec t1) n),
          pinned := pinned (spec t1) - {n}, wtrace := wtrace (spec t1) @ [DWrite ROOTDEV n (view (spec t1) n)]\<rparr>"
      show "inv (H(b \<mapsto> n)) t2" by (rule 2)
      show "(H(b \<mapsto> n)) b = Some n" by simp
      show "n \<in> pinned (spec t2) \<or> view (spec t2) n = media (spec t2) n" using 2(3) by simp
      assume 3: "inv ((H(b \<mapsto> n))(b := None)) t3" "spec t3 = spec t2" "fr t2 t3"
      have "(H(b \<mapsto> n))(b := None) = H" using b(1) by auto
      then show "Q () t3"
        using 3 fr_trans4 [OF b(4) 1(2) 2(2) 3(3)] by (intro assms(6)) (simp_all add: 2(3) 1(3) b(3))
    qed
  qed
qed

end

lemma bview_size:
  assumes "bwf s"
  shows "length (bview s n) = BSIZE"
proof (cases "cached_in s n")
  case None
  then show ?thesis using assms by (simp add: bview_def)
next
  case (Some i)
  then have "i < NBUF" using find_SomeD [of _ _ i] assms by (fastforce simp: cached_in_def)
  then show ?thesis using Some bwf_buf(1) [OF assms] by (simp add: bview_def)
qed

lemma bview_clean:
  assumes inv: "binv H s" and n: "n \<notin> dirty_blocks s" "n \<notin> ran H"
  shows "bview s n = disk s ROOTDEV n"
proof (cases "cached_in s n")
  case None
  then show ?thesis by (simp add: bview_def)
next
  case (Some i)
  have wf: "bwf s" and h: "bholds H s" using inv by (simp_all add: binv_def)
  have i: "i < NBUF" "b_valid (bufs s ! i)" "b_blockno (bufs s ! i) = n"
    using Some find_SomeD [of _ _ i] wf by (fastforce simp: cached_in_def)+
  have "H i = None" using n(2) bholdsD(6) [OF h, of i] i(3) by (cases "H i") (auto intro: ranI)
  moreover have "\<not> b_dirty (bufs s ! i)" using dirty_iff [OF wf i] n(1) by simp
  ultimately show ?thesis using bfreeD(3) [OF h _ i(1)] Some i by (simp add: bview_def)
qed

interpretation bc: block_cache binv babs bframe "bread ROOTDEV" bwrite brelse set_dirty get_data set_data
proof unfold_locales
  show "binv H s \<Longrightarrow> length (view (babs s) n) = BSIZE" for H n and s :: "'z bst_scheme"
    by (simp add: binv_def babs_def bview_size)
  show "binv H s \<Longrightarrow> n \<notin> pinned (babs s) \<Longrightarrow> n \<notin> ran H \<Longrightarrow> view (babs s) n = media (babs s) n"
    for H n and s :: "'z bst_scheme"
    by (simp add: babs_def bview_clean)
qed (fact bread_spec bwrite_spec brelse_spec set_dirty_spec get_data_spec set_data_spec bframe_refl bframe_trans)+

end
