(* ===== verification/Crc32.thy ===== *)
theory Crc32
  imports Prelude
begin

text \<open>
  The checksum of the journal (\<open>log.c\<close>: \<open>crc32_init\<close>, \<open>crc32\<close>). The code works byte by
  byte with a table of 256 words. The lemmas show that it computes the bit-serial CRC of
  the reflected IEEE 802.3 polynomial, and that a checksum tells apart any two byte
  strings that differ in one byte.
\<close>

section \<open>The code\<close>

text \<open>The body of the inner loop of \<open>crc32_init\<close>.\<close>

definition crc_bit :: "u32 \<Rightarrow> u32" where
  "crc_bit c = (if c AND 1 \<noteq> 0 then 0xEDB88320 XOR drop_bit 1 c else drop_bit 1 c)"

definition crc32_init :: "u32 list" where
  "crc32_init = map (\<lambda>i. (crc_bit ^^ 8) (of_nat i)) [0..<256]"

primrec crc32_loop :: "u32 list \<Rightarrow> u32 \<Rightarrow> byte list \<Rightarrow> u32" where
  "crc32_loop tab crc [] = crc"
| "crc32_loop tab crc (d # data) =
     crc32_loop tab (tab ! unat ((crc XOR ucast d) AND 0xFF) XOR drop_bit 8 crc) data"

definition crc32 :: "u32 list \<Rightarrow> byte list \<Rightarrow> u32" where
  "crc32 tab data = crc32_loop tab 0xFFFFFFFF data XOR 0xFFFFFFFF"

section \<open>The bit-serial reference\<close>

text \<open>Shift the register once for every bit of the byte, lowest bit first.\<close>

primrec serial :: "u32 \<Rightarrow> bool list \<Rightarrow> u32" where
  "serial c [] = c"
| "serial c (b # bs) = serial (crc_bit (c XOR of_bool b)) bs"

definition byte_bits :: "byte \<Rightarrow> bool list" where
  "byte_bits d = map (bit d) [0..<8]"

definition crc_ref :: "byte list \<Rightarrow> u32" where
  "crc_ref data = serial 0xFFFFFFFF (concat (map byte_bits data)) XOR 0xFFFFFFFF"

section \<open>The register step\<close>

lemma crc_bit_xor: "crc_bit (a XOR b) = crc_bit a XOR crc_bit b"
proof -
  have p: "(x AND 1 \<noteq> 0) = bit x 0" for x :: u32
    by (simp add: and_one_eq bit_0 mod_2_eq_odd)
  show ?thesis
    unfolding crc_bit_def p by (auto simp: bit_xor_iff drop_bit_xor ac_simps xor.left_commute)
qed

lemma crc_bits_xor: "(crc_bit ^^ n) (a XOR b) = (crc_bit ^^ n) a XOR (crc_bit ^^ n) b"
  by (induction n) (simp_all add: crc_bit_xor)

text \<open>Eight steps on a register whose low byte is zero shift it down by a byte.\<close>

lemma crc_bits_high:
  assumes "\<And>k. k < n \<Longrightarrow> \<not> bit c k"
  shows "(crc_bit ^^ n) c = drop_bit n c"
  using assms
proof (induction n)
  case (Suc n)
  have "(crc_bit ^^ n) c = drop_bit n c" by (rule Suc.IH) (simp add: Suc.prems)
  moreover have "drop_bit n c AND 1 = 0"
    using Suc.prems [of n] by (simp add: and_one_eq mod_2_eq_odd flip: bit_iff_odd_drop_bit)
  ultimately have "(crc_bit ^^ Suc n) c = drop_bit 1 (drop_bit n c)" by (simp add: crc_bit_def [of "drop_bit n c"])
  then show ?case by (simp add: drop_bit_drop_bit One_nat_def)
qed simp

lemma crc_byte_step:
  "(crc_bit ^^ 8) c = (crc_bit ^^ 8) (c AND 0xFF) XOR drop_bit 8 c"
proof -
  have m: "(0xFF :: u32) = mask 8" by (simp add: mask_eq_exp_minus_1)
  have split: "c = (c AND 0xFF) XOR (c AND NOT 0xFF)"
    unfolding m by (rule bit_word_eqI) (auto simp: bit_simps)
  have "(crc_bit ^^ 8) (c AND NOT 0xFF) = drop_bit 8 (c AND NOT 0xFF)"
    unfolding m by (rule crc_bits_high) (simp add: bit_simps)
  also have "\<dots> = drop_bit 8 c"
    unfolding m by (rule bit_word_eqI) (auto simp: bit_simps dest: bit_imp_le_length)
  finally show ?thesis using crc_bits_xor [of 8 "c AND 0xFF" "c AND NOT 0xFF"] split by metis
qed

lemma crc_table:
  assumes "i < 256"
  shows "crc32_init ! i = (crc_bit ^^ 8) (of_nat i)"
  using assms by (simp add: crc32_init_def)

lemma low_byte_bound: "unat (w AND 0xFF :: u32) < 256"
proof -
  have "w AND 0xFF = take_bit 8 w" by (simp add: take_bit_eq_mask mask_eq_exp_minus_1)
  then have "unat (w AND 0xFF) = take_bit 8 (unat w)" by (simp only: unsigned_take_bit_eq)
  then show ?thesis by (simp add: take_bit_eq_mod)
qed

text \<open>One iteration of the loop of \<open>crc32\<close> is eight register steps.\<close>

lemma crc_iteration:
  "crc32_init ! unat ((crc XOR ucast d) AND 0xFF) XOR drop_bit 8 crc = (crc_bit ^^ 8) (crc XOR ucast (d :: byte))"
proof -
  have "drop_bit 8 (crc XOR ucast d) = drop_bit 8 crc"
    by (rule bit_word_eqI) (auto simp: bit_simps dest: bit_imp_le_length)
  then show ?thesis
    unfolding crc_table [OF low_byte_bound] by (simp add: crc_byte_step [of "crc XOR ucast d"])
qed

text \<open>Feeding a byte bit by bit is the same as adding it to the register first.\<close>

lemma serial_append: "serial c (xs @ ys) = serial (serial c xs) ys"
  by (induction xs arbitrary: c) simp_all

lemma crc_bits_single:
  assumes "n < 32"
  shows "(crc_bit ^^ n) (push_bit n (of_bool b)) = of_bool b"
proof -
  have "(crc_bit ^^ n) (push_bit n (of_bool b)) = drop_bit n (push_bit n (of_bool b))"
    by (rule crc_bits_high) (simp add: bit_simps)
  also have "\<dots> = of_bool b"
    by (rule bit_word_eqI) (use assms in \<open>auto simp: bit_simps\<close>)
  finally show ?thesis .
qed

lemma serial_word:
  "n \<le> 32 \<Longrightarrow> serial c (map (bit x) [0..<n]) = (crc_bit ^^ n) (c XOR take_bit n (x :: u32))"
proof (induction n)
  case (Suc n)
  have t: "take_bit (Suc n) x = take_bit n x XOR push_bit n (of_bool (bit x n))"
    by (rule bit_word_eqI) (auto simp: bit_simps less_Suc_eq)
  have "(crc_bit ^^ Suc n) (c XOR take_bit (Suc n) x)
      = crc_bit ((crc_bit ^^ n) (c XOR take_bit n x) XOR of_bool (bit x n))"
    unfolding t using Suc.prems by (simp add: crc_bits_xor crc_bits_single flip: xor.assoc)
  then show ?case using Suc by (simp add: serial_append)
qed simp

lemma serial_byte: "serial c (byte_bits d) = (crc_bit ^^ 8) (c XOR ucast d)"
proof -
  have "byte_bits d = map (bit (ucast d :: u32)) [0..<8]"
    by (simp add: byte_bits_def bit_simps)
  moreover have "take_bit 8 (ucast d :: u32) = ucast d"
    by (rule bit_word_eqI) (auto simp: bit_simps dest: bit_imp_le_length)
  ultimately show ?thesis by (simp add: serial_word)
qed

lemma crc32_loop_serial:
  "crc32_loop crc32_init c data = serial c (concat (map byte_bits data))"
  by (induction data arbitrary: c) (simp_all add: serial_append crc_iteration serial_byte)

section \<open>Error detection\<close>

lemma xor_cancel_right [simp]: "a XOR c = b XOR c \<longleftrightarrow> a = (b :: u32)"
proof
  assume "a XOR c = b XOR c"
  then have "(a XOR c) XOR c = (b XOR c) XOR c" by (rule arg_cong)
  then show "a = b" by (simp add: xor.assoc)
qed simp

lemma xor_cancel_left [simp]: "c XOR a = c XOR b \<longleftrightarrow> a = (b :: u32)"
  unfolding xor.commute [of c] by (rule xor_cancel_right)

lemma crc_bit_inj: "crc_bit a = crc_bit b \<Longrightarrow> a = b"
proof -
  assume eq: "crc_bit a = crc_bit b"
  have top: "bit (crc_bit c) 31 = bit c 0" for c
    using bit_imp_le_length [of c 32] by (auto simp: crc_bit_def bit_simps and_one_eq bit_0 mod_2_eq_odd One_nat_def)
  have rest: "bit (crc_bit c) n = (bit c (Suc n) \<noteq> (bit c 0 \<and> bit (0xEDB88320 :: u32) n))" if "n < 31" for c n
    using that by (auto simp: crc_bit_def bit_simps and_one_eq bit_0 mod_2_eq_odd One_nat_def)
  show "a = b"
  proof (rule bit_word_eqI)
    fix n assume n: "n < LENGTH(32)"
    have z: "bit a 0 = bit b 0" using top eq by metis
    show "bit a n = bit b n"
    proof (cases n)
      case 0
      then show ?thesis using z by simp
    next
      case (Suc m)
      then show ?thesis using rest [of m a] rest [of m b] eq z n by auto
    qed
  qed
qed

lemma crc_bits_inj: "(crc_bit ^^ n) a = (crc_bit ^^ n) b \<Longrightarrow> a = b"
  by (induction n) (auto dest: crc_bit_inj)

lemma serial_inj: "serial a bs = serial b bs \<Longrightarrow> a = b"
proof (induction bs arbitrary: a b)
  case (Cons x bs)
  have "crc_bit (a XOR of_bool x) = crc_bit (b XOR of_bool x)"
    by (rule Cons.IH) (use Cons.prems in simp)
  then have "a XOR of_bool x = b XOR of_bool x" by (rule crc_bit_inj)
  then show ?case by (simp only: xor_cancel_right)
qed simp

lemma ucast_byte_inj:
  assumes "(ucast (d :: byte) :: u32) = ucast d'"
  shows "d = d'"
proof (rule bit_word_eqI)
  fix n assume "n < LENGTH(8)"
  then have "n < 32" by simp
  moreover have "bit (ucast d :: u32) n = bit (ucast d' :: u32) n" using assms by simp
  ultimately show "bit d n = bit d' n" by (simp add: bit_simps)
qed

section \<open>Properties\<close>

text \<open>
  C13: The table-driven \<open>crc32\<close>, run with the table \<open>crc32_init\<close> builds, computes the
  bit-serial CRC-32 of the reflected polynomial 0xEDB88320 on every byte string.
\<close>
theorem crc32_is_bit_serial_crc: "crc32 crc32_init data = crc_ref data"
  by (simp add: crc32_def crc_ref_def crc32_loop_serial)

lemma crc32_byte_differs:
  assumes "d \<noteq> d'"
  shows "crc32 crc32_init (pre @ d # post) \<noteq> crc32 crc32_init (pre @ d' # post)"
proof
  assume "crc32 crc32_init (pre @ d # post) = crc32 crc32_init (pre @ d' # post)"
  then have "serial 0xFFFFFFFF (concat (map byte_bits (pre @ d # post)))
      = serial 0xFFFFFFFF (concat (map byte_bits (pre @ d' # post)))"
    unfolding crc32_def crc32_loop_serial xor_cancel_right .
  then have "serial (serial 0xFFFFFFFF (concat (map byte_bits pre))) (byte_bits d)
      = serial (serial 0xFFFFFFFF (concat (map byte_bits pre))) (byte_bits d')"
    by (simp only: map_append list.map concat_append concat.simps serial_append) (rule serial_inj)
  then have "(ucast d :: u32) = ucast d'"
    unfolding serial_byte by (auto dest: crc_bits_inj)
  then have "d = d'" by (rule ucast_byte_inj)
  with assms show False by simp
qed

text \<open>
  C14: Changing any one byte of a string changes its checksum, so a journal slice with
  one corrupted byte is always recognised.
\<close>
theorem crc32_detects_byte_error:
  assumes "d \<noteq> d'"
  shows "crc32 crc32_init (pre @ d # post) \<noteq> crc32 crc32_init (pre @ d' # post)"
  using assms by (rule crc32_byte_differs)

theorem crc32_detects_byte_error_witness:
  "crc32 crc32_init ([1, 2] @ 3 # [4]) \<noteq> crc32 crc32_init ([1, 2] @ 5 # [4])"
  by (rule crc32_detects_byte_error) simp

end
