(* ===== verification/JLog.thy ===== *)
theory JLog
  imports Bio Crc32
begin

text \<open>
  The journal (\<open>log.c\<close>): a write-ahead log of byte ranges. A system call brackets its
  updates with \<open>begin_op\<close> and \<open>end_op\<close>; \<open>log_write\<close> records the range of a cached
  block that changed and pins the block; the last \<open>end_op\<close> commits: it copies the ranges
  to the log area, issues a barrier, writes the header, installs the blocks at home and
  clears the header. \<open>initlog\<close> replays a committed log at boot.
\<close>

section \<open>State\<close>

text \<open>
  \<open>struct logheader\<close>, in memory. The C arrays have \<open>LOGSIZE\<close> elements. Block numbers
  are compared and passed as unsigned numbers; \<open>n\<close>, offsets and lengths are signed.
\<close>

record logheader =
  lh_n :: int
  lh_block :: "nat list"
  lh_cksum :: "u32 list"
  lh_offset :: "int list"
  lh_len :: "int list"

record journal_stats =
  total_commits :: int
  total_recoveries :: int
  checksum_errors :: int
  blocks_written :: int
  blocks_installed :: int
  bytes_logged :: int
  group_commit_batches :: int
  flush_barriers :: int
  max_batch_size :: int
  total_ops_batched :: int

definition zero_stats :: journal_stats where
  "zero_stats = \<lparr>total_commits = 0, total_recoveries = 0, checksum_errors = 0, blocks_written = 0,
     blocks_installed = 0, bytes_logged = 0, group_commit_batches = 0, flush_barriers = 0,
     max_batch_size = 0, total_ops_batched = 0\<rparr>"

record jlog =
  lg_start :: nat
  lg_size :: int
  lg_outstanding :: int
  lg_committing :: bool
  lg_dev :: nat
  lg_batch_size :: int
  lg_lh :: logheader

record lst = bst +
  jl :: jlog
  jstats :: journal_stats
  crash_at_phase :: int
  crc32_table :: "u32 list option"

text \<open>
  \<open>crc32_table\<close> is the table once \<open>crc32_ready\<close> is set; \<open>crc32\<close> fills it at its first call.
\<close>

definition crc32_lazy :: "('z lst_scheme, u32 list) kop" where
  "crc32_lazy =
     bnd (getf crc32_table) (\<lambda>ready.
     case ready of
       None \<Rightarrow> seq (upd (\<lambda>s. s\<lparr>crc32_table := Some crc32_init\<rparr>)) (ret crc32_init)
     | Some tab \<Rightarrow> ret tab)"

definition set_log :: "(jlog \<Rightarrow> jlog) \<Rightarrow> ('z lst_scheme, unit) kop" where
  "set_log f = upd (\<lambda>s. s\<lparr>jl := f (jl s)\<rparr>)"

definition set_lh :: "(logheader \<Rightarrow> logheader) \<Rightarrow> ('z lst_scheme, unit) kop" where
  "set_lh f = set_log (\<lambda>l. l\<lparr>lg_lh := f (lg_lh l)\<rparr>)"

definition set_stats :: "(journal_stats \<Rightarrow> journal_stats) \<Rightarrow> ('z lst_scheme, unit) kop" where
  "set_stats f = upd (\<lambda>s. s\<lparr>jstats := f (jstats s)\<rparr>)"

section \<open>The header block\<close>

text \<open>
  Layout of \<open>struct logheader\<close> in its block: \<open>n\<close> at offset 0, then the arrays
  \<open>block\<close>, \<open>cksum\<close>, \<open>offset\<close> and \<open>len\<close> of \<open>LOGSIZE\<close> words each. Its size is 484
  bytes, which fits a block.
\<close>

definition off_block :: "nat \<Rightarrow> nat" where "off_block i = 4 + 4 * i"
definition off_cksum :: "nat \<Rightarrow> nat" where "off_cksum i = 4 + 4 * LOGSIZE + 4 * i"
definition off_offset :: "nat \<Rightarrow> nat" where "off_offset i = 4 + 8 * LOGSIZE + 4 * i"
definition off_len :: "nat \<Rightarrow> nat" where "off_len i = 4 + 12 * LOGSIZE + 4 * i"
definition sizeof_logheader :: nat where "sizeof_logheader = 4 + 16 * LOGSIZE"

definition dec_n :: "byte list \<Rightarrow> int" where
  "dec_n d = sint (get32 d 0)"

definition dec_block :: "byte list \<Rightarrow> nat \<Rightarrow> nat" where
  "dec_block d i = unat (get32 d (off_block i))"

definition dec_cksum :: "byte list \<Rightarrow> nat \<Rightarrow> u32" where
  "dec_cksum d i = get32 d (off_cksum i)"

definition dec_offset :: "byte list \<Rightarrow> nat \<Rightarrow> int" where
  "dec_offset d i = sint (get32 d (off_offset i))"

definition dec_len :: "byte list \<Rightarrow> nat \<Rightarrow> int" where
  "dec_len d i = sint (get32 d (off_len i))"

text \<open>The assignments of the loop body of \<open>write_head\<close> for entry \<open>i\<close>, and the whole loop.\<close>

definition put_entry :: "logheader \<Rightarrow> nat \<Rightarrow> byte list \<Rightarrow> byte list" where
  "put_entry h i d =
     put32 (put32 (put32 (put32 d
       (off_block i) (of_nat (lh_block h ! i)))
       (off_cksum i) (lh_cksum h ! i))
       (off_offset i) (of_int (lh_offset h ! i)))
       (off_len i) (of_int (lh_len h ! i))"

definition put_head :: "logheader \<Rightarrow> byte list \<Rightarrow> byte list" where
  "put_head h d = fold (put_entry h) [0..<nat (lh_n h)] (put32 d 0 (of_int (lh_n h)))"

section \<open>Reading and writing the header\<close>

text \<open>
  \<open>read_head\<close>: with more entries than the arrays hold the loop leaves the arrays.
\<close>

definition read_head :: "('z lst_scheme, unit) kop" where
  "read_head =
     bnd (getf jl) (\<lambda>l.
     bnd (bread (lg_dev l) (lg_start l)) (\<lambda>b.
     bnd (get_data b) (\<lambda>d.
     seq (set_lh (\<lambda>h. h\<lparr>lh_n := dec_n d\<rparr>))
    (if dec_n d > int LOGSIZE then fault ''read_head: n > LOGSIZE''
     else
     seq (for_each [0..<nat (dec_n d)] (\<lambda>i.
            set_lh (\<lambda>h. h\<lparr>lh_block := (lh_block h)[i := dec_block d i],
                         lh_cksum := (lh_cksum h)[i := dec_cksum d i],
                         lh_offset := (lh_offset h)[i := dec_offset d i],
                         lh_len := (lh_len h)[i := dec_len d i]\<rparr>)))
         (brelse b)))))"

definition write_head :: "('z lst_scheme, unit) kop" where
  "write_head =
     bnd (getf jl) (\<lambda>l.
     bnd (bread (lg_dev l) (lg_start l)) (\<lambda>b.
     bnd (get_data b) (\<lambda>d.
     seq (set_data b (put_head (lg_lh l) d))
    (seq (bwrite b)
         (brelse b)))))"

section \<open>Install\<close>

text \<open>
  A range of a block's \<open>data\<close> array. Reading outside the array is a fault; a negative
  length makes the loop of \<open>crc32\<close> empty, but \<open>memmove\<close> takes it as a huge unsigned
  number.
\<close>

definition out_of_range :: "int \<Rightarrow> int \<Rightarrow> bool" where
  "out_of_range off len \<longleftrightarrow> 0 < len \<and> \<not> (0 \<le> off \<and> off + len \<le> int BSIZE)"

definition range_of :: "int \<Rightarrow> int \<Rightarrow> byte list \<Rightarrow> byte list" where
  "range_of off len d = (if len \<le> 0 then [] else bslice (nat off) (nat len) d)"

definition install_block :: "nat \<Rightarrow> ('z lst_scheme, unit) kop" where
  "install_block tail =
     bnd (getf jl) (\<lambda>l. let h = lg_lh l; off = lh_offset h ! tail; len = lh_len h ! tail in
     bnd (bread (lg_dev l) (lg_start l + tail + 1)) (\<lambda>lbuf.
     bnd (bread (lg_dev l) (lh_block h ! tail)) (\<lambda>dbuf.
     bnd (get_data lbuf) (\<lambda>ld.
     bnd crc32_lazy (\<lambda>tab.
     if out_of_range off len then fault ''install_trans: crc32 range''
     else if crc32 tab (range_of off len ld) \<noteq> lh_cksum h ! tail then
       seq (set_stats (\<lambda>j. j\<lparr>checksum_errors := checksum_errors j + 1\<rparr>))
      (seq (brelse lbuf)
           (brelse dbuf))
     else if len < 0 then fault ''install_trans: memmove''
     else
       bnd (get_data dbuf) (\<lambda>dd.
       seq (set_data dbuf (bsplice (nat off) (range_of off len ld) dd))
      (seq (bwrite dbuf)
      (seq (set_stats (\<lambda>j. j\<lparr>blocks_installed := blocks_installed j + 1\<rparr>))
      (seq (brelse lbuf)
           (brelse dbuf))))))))))"

definition install_trans :: "('z lst_scheme, unit) kop" where
  "install_trans = bnd (getf jl) (\<lambda>l. for_each [0..<nat (lh_n (lg_lh l))] install_block)"

section \<open>Boot\<close>

text \<open>\<open>recover_from_log\<close> and \<open>initlog\<close>; \<open>readsb\<close> (\<open>fs.c\<close>) reads the super block.\<close>

definition recover_from_log :: "('z lst_scheme, unit) kop" where
  "recover_from_log =
     seq read_head
    (bnd (getf jl) (\<lambda>l.
     seq (whenc (lh_n (lg_lh l) > 0)
            (set_stats (\<lambda>j. j\<lparr>total_recoveries := total_recoveries j + 1\<rparr>)))
    (seq install_trans
    (seq (set_lh (\<lambda>h. h\<lparr>lh_n := 0\<rparr>))
         write_head))))"

definition readsb :: "nat \<Rightarrow> ('z bst_scheme, superblock) kop" where
  "readsb dev =
     bnd (bread dev 1) (\<lambda>b.
     bnd (get_data b) (\<lambda>d.
     seq (brelse b) (ret (dec_superblock d))))"

definition initlog :: "nat \<Rightarrow> ('z lst_scheme, unit) kop" where
  "initlog dev =
     seq (panic_if (sizeof_logheader \<ge> BSIZE) ''initlog: logheader too large for one block'')
    (bnd (readsb dev) (\<lambda>sb.
     seq (set_log (\<lambda>l. l\<lparr>lg_start := sb_logstart sb,
            lg_size := sint (of_nat (sb_nlog sb) :: u32), lg_dev := dev\<rparr>))
    (seq (upd (\<lambda>s. s\<lparr>crc32_table := Some crc32_init\<rparr>))
    (seq (set_stats (\<lambda>_. zero_stats))
         recover_from_log))))"

section \<open>Transactions\<close>

text \<open>
  \<open>begin_op\<close>: one pass of the loop; a process that has to wait gives up the processor in
  \<open>sleep\<close> and tests again when it is woken.
\<close>

definition begin_op :: "('z lst_scheme, unit) kop" where
  "begin_op =
     seq (lock LLog)
    (bnd (getf jl) (\<lambda>l.
     if lg_committing l then sleep ChLog LLog
     else if lh_n (lg_lh l) + (lg_outstanding l + 1) * int MAXOPBLOCKS > int LOGSIZE
     then sleep ChLog LLog
     else
       seq (set_log (\<lambda>l. l\<lparr>lg_outstanding := lg_outstanding l + 1, lg_batch_size := lg_batch_size l + 1\<rparr>))
           (unlock LLog)))"

definition write_block :: "nat \<Rightarrow> ('z lst_scheme, unit) kop" where
  "write_block tail =
     bnd (getf jl) (\<lambda>l. let h = lg_lh l; off = lh_offset h ! tail; len = lh_len h ! tail in
     bnd (bread (lg_dev l) (lg_start l + tail + 1)) (\<lambda>to.
     bnd (bread (lg_dev l) (lh_block h ! tail)) (\<lambda>fro.
     if len < 0 \<or> out_of_range off len then fault ''write_log: memmove''
     else
     bnd (get_data fro) (\<lambda>fd.
     bnd (get_data to) (\<lambda>td.
     let td' = bsplice (nat off) (range_of off len fd) td in
     seq (set_data to td')
    (bnd crc32_lazy (\<lambda>tab.
     seq (set_lh (\<lambda>h. h\<lparr>lh_cksum := (lh_cksum h)[tail := crc32 tab (range_of off len td')]\<rparr>))
    (seq (bwrite to)
    (seq (set_stats (\<lambda>j. j\<lparr>blocks_written := blocks_written j + 1, bytes_logged := bytes_logged j + len\<rparr>))
    (seq (brelse fro)
         (brelse to)))))))))))"

definition write_log :: "('z lst_scheme, unit) kop" where
  "write_log = bnd (getf jl) (\<lambda>l. for_each [0..<nat (lh_n (lg_lh l))] write_block)"

text \<open>The fault injection of phase 3: flip the first byte of the first log block.\<close>

definition flip_first :: "byte list \<Rightarrow> byte list" where
  "flip_first d = d[0 := d ! 0 XOR 0xFF]"

definition corrupt_log :: "('z lst_scheme, unit) kop" where
  "corrupt_log =
     bnd (getf jl) (\<lambda>l.
     bnd (bread (lg_dev l) (lg_start l + 1)) (\<lambda>b.
     bnd (get_data b) (\<lambda>d.
     seq (set_data b (flip_first d))
    (seq (bwrite b)
         (brelse b)))))"

definition commit_stats :: "int \<Rightarrow> journal_stats \<Rightarrow> journal_stats" where
  "commit_stats batch j =
     j\<lparr>total_commits := total_commits j + 1,
       group_commit_batches := (if batch > 1 then group_commit_batches j + 1 else group_commit_batches j),
       total_ops_batched := total_ops_batched j + batch,
       max_batch_size := (if batch > max_batch_size j then batch else max_batch_size j)\<rparr>"

definition commit :: "('z lst_scheme, unit) kop" where
  "commit =
     bnd (getf jl) (\<lambda>l.
     whenc (lh_n (lg_lh l) > 0)
    (seq write_log
    (seq ideflush
    (seq (set_stats (\<lambda>j. j\<lparr>flush_barriers := flush_barriers j + 1\<rparr>))
    (bnd (getf crash_at_phase) (\<lambda>phase.
     seq (panic_if (phase = 1) ''crash test: Phase 1 (pre-commit)'')
    (seq write_head
    (bnd (getf crash_at_phase) (\<lambda>phase.
     seq (panic_if (phase = 2) ''crash test: Phase 2 (post-commit)'')
    (bnd (getf crash_at_phase) (\<lambda>phase.
     seq (whenc (phase = 3)
           (seq corrupt_log (panic ''crash test: Phase 3 (Fault Injection - Corrupted Log Data)'')))
    (seq install_trans
    (seq (set_lh (\<lambda>h. h\<lparr>lh_n := 0\<rparr>))
    (seq write_head
    (bnd (getf jl) (\<lambda>l.
     seq (set_stats (commit_stats (lg_batch_size l)))
         (set_log (\<lambda>l. l\<lparr>lg_batch_size := 0\<rparr>))))))))))))))))))"

definition end_op :: "('z lst_scheme, unit) kop" where
  "end_op =
     seq (lock LLog)
    (seq (set_log (\<lambda>l. l\<lparr>lg_outstanding := lg_outstanding l - 1\<rparr>))
    (bnd (getf jl) (\<lambda>l.
     seq (panic_if (lg_committing l) ''log.committing'')
    (let do_commit = (lg_outstanding l = 0) in
     seq (if do_commit then set_log (\<lambda>l. l\<lparr>lg_committing := True\<rparr>) else wakeup ChLog)
    (seq (unlock LLog)
         (whenc do_commit
           (seq commit
           (seq (lock LLog)
           (seq (set_log (\<lambda>l. l\<lparr>lg_committing := False\<rparr>))
           (seq (wakeup ChLog)
                (unlock LLog)))))))))))"

text \<open>
  \<open>log_write\<close>: record the range \<open>[offset, offset+len)\<close> of the buffer's block. A block
  that is already in the log keeps its entry, whose range becomes the bounding range.
\<close>

definition absorb :: "int \<Rightarrow> int \<Rightarrow> nat \<Rightarrow> logheader \<Rightarrow> logheader" where
  "absorb offset len i h =
     (let old_end = lh_offset h ! i + lh_len h ! i;
          new_end = offset + len;
          min_off = (if lh_offset h ! i < offset then lh_offset h ! i else offset);
          max_end = (if old_end > new_end then old_end else new_end)
      in h\<lparr>lh_offset := (lh_offset h)[i := min_off], lh_len := (lh_len h)[i := max_end - min_off]\<rparr>)"

definition append_entry :: "nat \<Rightarrow> int \<Rightarrow> int \<Rightarrow> logheader \<Rightarrow> logheader" where
  "append_entry blockno offset len h =
     (let i = nat (lh_n h) in
      h\<lparr>lh_block := (lh_block h)[i := blockno], lh_offset := (lh_offset h)[i := offset],
        lh_len := (lh_len h)[i := len], lh_n := lh_n h + 1\<rparr>)"

definition log_entry :: "nat \<Rightarrow> int \<Rightarrow> int \<Rightarrow> logheader \<Rightarrow> logheader" where
  "log_entry blockno offset len h =
     (case List.find (\<lambda>i. lh_block h ! i = blockno) [0..<nat (lh_n h)] of
        Some i \<Rightarrow> absorb offset len i h
      | None \<Rightarrow> append_entry blockno offset len h)"

definition log_write :: "nat \<Rightarrow> int \<Rightarrow> int \<Rightarrow> ('z lst_scheme, unit) kop" where
  "log_write b offset len =
     bnd (getf jl) (\<lambda>l.
     seq (panic_if (lh_n (lg_lh l) \<ge> int LOGSIZE \<or> lh_n (lg_lh l) \<ge> lg_size l - 1)
            ''log_write: transaction too large'')
    (seq (panic_if (lg_outstanding l < 1) ''log_write: called outside of a transaction'')
    (seq (lock LLog)
    (bnd (getf (\<lambda>s. b_blockno (bufs s ! b))) (\<lambda>blockno.
     seq (set_lh (log_entry blockno offset len))
    (seq (set_dirty b)
         (unlock LLog)))))))"

definition get_journal_stats :: "('z lst_scheme, journal_stats) kop" where
  "get_journal_stats = getf jstats"

section \<open>The header round trip\<close>

definition lh_ok :: "logheader \<Rightarrow> bool" where
  "lh_ok h \<longleftrightarrow> 0 \<le> lh_n h \<and> lh_n h \<le> int LOGSIZE \<and> length (lh_block h) = LOGSIZE \<and>
     length (lh_cksum h) = LOGSIZE \<and> length (lh_offset h) = LOGSIZE \<and> length (lh_len h) = LOGSIZE"

lemmas head_offsets = off_block_def off_cksum_def off_offset_def off_len_def

lemma length_put_entry [simp]:
  "length d = BSIZE \<Longrightarrow> i < LOGSIZE \<Longrightarrow> length (put_entry h i d) = BSIZE"
  by (simp add: put_entry_def head_offsets)

lemma put_entry_get:
  assumes "length d = BSIZE" "i < LOGSIZE"
  shows "get32 (put_entry h i d) (off_block i) = of_nat (lh_block h ! i)"
    "get32 (put_entry h i d) (off_cksum i) = lh_cksum h ! i"
    "get32 (put_entry h i d) (off_offset i) = of_int (lh_offset h ! i)"
    "get32 (put_entry h i d) (off_len i) = of_int (lh_len h ! i)"
  using assms by (simp_all add: put_entry_def head_offsets)

lemma put_entry_other:
  assumes "length d = BSIZE" "i < LOGSIZE" "j < LOGSIZE" "i \<noteq> j"
  shows "get32 (put_entry h i d) 0 = get32 d 0"
    "get32 (put_entry h i d) (off_block j) = get32 d (off_block j)"
    "get32 (put_entry h i d) (off_cksum j) = get32 d (off_cksum j)"
    "get32 (put_entry h i d) (off_offset j) = get32 d (off_offset j)"
    "get32 (put_entry h i d) (off_len j) = get32 d (off_len j)"
proof -
  have "i < j \<or> j < i" using assms by linarith
  then have ij: "Suc i \<le> j \<or> Suc j \<le> i" by linarith
  show "get32 (put_entry h i d) 0 = get32 d 0"
    using assms by (simp add: put_entry_def head_offsets)
  show "get32 (put_entry h i d) (off_block j) = get32 d (off_block j)"
    "get32 (put_entry h i d) (off_cksum j) = get32 d (off_cksum j)"
    "get32 (put_entry h i d) (off_offset j) = get32 d (off_offset j)"
    "get32 (put_entry h i d) (off_len j) = get32 d (off_len j)"
    using ij assms by (elim disjE; simp add: put_entry_def head_offsets)+
qed

lemma put_entries:
  assumes "length d = BSIZE"
  shows "k \<le> LOGSIZE \<Longrightarrow> length (fold (put_entry h) [0..<k] d) = BSIZE \<and>
     get32 (fold (put_entry h) [0..<k] d) 0 = get32 d 0 \<and>
     (\<forall>i<k. get32 (fold (put_entry h) [0..<k] d) (off_block i) = of_nat (lh_block h ! i) \<and>
        get32 (fold (put_entry h) [0..<k] d) (off_cksum i) = lh_cksum h ! i \<and>
        get32 (fold (put_entry h) [0..<k] d) (off_offset i) = of_int (lh_offset h ! i) \<and>
        get32 (fold (put_entry h) [0..<k] d) (off_len i) = of_int (lh_len h ! i))"
proof (induction k)
  case 0
  then show ?case using assms by simp
next
  case (Suc k)
  let ?e = "fold (put_entry h) [0..<k] d"
  have f: "fold (put_entry h) [0..<Suc k] d = put_entry h k ?e" by simp
  have k: "k < LOGSIZE" and l: "length ?e = BSIZE" using Suc by simp_all
  have z: "get32 (put_entry h k ?e) 0 = get32 ?e 0"
    using k l by (simp add: put_entry_def head_offsets)
  show ?case unfolding f
  proof (intro conjI allI impI)
    fix i assume "i < Suc k"
    then consider "i = k" | "i < k" "i \<noteq> k" "i < LOGSIZE" using k by linarith
    then show "get32 (put_entry h k ?e) (off_block i) = of_nat (lh_block h ! i)"
      "get32 (put_entry h k ?e) (off_cksum i) = lh_cksum h ! i"
      "get32 (put_entry h k ?e) (off_offset i) = of_int (lh_offset h ! i)"
      "get32 (put_entry h k ?e) (off_len i) = of_int (lh_len h ! i)"
      using put_entry_get [OF l k] put_entry_other [OF l k] Suc by (cases; simp)+
  qed (use k l z Suc in simp_all)
qed

lemma length_put_head [simp]: "lh_ok h \<Longrightarrow> length d = BSIZE \<Longrightarrow> length (put_head h d) = BSIZE"
  using put_entries [of "put32 d 0 (of_int (lh_n h))" "nat (lh_n h)" h]
  by (simp add: put_head_def lh_ok_def nat_le_iff)

lemma sint_of_int_small: "- (2 ^ 31) \<le> k \<Longrightarrow> k < 2 ^ 31 \<Longrightarrow> sint (of_int k :: u32) = k"
  by (simp add: signed_of_int signed_take_bit_int_eq_self)

lemma dec_put_head:
  assumes "lh_ok h" "length d = BSIZE"
  shows "dec_n (put_head h d) = lh_n h"
    and "i < nat (lh_n h) \<Longrightarrow> lh_block h ! i < 2 ^ 32 \<Longrightarrow> dec_block (put_head h d) i = lh_block h ! i"
    and "i < nat (lh_n h) \<Longrightarrow> dec_cksum (put_head h d) i = lh_cksum h ! i"
    and "i < nat (lh_n h) \<Longrightarrow> - (2 ^ 31) \<le> lh_offset h ! i \<Longrightarrow> lh_offset h ! i < 2 ^ 31 \<Longrightarrow>
       dec_offset (put_head h d) i = lh_offset h ! i"
    and "i < nat (lh_n h) \<Longrightarrow> - (2 ^ 31) \<le> lh_len h ! i \<Longrightarrow> lh_len h ! i < 2 ^ 31 \<Longrightarrow>
       dec_len (put_head h d) i = lh_len h ! i"
proof -
  have k: "nat (lh_n h) \<le> LOGSIZE" and l: "length (put32 d 0 (of_int (lh_n h))) = BSIZE"
    using assms by (simp_all add: lh_ok_def nat_le_iff)
  note e = put_entries [OF l k, of h, folded put_head_def]
  show "dec_n (put_head h d) = lh_n h"
    using e assms by (simp add: dec_n_def sint_of_int_small lh_ok_def)
  show "i < nat (lh_n h) \<Longrightarrow> lh_block h ! i < 2 ^ 32 \<Longrightarrow> dec_block (put_head h d) i = lh_block h ! i"
    "i < nat (lh_n h) \<Longrightarrow> dec_cksum (put_head h d) i = lh_cksum h ! i"
    "i < nat (lh_n h) \<Longrightarrow> - (2 ^ 31) \<le> lh_offset h ! i \<Longrightarrow> lh_offset h ! i < 2 ^ 31 \<Longrightarrow>
       dec_offset (put_head h d) i = lh_offset h ! i"
    "i < nat (lh_n h) \<Longrightarrow> - (2 ^ 31) \<le> lh_len h ! i \<Longrightarrow> lh_len h ! i < 2 ^ 31 \<Longrightarrow>
       dec_len (put_head h d) i = lh_len h ! i"
    using e by (simp_all add: dec_block_def dec_cksum_def dec_offset_def dec_len_def
        sint_of_int_small unat_of_nat)
qed

end
