(* ===== verification/JCommit.thy ===== *)
theory JCommit
  imports JLog
begin

text \<open>
  What the journal does to the disk: \<open>write_log\<close>, \<open>write_head\<close>, \<open>install_trans\<close>,
  \<open>commit\<close> and \<open>initlog\<close> return, and their effect on the blocks is given by functions
  on the abstract state of the buffer cache. The contract of the cache carries the proofs.
\<close>

section \<open>Frames\<close>

lemma lst_frame:
  assumes "bframe s t"
  shows "jl t = jl s" "jstats t = jstats s" "crash_at_phase t = crash_at_phase s"
    "crc32_table t = crc32_table s"
  using assms by (cases s, cases t, simp add: bframe_def)+

lemma binv_lst [simp]:
  "binv H (s\<lparr>jl := a\<rparr>) = binv H s" "binv H (s\<lparr>jstats := b\<rparr>) = binv H s"
  "binv H (s\<lparr>crc32_table := d\<rparr>) = binv H s"
  by (simp_all add: binv_def quiet_def bwf_def bholds_def curpid_def split: option.split)

lemma babs_lst [simp]:
  "babs (s\<lparr>jl := a\<rparr>) = babs s" "babs (s\<lparr>jstats := b\<rparr>) = babs s" "babs (s\<lparr>crc32_table := d\<rparr>) = babs s"
  by (simp_all add: babs_def fun_eq_iff bview_def cached_in_def dirty_blocks_def split: option.split)

text \<open>What stays the same across the journal's disk operations.\<close>

definition jframe :: "'z lst_scheme \<Rightarrow> 'z lst_scheme \<Rightarrow> bool" where
  "jframe s t \<longleftrightarrow> lst.more t = lst.more s \<and> cur t = cur s \<and> nextpid t = nextpid s \<and>
     initproc t = initproc s \<and> map pcore (ptable t) = map pcore (ptable s) \<and>
     crash_at_phase t = crash_at_phase s \<and> crc32_table t = crc32_table s"

lemma jframe_refl [simp]: "jframe s s"
  by (simp add: jframe_def)

lemma jframe_trans [trans]: "jframe s t \<Longrightarrow> jframe t u \<Longrightarrow> jframe s u"
  by (simp add: jframe_def)

lemma jframe_bframe: "bframe s t \<Longrightarrow> jframe s t"
  by (cases s, cases t) (simp add: bframe_def jframe_def)

lemma jframe_jl [simp]: "jframe s (t\<lparr>jl := a\<rparr>) = jframe s t" "jframe s (t\<lparr>jstats := b\<rparr>) = jframe s t"
  by (simp_all add: jframe_def)

lemma jframe_bframe_trans: "jframe s t \<Longrightarrow> bframe t u \<Longrightarrow> jframe s u"
  using jframe_trans jframe_bframe by blast

section \<open>The log area\<close>

text \<open>
  The journal is set up on the root disk, between blocks \<open>start\<close> and \<open>start + size\<close>;
  the entries of the header are ranges of blocks outside that area.
\<close>

definition area_ok :: "jlog \<Rightarrow> bool" where
  "area_ok l \<longleftrightarrow> lg_dev l = ROOTDEV \<and> 0 < lg_size l \<and> lg_size l \<le> int LOGSIZE \<and>
     lg_start l + nat (lg_size l) \<le> FSSIZE"

definition entry_ok :: "nat \<Rightarrow> nat \<Rightarrow> logheader \<Rightarrow> nat \<Rightarrow> bool" where
  "entry_ok start sz h i \<longleftrightarrow> lh_block h ! i < FSSIZE \<and>
     \<not> (start \<le> lh_block h ! i \<and> lh_block h ! i < start + sz) \<and>
     0 \<le> lh_offset h ! i \<and> 0 \<le> lh_len h ! i \<and> lh_offset h ! i + lh_len h ! i \<le> int BSIZE"

definition head_ok :: "jlog \<Rightarrow> bool" where
  "head_ok l \<longleftrightarrow> lh_ok (lg_lh l) \<and> lh_n (lg_lh l) < lg_size l \<and>
     (\<forall>i < nat (lh_n (lg_lh l)). entry_ok (lg_start l) (nat (lg_size l)) (lg_lh l) i)"

text \<open>The range of entry \<open>i\<close> in a block.\<close>

definition eslice :: "logheader \<Rightarrow> nat \<Rightarrow> byte list \<Rightarrow> byte list" where
  "eslice h i d = bslice (nat (lh_offset h ! i)) (nat (lh_len h ! i)) d"

definition patch :: "logheader \<Rightarrow> nat \<Rightarrow> byte list \<Rightarrow> byte list \<Rightarrow> byte list" where
  "patch h i src d = bsplice (nat (lh_offset h ! i)) (eslice h i src) d"

lemma eslice_range:
  assumes "entry_ok st sz h i"
  shows "range_of (lh_offset h ! i) (lh_len h ! i) d = eslice h i d"
    "\<not> out_of_range (lh_offset h ! i) (lh_len h ! i)" "\<not> lh_len h ! i < 0"
  using assms by (auto simp: entry_ok_def range_of_def out_of_range_def eslice_def bslice_def)

lemma entry_range: "entry_ok st sz h i \<Longrightarrow> nat (lh_offset h ! i) + nat (lh_len h ! i) \<le> BSIZE"
  unfolding entry_ok_def by linarith

lemma length_eslice [simp]:
  "entry_ok st sz h i \<Longrightarrow> length d = BSIZE \<Longrightarrow> length (eslice h i d) = nat (lh_len h ! i)"
  using entry_range [of st sz h i] by (simp add: eslice_def)

lemma length_patch [simp]:
  assumes "entry_ok st sz h i" "length src = BSIZE" "length d = BSIZE"
  shows "length (patch h i src d) = BSIZE"
  using entry_range [OF assms(1)] assms by (simp add: patch_def)

lemma eslice_patch [simp]:
  assumes "entry_ok st sz h i" "length src = BSIZE" "length d = BSIZE"
  shows "eslice h i (patch h i src d) = eslice h i src"
  using entry_range [OF assms(1)] bslice_bsplice_same [of "nat (lh_offset h ! i)" "eslice h i src" d] assms
  by (simp add: eslice_def patch_def)

section \<open>Abstract effects\<close>

definition put_block :: "nat \<Rightarrow> byte list \<Rightarrow> bspec \<Rightarrow> bspec" where
  "put_block n d a = a\<lparr>view := (view a)(n := d), media := (media a)(n := d), pinned := pinned a - {n},
     wtrace := wtrace a @ [DWrite ROOTDEV n d]\<rparr>"

definition install_eff :: "nat \<Rightarrow> logheader \<Rightarrow> nat \<Rightarrow> bspec \<Rightarrow> bspec" where
  "install_eff start h i a =
     (let ld = view a (start + i + 1); b = lh_block h ! i in
      if crc32 crc32_init (eslice h i ld) = lh_cksum h ! i
      then put_block b (patch h i ld (view a b)) a else a)"

definition wlog_eff :: "nat \<Rightarrow> logheader \<Rightarrow> nat \<Rightarrow> bspec \<Rightarrow> bspec" where
  "wlog_eff start h i a =
     (let n = start + i + 1 in put_block n (patch h i (view a (lh_block h ! i)) (view a n)) a)"

section \<open>One block\<close>

text \<open>Two buffers can be read.\<close>

lemma room_two:
  assumes "finite (pinned a)" "card (pinned a) < NBUF" "b \<in> pinned a \<or> card (pinned a) + 1 < NBUF"
  shows "room Map.empty a n" "room [x \<mapsto> n] a b"
proof -
  show "room Map.empty a n" using assms(2) by (simp add: room_def)
  have "card (pinned a \<union> {n}) \<le> card (pinned a) + 1"
    using assms(1) by (simp add: card_insert_if)
  then show "room [x \<mapsto> n] a b" using assms(3) by (auto simp: room_def)
qed

lemma finite_pinned [simp]: "finite (pinned (babs s))"
  by (simp add: babs_def)

definition two_free :: "bspec \<Rightarrow> nat \<Rightarrow> bool" where
  "two_free a b \<longleftrightarrow> card (pinned a) < NBUF \<and> (b \<in> pinned a \<or> card (pinned a) + 1 < NBUF)"

lemma install_block_spec:
  fixes s :: "'z lst_scheme"
  assumes inv: "binv Map.empty s" and area: "area_ok (jl s)" and tab: "crc32_table s = Some crc32_init"
    and n: "lh_n (lg_lh (jl s)) < lg_size (jl s)" "int i < lh_n (lg_lh (jl s))"
    and e: "entry_ok (lg_start (jl s)) (nat (lg_size (jl s))) (lg_lh (jl s)) i"
    and free: "two_free (babs s) (lh_block (lg_lh (jl s)) ! i)"
    and slot: "lg_start (jl s) + i + 1 \<notin> pinned (babs s)"
  shows "\<exists>t. install_block i s = Ok () t \<and> binv Map.empty t \<and> jframe s t \<and> jl t = jl s \<and>
     babs t = install_eff (lg_start (jl s)) (lg_lh (jl s)) i (babs s)"
proof -
  let ?h = "lg_lh (jl s)" and ?a = "babs s"
  let ?n = "lg_start (jl s) + i + 1" and ?b = "lh_block (lg_lh (jl s)) ! i"
  let ?ld = "view ?a ?n"
  have dev: "lg_dev (jl s) = ROOTDEV" using area by (simp add: area_ok_def)
  have nb: "?n < FSSIZE" "?b < FSSIZE" "?n \<noteq> ?b"
    using area e n by (auto simp: area_ok_def entry_ok_def)
  have clean_n: "view ?a ?n = media ?a ?n" using bc.clean [OF inv slot] by simp
  have clean_b: "?b \<in> pinned ?a \<or> view ?a ?b = media ?a ?b" using bc.clean [OF inv, of ?b] by auto
  obtain lb s1 where 1: "bread ROOTDEV ?n s = Ok lb s1" "binv [lb \<mapsto> ?n] s1" "babs s1 = ?a" "bframe s s1"
    using bc.rd_ok [OF inv nb(1)] room_two(1) [of ?a ?b ?n] free by (force simp: two_free_def)
  have "room [lb \<mapsto> ?n] (babs s1) ?b"
    using room_two(2) [of ?a ?b lb ?n] free 1(3) by (simp add: two_free_def)
  then obtain db s2 where 2: "bread ROOTDEV ?b s1 = Ok db s2" "db \<noteq> lb" "binv [lb \<mapsto> ?n, db \<mapsto> ?b] s2"
      "babs s2 = ?a" "bframe s1 s2"
    using bc.rd_ok [OF 1(2) nb(2)] nb(3) 1(3) by (fastforce split: if_splits)
  have g: "get_data lb s2 = Ok ?ld s2" "get_data db s2 = Ok (view ?a ?b) s2"
    using bc.geta_ok [OF 2(3), of lb ?n] bc.geta_ok [OF 2(3), of db ?b] 2(2,4) by simp_all
  have fr: "jframe s s2" "jl s2 = jl s" "crc32_table s2 = Some crc32_init"
    using lst_frame [OF 1(4)] lst_frame [OF 2(5)] tab jframe_bframe [OF bframe_trans [OF 1(4) 2(5)]] by simp_all
  show ?thesis
  proof (cases "crc32 crc32_init (eslice ?h i ?ld) = lh_cksum ?h ! i")
    case False
    let ?s3 = "s2\<lparr>jstats := (jstats s2)\<lparr>checksum_errors := checksum_errors (jstats s2) + 1\<rparr>\<rparr>"
    obtain t where t: "seq (brelse lb) (brelse db) ?s3 = Ok () t" "binv Map.empty t" "babs t = ?a" "bframe ?s3 t"
      using bc.release_two [of lb ?n db ?b ?s3] 2(2-4) clean_n clean_b by auto
    have "install_block i s = Ok () t"
      using False 1(1) 2(1) g fr t(1) eslice_range [OF e] by (simp add: install_block_def crc32_lazy_def Let_def dev set_stats_def)
    then show ?thesis
      using False t fr lst_frame(1) [OF t(4)] jframe_bframe_trans [OF _ t(4), of s] by (simp add: install_eff_def Let_def)
  next
    case True
    let ?d = "patch ?h i ?ld (view ?a ?b)"
    have "length ?d = BSIZE" using e bc.sizes [OF inv] by simp
    then obtain s3 where 3: "set_data db ?d s2 = Ok () s3" "binv [lb \<mapsto> ?n, db \<mapsto> ?b] s3" "bframe s2 s3"
        "babs s3 = ?a\<lparr>view := (view ?a)(?b := ?d)\<rparr>"
      using bc.seta_ok [OF 2(3), of db ?b ?d] 2(4) by auto
    obtain s4 where 4: "bwrite db s3 = Ok () s4" "binv [lb \<mapsto> ?n, db \<mapsto> ?b] s4" "bframe s3 s4"
        "babs s4 = put_block ?b ?d ?a"
      using bc.wr_ok [OF 3(2), of db ?b] 3(4) by (auto simp: put_block_def)
    let ?s5 = "s4\<lparr>jstats := (jstats s4)\<lparr>blocks_installed := blocks_installed (jstats s4) + 1\<rparr>\<rparr>"
    obtain t where t: "seq (brelse lb) (brelse db) ?s5 = Ok () t" "binv Map.empty t" "babs t = babs s4" "bframe ?s5 t"
      using bc.release_two [of lb ?n db ?b ?s5] 4 2(2) clean_n nb(3) by (auto simp: put_block_def)
    have "install_block i s = Ok () t"
      using True 1(1) 2(1) g fr 3(1) 4(1) t(1) eslice_range [OF e]
      by (simp add: install_block_def crc32_lazy_def Let_def dev set_stats_def patch_def)
    moreover have "jframe s ?s5" "jl ?s5 = jl s"
      using fr(1,2) jframe_bframe_trans [OF jframe_bframe_trans [OF fr(1) 3(3)] 4(3)] lst_frame(1) [OF 3(3)] lst_frame(1) [OF 4(3)] by simp_all
    ultimately show ?thesis
      using True t 4(4) lst_frame(1) [OF t(4)] jframe_bframe_trans [OF _ t(4), of s] by (simp add: install_eff_def Let_def)
  qed
qed

definition cksum_entry :: "nat \<Rightarrow> u32 \<Rightarrow> jlog \<Rightarrow> jlog" where
  "cksum_entry i c l = l\<lparr>lg_lh := (lg_lh l)\<lparr>lh_cksum := (lh_cksum (lg_lh l))[i := c]\<rparr>\<rparr>"

lemma write_block_spec:
  fixes s :: "'z lst_scheme"
  assumes inv: "binv Map.empty s" and area: "area_ok (jl s)" and tab: "crc32_table s = Some crc32_init"
    and n: "lh_n (lg_lh (jl s)) < lg_size (jl s)" "int i < lh_n (lg_lh (jl s))"
    and e: "entry_ok (lg_start (jl s)) (nat (lg_size (jl s))) (lg_lh (jl s)) i"
    and free: "two_free (babs s) (lh_block (lg_lh (jl s)) ! i)"
    and slot: "lg_start (jl s) + i + 1 \<notin> pinned (babs s)"
  shows "\<exists>t. write_block i s = Ok () t \<and> binv Map.empty t \<and> jframe s t \<and>
     jl t = cksum_entry i (crc32 crc32_init (eslice (lg_lh (jl s)) i (view (babs s) (lh_block (lg_lh (jl s)) ! i)))) (jl s) \<and>
     babs t = wlog_eff (lg_start (jl s)) (lg_lh (jl s)) i (babs s)"
proof -
  let ?h = "lg_lh (jl s)" and ?a = "babs s"
  let ?n = "lg_start (jl s) + i + 1" and ?b = "lh_block (lg_lh (jl s)) ! i"
  let ?fd = "view ?a ?b" let ?d = "patch ?h i ?fd (view ?a ?n)" let ?c = "crc32 crc32_init (eslice ?h i ?fd)"
  have dev: "lg_dev (jl s) = ROOTDEV" using area by (simp add: area_ok_def)
  have nb: "?n < FSSIZE" "?b < FSSIZE" "?n \<noteq> ?b"
    using area e n by (auto simp: area_ok_def entry_ok_def)
  have clean_b: "?b \<in> pinned ?a \<or> view ?a ?b = media ?a ?b" using bc.clean [OF inv, of ?b] by auto
  obtain lb s1 where 1: "bread ROOTDEV ?n s = Ok lb s1" "binv [lb \<mapsto> ?n] s1" "babs s1 = ?a" "bframe s s1"
    using bc.rd_ok [OF inv nb(1)] room_two(1) [of ?a ?b ?n] free by (force simp: two_free_def)
  have "room [lb \<mapsto> ?n] (babs s1) ?b"
    using room_two(2) [of ?a ?b lb ?n] free 1(3) by (simp add: two_free_def)
  then obtain db s2 where 2: "bread ROOTDEV ?b s1 = Ok db s2" "db \<noteq> lb" "binv [lb \<mapsto> ?n, db \<mapsto> ?b] s2"
      "babs s2 = ?a" "bframe s1 s2"
    using bc.rd_ok [OF 1(2) nb(2)] nb(3) 1(3) by (fastforce split: if_splits)
  have g: "get_data db s2 = Ok ?fd s2" "get_data lb s2 = Ok (view ?a ?n) s2"
    using bc.geta_ok [OF 2(3), of lb ?n] bc.geta_ok [OF 2(3), of db ?b] 2(2,4) by simp_all
  have len: "length ?d = BSIZE" using e bc.sizes [OF inv] by simp
  then obtain s3 where 3: "set_data lb ?d s2 = Ok () s3" "binv [lb \<mapsto> ?n, db \<mapsto> ?b] s3" "bframe s2 s3"
      "babs s3 = ?a\<lparr>view := (view ?a)(?n := ?d)\<rparr>"
    using bc.seta_ok [OF 2(3), of lb ?n ?d] 2(2,4) by auto
  have f3: "bframe s s3" using 1(4) 2(5) 3(3) bframe_trans by blast
  note l3 = lst_frame [OF f3]
  let ?s4 = "s3\<lparr>jl := cksum_entry i ?c (jl s3)\<rparr>"
  obtain s5 where 5: "bwrite lb ?s4 = Ok () s5" "binv [lb \<mapsto> ?n, db \<mapsto> ?b] s5" "bframe ?s4 s5"
      "babs s5 = put_block ?n ?d ?a"
    using bc.wr_ok [of "[lb \<mapsto> ?n, db \<mapsto> ?b]" ?s4 lb ?n] 3(2,4) 2(2) by (auto simp: put_block_def)
  let ?s6 = "s5\<lparr>jstats := (jstats s5)\<lparr>blocks_written := blocks_written (jstats s5) + 1,
      bytes_logged := bytes_logged (jstats s5) + lh_len ?h ! i\<rparr>\<rparr>"
  have "[lb \<mapsto> ?n, db \<mapsto> ?b] = [db \<mapsto> ?b, lb \<mapsto> ?n]" using 2(2) by (simp add: fun_upd_twist)
  then obtain t where t: "seq (brelse db) (brelse lb) ?s6 = Ok () t" "binv Map.empty t" "babs t = babs s5" "bframe ?s6 t"
    using bc.release_two [of db ?b lb ?n ?s6] 5(2,4) 2(2) clean_b nb(3) by (auto simp: put_block_def)
  have cks: "crc32 crc32_init (eslice ?h i ?d) = ?c" using eslice_patch [OF e] bc.sizes [OF inv] by simp
  have "write_block i s = Ok () t"
    using 1(1) 2(1) g 3(1) 5(1) t(1) l3 tab eslice_range [OF e] lst_frame [OF 1(4)] cks
    by (simp add: write_block_def crc32_lazy_def Let_def dev set_stats_def set_lh_def set_log_def cksum_entry_def patch_def)
  moreover have "jframe s ?s6"
    using jframe_bframe_trans [OF _ 5(3), of s] jframe_bframe [OF f3] by simp
  moreover have "jl ?s6 = cksum_entry i ?c (jl s)" using lst_frame(1) [OF 5(3)] l3(1) by simp
  ultimately show ?thesis
    using t 5(4) lst_frame(1) [OF t(4)] jframe_bframe_trans [OF _ t(4), of s]
    by (simp add: wlog_eff_def Let_def)
qed

section \<open>The header block\<close>

lemma write_head_spec:
  fixes s :: "'z lst_scheme"
  assumes inv: "binv Map.empty s" and area: "area_ok (jl s)" and h: "lh_ok (lg_lh (jl s))"
    and free: "card (pinned (babs s)) < NBUF"
  shows "\<exists>t. write_head s = Ok () t \<and> binv Map.empty t \<and> bframe s t \<and>
     babs t = put_block (lg_start (jl s)) (put_head (lg_lh (jl s)) (view (babs s) (lg_start (jl s)))) (babs s)"
proof -
  have dev: "lg_dev (jl s) = ROOTDEV" using area by (simp add: area_ok_def)
  have "wp write_head (\<lambda>_ t. binv Map.empty t \<and> bframe s t \<and>
     babs t = put_block (lg_start (jl s)) (put_head (lg_lh (jl s)) (view (babs s) (lg_start (jl s)))) (babs s)) s"
    unfolding write_head_def wp_bnd [of "getf jl"] wp_getf dev
    by (rule bc.rmw_wp [OF inv])
      (use area h free bc.sizes [OF inv] in \<open>auto simp: area_ok_def room_def put_block_def\<close>)
  then show ?thesis by (auto simp: wp_def)
qed

definition get_entry :: "byte list \<Rightarrow> nat \<Rightarrow> logheader \<Rightarrow> logheader" where
  "get_entry d i h = h\<lparr>lh_block := (lh_block h)[i := dec_block d i], lh_cksum := (lh_cksum h)[i := dec_cksum d i],
     lh_offset := (lh_offset h)[i := dec_offset d i], lh_len := (lh_len h)[i := dec_len d i]\<rparr>"

definition get_head :: "byte list \<Rightarrow> logheader \<Rightarrow> logheader" where
  "get_head d h = fold (get_entry d) [0..<nat (dec_n d)] (h\<lparr>lh_n := dec_n d\<rparr>)"

lemma set_lh_apply: "set_lh f s = Ok () (s\<lparr>jl := (jl s)\<lparr>lg_lh := f (lg_lh (jl s))\<rparr>\<rparr>)"
  by (simp add: set_lh_def set_log_def)

lemma for_each_set_lh:
  "for_each ks (\<lambda>i. set_lh (f i)) s = Ok () (s\<lparr>jl := (jl s)\<lparr>lg_lh := fold f ks (lg_lh (jl s))\<rparr>\<rparr>)"
  by (induction ks arbitrary: s) (simp_all add: set_lh_def set_log_def)

lemma read_head_spec:
  fixes s :: "'z lst_scheme"
  assumes inv: "binv Map.empty s" and area: "area_ok (jl s)"
    and n: "dec_n (view (babs s) (lg_start (jl s))) \<le> int LOGSIZE" and free: "card (pinned (babs s)) < NBUF"
  shows "\<exists>t. read_head s = Ok () t \<and> binv Map.empty t \<and> jframe s t \<and> babs t = babs s \<and> jstats t = jstats s \<and>
     jl t = (jl s)\<lparr>lg_lh := get_head (view (babs s) (lg_start (jl s))) (lg_lh (jl s))\<rparr>"
proof -
  let ?n = "lg_start (jl s)" and ?d = "view (babs s) (lg_start (jl s))"
  have dev: "lg_dev (jl s) = ROOTDEV" and st: "?n < FSSIZE" using area by (auto simp: area_ok_def)
  obtain b s1 where 1: "bread ROOTDEV ?n s = Ok b s1" "binv [b \<mapsto> ?n] s1" "babs s1 = babs s" "bframe s s1"
    using bc.rd_ok [OF inv st] free by (force simp: room_def)
  have g: "get_data b s1 = Ok ?d s1" using bc.geta_ok [OF 1(2), of b ?n] 1(3) by simp
  let ?s2 = "s1\<lparr>jl := (jl s1)\<lparr>lg_lh := get_head ?d (lg_lh (jl s1))\<rparr>\<rparr>"
  have "?n \<in> pinned (babs s) \<or> ?d = media (babs s) ?n" using bc.clean [OF inv, of ?n] by auto
  then obtain t where t: "brelse b ?s2 = Ok () t" "binv ([b \<mapsto> ?n](b := None)) t" "babs t = babs s" "bframe ?s2 t"
    using bc.rel_ok [of "[b \<mapsto> ?n]" ?s2 b ?n] 1(2,3) by auto
  have "read_head s = Ok () t"
    using 1(1) g n t(1)
    by (simp add: read_head_def dev for_each_set_lh set_lh_apply get_head_def get_entry_def [abs_def])
  then show ?thesis
    using t lst_frame [OF t(4)] lst_frame [OF 1(4)] jframe_bframe_trans [OF _ t(4), of s] jframe_bframe [OF 1(4)] by simp
qed

section \<open>The loops\<close>

lemma pinned_put_block [simp]: "pinned (put_block n d a) = pinned a - {n}"
  by (simp add: put_block_def)

lemma pinned_install: "pinned a - {lh_block h ! i} \<subseteq> pinned (install_eff st h i a)"
    "pinned (install_eff st h i a) \<subseteq> pinned a"
  by (auto simp: install_eff_def Let_def)

lemma pinned_install_fold:
  "pinned (fold (install_eff st h) ks a) \<subseteq> pinned a"
  "b \<in> pinned a \<Longrightarrow> b \<notin> (\<lambda>i. lh_block h ! i) ` set ks \<Longrightarrow> b \<in> pinned (fold (install_eff st h) ks a)"
proof (induction ks arbitrary: a)
  case (Cons k ks)
  { case 1 then show ?case using Cons.IH(1) [of "install_eff st h k a"] pinned_install(2) [of st h k a] by simp }
  { case 2 then show ?case using Cons.IH(2) [of "install_eff st h k a"] pinned_install(1) [of a h k st] by auto }
qed simp_all

text \<open>No slot of the log area is pinned.\<close>

definition slots_free :: "jlog \<Rightarrow> bspec \<Rightarrow> bool" where
  "slots_free l a \<longleftrightarrow> (\<forall>b\<in>pinned a. \<not> (lg_start l \<le> b \<and> b < lg_start l + nat (lg_size l)))"

lemma slot_unpinned:
  assumes "slots_free l a" "head_ok l" "i < nat (lh_n (lg_lh l))"
  shows "lg_start l + i + 1 \<notin> pinned a"
  using assms unfolding slots_free_def head_ok_def lh_ok_def by force

lemma install_trans_spec:
  fixes s :: "'z lst_scheme"
  assumes inv: "binv Map.empty s" and area: "area_ok (jl s)" and tab: "crc32_table s = Some crc32_init"
    and hd: "head_ok (jl s)" and sl: "slots_free (jl s) (babs s)"
    and free: "\<And>k. k < nat (lh_n (lg_lh (jl s))) \<Longrightarrow>
       two_free (fold (install_eff (lg_start (jl s)) (lg_lh (jl s))) [0..<k] (babs s)) (lh_block (lg_lh (jl s)) ! k)"
  shows "\<exists>t. install_trans s = Ok () t \<and> binv Map.empty t \<and> jframe s t \<and> jl t = jl s \<and>
     babs t = fold (install_eff (lg_start (jl s)) (lg_lh (jl s))) [0..<nat (lh_n (lg_lh (jl s)))] (babs s)"
proof -
  let ?h = "lg_lh (jl s)" and ?st = "lg_start (jl s)"
  have "\<exists>t. for_each [0..<nat (lh_n ?h)] install_block s = Ok () t \<and> binv Map.empty t \<and> jframe s t \<and> jl t = jl s \<and>
      babs t = fold (install_eff ?st ?h) [0..<nat (lh_n ?h)] (babs s)"
  proof (rule for_upto)
    fix k t
    assume k: "k < nat (lh_n ?h)"
      and J: "binv Map.empty t \<and> jframe s t \<and> jl t = jl s \<and> babs t = fold (install_eff ?st ?h) [0..<k] (babs s)"
    have ki: "int k < lh_n ?h" using k by linarith
    have "crc32_table t = Some crc32_init" using J tab by (simp add: jframe_def)
    moreover have "slots_free (jl s) (babs t)"
      using J sl pinned_install_fold(1) [of ?st ?h "[0..<k]" "babs s"] unfolding slots_free_def by auto
    ultimately obtain u where "install_block k t = Ok () u" "binv Map.empty u" "jframe t u" "jl u = jl t"
        "babs u = install_eff ?st ?h k (babs t)"
      using install_block_spec [of t k] J k ki area hd free [OF k] slot_unpinned [of "jl s" "babs t" k]
      by (auto simp: head_ok_def)
    then show "\<exists>u. install_block k t = Ok () u \<and> binv Map.empty u \<and> jframe s u \<and> jl u = jl s \<and>
        babs u = fold (install_eff ?st ?h) [0..<Suc k] (babs s)"
      using J jframe_trans by auto
  qed (use inv in simp)
  then show ?thesis by (simp add: install_trans_def)
qed

text \<open>The checksums \<open>write_log\<close> stores.\<close>

definition cksums :: "logheader \<Rightarrow> bspec \<Rightarrow> nat \<Rightarrow> u32 list" where
  "cksums h a k = fold (\<lambda>i cs. cs[i := crc32 crc32_init (eslice h i (view a (lh_block h ! i)))]) [0..<k] (lh_cksum h)"

lemma cksums_Suc:
  "cksums h a (Suc k) = (cksums h a k)[k := crc32 crc32_init (eslice h k (view a (lh_block h ! k)))]"
  by (simp add: cksums_def)

lemma length_cksums [simp]: "length (cksums h a k) = length (lh_cksum h)"
  by (induction k) (simp_all add: cksums_Suc, simp add: cksums_def)

lemma nth_cksums:
  "i < k \<Longrightarrow> k \<le> length (lh_cksum h) \<Longrightarrow>
   cksums h a k ! i = crc32 crc32_init (eslice h i (view a (lh_block h ! i)))"
  by (induction k) (auto simp: cksums_Suc nth_list_update)

definition with_cks :: "logheader \<Rightarrow> bspec \<Rightarrow> nat \<Rightarrow> logheader" where
  "with_cks h a k = h\<lparr>lh_cksum := cksums h a k\<rparr>"

lemma with_cks_fields [simp]:
  "lh_n (with_cks h a k) = lh_n h" "lh_block (with_cks h a k) = lh_block h"
  "lh_offset (with_cks h a k) = lh_offset h" "lh_len (with_cks h a k) = lh_len h"
  "lh_cksum (with_cks h a k) = cksums h a k"
  by (simp_all add: with_cks_def)

lemma with_cks_ok [simp]:
  "lh_ok (with_cks h a k) = lh_ok h" "entry_ok st sz (with_cks h a k) i = entry_ok st sz h i"
  "eslice (with_cks h a k) = eslice h" "patch (with_cks h a k) = patch h" "wlog_eff st (with_cks h a k) = wlog_eff st h"
  by (simp_all add: lh_ok_def entry_ok_def eslice_def fun_eq_iff patch_def wlog_eff_def)

text \<open>The log area after \<open>write_log\<close>: home blocks and pins are untouched.\<close>

lemma wlog_other:
  assumes "\<not> (st < b \<and> b \<le> st + k)"
  shows "view (fold (wlog_eff st h) [0..<k] a) b = view a b" "media (fold (wlog_eff st h) [0..<k] a) b = media a b"
  using assms by (induction k) (auto simp: wlog_eff_def Let_def put_block_def)

lemma pinned_wlog:
  assumes "\<And>i. i < k \<Longrightarrow> st + i + 1 \<notin> pinned a"
  shows "pinned (fold (wlog_eff st h) [0..<k] a) = pinned a"
  using assms by (induction k) (simp_all add: wlog_eff_def Let_def)

lemma write_log_spec:
  fixes s :: "'z lst_scheme"
  assumes inv: "binv Map.empty s" and area: "area_ok (jl s)" and tab: "crc32_table s = Some crc32_init"
    and hd: "head_ok (jl s)" and sl: "slots_free (jl s) (babs s)" and c: "card (pinned (babs s)) < NBUF"
    and pin: "\<And>i. i < nat (lh_n (lg_lh (jl s))) \<Longrightarrow> lh_block (lg_lh (jl s)) ! i \<in> pinned (babs s)"
  shows "\<exists>t. write_log s = Ok () t \<and> binv Map.empty t \<and> jframe s t \<and>
     jl t = (jl s)\<lparr>lg_lh := with_cks (lg_lh (jl s)) (babs s) (nat (lh_n (lg_lh (jl s))))\<rparr> \<and>
     babs t = fold (wlog_eff (lg_start (jl s)) (lg_lh (jl s))) [0..<nat (lh_n (lg_lh (jl s)))] (babs s)"
proof -
  let ?h = "lg_lh (jl s)" and ?st = "lg_start (jl s)" and ?a = "babs s"
  let ?n = "nat (lh_n ?h)" let ?W = "\<lambda>k. fold (wlog_eff ?st ?h) [0..<k] ?a"
  have pinW: "pinned (?W k) = pinned ?a" if "k \<le> ?n" for k
    using that slot_unpinned [OF sl hd] by (intro pinned_wlog) auto
  have "\<exists>t. for_each [0..<?n] write_block s = Ok () t \<and> binv Map.empty t \<and> jframe s t \<and>
      jl t = (jl s)\<lparr>lg_lh := with_cks ?h ?a ?n\<rparr> \<and> babs t = ?W ?n"
  proof (rule for_upto)
    show "binv Map.empty s \<and> jframe s s \<and> jl s = (jl s)\<lparr>lg_lh := with_cks ?h ?a 0\<rparr> \<and> ?a = ?W 0"
      using inv by (simp add: with_cks_def cksums_def)
    fix k t
    assume k: "k < ?n"
      and J: "binv Map.empty t \<and> jframe s t \<and> jl t = (jl s)\<lparr>lg_lh := with_cks ?h ?a k\<rparr> \<and> babs t = ?W k"
    have ki: "int k < lh_n ?h" using k by linarith
    have "entry_ok ?st (nat (lg_size (jl s))) ?h k" using hd k by (simp add: head_ok_def)
    then have v: "view (?W k) (lh_block ?h ! k) = view ?a (lh_block ?h ! k)"
      using k hd by (intro wlog_other) (auto simp: entry_ok_def head_ok_def)
    have pk: "pinned (babs t) = pinned ?a" using J pinW [of k] k by simp
    have "crc32_table t = Some crc32_init" using J tab by (simp add: jframe_def)
    then obtain u where "write_block k t = Ok () u" "binv Map.empty u" "jframe t u"
        "jl u = cksum_entry k (crc32 crc32_init (eslice ?h k (view ?a (lh_block ?h ! k)))) (jl t)"
        "babs u = wlog_eff ?st ?h k (babs t)"
      using write_block_spec [of t k] J k ki area hd c pin [OF k] slot_unpinned [OF sl hd k] pk v
      by (auto simp: head_ok_def area_ok_def two_free_def)
    then show "\<exists>u. write_block k t = Ok () u \<and> binv Map.empty u \<and> jframe s u \<and>
        jl u = (jl s)\<lparr>lg_lh := with_cks ?h ?a (Suc k)\<rparr> \<and> babs u = ?W (Suc k)"
      using J jframe_trans [of s t u] by (auto simp: cksum_entry_def with_cks_def cksums_Suc)
  qed
  then show ?thesis by (simp add: write_log_def)
qed

section \<open>Sequences of writes\<close>

definition put_blocks :: "(nat \<times> byte list) list \<Rightarrow> bspec \<Rightarrow> bspec" where
  "put_blocks ws = fold (\<lambda>(n, d). put_block n d) ws"

definition writes :: "(nat \<times> byte list) list \<Rightarrow> dcmd list" where
  "writes ws = map (\<lambda>(n, d). DWrite ROOTDEV n d) ws"

definition store :: "(nat \<times> byte list) list \<Rightarrow> (nat \<Rightarrow> byte list) \<Rightarrow> nat \<Rightarrow> byte list" where
  "store ws = fold (\<lambda>(n, d) m. m(n := d)) ws"

lemma put_blocks_simps [simp]: "put_blocks [] a = a" "put_blocks (w # ws) a = put_blocks ws (put_block (fst w) (snd w) a)"
  "put_blocks (ws @ vs) a = put_blocks vs (put_blocks ws a)"
  by (simp_all add: put_blocks_def split: prod.split)

lemma store_simps [simp]: "store [] m = m" "store (w # ws) m = store ws (m(fst w := snd w))"
  "store (ws @ vs) m = store vs (store ws m)"
  by (simp_all add: store_def split: prod.split)

lemma put_blocks_fields:
  "media (put_blocks ws a) = store ws (media a)" "view (put_blocks ws a) = store ws (view a)"
  "pinned (put_blocks ws a) = pinned a - fst ` set ws" "wtrace (put_blocks ws a) = wtrace a @ writes ws"
  by (induction ws arbitrary: a) (auto simp: put_block_def writes_def)

lemma store_notin: "b \<notin> fst ` set ws \<Longrightarrow> store ws m b = m b"
  by (induction ws arbitrary: m) auto

lemma store_in: "distinct (map fst ws) \<Longrightarrow> (b, d) \<in> set ws \<Longrightarrow> store ws m b = d"
proof (induction ws arbitrary: m)
  case (Cons w ws)
  then show ?case using store_notin [of b ws "m(b := d)"] by (cases "w = (b, d)") force+
qed simp

lemma store_fun:
  "(\<And>w. w \<in> set ws \<Longrightarrow> snd w = V (fst w)) \<Longrightarrow> store ws m b = (if b \<in> fst ` set ws then V b else m b)"
proof (induction ws arbitrary: m)
  case (Cons w ws)
  have "snd w = V (fst w)" using Cons.prems [of w] by simp
  moreover have "store ws (m(fst w := V (fst w))) b = (if b \<in> fst ` set ws then V b else (m(fst w := V (fst w))) b)"
    by (rule Cons.IH) (rule Cons.prems, simp)
  ultimately show ?case by simp
qed simp

definition slot_writes :: "nat \<Rightarrow> logheader \<Rightarrow> bspec \<Rightarrow> nat \<Rightarrow> (nat \<times> byte list) list" where
  "slot_writes st h a k =
     map (\<lambda>i. (st + i + 1, patch h i (view a (lh_block h ! i)) (view a (st + i + 1)))) [0..<k]"

definition home_writes :: "logheader \<Rightarrow> bspec \<Rightarrow> nat \<Rightarrow> (nat \<times> byte list) list" where
  "home_writes h a k = map (\<lambda>i. (lh_block h ! i, view a (lh_block h ! i))) [0..<k]"

text \<open>The slots, as one sequence of writes.\<close>

lemma wlog_writes:
  assumes "\<And>i. i < k \<Longrightarrow> \<not> (st < lh_block h ! i \<and> lh_block h ! i \<le> st + k)"
  shows "fold (wlog_eff st h) [0..<k] a = put_blocks (slot_writes st h a k) a"
  using assms
proof (induction k)
  case 0
  then show ?case by (simp add: slot_writes_def)
next
  case (Suc k)
  have IH: "fold (wlog_eff st h) [0..<k] a = put_blocks (slot_writes st h a k) a"
  proof (rule Suc.IH)
    show "\<not> (st < lh_block h ! i \<and> lh_block h ! i \<le> st + k)" if "i < k" for i
      using Suc.prems [of i] that by auto
  qed
  have "\<not> (st < lh_block h ! k \<and> lh_block h ! k \<le> st + k)" using Suc.prems [of k] by auto
  note v = wlog_other(1) [OF this, of h a] wlog_other(1) [of st "st + k + 1" k h a]
  have "slot_writes st h a (Suc k) = slot_writes st h a k @
      [(st + k + 1, patch h k (view a (lh_block h ! k)) (view a (st + k + 1)))]"
    by (simp add: slot_writes_def)
  then show ?case using v IH by (simp add: wlog_eff_def [of st h k] Let_def)
qed

text \<open>
  Installing from slots that hold the ranges of the cached blocks writes the cached
  blocks home as they are.
\<close>

lemma patch_self:
  assumes "entry_ok st sz h i" "eslice h i src = eslice h i d" "length d = BSIZE"
  shows "patch h i src d = d"
  using assms(2) bsplice_bslice_same [of "nat (lh_offset h ! i)" "nat (lh_len h ! i)" d]
    entry_range [OF assms(1)] assms(3) by (simp add: patch_def) (simp add: eslice_def)

lemma install_writes:
  assumes e: "\<And>i. i < k \<Longrightarrow> entry_ok st sz h i" and k: "k < sz"
    and ck: "\<And>i. i < k \<Longrightarrow> lh_cksum h ! i = crc32 crc32_init (eslice h i (view a (lh_block h ! i)))"
    and sl: "\<And>i. i < k \<Longrightarrow> eslice h i (view a (st + i + 1)) = eslice h i (view a (lh_block h ! i))"
    and len: "\<And>n. length (view a n) = BSIZE"
  shows "fold (install_eff st h) [0..<k] a = put_blocks (home_writes h a k) a"
  using assms(1-4)
proof (induction k)
  case 0
  then show ?case by (simp add: home_writes_def)
next
  case (Suc k)
  let ?b = "put_blocks (home_writes h a k) a"
  have IH: "fold (install_eff st h) [0..<k] a = ?b" using Suc by simp
  have home: "view ?b n = view a n" for n
  proof -
    have "store (home_writes h a k) (view a) n = (if n \<in> fst ` set (home_writes h a k) then view a n else view a n)"
      by (rule store_fun) (auto simp: home_writes_def)
    then show ?thesis by (simp add: put_blocks_fields)
  qed
  have "crc32 crc32_init (eslice h k (view ?b (st + k + 1))) = lh_cksum h ! k"
    using Suc.prems(3,4) [of k] home by simp
  moreover have "patch h k (view ?b (st + k + 1)) (view ?b (lh_block h ! k)) = view a (lh_block h ! k)"
    unfolding home using Suc.prems(1,4) [of k] len by (intro patch_self) auto
  ultimately have "install_eff st h k ?b = put_block (lh_block h ! k) (view a (lh_block h ! k)) ?b"
    by (simp add: install_eff_def Let_def)
  then show ?case using IH by (simp add: home_writes_def)
qed

section \<open>Commit\<close>

text \<open>
  A journal that is ready to commit: the blocks of the entries are distinct, and they are
  the blocks pinned in the cache.
\<close>

definition ready :: "jlog \<Rightarrow> bspec \<Rightarrow> bool" where
  "ready l a \<longleftrightarrow> head_ok l \<and> distinct (take (nat (lh_n (lg_lh l))) (lh_block (lg_lh l))) \<and>
     pinned a = set (take (nat (lh_n (lg_lh l))) (lh_block (lg_lh l)))"

definition add_flush :: "bspec \<Rightarrow> bspec" where
  "add_flush a = a\<lparr>wtrace := wtrace a @ [DFlush]\<rparr>"

lemma add_flush_fields [simp]:
  "view (add_flush a) = view a" "media (add_flush a) = media a" "pinned (add_flush a) = pinned a"
  by (simp_all add: add_flush_def)

definition header1 :: "jlog \<Rightarrow> bspec \<Rightarrow> byte list" where
  "header1 l a = put_head (with_cks (lg_lh l) a (nat (lh_n (lg_lh l)))) (view a (lg_start l))"

definition header0 :: "jlog \<Rightarrow> bspec \<Rightarrow> byte list" where
  "header0 l a = put_head ((with_cks (lg_lh l) a (nat (lh_n (lg_lh l))))\<lparr>lh_n := 0\<rparr>) (header1 l a)"

definition log_writes :: "jlog \<Rightarrow> bspec \<Rightarrow> (nat \<times> byte list) list" where
  "log_writes l a = slot_writes (lg_start l) (lg_lh l) a (nat (lh_n (lg_lh l)))"

definition final_writes :: "jlog \<Rightarrow> bspec \<Rightarrow> (nat \<times> byte list) list" where
  "final_writes l a = (lg_start l, header1 l a) # home_writes (lg_lh l) a (nat (lh_n (lg_lh l)))
     @ [(lg_start l, header0 l a)]"

definition commit_eff :: "jlog \<Rightarrow> bspec \<Rightarrow> bspec" where
  "commit_eff l a = put_blocks (final_writes l a) (add_flush (put_blocks (log_writes l a) a))"

lemma ideflush_spec:
  assumes "binv H s"
  shows "\<exists>t. ideflush s = Ok () t \<and> binv H t \<and> bframe s t \<and> babs t = add_flush (babs s)"
proof -
  have "held s = []" using assms quietE [of s] unfolding binv_def by metis
  then have "ideflush s = Ok () (s\<lparr>dcmds := dcmds s @ [DFlush]\<rparr>)" by (simp add: ideflush_def)
  then show ?thesis
    using assms by (simp add: binv_def babs_def add_flush_def is_write_def bframe_def)
qed

lemma ready_facts:
  assumes "ready l a" "area_ok l"
  shows "slots_free l a" "card (pinned a) < NBUF" "finite (pinned a)"
    "\<And>i. i < nat (lh_n (lg_lh l)) \<Longrightarrow> lh_block (lg_lh l) ! i \<in> pinned a"
    "\<And>i. i < nat (lh_n (lg_lh l)) \<Longrightarrow> \<not> (lg_start l < lh_block (lg_lh l) ! i \<and>
       lh_block (lg_lh l) ! i \<le> lg_start l + nat (lh_n (lg_lh l)))"
    "\<And>i j. i < nat (lh_n (lg_lh l)) \<Longrightarrow> j < i \<Longrightarrow> lh_block (lg_lh l) ! i \<noteq> lh_block (lg_lh l) ! j"
proof -
  let ?h = "lg_lh l" let ?n = "nat (lh_n ?h)"
  have n: "?n \<le> length (lh_block ?h)" "?n < nat (lg_size l)" "?n < NBUF"
    using assms by (auto simp: ready_def head_ok_def lh_ok_def area_ok_def)
  have p: "pinned a = set (take ?n (lh_block ?h))" "distinct (take ?n (lh_block ?h))"
    using assms by (simp_all add: ready_def)
  have e: "entry_ok (lg_start l) (nat (lg_size l)) ?h i" if "i < ?n" for i
    using assms that by (simp add: ready_def head_ok_def)
  show "slots_free l a"
    unfolding slots_free_def p(1) using e n by (auto simp: in_set_conv_nth entry_ok_def)
  show "card (pinned a) < NBUF" using distinct_card [OF p(2)] n p(1) by simp
  show "finite (pinned a)" using p(1) by simp
  show "lh_block ?h ! i \<in> pinned a" if "i < ?n" for i
    unfolding p(1) using that n by (auto simp: in_set_conv_nth)
  show "\<not> (lg_start l < lh_block ?h ! i \<and> lh_block ?h ! i \<le> lg_start l + ?n)" if "i < ?n" for i
    using e [OF that] n(2) by (auto simp: entry_ok_def)
  show "lh_block ?h ! i \<noteq> lh_block ?h ! j" if "i < ?n" "j < i" for i j
    using that n p(2) nth_eq_iff_index_eq [OF p(2), of i j] by simp
qed

text \<open>The log area after \<open>write_log\<close>.\<close>

lemma slot_store:
  assumes "i < k"
  shows "store (slot_writes st h a k) m (st + i + 1) = patch h i (view a (lh_block h ! i)) (view a (st + i + 1))"
  by (rule store_in) (use assms in \<open>auto simp: slot_writes_def comp_def distinct_map inj_on_def\<close>)

lemma slot_notin: "\<not> (st < b \<and> b \<le> st + k) \<Longrightarrow> store (slot_writes st h a k) m b = m b"
  by (rule store_notin) (auto simp: slot_writes_def)

lemma store_length:
  "(\<And>w. w \<in> set ws \<Longrightarrow> length (snd w) = BSIZE) \<Longrightarrow> (\<And>n. length (m n) = BSIZE) \<Longrightarrow> length (store ws m n) = BSIZE"
  by (induction ws arbitrary: m) simp_all

text \<open>Installing right after the header was written.\<close>

lemma ready_install:
  assumes r: "ready l a" and ar: "area_ok l" and len: "\<And>n. length (view a n) = BSIZE"
    and n: "n = nat (lh_n (lg_lh l))" and h: "h = with_cks (lg_lh l) a n"
    and b: "b = put_block (lg_start l) (header1 l a) (add_flush (put_blocks (log_writes l a) a))"
  shows "fold (install_eff (lg_start l) h) [0..<n] b = put_blocks (home_writes (lg_lh l) a n) b"
    and "k < n \<Longrightarrow> two_free (fold (install_eff (lg_start l) h) [0..<k] b) (lh_block h ! k)"
    and "pinned b = pinned a"
proof -
  let ?st = "lg_start l" and ?h = "lg_lh l"
  note f = ready_facts [OF r ar]
  have hd: "head_ok l" and lo: "lh_ok ?h" using r by (simp_all add: ready_def head_ok_def)
  have e: "entry_ok ?st (nat (lg_size l)) ?h i" if "i < n" for i using hd that n by (simp add: head_ok_def)
  have nsz: "n < nat (lg_size l)" "n \<le> length (lh_cksum ?h)"
    using hd n by (auto simp: head_ok_def lh_ok_def)
  have blk: "view b (lh_block ?h ! i) = view a (lh_block ?h ! i)" if "i < n" for i
  proof -
    have "lh_block ?h ! i \<noteq> ?st" using e [OF that] nsz(1) by (auto simp: entry_ok_def)
    then show ?thesis
      using f(5) [of i] that n by (simp add: b put_block_def put_blocks_fields log_writes_def slot_notin)
  qed
  have slt: "view b (?st + i + 1) = patch ?h i (view a (lh_block ?h ! i)) (view a (?st + i + 1))" if "i < n" for i
    using slot_store [of i n ?st ?h a "view a"] that n
    by (simp add: b put_block_def put_blocks_fields log_writes_def)
  have len1: "length (header1 l a) = BSIZE" using lo len by (simp add: header1_def)
  have "length (view b m) = BSIZE" for m
  proof -
    have "length (store (slot_writes ?st ?h a n) (view a) m) = BSIZE"
      by (rule store_length) (auto simp: slot_writes_def length_patch [OF e] len)
    then show ?thesis using len1 n by (simp add: b put_block_def put_blocks_fields log_writes_def)
  qed
  then have "fold (install_eff ?st h) [0..<n] b = put_blocks (home_writes h b n) b"
    using e nsz
    by (intro install_writes [where sz = "nat (lg_size l)"]) (auto simp: h nth_cksums blk slt eslice_patch [OF e] len)
  moreover have "home_writes h b n = home_writes ?h a n" using blk by (simp add: home_writes_def h)
  ultimately show "fold (install_eff ?st h) [0..<n] b = put_blocks (home_writes ?h a n) b" by simp
  show p: "pinned b = pinned a"
  proof -
    have "m \<notin> pinned a" if "?st \<le> m" "m \<le> ?st + n" for m
      using f(1) that nsz(1) unfolding slots_free_def by force
    then show ?thesis using n by (auto simp: b put_blocks_fields log_writes_def slot_writes_def)
  qed
  show "two_free (fold (install_eff ?st h) [0..<k] b) (lh_block h ! k)" if k: "k < n"
  proof -
    have "lh_block ?h ! k \<notin> (\<lambda>i. lh_block ?h ! i) ` set [0..<k]" using f(6) [of k] k n by force
    then have "lh_block h ! k \<in> pinned (fold (install_eff ?st h) [0..<k] b)"
      using f(4) [of k] k n p by (intro pinned_install_fold(2)) (simp_all add: h)
    moreover have "card (pinned (fold (install_eff ?st h) [0..<k] b)) \<le> card (pinned a)"
      using pinned_install_fold(1) [of ?st h "[0..<k]" b] p f(3) by (metis card_mono)
    ultimately show ?thesis using f(2) by (simp add: two_free_def)
  qed
qed

text \<open>What \<open>commit\<close> does when no fault injection is on.\<close>

lemma commit_spec:
  fixes s :: "'z lst_scheme"
  assumes inv: "binv Map.empty s" and area: "area_ok (jl s)" and tab: "crc32_table s = Some crc32_init"
    and rdy: "ready (jl s) (babs s)" and n: "0 < lh_n (lg_lh (jl s))"
    and ph: "crash_at_phase s \<notin> {1, 2, 3}"
  shows "\<exists>t. commit s = Ok () t \<and> binv Map.empty t \<and> jframe s t \<and> babs t = commit_eff (jl s) (babs s) \<and>
     jl t = (jl s)\<lparr>lg_lh := (with_cks (lg_lh (jl s)) (babs s) (nat (lh_n (lg_lh (jl s)))))\<lparr>lh_n := 0\<rparr>,
                   lg_batch_size := 0\<rparr>"
proof -
  let ?l = "jl s" and ?a = "babs s" let ?h = "lg_lh ?l" let ?n = "nat (lh_n ?h)"
  let ?hc = "with_cks ?h ?a ?n" let ?l1 = "?l\<lparr>lg_lh := ?hc\<rparr>"
  note f = ready_facts [OF rdy area]
  have hd: "head_ok ?l" and lo: "lh_ok ?h" using rdy by (simp_all add: ready_def head_ok_def)
  obtain s1 where 1: "write_log s = Ok () s1" "binv Map.empty s1" "jframe s s1" "jl s1 = ?l1"
      "babs s1 = put_blocks (log_writes ?l ?a) ?a"
    using write_log_spec [OF inv area tab hd f(1,2,4)] wlog_writes [of ?n "lg_start ?l" ?h ?a] f(5)
    by (auto simp: log_writes_def)
  obtain s2 where 2: "ideflush s1 = Ok () s2" "binv Map.empty s2" "bframe s1 s2" "babs s2 = add_flush (babs s1)"
    using ideflush_spec [OF 1(2)] by blast
  note l2 = lst_frame [OF 2(3)]
  let ?s3 = "s2\<lparr>jstats := (jstats s2)\<lparr>flush_barriers := flush_barriers (jstats s2) + 1\<rparr>\<rparr>"
  have area1: "area_ok ?l1" and lo1: "lh_ok ?hc" using area lo by (simp_all add: area_ok_def)
  let ?b = "put_block (lg_start ?l) (header1 ?l ?a) (add_flush (put_blocks (log_writes ?l ?a) ?a))"
  note inst = ready_install [OF rdy area bc.sizes [OF inv] refl refl refl]
  have st: "view (babs ?s3) (lg_start ?l) = view ?a (lg_start ?l)"
    using 1(5) 2(4) by (simp add: put_blocks_fields log_writes_def slot_notin)
  have c3: "card (pinned (babs ?s3)) < NBUF"
  proof -
    have "pinned (babs ?s3) \<subseteq> pinned ?a" using 1(5) 2(4) by (auto simp: put_blocks_fields)
    then show ?thesis using f(2,3) card_mono by (metis le_less_trans)
  qed
  obtain s4 where 4: "write_head ?s3 = Ok () s4" "binv Map.empty s4" "bframe ?s3 s4" "babs s4 = ?b"
    using write_head_spec [of ?s3] 2 1(4,5) l2 area1 lo1 c3 st by (auto simp: header1_def)
  note l4 = lst_frame [OF 4(3)]
  have j4: "jl s4 = ?l1" "crc32_table s4 = Some crc32_init" "crash_at_phase s4 = crash_at_phase s"
    using l4 l2 1(3,4) tab by (simp_all add: jframe_def)
  have "slots_free ?l1 (babs s4)" using f(1) 4(4) inst(3) by (simp add: slots_free_def)
  moreover have "head_ok ?l1" using hd by (simp add: head_ok_def)
  ultimately obtain s5 where 5: "install_trans s4 = Ok () s5" "binv Map.empty s5" "jframe s4 s5" "jl s5 = ?l1"
      "babs s5 = put_blocks (home_writes ?h ?a ?n) ?b"
    using install_trans_spec [OF 4(2)] j4 area1 inst(1,2) 4(4) by auto
  let ?hz = "?hc\<lparr>lh_n := 0\<rparr>" let ?l2 = "?l\<lparr>lg_lh := ?hz\<rparr>"
  let ?s6 = "s5\<lparr>jl := ?l2\<rparr>"
  have "header0 ?l ?a = put_head ?hz (view (babs s5) (lg_start ?l))"
  proof -
    have "lg_start ?l \<notin> fst ` set (home_writes ?h ?a ?n)"
      using hd area by (force simp: home_writes_def head_ok_def entry_ok_def area_ok_def)
    then show ?thesis using 5(5) by (simp add: put_blocks_fields store_notin header0_def put_block_def)
  qed
  moreover have "card (pinned (babs s5)) < NBUF"
  proof -
    have "pinned (babs s5) \<subseteq> pinned ?a" using 5(5) inst(3) by (auto simp: put_blocks_fields)
    then show ?thesis using f(2,3) card_mono by (metis le_less_trans)
  qed
  ultimately obtain s7 where 7: "write_head ?s6 = Ok () s7" "binv Map.empty s7" "bframe ?s6 s7"
      "babs s7 = put_block (lg_start ?l) (header0 ?l ?a) (babs s5)"
    using write_head_spec [of ?s6] 5(2) area lo by (auto simp: area_ok_def lh_ok_def)
  note l7 = lst_frame [OF 7(3)]
  let ?t = "s7\<lparr>jstats := commit_stats (lg_batch_size ?l) (jstats s7), jl := ?l2\<lparr>lg_batch_size := 0\<rparr>\<rparr>"
  have "commit s = Ok () ?t"
    using n ph 1(1,3) 2(1) l2 4(1) j4(3) 5(1,4) 7(1) l7
    by (simp add: commit_def set_stats_def set_lh_def set_log_def jframe_def)
  moreover have "babs ?t = commit_eff ?l ?a"
    using 7(4) 5(5) by (simp add: commit_eff_def final_writes_def)
  moreover have "jframe s ?t"
    using 1(3) jframe_bframe [OF 2(3)] jframe_bframe [OF 4(3)] 5(3) jframe_bframe [OF 7(3)]
    by (simp add: jframe_def)
  ultimately show ?thesis using 7(2) by (intro exI [of _ ?t]) simp
qed

section \<open>Recovery\<close>

definition lh_arrays :: "logheader \<Rightarrow> bool" where
  "lh_arrays h \<longleftrightarrow> length (lh_block h) = LOGSIZE \<and> length (lh_cksum h) = LOGSIZE \<and>
     length (lh_offset h) = LOGSIZE \<and> length (lh_len h) = LOGSIZE"

lemma get_entries:
  assumes "lh_arrays h"
  shows "k \<le> LOGSIZE \<Longrightarrow> lh_arrays (fold (get_entry d) [0..<k] h) \<and> lh_n (fold (get_entry d) [0..<k] h) = lh_n h \<and>
     (\<forall>i<k. lh_block (fold (get_entry d) [0..<k] h) ! i = dec_block d i \<and>
        lh_cksum (fold (get_entry d) [0..<k] h) ! i = dec_cksum d i \<and>
        lh_offset (fold (get_entry d) [0..<k] h) ! i = dec_offset d i \<and>
        lh_len (fold (get_entry d) [0..<k] h) ! i = dec_len d i)"
proof (induction k)
  case 0
  then show ?case using assms by simp
next
  case (Suc k)
  then show ?case by (auto simp: get_entry_def lh_arrays_def nth_list_update)
qed

lemma get_head_fields:
  assumes "lh_arrays h" "dec_n d \<le> int LOGSIZE"
  shows "lh_arrays (get_head d h)" "lh_n (get_head d h) = dec_n d"
    "i < nat (dec_n d) \<Longrightarrow> lh_block (get_head d h) ! i = dec_block d i"
    "i < nat (dec_n d) \<Longrightarrow> lh_cksum (get_head d h) ! i = dec_cksum d i"
    "i < nat (dec_n d) \<Longrightarrow> lh_offset (get_head d h) ! i = dec_offset d i"
    "i < nat (dec_n d) \<Longrightarrow> lh_len (get_head d h) ! i = dec_len d i"
proof -
  have a: "lh_arrays (h\<lparr>lh_n := dec_n d\<rparr>)" using assms(1) by (simp add: lh_arrays_def)
  have k: "nat (dec_n d) \<le> LOGSIZE" using assms(2) by simp
  show "lh_arrays (get_head d h)" "lh_n (get_head d h) = dec_n d"
    "i < nat (dec_n d) \<Longrightarrow> lh_block (get_head d h) ! i = dec_block d i"
    "i < nat (dec_n d) \<Longrightarrow> lh_cksum (get_head d h) ! i = dec_cksum d i"
    "i < nat (dec_n d) \<Longrightarrow> lh_offset (get_head d h) ! i = dec_offset d i"
    "i < nat (dec_n d) \<Longrightarrow> lh_len (get_head d h) ! i = dec_len d i"
    using get_entries [OF a k, of d] by (simp_all add: get_head_def)
qed

definition recover_eff :: "nat \<Rightarrow> logheader \<Rightarrow> bspec \<Rightarrow> bspec" where
  "recover_eff st h a =
     (let b = fold (install_eff st h) [0..<nat (lh_n h)] a in
      put_block st (put_head (h\<lparr>lh_n := 0\<rparr>) (view b st)) b)"

text \<open>The header on the disk lists ranges of blocks outside the log area, or nothing.\<close>

definition disk_head_ok :: "nat \<Rightarrow> nat \<Rightarrow> byte list \<Rightarrow> bool" where
  "disk_head_ok st sz d \<longleftrightarrow> dec_n d < int sz \<and>
     (\<forall>i < nat (dec_n d). dec_block d i < FSSIZE \<and> \<not> (st \<le> dec_block d i \<and> dec_block d i < st + sz) \<and>
        0 \<le> dec_offset d i \<and> 0 \<le> dec_len d i \<and> dec_offset d i + dec_len d i \<le> int BSIZE)"

lemma recover_spec:
  fixes s :: "'z lst_scheme"
  assumes inv: "binv Map.empty s" and area: "area_ok (jl s)" and tab: "crc32_table s = Some crc32_init"
    and arr: "lh_arrays (lg_lh (jl s))" and pin: "pinned (babs s) = {}"
    and hd: "disk_head_ok (lg_start (jl s)) (nat (lg_size (jl s))) (view (babs s) (lg_start (jl s)))"
  shows "\<exists>t. recover_from_log s = Ok () t \<and> binv Map.empty t \<and> jframe s t \<and>
     babs t = recover_eff (lg_start (jl s)) (get_head (view (babs s) (lg_start (jl s))) (lg_lh (jl s))) (babs s) \<and>
     lh_n (lg_lh (jl t)) = 0 \<and> lh_arrays (lg_lh (jl t)) \<and> jl t = (jl s)\<lparr>lg_lh := lg_lh (jl t)\<rparr>"
proof -
  let ?l = "jl s" and ?a = "babs s" let ?d = "view ?a (lg_start ?l)" let ?h = "get_head ?d (lg_lh ?l)"
  let ?l1 = "?l\<lparr>lg_lh := ?h\<rparr>"
  have n: "dec_n ?d \<le> int LOGSIZE" using hd area by (simp add: disk_head_ok_def area_ok_def)
  note g = get_head_fields [OF arr n]
  have zero: "card (pinned ?a) < NBUF" using pin by simp
  obtain s1 where 1: "read_head s = Ok () s1" "binv Map.empty s1" "jframe s s1" "babs s1 = ?a" "jl s1 = ?l1"
    using read_head_spec [OF inv area n zero] by blast
  let ?s2 = "if lh_n ?h > 0 then s1\<lparr>jstats := (jstats s1)\<lparr>total_recoveries := total_recoveries (jstats s1) + 1\<rparr>\<rparr> else s1"
  have two: "binv Map.empty ?s2" "jframe s ?s2" "babs ?s2 = ?a" "jl ?s2 = ?l1" "crc32_table ?s2 = Some crc32_init"
    using 1 tab by (auto simp: jframe_def)
  have "\<exists>u. install_trans ?s2 = Ok () u \<and> binv Map.empty u \<and> jframe ?s2 u \<and> jl u = ?l1 \<and>
      babs u = fold (install_eff (lg_start ?l) ?h) [0..<nat (lh_n ?h)] ?a"
  proof (cases "lh_n ?h < 0")
    case True
    then show ?thesis using two by (simp add: install_trans_def)
  next
    case False
    have "lh_ok ?h" using False n g(1,2) by (simp add: lh_ok_def lh_arrays_def)
    moreover have "entry_ok (lg_start ?l) (nat (lg_size ?l)) ?h i" if "i < nat (dec_n ?d)" for i
      using hd that g(3,5,6) [OF that] by (simp add: disk_head_ok_def entry_ok_def)
    ultimately have "head_ok ?l1" using hd area g(2) by (simp add: head_ok_def disk_head_ok_def area_ok_def)
    moreover have "two_free (fold (install_eff (lg_start ?l) ?h) [0..<k] ?a) b" for k b
      using pinned_install_fold(1) [of "lg_start ?l" ?h "[0..<k]" ?a] pin by (simp add: two_free_def)
    ultimately show ?thesis
      using install_trans_spec [OF two(1) _ two(5)] two(3,4) area pin by (simp add: area_ok_def slots_free_def)
  qed
  then obtain s3 where 3: "install_trans ?s2 = Ok () s3" "binv Map.empty s3" "jframe ?s2 s3" "jl s3 = ?l1"
      "babs s3 = fold (install_eff (lg_start ?l) ?h) [0..<nat (lh_n ?h)] ?a" by blast
  let ?l2 = "?l\<lparr>lg_lh := ?h\<lparr>lh_n := 0\<rparr>\<rparr>" let ?s4 = "s3\<lparr>jl := ?l2\<rparr>"
  have "pinned (babs s3) = {}"
    using 3(5) pinned_install_fold(1) [of "lg_start ?l" ?h _ ?a] pin by simp
  then obtain t where t: "write_head ?s4 = Ok () t" "binv Map.empty t" "bframe ?s4 t"
      "babs t = put_block (lg_start ?l) (put_head (?h\<lparr>lh_n := 0\<rparr>) (view (babs s3) (lg_start ?l))) (babs s3)"
    using write_head_spec [of ?s4] 3(2) area g(1) by (auto simp: area_ok_def lh_ok_def lh_arrays_def)
  have "recover_from_log s = Ok () t"
    using 1(1,5) 3(1,4) t(1)
    by (cases "lh_n ?h > 0") (simp_all add: recover_from_log_def set_stats_def set_lh_def set_log_def)
  moreover have "jframe s t" using jframe_trans [OF two(2) 3(3)] jframe_bframe [OF t(3)] jframe_trans [of s ?s4 t] by simp
  ultimately show ?thesis
    using t 3(5) lst_frame(1) [OF t(3)] g(1) by (simp add: recover_eff_def Let_def lh_arrays_def)
qed

text \<open>\<open>initlog\<close> at boot, with an empty cache.\<close>

lemma readsb_spec:
  assumes "binv Map.empty s" "pinned (babs s) = {}"
  shows "\<exists>t. readsb ROOTDEV s = Ok (dec_superblock (view (babs s) 1)) t \<and> binv Map.empty t \<and>
     babs t = babs s \<and> bframe s t"
  using bc.peek [OF assms(1), of 1 dec_superblock] assms(2) by (simp add: readsb_def room_def)

lemma initlog_spec:
  fixes s :: "'z lst_scheme"
  assumes inv: "binv Map.empty s" and arr: "lh_arrays (lg_lh (jl s))" and pin: "pinned (babs s) = {}"
    and sb: "dec_superblock (view (babs s) 1) = sb"
    and area: "0 < sb_nlog sb" "sb_nlog sb \<le> LOGSIZE" "sb_logstart sb + sb_nlog sb \<le> FSSIZE"
    and hd: "disk_head_ok (sb_logstart sb) (sb_nlog sb) (view (babs s) (sb_logstart sb))"
  shows "\<exists>t. initlog ROOTDEV s = Ok () t \<and> binv Map.empty t \<and>
     babs t = recover_eff (sb_logstart sb) (get_head (view (babs s) (sb_logstart sb)) (lg_lh (jl s))) (babs s) \<and>
     lh_n (lg_lh (jl t)) = 0 \<and> lh_arrays (lg_lh (jl t)) \<and> area_ok (jl t) \<and> crc32_table t = Some crc32_init \<and>
     lg_start (jl t) = sb_logstart sb \<and> lg_size (jl t) = int (sb_nlog sb)"
proof -
  obtain s1 where 1: "readsb ROOTDEV s = Ok sb s1" "binv Map.empty s1" "babs s1 = babs s" "bframe s s1"
    using readsb_spec [OF inv pin] sb by blast
  have sz: "sint (of_nat (sb_nlog sb) :: u32) = int (sb_nlog sb)"
    using sint_of_int_small [of "int (sb_nlog sb)"] area(2) by simp
  let ?l = "(jl s)\<lparr>lg_start := sb_logstart sb, lg_size := int (sb_nlog sb), lg_dev := ROOTDEV\<rparr>"
  let ?s2 = "s1\<lparr>jl := ?l, crc32_table := Some crc32_init, jstats := zero_stats\<rparr>"
  have "area_ok ?l" using area by (simp add: area_ok_def)
  then obtain t where t: "recover_from_log ?s2 = Ok () t" "binv Map.empty t" "jframe ?s2 t"
     "babs t = recover_eff (sb_logstart sb) (get_head (view (babs s) (sb_logstart sb)) (lg_lh (jl s))) (babs s)"
     "lh_n (lg_lh (jl t)) = 0" "lh_arrays (lg_lh (jl t))" "jl t = ?l\<lparr>lg_lh := lg_lh (jl t)\<rparr>"
    using recover_spec [of ?s2] 1(2,3) arr pin hd by auto
  have "initlog ROOTDEV s = Ok () t"
    using 1(1) t(1) lst_frame(1) [OF 1(4)] sz
    by (simp add: initlog_def sizeof_logheader_def set_log_def set_stats_def)
  moreover have f: "lg_start (jl t) = sb_logstart sb" "lg_size (jl t) = int (sb_nlog sb)" "lg_dev (jl t) = ROOTDEV"
    using arg_cong [OF t(7), of lg_start] arg_cong [OF t(7), of lg_size] arg_cong [OF t(7), of lg_dev] by simp_all
  moreover have "area_ok (jl t)" using area by (simp add: area_ok_def f)
  ultimately show ?thesis using t(2-6) by (simp add: jframe_def)
qed

end
