(* ===== verification/JCrash.thy ===== *)
theory JCrash
  imports JCommit
begin

text \<open>
  Crashes. The disk at a crash is the result of a prefix of the writes the driver issued
  (a disk that keeps their order) or of some of the writes after the last barrier (a disk
  with a write cache). \<open>reboot\<close> is the kernel's state when \<open>initlog\<close> runs at the next
  boot. The theorems say which file system contents recovery produces.
\<close>

section \<open>Disk images\<close>

definition apply_cmd :: "dcmd \<Rightarrow> (nat \<Rightarrow> byte list) \<Rightarrow> nat \<Rightarrow> byte list" where
  "apply_cmd c m = (case c of DWrite dev n d \<Rightarrow> if dev = ROOTDEV then m(n := d) else m | _ \<Rightarrow> m)"

definition disk_after :: "dcmd list \<Rightarrow> (nat \<Rightarrow> byte list) \<Rightarrow> nat \<Rightarrow> byte list" where
  "disk_after cs m = fold apply_cmd cs m"

lemma disk_after_simps [simp]:
  "disk_after [] m = m" "disk_after (cs @ ds) m = disk_after ds (disk_after cs m)"
  "disk_after (DFlush # cs) m = disk_after cs m" "disk_after (DWrite ROOTDEV n d # cs) m = disk_after cs (m(n := d))"
  by (simp_all add: disk_after_def apply_cmd_def)

lemma disk_after_writes [simp]: "disk_after (writes ws) m = store ws m"
  by (induction ws arbitrary: m) (auto simp: writes_def disk_after_def apply_cmd_def)

section \<open>Booting\<close>

text \<open>
  The state when the first process calls \<open>initlog\<close>: the buffers are those of the
  zero-initialised kernel after \<open>binit\<close>, the second disk was found by \<open>ideinit\<close>.
\<close>

definition zero_buf :: buf where
  "zero_buf = \<lparr>b_valid = False, b_dirty = False, b_dev = 0, b_blockno = 0, b_lock = initsleeplock,
     b_refcnt = 0, b_data = replicate BSIZE 0\<rparr>"

definition zero_lh :: logheader where
  "zero_lh = \<lparr>lh_n = 0, lh_block = replicate LOGSIZE 0, lh_cksum = replicate LOGSIZE 0,
     lh_offset = replicate LOGSIZE 0, lh_len = replicate LOGSIZE 0\<rparr>"

definition zero_log :: jlog where
  "zero_log = \<lparr>lg_start = 0, lg_size = 0, lg_outstanding = 0, lg_committing = False, lg_dev = 0,
     lg_batch_size = 0, lg_lh = zero_lh\<rparr>"

definition reboot :: "(nat \<Rightarrow> byte list) \<Rightarrow> lst" where
  "reboot m = \<lparr>held = [], ptable = (replicate NPROC zero_proc)[0 := zero_proc\<lparr>p_state := RUNNING, p_pid := 1\<rparr>],
     cur = Some 0, nextpid = 2, initproc = Some 0,
     bufs = replicate NBUF zero_buf, mru = rev [0..<NBUF], idequeue = [], havedisk1 = True,
     disk = (\<lambda>_. m), dcmds = [], badsec = (\<lambda>_ _. False),
     jl = zero_log, jstats = zero_stats, crash_at_phase = 0, crc32_table = None\<rparr>"

lemma reboot_binv:
  assumes "\<And>n. length (m n) = BSIZE"
  shows "binv Map.empty (reboot m)"
proof -
  have "quiet (reboot m)" by (simp add: quiet_def reboot_def)
  moreover have "bwf (reboot m)"
    using assms by (simp add: bwf_def cache_ok_def reboot_def buf_ok_def zero_buf_def lessThan_atLeast0)
  moreover have "bholds Map.empty (reboot m)"
    by (simp add: bholds_def slot_ok_def reboot_def zero_buf_def initsleeplock_def)
  ultimately show ?thesis by (simp add: binv_def)
qed

lemma reboot_babs:
  "view (babs (reboot m)) = m" "media (babs (reboot m)) = m" "pinned (babs (reboot m)) = {}"
proof -
  show "view (babs (reboot m)) = m"
  proof
    fix n
    have "bview (reboot m) n = disk (reboot m) ROOTDEV n"
      by (rule bview_uncached) (simp add: reboot_def zero_buf_def)
    then show "view (babs (reboot m)) n = m n" by (simp add: babs_def reboot_def)
  qed
  show "media (babs (reboot m)) = m" by (simp add: babs_def reboot_def)
  show "pinned (babs (reboot m)) = {}" by (auto simp: babs_def reboot_def dirty_blocks_def zero_buf_def)
qed

section \<open>What recovery installs\<close>

lemma install_recover:
  assumes e: "\<And>i. i < k \<Longrightarrow> entry_ok st sz h i" and k: "k < sz"
    and ck: "\<And>i. i < k \<Longrightarrow> lh_cksum h ! i = crc32 crc32_init (eslice h i (view a (st + i + 1)))"
    and new: "\<And>i. i < k \<Longrightarrow> patch h i (view a (st + i + 1)) (view a (lh_block h ! i)) = V (lh_block h ! i)"
      "\<And>i. i < k \<Longrightarrow> patch h i (view a (st + i + 1)) (V (lh_block h ! i)) = V (lh_block h ! i)"
  shows "view (fold (install_eff st h) [0..<k] a) x = (if \<exists>i<k. x = lh_block h ! i then V x else view a x) \<and>
     media (fold (install_eff st h) [0..<k] a) x = (if \<exists>i<k. x = lh_block h ! i then V x else media a x)"
  using assms
proof (induction k arbitrary: x)
  case (Suc k)
  let ?f = "fold (install_eff st h) [0..<k] a"
  have "view ?f y = (if \<exists>i<k. y = lh_block h ! i then V y else view a y) \<and>
      media ?f y = (if \<exists>i<k. y = lh_block h ! i then V y else media a y)" for y
    using Suc.prems by (intro Suc.IH) auto
  then have IHv: "view ?f y = (if \<exists>i<k. y = lh_block h ! i then V y else view a y)"
    and IHm: "media ?f y = (if \<exists>i<k. y = lh_block h ! i then V y else media a y)" for y by blast+
  have slot: "view ?f (st + k + 1) = view a (st + k + 1)"
  proof -
    have "lh_block h ! i \<noteq> st + k + 1" if "i < k" for i
      using Suc.prems(1) [of i] Suc.prems(2) that by (auto simp: entry_ok_def)
    then have "\<not> (\<exists>i<k. st + k + 1 = lh_block h ! i)" by metis
    then show ?thesis unfolding IHv by (rule if_not_P)
  qed
  have "patch h k (view ?f (st + k + 1)) (view ?f (lh_block h ! k)) = V (lh_block h ! k)"
    unfolding slot unfolding IHv using Suc.prems(4,5) [of k] by simp
  then have "install_eff st h k ?f = put_block (lh_block h ! k) (V (lh_block h ! k)) ?f"
    using Suc.prems(3) [of k] slot by (simp add: install_eff_def Let_def)
  then have f: "fold (install_eff st h) [0..<Suc k] a = put_block (lh_block h ! k) (V (lh_block h ! k)) ?f"
    by simp
  show ?case unfolding f by (cases "x = lh_block h ! k") (auto simp: put_block_def IHv IHm less_Suc_eq)
qed simp

section \<open>Recovering an image\<close>

text \<open>
  A file system image: all blocks have the size of a block and the super block places the
  log at \<open>st\<close> with \<open>sz\<close> blocks. \<open>home\<close> are the blocks outside the log.
\<close>

definition image_ok :: "nat \<Rightarrow> nat \<Rightarrow> (nat \<Rightarrow> byte list) \<Rightarrow> bool" where
  "image_ok st sz m \<longleftrightarrow> (\<forall>n. length (m n) = BSIZE) \<and> 1 < st \<and> 0 < sz \<and> sz \<le> LOGSIZE \<and> st + sz \<le> FSSIZE \<and>
     sb_logstart (dec_superblock (m 1)) = st \<and> sb_nlog (dec_superblock (m 1)) = sz"

definition home :: "nat \<Rightarrow> nat \<Rightarrow> nat \<Rightarrow> bool" where
  "home st sz b \<longleftrightarrow> \<not> (st \<le> b \<and> b < st + sz)"

text \<open>\<open>recovers m v\<close>: booting from the image \<open>m\<close> gives the file system \<open>v\<close>, with an empty log.\<close>

definition recovers :: "nat \<Rightarrow> nat \<Rightarrow> (nat \<Rightarrow> byte list) \<Rightarrow> (nat \<Rightarrow> byte list) \<Rightarrow> bool" where
  "recovers st sz m v \<longleftrightarrow> (\<exists>t. initlog ROOTDEV (reboot m) = Ok () t \<and> binv Map.empty t \<and>
     lh_n (lg_lh (jl t)) = 0 \<and> dec_n (media (babs t) st) = 0 \<and>
     (\<forall>b. home st sz b \<longrightarrow> media (babs t) b = v b \<and> view (babs t) b = v b))"

lemma zero_lh_arrays [simp]: "lh_arrays zero_lh"
  by (simp add: lh_arrays_def zero_lh_def)

text \<open>Booting runs \<open>recover_eff\<close> on the image.\<close>

lemma boot:
  assumes im: "image_ok st sz m" and hd: "disk_head_ok st sz (m st)"
    and h: "h = get_head (m st) zero_lh" and b: "b = fold (install_eff st h) [0..<nat (lh_n h)] (babs (reboot m))"
    and len: "length (view b st) = BSIZE"
    and v: "\<And>x. home st sz x \<Longrightarrow> media b x = v x \<and> view b x = v x"
  shows "recovers st sz m v"
proof -
  have inv: "binv Map.empty (reboot m)" using im by (intro reboot_binv) (simp add: image_ok_def)
  have jl: "lg_lh (jl (reboot m)) = zero_lh" by (simp add: reboot_def zero_log_def)
  obtain t where t: "initlog ROOTDEV (reboot m) = Ok () t" "binv Map.empty t" "lh_n (lg_lh (jl t)) = 0"
      "babs t = recover_eff st h (babs (reboot m))"
    using initlog_spec [OF inv _ reboot_babs(3) refl] im hd by (auto simp: reboot_babs jl image_ok_def h)
  have ok: "lh_ok (h\<lparr>lh_n := 0\<rparr>)"
  proof -
    have "dec_n (m st) \<le> int LOGSIZE" using hd im by (simp add: disk_head_ok_def image_ok_def)
    from get_head_fields(1) [OF zero_lh_arrays this] show ?thesis by (simp add: h lh_ok_def lh_arrays_def)
  qed
  have b': "babs t = put_block st (put_head (h\<lparr>lh_n := 0\<rparr>) (view b st)) b"
    using t(4) by (simp add: recover_eff_def b Let_def)
  have "dec_n (media (babs t) st) = 0" using dec_put_head(1) [OF ok len] by (simp add: b' put_block_def)
  moreover have "media (babs t) x = v x \<and> view (babs t) x = v x" if "home st sz x" for x
    using v [OF that] that im by (auto simp: b' put_block_def home_def image_ok_def)
  ultimately show ?thesis using t unfolding recovers_def by blast
qed

text \<open>With a clear header nothing is installed.\<close>

lemma recovers_clear:
  assumes "image_ok st sz m" "dec_n (m st) = 0"
  shows "recovers st sz m m"
proof (rule boot [OF assms(1) _ refl refl])
  have n: "lh_n (get_head (m st) zero_lh) = 0"
    using get_head_fields(2) [of zero_lh "m st"] assms(2) by simp
  show "disk_head_ok st sz (m st)" using assms by (simp add: disk_head_ok_def image_ok_def)
  show "length (view (fold (install_eff st (get_head (m st) zero_lh)) [0..<nat (lh_n (get_head (m st) zero_lh))] (babs (reboot m))) st) = BSIZE"
    using assms(1) by (simp add: n reboot_babs image_ok_def)
  show "media (fold (install_eff st (get_head (m st) zero_lh)) [0..<nat (lh_n (get_head (m st) zero_lh))] (babs (reboot m))) x = m x \<and>
      view (fold (install_eff st (get_head (m st) zero_lh)) [0..<nat (lh_n (get_head (m st) zero_lh))] (babs (reboot m))) x = m x" for x
    by (simp add: n reboot_babs)
qed

text \<open>The header written at the commit point reads back as the header in memory.\<close>

lemma read_header1:
  assumes r: "ready l a" and ar: "area_ok l" and len: "length (view a (lg_start l)) = BSIZE"
    and g: "g = get_head (header1 l a) zero_lh" and h: "h = lg_lh l" and n: "n = nat (lh_n h)"
  shows "disk_head_ok (lg_start l) (nat (lg_size l)) (header1 l a)" "lh_n g = lh_n h"
    "\<And>i. i < n \<Longrightarrow> lh_block g ! i = lh_block h ! i"
    "\<And>i. i < n \<Longrightarrow> lh_cksum g ! i = crc32 crc32_init (eslice h i (view a (lh_block h ! i)))"
    "\<And>i. i < n \<Longrightarrow> eslice g i = eslice h i" "\<And>i. i < n \<Longrightarrow> patch g i = patch h i"
    "\<And>i. i < n \<Longrightarrow> entry_ok (lg_start l) (nat (lg_size l)) g i"
proof -
  have hd: "head_ok l" and lo: "lh_ok h" using r h by (simp_all add: ready_def head_ok_def)
  have e: "entry_ok (lg_start l) (nat (lg_size l)) h i" if "i < n" for i
    using hd that h n by (simp add: head_ok_def)
  have lo': "lh_ok (with_cks h a n)" and ncs: "n \<le> length (lh_cksum h)"
    using lo n by (simp_all add: lh_ok_def nat_le_iff)
  note d = dec_put_head [OF lo' len, folded h n, simplified]
  have h1: "header1 l a = put_head (with_cks h a n) (view a (lg_start l))" by (simp add: header1_def h n)
  have dn: "dec_n (header1 l a) = lh_n h" unfolding h1 by (rule d(1))
  have bounds: "lh_block h ! i < 2 ^ 32" "- (2 ^ 31) \<le> lh_offset h ! i" "lh_offset h ! i < 2 ^ 31"
    "- (2 ^ 31) \<le> lh_len h ! i" "lh_len h ! i < 2 ^ 31" if "i < n" for i
    using e [OF that] by (auto simp: entry_ok_def)
  have de: "dec_block (header1 l a) i = lh_block h ! i" "dec_cksum (header1 l a) i = cksums h a n ! i"
    "dec_offset (header1 l a) i = lh_offset h ! i" "dec_len (header1 l a) i = lh_len h ! i" if "i < n" for i
    unfolding h1 using d(2-5) [of i] bounds [OF that] that n by simp_all
  have n30: "dec_n (header1 l a) \<le> int LOGSIZE" using lo dn by (simp add: lh_ok_def)
  note gf = get_head_fields [OF zero_lh_arrays n30, folded g]
  show "disk_head_ok (lg_start l) (nat (lg_size l)) (header1 l a)"
    using hd de e dn n h by (auto simp: disk_head_ok_def head_ok_def entry_ok_def)
  show "lh_n g = lh_n h" using gf(2) dn by simp
  have gi: "lh_block g ! i = lh_block h ! i" "lh_cksum g ! i = cksums h a n ! i"
    "lh_offset g ! i = lh_offset h ! i" "lh_len g ! i = lh_len h ! i" if "i < n" for i
    using gf(3-6) [of i] de [OF that] that dn n by simp_all
  show "lh_block g ! i = lh_block h ! i" if "i < n" for i by (rule gi(1) [OF that])
  show "lh_cksum g ! i = crc32 crc32_init (eslice h i (view a (lh_block h ! i)))" if "i < n" for i
    using gi(2) [OF that] nth_cksums [OF that ncs] by simp
  show es: "eslice g i = eslice h i" if "i < n" for i
    using gi [OF that] by (simp add: fun_eq_iff eslice_def)
  show "patch g i = patch h i" if "i < n" for i
    using gi [OF that] es [OF that] by (simp add: fun_eq_iff patch_def)
  show "entry_ok (lg_start l) (nat (lg_size l)) g i" if "i < n" for i
    using e [OF that] gi [OF that] by (simp add: entry_ok_def)
qed

text \<open>
  An image with the header of the commit point and intact log slots recovers to the new
  contents, whether or not a home block was already overwritten.
\<close>

lemma recovers_committed:
  assumes im: "image_ok st sz m" and st: "st = lg_start l" "sz = nat (lg_size l)"
    and r: "ready l a" and ar: "area_ok l" and len: "\<And>n. length (view a n) = BSIZE"
    and h: "h = lg_lh l" and n: "n = nat (lh_n h)"
    and hdr: "m st = header1 l a"
    and slots: "\<And>i. i < n \<Longrightarrow> m (st + i + 1) = patch h i (view a (lh_block h ! i)) (view a (st + i + 1))"
    and homes: "\<And>i. i < n \<Longrightarrow> m (lh_block h ! i) = view a (lh_block h ! i) \<or>
        patch h i (view a (lh_block h ! i)) (m (lh_block h ! i)) = view a (lh_block h ! i)"
    and other: "\<And>x. home st sz x \<Longrightarrow> x \<notin> pinned a \<Longrightarrow> m x = view a x"
  shows "recovers st sz m (view a)"
proof -
  define g where "g = get_head (header1 l a) zero_lh"
  note f = read_header1 [OF r ar len g_def h n, folded st]
  have e: "entry_ok st sz h i" if "i < n" for i
    using r that h n st by (simp add: ready_def head_ok_def)
  have nsz: "n < sz" using r n h st by (auto simp: ready_def head_ok_def lh_ok_def)
  have es: "eslice h i (m (st + i + 1)) = eslice h i (view a (lh_block h ! i))" if "i < n" for i
    using slots [OF that] eslice_patch [OF e [OF that]] len by simp
  have "patch h i (m (st + i + 1)) d = patch h i (view a (lh_block h ! i)) d" if "i < n" for i d
    using es [OF that] by (simp add: patch_def)
  moreover have "patch h i (view a (lh_block h ! i)) (view a (lh_block h ! i)) = view a (lh_block h ! i)" if "i < n" for i
    using patch_self [OF e [OF that] refl] len by simp
  ultimately have new: "patch h i (m (st + i + 1)) (m (lh_block h ! i)) = view a (lh_block h ! i)"
     "patch h i (m (st + i + 1)) (view a (lh_block h ! i)) = view a (lh_block h ! i)" if "i < n" for i
    using homes [OF that] that by auto
  let ?b = "fold (install_eff st g) [0..<n] (babs (reboot m))"
  have ins: "view ?b x = (if \<exists>i<n. x = lh_block g ! i then view a x else m x) \<and>
      media ?b x = (if \<exists>i<n. x = lh_block g ! i then view a x else m x)" for x
    using install_recover [of n st sz g "babs (reboot m)" "view a" x, unfolded reboot_babs] f(3-7) nsz es new
    by auto
  have "length (m st) = BSIZE" using im by (simp add: image_ok_def)
  then have "length (view ?b st) = BSIZE" using ins [of st] len by simp
  moreover have "media ?b x = view a x \<and> view ?b x = view a x" if hx: "home st sz x" for x
  proof (cases "x \<in> pinned a")
    case True
    then have "\<exists>i<n. x = lh_block g ! i"
      using r f(3) n h by (auto simp: ready_def in_set_conv_nth)
    then show ?thesis using ins [of x] by simp
  next
    case False
    then show ?thesis using ins [of x] other [OF hx] by simp
  qed
  ultimately show ?thesis
    using f(1,2) hdr n by (intro boot [OF im _ refl refl]) (simp_all add: g_def)
qed

section \<open>A crash during commit\<close>

text \<open>
  The ranges in the log cover every byte in which a cached block differs from the disk.
  This is what the callers of \<open>log_write\<close> have to provide.
\<close>

definition covered :: "jlog \<Rightarrow> bspec \<Rightarrow> bool" where
  "covered l a \<longleftrightarrow> (\<forall>i < nat (lh_n (lg_lh l)). \<forall>j < BSIZE.
     view a (lh_block (lg_lh l) ! i) ! j \<noteq> media a (lh_block (lg_lh l) ! i) ! j \<longrightarrow>
     lh_offset (lg_lh l) ! i \<le> int j \<and> int j < lh_offset (lg_lh l) ! i + lh_len (lg_lh l) ! i)"

definition committable :: "'z lst_scheme \<Rightarrow> bool" where
  "committable s \<longleftrightarrow> binv Map.empty s \<and> area_ok (jl s) \<and> crc32_table s = Some crc32_init \<and>
     ready (jl s) (babs s) \<and> 0 < lh_n (lg_lh (jl s)) \<and> crash_at_phase s = 0 \<and> covered (jl s) (babs s) \<and>
     dec_n (media (babs s) (lg_start (jl s))) = 0 \<and>
     image_ok (lg_start (jl s)) (nat (lg_size (jl s))) (media (babs s)) \<and> 1 \<notin> pinned (babs s)"

definition commit_trace :: "jlog \<Rightarrow> bspec \<Rightarrow> dcmd list" where
  "commit_trace l a = writes (log_writes l a) @ DFlush # writes (final_writes l a)"

lemma covered_patch:
  assumes "covered l a" "entry_ok st sz (lg_lh l) i" "i < nat (lh_n (lg_lh l))"
    and "length (view a (lh_block (lg_lh l) ! i)) = BSIZE" "length (media a (lh_block (lg_lh l) ! i)) = BSIZE"
  shows "patch (lg_lh l) i (view a (lh_block (lg_lh l) ! i)) (media a (lh_block (lg_lh l) ! i))
     = view a (lh_block (lg_lh l) ! i)"
proof (rule nth_equalityI)
  let ?h = "lg_lh l" let ?v = "view a (lh_block ?h ! i)" and ?m = "media a (lh_block ?h ! i)"
  show "length (patch ?h i ?v ?m) = length ?v" using assms by simp
  fix j assume "j < length (patch ?h i ?v ?m)"
  then have j: "j < BSIZE" using assms by simp
  have r: "nat (lh_offset ?h ! i) + nat (lh_len ?h ! i) \<le> BSIZE" by (rule entry_range [OF assms(2)])
  have ls: "length (eslice ?h i ?v) = nat (lh_len ?h ! i)" using assms by simp
  let ?o = "nat (lh_offset ?h ! i)" and ?n = "nat (lh_len ?h ! i)"
  have p: "patch ?h i ?v ?m ! j = (if ?o \<le> j \<and> j < ?o + ?n then eslice ?h i ?v ! (j - ?o) else ?m ! j)"
    using bsplice_nth [of ?o "eslice ?h i ?v" ?m j] r ls assms(5) j unfolding patch_def by metis
  show "patch ?h i ?v ?m ! j = ?v ! j"
  proof (cases "?o \<le> j \<and> j < ?o + ?n")
    case True
    then have "j - ?o < ?n" by linarith
    then have "eslice ?h i ?v ! (j - ?o) = ?v ! j"
      using bslice_nth [of ?o ?n ?v "j - ?o"] r assms(4) True by (simp add: eslice_def)
    then show ?thesis unfolding p using True by simp
  next
    case False
    have "0 \<le> lh_offset ?h ! i" "0 \<le> lh_len ?h ! i" using assms(2) by (simp_all add: entry_ok_def)
    with False have "\<not> (lh_offset ?h ! i \<le> int j \<and> int j < lh_offset ?h ! i + lh_len ?h ! i)" by linarith
    then have "?v ! j = ?m ! j" using assms(1,3) j unfolding covered_def by blast
    then show ?thesis unfolding p if_not_P [OF False] by simp
  qed
qed

lemma recovers_cong:
  "recovers st sz m v \<Longrightarrow> (\<And>b. home st sz b \<Longrightarrow> v b = v' b) \<Longrightarrow> recovers st sz m v'"
  unfolding recovers_def by metis

lemma image_ok_store:
  assumes "image_ok st sz m" "\<And>w. w \<in> set ws \<Longrightarrow> length (snd w) = BSIZE" "1 \<notin> fst ` set ws"
  shows "image_ok st sz (store ws m)"
  using assms store_length [of ws m] by (simp add: image_ok_def store_notin)

text \<open>Where the writes of a commit go.\<close>

lemma log_writes_blocks:
  assumes "w \<in> set (log_writes l a)"
  shows "lg_start l < fst w" "fst w \<le> lg_start l + nat (lh_n (lg_lh l))"
  using assms by (auto simp: log_writes_def slot_writes_def)

lemma log_writes_home:
  assumes "home (lg_start l) (nat (lg_size l)) b \<or> b = lg_start l" "head_ok l"
  shows "b \<notin> fst ` set (take k (log_writes l a))"
proof
  assume "b \<in> fst ` set (take k (log_writes l a))"
  then obtain w where "w \<in> set (log_writes l a)" "b = fst w" by (meson image_iff in_set_takeD)
  then show False
    using log_writes_blocks [of w l a] assms by (auto simp: home_def head_ok_def lh_ok_def)
qed

text \<open>Before the header is written the image recovers to the old contents.\<close>

lemma crash_before_header:
  assumes c: "committable s" and l: "l = jl s" and a: "a = babs s" and ws: "set ws \<subseteq> set (log_writes l a)"
  shows "recovers (lg_start l) (nat (lg_size l)) (store ws (media a)) (media a)"
proof -
  let ?st = "lg_start l" and ?sz = "nat (lg_size l)"
  have inv: "binv Map.empty s" and hd: "head_ok l" and im: "image_ok ?st ?sz (media a)"
    and n0: "dec_n (media a ?st) = 0"
    using c by (simp_all add: committable_def ready_def l a)
  have st: "1 < ?st" using im by (simp add: image_ok_def)
  have out: "b \<notin> fst ` set ws" if "home ?st ?sz b \<or> b = ?st" for b
    using log_writes_home [OF that hd, of "length (log_writes l a)" a] ws by auto
  have "length (snd w) = BSIZE" if "w \<in> set ws" for w
    using subsetD [OF ws that] hd bc.sizes [OF inv]
    by (auto simp: log_writes_def slot_writes_def head_ok_def a intro!: length_patch)
  then have "image_ok ?st ?sz (store ws (media a))"
    using im out [of 1] st by (intro image_ok_store) (auto simp: home_def)
  moreover have "store ws (media a) ?st = media a ?st" using out by (intro store_notin) simp
  ultimately have "recovers ?st ?sz (store ws (media a)) (store ws (media a))"
    using n0 by (intro recovers_clear) simp_all
  then show ?thesis by (rule recovers_cong) (rule store_notin, simp add: out)
qed

text \<open>The shape of a commit: sizes and destinations of its writes.\<close>

lemma commit_shape:
  assumes c: "committable s" and l: "l = jl s" and a: "a = babs s"
    and st: "st = lg_start l" and sz: "sz = nat (lg_size l)" and h: "h = lg_lh l" and n: "n = nat (lh_n h)"
  shows "ready l a" "area_ok l" "\<And>x. length (view a x) = BSIZE" "\<And>i. i < n \<Longrightarrow> entry_ok st sz h i"
    "length (header1 l a) = BSIZE" "length (header0 l a) = BSIZE" "dec_n (header0 l a) = 0"
    "\<And>b. b \<in> fst ` set (home_writes h a n) \<Longrightarrow> b \<in> pinned a" "st \<notin> fst ` set (home_writes h a n)"
    "\<And>x. home st sz x \<Longrightarrow> store (log_writes l a) (media a) x = media a x"
    "\<And>x. x \<notin> pinned a \<Longrightarrow> media a x = view a x"
    "\<And>j. image_ok st sz (store (take j (final_writes l a)) (store (log_writes l a) (media a)))"
proof -
  have inv: "binv Map.empty s" and p1: "1 \<notin> pinned a" and im: "image_ok st sz (media a)"
    using c by (simp_all add: committable_def l a st sz)
  show r: "ready l a" and ar: "area_ok l" using c by (simp_all add: committable_def l a)
  have hd: "head_ok l" using r by (simp add: ready_def)
  note f = ready_facts [OF r ar]
  show len: "length (view a x) = BSIZE" for x using bc.sizes [OF inv] a by simp
  show e: "entry_ok st sz h i" if "i < n" for i using hd that by (simp add: head_ok_def st sz h n)
  have lo: "lh_ok (with_cks h a n)" using hd by (simp add: head_ok_def h)
  show h1: "length (header1 l a) = BSIZE"
    unfolding header1_def h [symmetric] n [symmetric] by (rule length_put_head [OF lo len])
  have z: "lh_ok ((with_cks h a n)\<lparr>lh_n := 0\<rparr>)" using lo by (simp add: lh_ok_def)
  show h0: "length (header0 l a) = BSIZE" and "dec_n (header0 l a) = 0"
    unfolding header0_def h [symmetric] n [symmetric]
    using length_put_head [OF z h1] dec_put_head(1) [OF z h1] by simp_all
  show hw: "b \<in> pinned a" if "b \<in> fst ` set (home_writes h a n)" for b
    using that f(4) by (auto simp: home_writes_def h n)
  have big: "1 < st" "0 < sz" using im by (simp_all add: image_ok_def)
  show sth: "st \<notin> fst ` set (home_writes h a n)"
    using hw [of st] f(1) big(2) unfolding slots_free_def st sz by force
  show "store (log_writes l a) (media a) x = media a x" if "home st sz x" for x
    using log_writes_home [of l x "length (log_writes l a)" a] that hd by (intro store_notin) (simp add: st sz)
  show "media a x = view a x" if "x \<notin> pinned a" for x
    using bc.clean [OF inv] that a by simp
  have lw: "length (snd w) = BSIZE" if "w \<in> set (log_writes l a)" for w
    using that e len unfolding log_writes_def slot_writes_def h [symmetric] n [symmetric]
    by (auto intro!: length_patch)
  have fw: "length (snd w) = BSIZE" if "w \<in> set (final_writes l a)" for w
    using that len h1 h0 by (auto simp: final_writes_def home_writes_def)
  have "1 \<notin> fst ` set (log_writes l a)"
    using log_writes_home [of l 1 "length (log_writes l a)" a] hd big by (simp add: home_def st)
  moreover have "1 \<notin> fst ` set (final_writes l a)"
    using hw [of 1] p1 big by (auto simp: final_writes_def st h n)
  ultimately show "image_ok st sz (store (take j (final_writes l a)) (store (log_writes l a) (media a)))" for j
    using im lw fw by (intro image_ok_store) (auto dest!: in_set_takeD)
qed

text \<open>The disk after all writes of a commit.\<close>

lemma final_image:
  assumes c: "committable s" and l: "l = jl s" and a: "a = babs s"
  shows "store (final_writes l a) m (lg_start l) = header0 l a"
    and "home (lg_start l) (nat (lg_size l)) x \<Longrightarrow> (x \<notin> pinned a \<Longrightarrow> m x = view a x) \<Longrightarrow>
      store (final_writes l a) (store (log_writes l a) m) x = view a x"
proof -
  let ?st = "lg_start l" and ?sz = "nat (lg_size l)" and ?h = "lg_lh l" let ?n = "nat (lh_n ?h)"
  let ?hw = "home_writes ?h a ?n"
  note f = commit_shape [OF c l a refl refl refl refl]
  show "store (final_writes l a) m ?st = header0 l a" by (simp add: final_writes_def)
  assume x: "home ?st ?sz x" and m: "x \<notin> pinned a \<Longrightarrow> m x = view a x"
  have hw: "store ?hw m x = (if x \<in> fst ` set ?hw then view a x else m x)" for m x
    by (rule store_fun) (auto simp: home_writes_def)
  have "x \<noteq> ?st" using x f(12) [of 0] by (auto simp: home_def image_ok_def)
  moreover have "store (log_writes l a) m x = m x"
    using log_writes_home [of l x "length (log_writes l a)" a] x f(1) by (intro store_notin) (simp add: ready_def)
  ultimately have "store (final_writes l a) (store (log_writes l a) m) x = (if x \<in> fst ` set ?hw then view a x else m x)"
    by (simp add: final_writes_def hw)
  moreover have "x \<notin> pinned a" if "x \<notin> fst ` set ?hw"
    using that f(1) by (force simp: ready_def home_writes_def in_set_conv_nth image_iff)
  ultimately show "store (final_writes l a) (store (log_writes l a) m) x = view a x" using m by auto
qed

text \<open>Once the header is written the image recovers to the new contents.\<close>

lemma crash_after_header:
  assumes c: "committable s" and l: "l = jl s" and a: "a = babs s"
  shows "recovers (lg_start l) (nat (lg_size l))
    (store (take (Suc k) (final_writes l a)) (store (log_writes l a) (media a))) (view a)"
proof -
  let ?st = "lg_start l" and ?sz = "nat (lg_size l)" and ?h = "lg_lh l" let ?n = "nat (lh_n ?h)"
  let ?hw = "home_writes ?h a ?n" let ?m = "store (log_writes l a) (media a)"
  note f = commit_shape [OF c l a refl refl refl refl]
  show ?thesis
  proof (cases "k \<le> ?n")
    case True
    let ?i = "store (take k ?hw) (?m(?st := header1 l a))"
    have tk: "store (take (Suc k) (final_writes l a)) ?m = ?i"
      using True by (simp add: final_writes_def home_writes_def)
    have hwk: "fst ` set (take k ?hw) \<subseteq> fst ` set ?hw" by (auto dest: in_set_takeD)
    have i: "?i x = (if x \<in> fst ` set (take k ?hw) then view a x else (?m(?st := header1 l a)) x)" for x
      by (rule store_fun) (auto simp: home_writes_def dest: in_set_takeD)
    have nst: "x \<notin> fst ` set (take k ?hw)" if "\<not> home ?st ?sz x" for x
      using that hwk f(8) ready_facts(1) [OF f(1,2)] by (auto simp: home_def slots_free_def)
    have nsz: "?n < ?sz" using f(1) by (auto simp: ready_def head_ok_def lh_ok_def)
    have "recovers ?st ?sz ?i (view a)"
    proof (rule recovers_committed [OF _ refl refl f(1,2,3) refl refl])
      show "image_ok ?st ?sz ?i" using f(12) [of "Suc k"] tk by simp
      show "?i ?st = header1 l a" unfolding i using nst [of ?st] nsz by (simp add: home_def)
      show "?i x = view a x" if "home ?st ?sz x" "x \<notin> pinned a" for x
        unfolding i using f(10,11) that nsz by (auto simp: home_def)
      fix j assume j: "j < ?n"
      show "?i (?st + j + 1) = patch ?h j (view a (lh_block ?h ! j)) (view a (?st + j + 1))"
        unfolding i using nst [of "?st + j + 1"] nsz j slot_store [OF j]
        by (simp add: home_def log_writes_def)
      have e: "entry_ok ?st ?sz ?h j" by (rule f(4) [OF j])
      have hj: "home ?st ?sz (lh_block ?h ! j)" "lh_block ?h ! j \<noteq> ?st"
        using e nsz by (auto simp: entry_ok_def home_def)
      have "covered l a" "length (media a x) = BSIZE" for x
        using c by (simp_all add: committable_def image_ok_def l a)
      then have "patch ?h j (view a (lh_block ?h ! j)) (media a (lh_block ?h ! j)) = view a (lh_block ?h ! j)"
        using covered_patch [OF _ e j] f(3) by simp
      then show "?i (lh_block ?h ! j) = view a (lh_block ?h ! j) \<or>
          patch ?h j (view a (lh_block ?h ! j)) (?i (lh_block ?h ! j)) = view a (lh_block ?h ! j)"
        unfolding i using f(10) [OF hj(1)] hj(2) by simp
    qed
    then show ?thesis using tk by simp
  next
    case False
    then have all: "take (Suc k) (final_writes l a) = final_writes l a"
      by (simp add: final_writes_def home_writes_def)
    let ?i = "store (final_writes l a) ?m"
    have "?i ?st = header0 l a" by (rule final_image [OF c l a])
    then have "recovers ?st ?sz ?i ?i" using f(7) f(12) [of "Suc k"] all by (intro recovers_clear) simp_all
    moreover have "?i x = view a x" if "home ?st ?sz x" for x
      by (rule final_image(2) [OF c l a that]) (rule f(11))
    ultimately show ?thesis using recovers_cong all by metis
  qed
qed

section \<open>Disks with a write cache\<close>

text \<open>
  \<open>survives cs ds\<close>: of the commands \<open>cs\<close> sent to a drive with a write cache, the commands
  up to a barrier and some of those after it took effect.
\<close>

definition survives :: "dcmd list \<Rightarrow> dcmd list \<Rightarrow> bool" where
  "survives cs ds \<longleftrightarrow> (\<exists>as bs rs. cs = as @ bs \<and> DFlush \<notin> set bs \<and> (as = [] \<or> last as = DFlush) \<and>
     set rs \<subseteq> set bs \<and> distinct rs \<and> ds = as @ rs)"

lemma length_log_writes [simp]: "length (log_writes l a) = nat (lh_n (lg_lh l))"
  by (simp add: log_writes_def slot_writes_def)

lemma flush_notin_writes [simp]: "DFlush \<notin> set (writes ws)"
  by (auto simp: writes_def)

lemma commit_trace_spec:
  assumes "committable s"
  shows "\<exists>t. commit s = Ok () t \<and> binv Map.empty t \<and> jframe s t \<and> babs t = commit_eff (jl s) (babs s) \<and>
     wtrace (babs t) = wtrace (babs s) @ commit_trace (jl s) (babs s) \<and>
     lh_n (lg_lh (jl t)) = 0 \<and> lg_outstanding (jl t) = lg_outstanding (jl s)"
proof -
  obtain t where t: "commit s = Ok () t" "binv Map.empty t" "jframe s t" "babs t = commit_eff (jl s) (babs s)"
     "jl t = (jl s)\<lparr>lg_lh := (with_cks (lg_lh (jl s)) (babs s) (nat (lh_n (lg_lh (jl s)))))\<lparr>lh_n := 0\<rparr>,
                   lg_batch_size := 0\<rparr>"
    using commit_spec [of s] assms by (auto simp: committable_def)
  moreover have "wtrace (babs t) = wtrace (babs s) @ commit_trace (jl s) (babs s)"
    using t(4) by (simp add: commit_eff_def commit_trace_def put_blocks_fields add_flush_def)
  ultimately show ?thesis by simp
qed

lemma commit_home:
  assumes "committable s"
  shows "\<exists>t. commit s = Ok () t \<and> binv Map.empty t \<and> pinned (babs t) = {} \<and>
     lh_n (lg_lh (jl t)) = 0 \<and> dec_n (media (babs t) (lg_start (jl s))) = 0 \<and>
     (\<forall>b. home (lg_start (jl s)) (nat (lg_size (jl s))) b \<longrightarrow>
        media (babs t) b = view (babs s) b \<and> view (babs t) b = view (babs s) b)"
proof -
  let ?l = "jl s" and ?a = "babs s"
  note f = commit_shape [OF assms refl refl refl refl refl refl]
  obtain t where t: "commit s = Ok () t" "binv Map.empty t" "babs t = commit_eff ?l ?a" "lh_n (lg_lh (jl t)) = 0"
    using commit_trace_spec [OF assms] by blast
  have "pinned ?a \<subseteq> fst ` set (final_writes ?l ?a)"
    using f(1) by (force simp: ready_def final_writes_def home_writes_def in_set_conv_nth image_iff)
  then have "pinned (babs t) = {}" using t(3) by (auto simp: commit_eff_def put_blocks_fields)
  moreover have "dec_n (media (babs t) (lg_start ?l)) = 0"
    using f(7) final_image(1) [OF assms refl refl] t(3) by (simp add: commit_eff_def put_blocks_fields)
  ultimately show ?thesis
    using t final_image(2) [OF assms refl refl] f(11) by (intro exI [of _ t]) (simp add: commit_eff_def put_blocks_fields)
qed

text \<open>The images of a disk that keeps the order of writes.\<close>

lemma prefix_images:
  assumes c: "committable s"
  shows "recovers (lg_start (jl s)) (nat (lg_size (jl s)))
     (disk_after (take k (commit_trace (jl s) (babs s))) (media (babs s)))
     (if k < nat (lh_n (lg_lh (jl s))) + 2 then media (babs s) else view (babs s))"
proof -
  let ?l = "jl s" and ?a = "babs s" let ?n = "nat (lh_n (lg_lh ?l))"
  consider "k \<le> ?n" | "k = ?n + 1" | j where "k = ?n + 2 + j"
    by (metis add.assoc le_Suc_eq less_eqE not_less_eq_eq one_add_one plus_1_eq_Suc add.commute)
  then show ?thesis
  proof cases
    case 1
    then have "take k (commit_trace ?l ?a) = writes (take k (log_writes ?l ?a))"
      by (simp add: commit_trace_def writes_def take_map)
    then show ?thesis using crash_before_header [OF c refl refl] 1 by (simp add: set_take_subset)
  next
    case 2
    then have "take k (commit_trace ?l ?a) = writes (log_writes ?l ?a) @ [DFlush]"
      by (simp add: commit_trace_def writes_def One_nat_def)
    then show ?thesis using crash_before_header [OF c refl refl] 2 by simp
  next
    case 3
    then have "take k (commit_trace ?l ?a) = writes (log_writes ?l ?a) @ DFlush # writes (take (Suc j) (final_writes ?l ?a))"
      by (simp add: commit_trace_def writes_def take_map)
    then show ?thesis using crash_after_header [OF c refl refl, of j] 3 by simp
  qed
qed

lemma writes_subset:
  assumes "set rs \<subseteq> set (writes ws)"
  shows "\<exists>vs. rs = writes vs \<and> set vs \<subseteq> set ws"
  using assms
proof (induction rs)
  case Nil
  then show ?case by (intro exI [of _ "[]"]) (simp add: writes_def)
next
  case (Cons r rs)
  then obtain vs where "rs = writes vs" "set vs \<subseteq> set ws" by auto
  moreover obtain w where "w \<in> set ws" "r = DWrite ROOTDEV (fst w) (snd w)"
    using Cons.prems by (auto simp: writes_def)
  ultimately show ?case by (intro exI [of _ "w # vs"]) (simp add: writes_def split: prod.split)
qed

lemma survives_split:
  assumes "survives (ps @ DFlush # qs) ds" "DFlush \<notin> set ps" "DFlush \<notin> set qs"
  shows "\<exists>rs. ds = ps @ DFlush # rs \<and> set rs \<subseteq> set qs \<and> distinct rs"
proof -
  obtain as bs rs where s: "ps @ DFlush # qs = as @ bs" "DFlush \<notin> set bs" "as = [] \<or> last as = DFlush"
    "set rs \<subseteq> set bs" "distinct rs" "ds = as @ rs"
    using assms(1) by (auto simp: survives_def)
  have "as \<noteq> []" using s(1,2) by (auto simp: append_eq_Cons_conv)
  then obtain cs where as: "as = cs @ [DFlush]" using s(3) by (metis append_butlast_last_id)
  have "ps = cs \<and> qs = bs" using s(1) as append_Cons_eq_iff [OF assms(2,3)] by simp
  then show ?thesis using s as by auto
qed

lemma survives_writes:
  assumes "survives (writes ws) ds"
  shows "\<exists>vs. ds = writes vs \<and> set vs \<subseteq> set ws"
proof -
  obtain as bs rs where s: "writes ws = as @ bs" "as = [] \<or> last as = DFlush" "set rs \<subseteq> set bs" "ds = as @ rs"
    using assms by (auto simp: survives_def)
  have "as = []"
  proof (rule ccontr)
    assume "as \<noteq> []"
    then have "DFlush \<in> set (writes ws)" using s(1,2) last_in_set [of as] by auto
    then show False by simp
  qed
  then show ?thesis using s writes_subset [of rs ws] by simp
qed

lemma cache_images:
  assumes c: "committable s" and k: "k \<le> nat (lh_n (lg_lh (jl s))) + 2"
    and d: "survives (take k (commit_trace (jl s) (babs s))) ds"
  shows "recovers (lg_start (jl s)) (nat (lg_size (jl s))) (disk_after ds (media (babs s))) (media (babs s)) \<or>
     (k = nat (lh_n (lg_lh (jl s))) + 2 \<and>
      recovers (lg_start (jl s)) (nat (lg_size (jl s))) (disk_after ds (media (babs s))) (view (babs s)))"
proof -
  let ?l = "jl s" and ?a = "babs s" let ?n = "nat (lh_n (lg_lh ?l))"
  let ?L = "writes (log_writes ?l ?a)"
  consider "k \<le> ?n" | "k = ?n + 1" | "k = ?n + 2" using k by linarith
  then show ?thesis
  proof cases
    case 1
    then have "take k (commit_trace ?l ?a) = writes (take k (log_writes ?l ?a))"
      by (simp add: commit_trace_def writes_def take_map)
    then obtain vs where "ds = writes vs" "set vs \<subseteq> set (take k (log_writes ?l ?a))"
      using survives_writes [of "take k (log_writes ?l ?a)" ds] d by auto
    moreover from this(2) have "set vs \<subseteq> set (log_writes ?l ?a)" by (rule subset_trans) (rule set_take_subset)
    ultimately show ?thesis using crash_before_header [OF c refl refl, of vs] by simp
  next
    case 2
    then have "take k (commit_trace ?l ?a) = ?L @ DFlush # []"
      by (simp add: commit_trace_def writes_def One_nat_def)
    then have "ds = ?L @ [DFlush]" using survives_split [of ?L "[]" ds] d by simp
    then show ?thesis using crash_before_header [OF c refl refl, of "log_writes ?l ?a"] by simp
  next
    case 3
    let ?w = "DWrite ROOTDEV (lg_start ?l) (header1 ?l ?a)"
    have "take k (commit_trace ?l ?a) = ?L @ DFlush # [?w]"
      using 3 by (simp add: commit_trace_def writes_def final_writes_def numeral_2_eq_2)
    then obtain rs where rs: "ds = ?L @ DFlush # rs" "set rs \<subseteq> {?w}" "distinct rs"
      using survives_split [of ?L "[?w]" ds] d by auto
    have "rs = [] \<or> rs = [?w]" using rs(2,3) by (cases rs) (auto simp: subset_singleton_iff)
    then consider "rs = []" | "rs = [?w]" by blast
    then show ?thesis
    proof cases
      case 1
      then show ?thesis using crash_before_header [OF c refl refl, of "log_writes ?l ?a"] rs(1) by simp
    next
      case 2
      then show ?thesis using crash_after_header [OF c refl refl, of 0] rs(1) 3 by (simp add: final_writes_def)
    qed
  qed
qed



section \<open>An example\<close>

text \<open>
  A transaction that changes blocks 100 and 101 of an otherwise empty disk, about to
  commit; the log has its 30 blocks from block 2 on.
\<close>

definition demo_disk :: "nat \<Rightarrow> byte list" where
  "demo_disk n = (if n = 1 then put32 (put32 (replicate BSIZE 0) 12 30) 16 2 else replicate BSIZE 0)"

definition demo_buf :: "nat \<Rightarrow> byte \<Rightarrow> buf" where
  "demo_buf n c = zero_buf\<lparr>b_valid := True, b_dirty := True, b_dev := ROOTDEV, b_blockno := n,
     b_data := replicate BSIZE c\<rparr>"

definition demo_lh :: logheader where
  "demo_lh = zero_lh\<lparr>lh_n := 2, lh_block := (replicate LOGSIZE 0)[0 := 100, 1 := 101],
     lh_len := (replicate LOGSIZE 0)[0 := int BSIZE, 1 := int BSIZE]\<rparr>"

definition demo :: lst where
  "demo = (reboot demo_disk)\<lparr>bufs := (replicate NBUF zero_buf)[0 := demo_buf 100 1, 1 := demo_buf 101 2],
     jl := zero_log\<lparr>lg_start := 2, lg_size := 30, lg_dev := ROOTDEV, lg_lh := demo_lh\<rparr>, crc32_table := Some crc32_init\<rparr>"

lemma length_demo_disk [simp]: "length (demo_disk n) = BSIZE"
  by (simp add: demo_disk_def)

lemma demo_nth:
  "i < NBUF \<Longrightarrow> bufs demo ! i = (if i = 0 then demo_buf 100 1 else if i = 1 then demo_buf 101 2 else zero_buf)"
  by (simp add: demo_def nth_list_update)

lemma demo_fields [simp]:
  "length (bufs demo) = NBUF" "mru demo = rev [0..<NBUF]" "disk demo = (\<lambda>_. demo_disk)" "held demo = []"
  "lg_lh (jl demo) = demo_lh" "lg_start (jl demo) = 2" "lg_size (jl demo) = 30" "lg_dev (jl demo) = ROOTDEV"
  "crc32_table demo = Some crc32_init" "crash_at_phase demo = 0"
  by (simp_all add: demo_def reboot_def)

lemma demo_lh_fields [simp]:
  "lh_n demo_lh = 2" "lh_block demo_lh ! 0 = 100" "lh_block demo_lh ! 1 = 101" "length (lh_block demo_lh) = LOGSIZE"
  "lh_offset demo_lh ! 0 = 0" "lh_offset demo_lh ! 1 = 0" "lh_len demo_lh ! 0 = 512" "lh_len demo_lh ! 1 = 512"
  "length (lh_cksum demo_lh) = LOGSIZE" "length (lh_offset demo_lh) = LOGSIZE" "length (lh_len demo_lh) = LOGSIZE"
  by (simp_all add: demo_lh_def zero_lh_def)

lemma demo_bwf: "bwf demo"
proof -
  have "buf_ok (bufs demo ! i)" if "i < NBUF" for i
    using that by (simp add: demo_nth buf_ok_def demo_buf_def zero_buf_def)
  moreover have "i = j" if "i < NBUF" "j < NBUF" "b_valid (bufs demo ! i)" "b_valid (bufs demo ! j)"
      "b_blockno (bufs demo ! i) = b_blockno (bufs demo ! j)" for i j
    using that by (simp add: demo_nth demo_buf_def zero_buf_def split: if_splits)
  ultimately show ?thesis
    by (simp add: bwf_def cache_ok_def lessThan_atLeast0)
qed

lemma demo_binv: "binv Map.empty demo"
proof -
  have "quiet demo" by (simp add: quiet_def demo_def reboot_def)
  moreover have "bholds Map.empty demo"
    by (simp add: bholds_def slot_ok_def demo_nth demo_buf_def zero_buf_def initsleeplock_def)
  ultimately show ?thesis using demo_bwf by (simp add: binv_def)
qed

lemma demo_babs:
  "media (babs demo) = demo_disk" "pinned (babs demo) = {100, 101}"
  "view (babs demo) 100 = replicate BSIZE 1" "view (babs demo) 101 = replicate BSIZE 2"
proof -
  show "media (babs demo) = demo_disk" by (simp add: babs_def)
  have "dirty_blocks demo = {100, 101}"
  proof (intro set_eqI iffI)
    fix n assume "n \<in> dirty_blocks demo"
    then obtain i where "i < NBUF" "b_dirty (bufs demo ! i)" "n = b_blockno (bufs demo ! i)"
      unfolding dirty_blocks_nth by auto
    then show "n \<in> {100, 101}" by (simp add: demo_nth demo_buf_def zero_buf_def split: if_splits)
  next
    fix n :: nat assume "n \<in> {100, 101}"
    then show "n \<in> dirty_blocks demo"
      using dirty_iff [OF demo_bwf, of 0 100] dirty_iff [OF demo_bwf, of 1 101]
      by (auto simp: demo_nth demo_buf_def)
  qed
  then show "pinned (babs demo) = {100, 101}" by (simp add: babs_def)
  show "view (babs demo) 100 = replicate BSIZE 1" "view (babs demo) 101 = replicate BSIZE 2"
    using bview_cached [OF demo_bwf, of 0] bview_cached [OF demo_bwf, of 1]
    by (simp_all add: demo_nth demo_buf_def babs_def)
qed

lemma demo_committable: "committable demo"
proof -
  have two: "i < 2 \<longleftrightarrow> i = 0 \<or> i = 1" for i :: nat by linarith
  have "take 2 (lh_block demo_lh) = [100, 101]"
    by (rule nth_equalityI) (auto simp: two nth_Cons')
  then have "ready (jl demo) (babs demo)"
    by (auto simp: ready_def head_ok_def lh_ok_def entry_ok_def two demo_babs)
  moreover have "covered (jl demo) (babs demo)"
    by (auto simp: covered_def two)
  moreover have "dec_n (demo_disk 2) = 0"
    by (simp add: dec_n_def demo_disk_def get32_def fetchw_def bslice_def u32_of_bytes_def)
  moreover have "image_ok 2 30 demo_disk"
    by (simp add: image_ok_def) (simp add: demo_disk_def dec_superblock_def)
  ultimately show ?thesis
    using demo_binv by (simp add: committable_def demo_babs area_ok_def)
qed

section \<open>Properties\<close>

text \<open>
  C2: Crash atomicity of the journal. Take any state ready to commit. \<open>commit\<close> returns and
  sends a fixed sequence of commands to the disk; if the machine stops after any prefix of
  it, the next boot's \<open>initlog\<close> returns with an empty log and a file system whose every
  block outside the log area is the old one, as long as the header was not written, and the
  new one from then on: header write is the commit point, and no mixture is ever seen.
\<close>
theorem commit_crash_atomic:
  assumes "committable s"
  shows "\<exists>t tr. commit s = Ok () t \<and> wtrace (babs t) = wtrace (babs s) @ tr \<and>
     (\<forall>k. recovers (lg_start (jl s)) (nat (lg_size (jl s))) (disk_after (take k tr) (media (babs s)))
        (if k < nat (lh_n (lg_lh (jl s))) + 2 then media (babs s) else view (babs s)))"
  using commit_trace_spec [OF assms] prefix_images [OF assms] by blast

theorem commit_crash_atomic_witness:
  "\<exists>t tr. commit demo = Ok () t \<and> wtrace (babs t) = wtrace (babs demo) @ tr \<and>
     (\<forall>k. recovers 2 30 (disk_after (take k tr) demo_disk)
        (if k < 4 then demo_disk else view (babs demo)))"
  using commit_crash_atomic [OF demo_committable] by (simp add: demo_babs(1) cong: if_cong split del: if_split)

text \<open>
  C3: What \<open>commit\<close> leaves when nothing goes wrong: no block is pinned, the header on
  disk and in memory is clear, and every block outside the log area has on the disk the
  content processes see in the cache.
\<close>
theorem commit_installs:
  assumes "committable s"
  shows "\<exists>t. commit s = Ok () t \<and> binv Map.empty t \<and> pinned (babs t) = {} \<and>
     lh_n (lg_lh (jl t)) = 0 \<and> dec_n (media (babs t) (lg_start (jl s))) = 0 \<and>
     (\<forall>b. home (lg_start (jl s)) (nat (lg_size (jl s))) b \<longrightarrow>
        media (babs t) b = view (babs s) b \<and> view (babs t) b = view (babs s) b)"
  by (rule commit_home [OF assms])

theorem commit_installs_witness:
  "\<exists>t. commit demo = Ok () t \<and> binv Map.empty t \<and> pinned (babs t) = {} \<and>
     lh_n (lg_lh (jl t)) = 0 \<and> dec_n (media (babs t) (lg_start (jl demo))) = 0 \<and>
     (\<forall>b. home (lg_start (jl demo)) (nat (lg_size (jl demo))) b \<longrightarrow>
        media (babs t) b = view (babs demo) b \<and> view (babs t) b = view (babs demo) b)"
  by (rule commit_installs [OF demo_committable])

text \<open>
  C7: The barrier of \<open>commit\<close> makes the commit point hold on a drive with a write cache. Take
  the commands that \<open>commit\<close> sends to the disk. If the machine stops before the first block
  is installed, and of the commands after the last barrier only some took effect, in any
  order, the next boot still finds a whole file system: the old one if the header was not
  yet written, and the old or the new one if it was.
\<close>
theorem barrier_protects_commit_point:
  assumes "committable s"
  shows "\<exists>t tr. commit s = Ok () t \<and> wtrace (babs t) = wtrace (babs s) @ tr \<and>
     (\<forall>k ds. k \<le> nat (lh_n (lg_lh (jl s))) + 2 \<longrightarrow> survives (take k tr) ds \<longrightarrow>
        recovers (lg_start (jl s)) (nat (lg_size (jl s))) (disk_after ds (media (babs s))) (media (babs s)) \<or>
        (k = nat (lh_n (lg_lh (jl s))) + 2 \<and>
         recovers (lg_start (jl s)) (nat (lg_size (jl s))) (disk_after ds (media (babs s))) (view (babs s))))"
  using commit_trace_spec [OF assms] cache_images [OF assms] by blast

theorem barrier_protects_commit_point_witness:
  "\<exists>t tr. commit demo = Ok () t \<and> wtrace (babs t) = wtrace (babs demo) @ tr \<and>
     survives (take 2 tr) [tr ! 1] \<and>
     (\<forall>k ds. k \<le> 4 \<longrightarrow> survives (take k tr) ds \<longrightarrow>
        recovers 2 30 (disk_after ds demo_disk) demo_disk \<or>
        (k = 4 \<and> recovers 2 30 (disk_after ds demo_disk) (view (babs demo))))"
proof -
  obtain t tr where p: "commit demo = Ok () t" "wtrace (babs t) = wtrace (babs demo) @ tr"
     "\<forall>k ds. k \<le> 4 \<longrightarrow> survives (take k tr) ds \<longrightarrow> recovers 2 30 (disk_after ds demo_disk) demo_disk \<or>
        (k = 4 \<and> recovers 2 30 (disk_after ds demo_disk) (view (babs demo)))"
    using barrier_protects_commit_point [OF demo_committable] by (auto simp: demo_babs(1))
  have "tr = commit_trace (jl demo) (babs demo)" using commit_trace_spec [OF demo_committable] p(1,2) by auto
  then have "take 2 tr = writes (log_writes (jl demo) (babs demo))" "tr ! 1 \<in> set (take 2 tr)"
    by (simp_all add: commit_trace_def nth_append writes_def)
  then have "survives (take 2 tr) [tr ! 1]"
    unfolding survives_def by (intro exI [of _ "[]"] exI [of _ "take 2 tr"] exI [of _ "[tr ! 1]"]) simp
  then show ?thesis using p by blast
qed



end
