(* ===== verification/JTxn.thy ===== *)
theory JTxn
  imports JCrash
begin

text \<open>
  Transactions: \<open>begin_op\<close>, \<open>log_write\<close> and \<open>end_op\<close>. \<open>log_write\<close> keeps the journal
  ready to commit and its ranges covering every changed byte, also when a block is logged
  again and the ranges are merged. The reservation of \<open>begin_op\<close> is an invariant of the
  system in which concurrent operations run \<open>begin_op\<close>, logged updates and \<open>end_op\<close>.
\<close>

section \<open>Recorded ranges\<close>

definition in_entry :: "logheader \<Rightarrow> nat \<Rightarrow> nat \<Rightarrow> bool" where
  "in_entry h i j \<longleftrightarrow> lh_offset h ! i \<le> int j \<and> int j < lh_offset h ! i + lh_len h ! i"

text \<open>Byte \<open>j\<close> of block \<open>x\<close> lies in the range recorded for \<open>x\<close>.\<close>

definition logged :: "logheader \<Rightarrow> nat \<Rightarrow> nat \<Rightarrow> bool" where
  "logged h x j \<longleftrightarrow> (\<exists>i < nat (lh_n h). lh_block h ! i = x \<and> in_entry h i j)"

definition changed :: "bspec \<Rightarrow> nat \<Rightarrow> nat \<Rightarrow> bool" where
  "changed a x j \<longleftrightarrow> j < BSIZE \<and> view a x ! j \<noteq> media a x ! j"

definition all_logged :: "jlog \<Rightarrow> bspec \<Rightarrow> bool" where
  "all_logged l a \<longleftrightarrow> (\<forall>x j. changed a x j \<longrightarrow> logged (lg_lh l) x j)"

lemma covered_if_logged:
  assumes "ready l a" "area_ok l" "all_logged l a"
  shows "covered l a"
  unfolding covered_def
proof (intro allI impI)
  let ?h = "lg_lh l"
  fix i j
  assume i: "i < nat (lh_n ?h)" and j: "j < BSIZE" and d: "view a (lh_block ?h ! i) ! j \<noteq> media a (lh_block ?h ! i) ! j"
  then have "changed a (lh_block ?h ! i) j" by (simp add: changed_def)
  then obtain k where k: "k < nat (lh_n ?h)" "lh_block ?h ! k = lh_block ?h ! i" "in_entry ?h k j"
    using assms(3) by (auto simp: all_logged_def logged_def)
  have "k = i" using ready_facts(6) [OF assms(1,2)] k(1,2) i by (metis linorder_neqE_nat)
  then show "lh_offset ?h ! i \<le> int j \<and> int j < lh_offset ?h ! i + lh_len ?h ! i"
    using k(3) by (simp add: in_entry_def)
qed

section \<open>One entry\<close>

lemma find_upt_Some:
  assumes "List.find P [0..<n] = Some i"
  shows "i < n" "P i" "\<And>j. j < i \<Longrightarrow> \<not> P j"
  using assms by (auto simp: find_Some_iff)

lemma find_upt_None: "List.find P [0..<n] = None \<longleftrightarrow> (\<forall>i<n. \<not> P i)"
  by (auto simp: find_None_iff)

lemma log_entry_absorb:
  assumes h: "lh_ok h" and f: "List.find (\<lambda>i. lh_block h ! i = x) [0..<nat (lh_n h)] = Some k"
    and r: "0 \<le> off" "0 \<le> len" "off + len \<le> int BSIZE" and e: "entry_ok st sz h k"
  shows "log_entry x off len h = absorb off len k h" "lh_n (absorb off len k h) = lh_n h"
    "lh_block (absorb off len k h) = lh_block h" "lh_ok (absorb off len k h)"
    "\<And>i. i < nat (lh_n h) \<Longrightarrow> i \<noteq> k \<Longrightarrow> in_entry (absorb off len k h) i j = in_entry h i j"
    "in_entry h k j \<or> (off \<le> int j \<and> int j < off + len) \<Longrightarrow> in_entry (absorb off len k h) k j"
    "\<And>i. i < nat (lh_n h) \<Longrightarrow> entry_ok st sz h i \<Longrightarrow> entry_ok st sz (absorb off len k h) i"
proof -
  have k: "k < nat (lh_n h)" using find_upt_Some(1) [OF f] .
  then have k': "k < length (lh_offset h)" "k < length (lh_len h)" using h by (auto simp: lh_ok_def)
  show "log_entry x off len h = absorb off len k h" using f by (simp add: log_entry_def)
  show "lh_n (absorb off len k h) = lh_n h" "lh_block (absorb off len k h) = lh_block h"
    by (simp_all add: absorb_def Let_def)
  show "lh_ok (absorb off len k h)" using h by (simp add: absorb_def Let_def lh_ok_def)
  show "in_entry (absorb off len k h) i j = in_entry h i j" if "i < nat (lh_n h)" "i \<noteq> k" for i
    using that by (simp add: in_entry_def absorb_def Let_def)
  show "in_entry (absorb off len k h) k j" if "in_entry h k j \<or> (off \<le> int j \<and> int j < off + len)"
    using that k' by (auto simp: in_entry_def absorb_def Let_def)
  show "entry_ok st sz (absorb off len k h) i" if "i < nat (lh_n h)" "entry_ok st sz h i" for i
    using that k' r e by (cases "i = k") (auto simp: entry_ok_def absorb_def Let_def)
qed

lemma log_entry_append:
  assumes h: "lh_ok h" and n: "lh_n h < int LOGSIZE" and k: "k = nat (lh_n h)"
    and f: "List.find (\<lambda>i. lh_block h ! i = x) [0..<nat (lh_n h)] = None"
  shows "log_entry x off len h = append_entry x off len h" "lh_n (append_entry x off len h) = lh_n h + 1"
    "lh_ok (append_entry x off len h)"
    "take (Suc k) (lh_block (append_entry x off len h)) = take k (lh_block h) @ [x]"
    "\<And>i. i < k \<Longrightarrow> in_entry (append_entry x off len h) i j = in_entry h i j"
    "\<And>i. i < k \<Longrightarrow> lh_block (append_entry x off len h) ! i = lh_block h ! i"
    "lh_block (append_entry x off len h) ! k = x"
    "in_entry (append_entry x off len h) k j \<longleftrightarrow> off \<le> int j \<and> int j < off + len"
    "\<And>i. i < k \<Longrightarrow> entry_ok st sz (append_entry x off len h) i = entry_ok st sz h i"
    "entry_ok st sz (append_entry x off len h) k \<longleftrightarrow> x < FSSIZE \<and> \<not> (st \<le> x \<and> x < st + sz) \<and>
       0 \<le> off \<and> 0 \<le> len \<and> off + len \<le> int BSIZE"
proof -
  have kl: "k < length (lh_block h)" "k < length (lh_offset h)" "k < length (lh_len h)"
    using h n k by (auto simp: lh_ok_def)
  show "log_entry x off len h = append_entry x off len h" using f by (simp add: log_entry_def)
  show "lh_n (append_entry x off len h) = lh_n h + 1" by (simp add: append_entry_def Let_def)
  show "lh_ok (append_entry x off len h)" using h n by (simp add: append_entry_def Let_def lh_ok_def)
  show "take (Suc k) (lh_block (append_entry x off len h)) = take k (lh_block h) @ [x]"
    using kl by (simp add: append_entry_def Let_def take_Suc_conv_app_nth k)
  show "in_entry (append_entry x off len h) i j = in_entry h i j"
    "lh_block (append_entry x off len h) ! i = lh_block h ! i"
    "entry_ok st sz (append_entry x off len h) i = entry_ok st sz h i" if "i < k" for i
    using that by (simp_all add: in_entry_def entry_ok_def append_entry_def Let_def k)
  show "lh_block (append_entry x off len h) ! k = x"
    "in_entry (append_entry x off len h) k j \<longleftrightarrow> off \<le> int j \<and> int j < off + len"
    "entry_ok st sz (append_entry x off len h) k \<longleftrightarrow> x < FSSIZE \<and> \<not> (st \<le> x \<and> x < st + sz) \<and>
       0 \<le> off \<and> 0 \<le> len \<and> off + len \<le> int BSIZE"
    using kl by (simp_all add: in_entry_def entry_ok_def append_entry_def Let_def k)
qed

lemma log_entry_ready:
  assumes r: "ready l a" and ar: "area_ok l" and n: "lh_n (lg_lh l) < lg_size l - 1"
    and x: "x < FSSIZE" "\<not> (lg_start l \<le> x \<and> x < lg_start l + nat (lg_size l))"
    and rg: "0 \<le> off" "0 \<le> len" "off + len \<le> int BSIZE"
  shows "ready (l\<lparr>lg_lh := log_entry x off len (lg_lh l)\<rparr>) (a\<lparr>pinned := insert x (pinned a)\<rparr>)"
    and "logged (lg_lh l) y j \<or> (y = x \<and> off \<le> int j \<and> int j < off + len) \<Longrightarrow>
      logged (log_entry x off len (lg_lh l)) y j"
proof -
  let ?h = "lg_lh l" let ?n = "nat (lh_n ?h)" let ?h' = "log_entry x off len ?h"
  have lo: "lh_ok ?h" and e: "\<And>i. i < ?n \<Longrightarrow> entry_ok (lg_start l) (nat (lg_size l)) ?h i"
    and hp: "distinct (take ?n (lh_block ?h))" "pinned a = set (take ?n (lh_block ?h))"
    using r by (simp_all add: ready_def head_ok_def)
  have n30: "lh_n ?h < int LOGSIZE" and n0: "0 \<le> lh_n ?h" using n ar lo by (simp_all add: area_ok_def lh_ok_def)
  show "ready (l\<lparr>lg_lh := ?h'\<rparr>) (a\<lparr>pinned := insert x (pinned a)\<rparr>)"
  proof (cases "List.find (\<lambda>i. lh_block ?h ! i = x) [0..<?n]")
    case None
    note ap = log_entry_append [OF lo n30 refl None]
    have k: "nat (lh_n ?h') = Suc ?n" using ap(1,2) n0 by simp
    have "x \<notin> set (take ?n (lh_block ?h))"
      using None [unfolded find_upt_None] by (auto simp: in_set_conv_nth)
    moreover have "head_ok (l\<lparr>lg_lh := ?h'\<rparr>)"
      using ap n e x rg k by (auto simp: head_ok_def less_Suc_eq)
    ultimately show ?thesis using ap(1,4) k hp by (simp add: ready_def)
  next
    case (Some k)
    note ab = log_entry_absorb [OF lo Some rg e [OF find_upt_Some(1) [OF Some]]]
    have kx: "k < ?n" "lh_block ?h ! k = x" using find_upt_Some [OF Some] by simp_all
    then have "x \<in> pinned a" using ready_facts(4) [OF r ar, of k] by simp
    moreover have "head_ok (l\<lparr>lg_lh := ?h'\<rparr>)"
      using ab e n by (simp add: head_ok_def)
    ultimately show ?thesis using ab(1-3) hp by (simp add: ready_def insert_absorb)
  qed
  show "logged ?h' y j" if "logged ?h y j \<or> (y = x \<and> off \<le> int j \<and> int j < off + len)"
  proof (cases "List.find (\<lambda>i. lh_block ?h ! i = x) [0..<?n]")
    case None
    note ap = log_entry_append [OF lo n30 refl None]
    have k: "nat (lh_n ?h') = Suc ?n" using ap(1,2) n0 by simp
    show ?thesis
      using that
    proof
      assume "logged ?h y j"
      then show ?thesis unfolding logged_def k using ap(1,5,6) by (metis less_Suc_eq)
    next
      assume "y = x \<and> off \<le> int j \<and> int j < off + len"
      then show ?thesis unfolding logged_def k using ap(1,7,8) by (metis lessI)
    qed
  next
    case (Some k)
    note ab = log_entry_absorb [OF lo Some rg e [OF find_upt_Some(1) [OF Some]]]
    have kx: "k < ?n" "lh_block ?h ! k = x" using find_upt_Some [OF Some] by simp_all
    show ?thesis
      using that unfolding logged_def ab(1,2,3) using ab(5,6) kx by metis
  qed
qed

lemma held_idem: "held s = [] \<Longrightarrow> s\<lparr>held := []\<rparr> = s"
  by (cases s) simp

lemma binv_held: "binv H s \<Longrightarrow> held s = []"
  using quietE [of s] unfolding binv_def by metis

text \<open>\<open>log_write\<close> returns and records the change.\<close>

lemma log_write_run:
  fixes s :: "'z lst_scheme"
  assumes inv: "binv H s" and b: "H b = Some x" and o: "1 \<le> lg_outstanding (jl s)"
    and n: "lh_n (lg_lh (jl s)) < lg_size (jl s) - 1" "lh_n (lg_lh (jl s)) < int LOGSIZE"
  shows "\<exists>t. log_write b off len s = Ok () t \<and> binv H t \<and> jframe s t \<and>
     jl t = (jl s)\<lparr>lg_lh := log_entry x off len (lg_lh (jl s))\<rparr> \<and>
     babs t = (babs s)\<lparr>pinned := insert x (pinned (babs s))\<rparr>"
proof -
  have q: "held s = []" using inv by (rule binv_held)
  have bx: "b_blockno (bufs s ! b) = x" using bholdsD(6) [of H s b x] inv b by (simp add: binv_def)
  let ?l = "(jl s)\<lparr>lg_lh := log_entry x off len (lg_lh (jl s))\<rparr>"
  have "binv H (s\<lparr>jl := ?l\<rparr>)" using inv by simp
  then obtain t where t: "set_dirty b (s\<lparr>jl := ?l\<rparr>) = Ok () t" "binv H t" "bframe (s\<lparr>jl := ?l\<rparr>) t"
      "babs t = (babs s)\<lparr>pinned := insert x (pinned (babs s))\<rparr>"
    using bc.pin_ok [of H "s\<lparr>jl := ?l\<rparr>" b x] b by auto
  have "log_write b off len s = Ok () t"
    using q bx n o t(1)
    by (auto simp: log_write_def set_lh_def set_log_def set_dirty_def set_buf_def)
  moreover have "jl t = ?l" using lst_frame(1) [OF t(3)] by simp
  moreover have "jframe s t" using jframe_bframe [OF t(3)] by (simp add: jframe_def)
  ultimately show ?thesis using t by blast
qed

section \<open>An open transaction\<close>

text \<open>
  The invariant between \<open>begin_op\<close> and \<open>end_op\<close>, and in a system with no transaction.
\<close>

definition jopen :: "'z lst_scheme \<Rightarrow> bool" where
  "jopen s \<longleftrightarrow> binv Map.empty s \<and> area_ok (jl s) \<and> crc32_table s = Some crc32_init \<and> ready (jl s) (babs s) \<and>
     all_logged (jl s) (babs s) \<and> crash_at_phase s = 0 \<and> 1 \<le> lg_outstanding (jl s) \<and> \<not> lg_committing (jl s) \<and>
     dec_n (media (babs s) (lg_start (jl s))) = 0 \<and>
     image_ok (lg_start (jl s)) (nat (lg_size (jl s))) (media (babs s)) \<and> 1 \<notin> pinned (babs s)"

definition jidle :: "'z lst_scheme \<Rightarrow> bool" where
  "jidle s \<longleftrightarrow> binv Map.empty s \<and> area_ok (jl s) \<and> crc32_table s = Some crc32_init \<and> lh_ok (lg_lh (jl s)) \<and>
     lh_n (lg_lh (jl s)) = 0 \<and> pinned (babs s) = {} \<and> crash_at_phase s = 0 \<and> lg_outstanding (jl s) = 0 \<and>
     \<not> lg_committing (jl s) \<and> dec_n (media (babs s) (lg_start (jl s))) = 0 \<and>
     image_ok (lg_start (jl s)) (nat (lg_size (jl s))) (media (babs s))"

text \<open>
  The pattern of \<open>log.c\<close>'s comment on \<open>log_write\<close>: read a block, change a range of it,
  log the range, release the block.
\<close>

definition log_update :: "nat \<Rightarrow> nat \<Rightarrow> byte list \<Rightarrow> ('z lst_scheme, unit) kop" where
  "log_update x off d =
     bnd (bread ROOTDEV x) (\<lambda>b.
     bnd (get_data b) (\<lambda>dd.
     seq (set_data b (bsplice off d dd))
    (seq (log_write b (int off) (int (length d)))
         (brelse b))))"

definition may_log :: "jlog \<Rightarrow> nat \<Rightarrow> bool" where
  "may_log l x \<longleftrightarrow> x < FSSIZE \<and> x \<noteq> 1 \<and> home (lg_start l) (nat (lg_size l)) x"

lemma splice_logged:
  assumes al: "all_logged l a" and len: "length (view a x) = BSIZE" "off + length d \<le> BSIZE"
    and h: "\<And>y j. logged (lg_lh l) y j \<or> (y = x \<and> int off \<le> int j \<and> int j < int off + int (length d)) \<Longrightarrow> logged h y j"
    and a': "view a' = (view a)(x := bsplice off d (view a x))" "media a' = media a"
  shows "all_logged (l\<lparr>lg_lh := h\<rparr>) a'"
  unfolding all_logged_def
proof (intro allI impI)
  fix y j assume c: "changed a' y j"
  then have j: "j < BSIZE" by (simp add: changed_def)
  have "changed a y j \<or> (y = x \<and> off \<le> j \<and> j < off + length d)"
    using c bsplice_nth [of off d "view a x" j] len j by (auto simp: changed_def a' split: if_splits)
  then show "logged (lg_lh (l\<lparr>lg_lh := h\<rparr>)) y j"
    using h [of y j] al by (auto simp: all_logged_def)
qed

lemma log_update_spec:
  fixes s :: "'z lst_scheme"
  assumes o: "jopen s" and x: "may_log (jl s) x" and n: "lh_n (lg_lh (jl s)) < lg_size (jl s) - 1"
    and rg: "off + length d \<le> BSIZE"
  shows "\<exists>t. log_update x off d s = Ok () t \<and> jopen t \<and> jframe s t \<and>
     lg_start (jl t) = lg_start (jl s) \<and> lg_size (jl t) = lg_size (jl s) \<and>
     lg_outstanding (jl t) = lg_outstanding (jl s) \<and> lh_n (lg_lh (jl t)) \<le> lh_n (lg_lh (jl s)) + 1 \<and>
     media (babs t) = media (babs s) \<and> wtrace (babs t) = wtrace (babs s) \<and>
     view (babs t) = (view (babs s))(x := bsplice off d (view (babs s) x)) \<and> pinned (babs t) = insert x (pinned (babs s))"
proof -
  let ?a = "babs s" and ?l = "jl s" let ?d = "bsplice off d (view ?a x)"
  have inv: "binv Map.empty s" and ar: "area_ok ?l" and r: "ready ?l ?a" and al: "all_logged ?l ?a"
    and p1: "1 \<notin> pinned ?a" using o by (simp_all add: jopen_def)
  have xf: "x < FSSIZE" "x \<noteq> 1" "\<not> (lg_start ?l \<le> x \<and> x < lg_start ?l + nat (lg_size ?l))"
    using x by (auto simp: may_log_def home_def)
  obtain b s1 where 1: "bread ROOTDEV x s = Ok b s1" "binv [b \<mapsto> x] s1" "babs s1 = ?a" "bframe s s1"
    using bc.rd_ok [OF inv xf(1)] ready_facts(2) [OF r ar] by (force simp: room_def)
  have g: "get_data b s1 = Ok (view ?a x) s1" using bc.geta_ok [OF 1(2), of b x] 1(3) by simp
  have len: "length (view ?a x) = BSIZE" by (rule bc.sizes [OF inv])
  obtain s2 where 2: "set_data b ?d s1 = Ok () s2" "binv [b \<mapsto> x] s2" "bframe s1 s2"
      "babs s2 = ?a\<lparr>view := (view ?a)(x := ?d)\<rparr>"
    using bc.seta_ok [OF 1(2), of b x ?d] 1(3) len rg by auto
  have j2: "jl s2 = ?l" using lst_frame(1) [OF 1(4)] lst_frame(1) [OF 2(3)] by simp
  have r2: "ready ?l (babs s2)" using r 2(4) by (simp add: ready_def)
  let ?h = "log_entry x (int off) (int (length d)) (lg_lh ?l)"
  obtain s3 where 3: "log_write b (int off) (int (length d)) s2 = Ok () s3" "binv [b \<mapsto> x] s3" "jframe s2 s3"
      "jl s3 = ?l\<lparr>lg_lh := ?h\<rparr>" "babs s3 = (babs s2)\<lparr>pinned := insert x (pinned ?a)\<rparr>"
    using log_write_run [OF 2(2), of b x "int off" "int (length d)"] ar n o 2(4)
    by (auto simp: j2 jopen_def area_ok_def)
  obtain t where t: "brelse b s3 = Ok () t" "binv ([b \<mapsto> x](b := None)) t" "babs t = babs s3" "bframe s3 t"
    using bc.rel_ok [OF 3(2), of b x] 3(5) by auto
  have jt: "jl t = ?l\<lparr>lg_lh := ?h\<rparr>" using lst_frame(1) [OF t(4)] 3(4) by simp
  have at: "babs t = ?a\<lparr>view := (view ?a)(x := ?d), pinned := insert x (pinned ?a)\<rparr>" using t(3) 3(5) 2(4) by simp
  have fr: "jframe s t"
    using jframe_bframe [OF 1(4)] jframe_bframe [OF 2(3)] 3(3) jframe_bframe [OF t(4)] by (meson jframe_trans)
  have "int off + int (length d) \<le> int BSIZE" using rg by simp
  note le = log_entry_ready [OF r ar n xf(1,3) _ _ this, simplified]
  have "all_logged (?l\<lparr>lg_lh := ?h\<rparr>) (babs t)"
    by (rule splice_logged [OF al len rg]) (use le(2) in \<open>auto simp: at\<close>)
  moreover have "ready (?l\<lparr>lg_lh := ?h\<rparr>) (babs t)" using le(1) unfolding at by (simp add: ready_def)
  ultimately have "jopen t"
    using o t(2) fr xf(2) by (simp add: jopen_def jt at area_ok_def jframe_def)
  moreover have "lh_n ?h \<le> lh_n (lg_lh ?l) + 1"
    by (simp add: log_entry_def absorb_def append_entry_def Let_def split: option.split)
  moreover have "log_update x off d s = Ok () t"
    using 1(1) g 2(1) 3(1) t(1) by (simp add: log_update_def)
  ultimately show ?thesis using fr by (intro exI [of _ t]) (simp add: jt at)
qed

section \<open>Opening and closing a transaction\<close>

lemma binv_wake:
  assumes "binv H s"
  shows "binv H (s\<lparr>ptable := map (wake_proc c) (ptable s)\<rparr>)" "babs (s\<lparr>ptable := map (wake_proc c) (ptable s)\<rparr>) = babs s"
  using assms by (simp_all add: binv_def babs_def)

lemma begin_op_spec:
  fixes s :: "'z lst_scheme"
  assumes "jidle s"
  shows "\<exists>t. begin_op s = Ok () t \<and> jopen t \<and> jframe s t \<and> babs t = babs s \<and> lg_outstanding (jl t) = 1 \<and>
     lg_start (jl t) = lg_start (jl s) \<and> lg_size (jl t) = lg_size (jl s) \<and> lh_n (lg_lh (jl t)) = 0"
proof -
  let ?t = "s\<lparr>jl := (jl s)\<lparr>lg_outstanding := 1, lg_batch_size := lg_batch_size (jl s) + 1\<rparr>\<rparr>"
  have inv: "binv Map.empty s" using assms by (simp add: jidle_def)
  have "begin_op s = Ok () ?t"
    using assms binv_held [OF inv] by (simp add: jidle_def begin_op_def set_log_def held_idem)
  moreover have "media (babs s) = view (babs s)"
    using bc.clean [OF inv] assms by (simp add: jidle_def fun_eq_iff)
  then have "jopen ?t"
    using assms by (simp add: jidle_def jopen_def ready_def head_ok_def all_logged_def changed_def area_ok_def)
  ultimately show ?thesis using assms by (simp add: jidle_def)
qed

text \<open>
  \<open>crash_safe\<close>: wherever the commands \<open>tr\<close> are cut off, the image recovers to the old or
  to the new contents.
\<close>

definition crash_safe :: "jlog \<Rightarrow> dcmd list \<Rightarrow> (nat \<Rightarrow> byte list) \<Rightarrow> (nat \<Rightarrow> byte list) \<Rightarrow> bool" where
  "crash_safe l tr old new \<longleftrightarrow> (\<forall>k.
     recovers (lg_start l) (nat (lg_size l)) (disk_after (take k tr) old) old \<or>
     recovers (lg_start l) (nat (lg_size l)) (disk_after (take k tr) old) new)"

text \<open>The blocks after a commit form a file system image again.\<close>

lemma commit_idle:
  fixes s :: "'z lst_scheme"
  assumes c: "committable s"
  shows "\<exists>t. commit s = Ok () t \<and> binv Map.empty t \<and> jframe s t \<and> pinned (babs t) = {} \<and>
     lh_n (lg_lh (jl t)) = 0 \<and> lh_ok (lg_lh (jl t)) \<and> lg_start (jl t) = lg_start (jl s) \<and> lg_size (jl t) = lg_size (jl s) \<and>
     lg_dev (jl t) = lg_dev (jl s) \<and> lg_outstanding (jl t) = lg_outstanding (jl s) \<and>
     dec_n (media (babs t) (lg_start (jl s))) = 0 \<and> image_ok (lg_start (jl s)) (nat (lg_size (jl s))) (media (babs t)) \<and>
     (\<forall>b. home (lg_start (jl s)) (nat (lg_size (jl s))) b \<longrightarrow>
        media (babs t) b = view (babs s) b \<and> view (babs t) b = view (babs s) b) \<and>
     wtrace (babs t) = wtrace (babs s) @ commit_trace (jl s) (babs s)"
proof -
  note f = commit_shape [OF c refl refl refl refl refl refl]
  obtain t where t: "commit s = Ok () t" "binv Map.empty t" "jframe s t" "babs t = commit_eff (jl s) (babs s)"
     "jl t = (jl s)\<lparr>lg_lh := (with_cks (lg_lh (jl s)) (babs s) (nat (lh_n (lg_lh (jl s)))))\<lparr>lh_n := 0\<rparr>,
                   lg_batch_size := 0\<rparr>"
    using commit_spec [of s] c by (auto simp: committable_def)
  have lo: "lh_ok (lg_lh (jl s))" using f(1) by (simp add: ready_def head_ok_def)
  then have "lh_ok (lg_lh (jl t))" using t(5) by (simp add: lh_ok_def)
  obtain t' where t': "commit s = Ok () t'" "pinned (babs t') = {}" "dec_n (media (babs t') (lg_start (jl s))) = 0"
     "\<forall>b. home (lg_start (jl s)) (nat (lg_size (jl s))) b \<longrightarrow>
        media (babs t') b = view (babs s) b \<and> view (babs t') b = view (babs s) b"
    using commit_home [OF c] by blast
  have tt: "t' = t" using t(1) t'(1) by simp
  have "view (babs t) = media (babs t)" using bc.clean [OF t(2)] t'(2) tt by (simp add: fun_eq_iff)
  then have len: "length (media (babs t) x) = BSIZE" for x using bc.sizes [OF t(2)] by metis
  have im: "image_ok (lg_start (jl s)) (nat (lg_size (jl s))) (media (babs s))" and p1: "1 \<notin> pinned (babs s)"
    using c by (simp_all add: committable_def)
  have "home (lg_start (jl s)) (nat (lg_size (jl s))) 1" using im by (simp add: home_def image_ok_def)
  then have "media (babs t) 1 = media (babs s) 1" using t'(4) tt f(11) [OF p1] by simp
  then have "image_ok (lg_start (jl s)) (nat (lg_size (jl s))) (media (babs t))"
    using im len by (simp add: image_ok_def)
  moreover have "wtrace (babs t) = wtrace (babs s) @ commit_trace (jl s) (babs s)"
    using commit_trace_spec [OF c] t(1) by auto
  ultimately show ?thesis using t t' tt \<open>lh_ok (lg_lh (jl t))\<close> by simp
qed

lemma end_op_spec:
  fixes s :: "'z lst_scheme"
  assumes o: "jopen s" and one: "lg_outstanding (jl s) = 1"
  shows "\<exists>t. end_op s = Ok () t \<and> jidle t \<and> lg_start (jl t) = lg_start (jl s) \<and> lg_size (jl t) = lg_size (jl s) \<and>
     (\<forall>b. home (lg_start (jl s)) (nat (lg_size (jl s))) b \<longrightarrow>
        media (babs t) b = view (babs s) b \<and> view (babs t) b = view (babs s) b) \<and>
     (\<exists>tr. wtrace (babs t) = wtrace (babs s) @ tr \<and> crash_safe (jl s) tr (media (babs s)) (view (babs s)))"
proof -
  let ?l = "(jl s)\<lparr>lg_outstanding := 0, lg_committing := True\<rparr>" let ?s1 = "s\<lparr>jl := ?l\<rparr>"
  have inv: "binv Map.empty s" using o by (simp add: jopen_def)
  note hs = binv_held [OF inv]
  have "\<exists>t. commit ?s1 = Ok () t \<and> binv Map.empty t \<and> jframe s t \<and> pinned (babs t) = {} \<and>
     lh_n (lg_lh (jl t)) = 0 \<and> lh_ok (lg_lh (jl t)) \<and> lg_start (jl t) = lg_start (jl s) \<and> lg_size (jl t) = lg_size (jl s) \<and>
     lg_dev (jl t) = lg_dev (jl s) \<and> lg_outstanding (jl t) = 0 \<and>
     dec_n (media (babs t) (lg_start (jl s))) = 0 \<and> image_ok (lg_start (jl s)) (nat (lg_size (jl s))) (media (babs t)) \<and>
     (\<forall>b. home (lg_start (jl s)) (nat (lg_size (jl s))) b \<longrightarrow>
        media (babs t) b = view (babs s) b \<and> view (babs t) b = view (babs s) b) \<and>
     (\<exists>tr. wtrace (babs t) = wtrace (babs s) @ tr \<and> crash_safe (jl s) tr (media (babs s)) (view (babs s)))"
  proof (cases "0 < lh_n (lg_lh (jl s))")
    case True
    have "covered (jl s) (babs s)" using o by (intro covered_if_logged) (simp_all add: jopen_def)
    then have "covered ?l (babs s)" by (simp add: covered_def)
    moreover have "ready ?l (babs s)" using o by (simp add: jopen_def ready_def head_ok_def)
    ultimately have c: "committable ?s1" using o True by (simp add: jopen_def committable_def area_ok_def)
    have "crash_safe (jl s) (commit_trace ?l (babs s)) (media (babs s)) (view (babs s))"
      unfolding crash_safe_def
    proof
      fix k show "recovers (lg_start (jl s)) (nat (lg_size (jl s))) (disk_after (take k (commit_trace ?l (babs s))) (media (babs s))) (media (babs s)) \<or>
        recovers (lg_start (jl s)) (nat (lg_size (jl s))) (disk_after (take k (commit_trace ?l (babs s))) (media (babs s))) (view (babs s))"
        using prefix_images [OF c, of k] by (simp split: if_splits)
    qed
    with commit_idle [OF c] show ?thesis by (auto simp: jframe_def)
  next
    case False
    then have z: "lh_n (lg_lh (jl s)) = 0" and lo: "lh_ok (lg_lh (jl s))"
      using o by (auto simp: jopen_def ready_def head_ok_def lh_ok_def)
    then have p: "pinned (babs s) = {}" using o by (simp add: jopen_def ready_def)
    have "media (babs s) = view (babs s)" using bc.clean [OF inv] p by (simp add: fun_eq_iff)
    moreover have "crash_safe (jl s) [] (media (babs s)) (view (babs s))"
      using o recovers_clear by (simp add: crash_safe_def jopen_def)
    ultimately show ?thesis using o z lo p by (intro exI [of _ ?s1]) (simp add: commit_def jopen_def)
  qed
  then obtain t where t: "commit ?s1 = Ok () t" "binv Map.empty t" "jframe s t" "pinned (babs t) = {}"
     "lh_n (lg_lh (jl t)) = 0" "lh_ok (lg_lh (jl t))" "lg_start (jl t) = lg_start (jl s)" "lg_size (jl t) = lg_size (jl s)"
     "lg_dev (jl t) = lg_dev (jl s)" "lg_outstanding (jl t) = 0"
     "dec_n (media (babs t) (lg_start (jl s))) = 0" "image_ok (lg_start (jl s)) (nat (lg_size (jl s))) (media (babs t))"
     "\<forall>b. home (lg_start (jl s)) (nat (lg_size (jl s))) b \<longrightarrow>
        media (babs t) b = view (babs s) b \<and> view (babs t) b = view (babs s) b"
     "\<exists>tr. wtrace (babs t) = wtrace (babs s) @ tr \<and> crash_safe (jl s) tr (media (babs s)) (view (babs s))" by blast
  let ?t2 = "t\<lparr>jl := (jl t)\<lparr>lg_committing := False\<rparr>\<rparr>"
  let ?u = "?t2\<lparr>ptable := map (wake_proc ChLog) (ptable t)\<rparr>"
  have "binv Map.empty ?t2" using t(2) by simp
  from binv_wake [OF this, of ChLog] have u: "binv Map.empty ?u" "babs ?u = babs t" by simp_all
  have "\<not> lg_committing (jl s)" using o by (simp add: jopen_def)
  then have "end_op s = Ok () ?u"
    using hs one t(1) binv_held [OF t(2)]
    by (simp add: end_op_def set_log_def held_idem)
  moreover have "jidle ?u"
    using u t o by (simp add: jidle_def jopen_def area_ok_def jframe_def)
  ultimately show ?thesis using u(2) t by (intro exI [of _ ?u]) simp
qed

section \<open>Whole transactions\<close>

text \<open>A list of updates \<open>(block, offset, bytes)\<close>, run as one transaction.\<close>

type_synonym update = "nat \<times> nat \<times> byte list"

definition apply_update :: "update \<Rightarrow> (nat \<Rightarrow> byte list) \<Rightarrow> nat \<Rightarrow> byte list" where
  "apply_update u m = (case u of (x, off, d) \<Rightarrow> m(x := bsplice off d (m x)))"

definition run_updates :: "update list \<Rightarrow> ('z lst_scheme, unit) kop" where
  "run_updates us = for_each us (\<lambda>(x, off, d). log_update x off d)"

definition transaction :: "update list \<Rightarrow> ('z lst_scheme, unit) kop" where
  "transaction us = seq begin_op (seq (run_updates us) end_op)"

definition update_ok :: "jlog \<Rightarrow> update \<Rightarrow> bool" where
  "update_ok l u = (case u of (x, off, d) \<Rightarrow> may_log l x \<and> off + length d \<le> BSIZE)"

lemma run_updates_spec:
  fixes s :: "'z lst_scheme"
  assumes "jopen s" "\<forall>u\<in>set us. update_ok (jl s) u" "lh_n (lg_lh (jl s)) + int (length us) \<le> lg_size (jl s) - 1"
  shows "\<exists>t. run_updates us s = Ok () t \<and> jopen t \<and>
     lg_start (jl t) = lg_start (jl s) \<and> lg_size (jl t) = lg_size (jl s) \<and>
     lg_outstanding (jl t) = lg_outstanding (jl s) \<and>
     media (babs t) = media (babs s) \<and> wtrace (babs t) = wtrace (babs s) \<and>
     view (babs t) = fold apply_update us (view (babs s))"
  using assms
proof (induction us arbitrary: s)
  case Nil
  then show ?case by (simp add: run_updates_def)
next
  case (Cons u us)
  obtain x off d where u: "u = (x, off, d)" by (cases u) auto
  have ok: "may_log (jl s) x" "off + length d \<le> BSIZE" using Cons.prems(2) by (simp_all add: u update_ok_def)
  have n: "lh_n (lg_lh (jl s)) < lg_size (jl s) - 1" using Cons.prems(3) by simp
  obtain s1 where s1: "log_update x off d s = Ok () s1" "jopen s1" "lg_start (jl s1) = lg_start (jl s)"
     "lg_size (jl s1) = lg_size (jl s)" "lg_outstanding (jl s1) = lg_outstanding (jl s)"
     "lh_n (lg_lh (jl s1)) \<le> lh_n (lg_lh (jl s)) + 1" "media (babs s1) = media (babs s)"
     "wtrace (babs s1) = wtrace (babs s)" "view (babs s1) = (view (babs s))(x := bsplice off d (view (babs s) x))"
    using log_update_spec [OF Cons.prems(1) ok(1) n ok(2)] by blast
  have "\<forall>u\<in>set us. update_ok (jl s1) u"
    using Cons.prems(2) s1(3,4) by (auto simp: update_ok_def may_log_def split: prod.splits)
  then obtain t where "run_updates us s1 = Ok () t" "jopen t" "lg_start (jl t) = lg_start (jl s1)"
     "lg_size (jl t) = lg_size (jl s1)" "lg_outstanding (jl t) = lg_outstanding (jl s1)"
     "media (babs t) = media (babs s1)" "wtrace (babs t) = wtrace (babs s1)"
     "view (babs t) = fold apply_update us (view (babs s1))"
    using Cons.IH [OF s1(2)] Cons.prems(3) s1(4,6) by auto
  then show ?case using s1 by (simp add: run_updates_def u apply_update_def [of "(x, off, d)"])
qed

lemma transaction_spec:
  fixes s :: "'z lst_scheme"
  assumes i: "jidle s" and us: "\<forall>u\<in>set us. update_ok (jl s) u" and n: "int (length us) \<le> lg_size (jl s) - 1"
  shows "\<exists>t. transaction us s = Ok () t \<and> jidle t \<and>
     (\<forall>b. home (lg_start (jl s)) (nat (lg_size (jl s))) b \<longrightarrow>
        media (babs t) b = fold apply_update us (media (babs s)) b) \<and>
     (\<exists>tr. wtrace (babs t) = wtrace (babs s) @ tr \<and>
        crash_safe (jl s) tr (media (babs s)) (fold apply_update us (media (babs s))))"
proof -
  obtain s1 where 1: "begin_op s = Ok () s1" "jopen s1" "babs s1 = babs s" "lg_outstanding (jl s1) = 1"
     "lg_start (jl s1) = lg_start (jl s)" "lg_size (jl s1) = lg_size (jl s)" "lh_n (lg_lh (jl s1)) = 0"
    using begin_op_spec [OF i] by blast
  have us1: "\<forall>u\<in>set us. update_ok (jl s1) u"
    using us 1(5,6) by (auto simp: update_ok_def may_log_def split: prod.splits)
  obtain s2 where 2: "run_updates us s1 = Ok () s2" "jopen s2" "lg_start (jl s2) = lg_start (jl s)"
     "lg_size (jl s2) = lg_size (jl s)" "lg_outstanding (jl s2) = 1"
     "view (babs s2) = fold apply_update us (view (babs s))" "media (babs s2) = media (babs s)"
     "wtrace (babs s2) = wtrace (babs s)"
    using run_updates_spec [OF 1(2) us1] n 1 by auto
  obtain t where t: "end_op s2 = Ok () t" "jidle t"
     "\<forall>b. home (lg_start (jl s)) (nat (lg_size (jl s))) b \<longrightarrow> media (babs t) b = view (babs s2) b"
     "\<exists>tr. wtrace (babs t) = wtrace (babs s2) @ tr \<and> crash_safe (jl s) tr (media (babs s2)) (view (babs s2))"
    using end_op_spec [OF 2(2,5)] 2(3,4) by (auto simp: crash_safe_def)
  have "binv Map.empty s" "pinned (babs s) = {}" using i by (simp_all add: jidle_def)
  then have "view (babs s) = media (babs s)" using bc.clean [of Map.empty s] by (simp add: fun_eq_iff)
  then show ?thesis using 1(1) 2 t by (simp add: transaction_def)
qed

section \<open>The reservation of log space\<close>

text \<open>
  Concurrent operations: the state of the kernel, and for each operation between its
  \<open>begin_op\<close> and \<open>end_op\<close> the number of blocks it may still add to the log, \<open>MAXOPBLOCKS\<close>
  at the start. A step is a call of \<open>begin_op\<close> that returns, an update of a block by one of
  the operations, which uses up budget unless the block is in the log already, or a call of
  \<open>end_op\<close>, which commits when the operation is the last. A process that has to wait in
  \<open>begin_op\<close> takes no step.
\<close>

definition in_log :: "jlog \<Rightarrow> nat \<Rightarrow> bool" where
  "in_log l x \<longleftrightarrow> x \<in> set (take (nat (lh_n (lg_lh l))) (lh_block (lg_lh l)))"

inductive rstep :: "'z lst_scheme \<times> nat list \<Rightarrow> 'z lst_scheme \<times> nat list \<Rightarrow> bool" where
  r_begin: "begin_op s = Ok () t \<Longrightarrow> rstep (s, bs) (t, MAXOPBLOCKS # bs)"
| r_log: "i < length bs \<Longrightarrow> may_log (jl s) x \<Longrightarrow> off + length d \<le> BSIZE \<Longrightarrow> in_log (jl s) x \<or> 0 < bs ! i \<Longrightarrow>
     log_update x off d s = Ok () t \<Longrightarrow> rstep (s, bs) (t, if in_log (jl s) x then bs else bs[i := bs ! i - 1])"
| r_end: "i < length bs \<Longrightarrow> end_op s = Ok () t \<Longrightarrow> rstep (s, bs) (t, take i bs @ drop (Suc i) bs)"

definition rstart :: "'z lst_scheme \<times> nat list \<Rightarrow> bool" where
  "rstart r \<longleftrightarrow> jidle (fst r) \<and> snd r = []"

definition rinv :: "'z lst_scheme \<times> nat list \<Rightarrow> bool" where
  "rinv r = (case r of (s, bs) \<Rightarrow> (if bs = [] then jidle s else jopen s) \<and> lg_outstanding (jl s) = int (length bs) \<and>
     lh_n (lg_lh (jl s)) + int (sum_list bs) \<le> int LOGSIZE \<and> (\<forall>b\<in>set bs. b \<le> MAXOPBLOCKS))"

lemma sum_list_bound: "(\<forall>b\<in>set bs. b \<le> k) \<Longrightarrow> sum_list bs \<le> length bs * (k :: nat)"
  by (induction bs) auto

lemma sum_list_drop: "i < length bs \<Longrightarrow> sum_list (take i bs @ drop (Suc i) bs) + bs ! i = sum_list (bs :: nat list)"
  by (subst (3) id_take_nth_drop) auto

lemma sum_list_spend:
  fixes bs :: "nat list"
  assumes "i < length bs" "0 < bs ! i"
  shows "sum_list (bs[i := bs ! i - 1]) + 1 = sum_list bs"
  using sum_list_update [of i bs "bs ! i - 1"] assms member_le_sum_list [of "bs ! i" bs] nth_mem [of i bs] by simp

text \<open>An open journal has an entry for each pinned block.\<close>

lemma jopen_entries:
  assumes "jopen s"
  shows "in_log (jl s) x \<longleftrightarrow> x \<in> pinned (babs s)" "lh_n (lg_lh (jl s)) = int (card (pinned (babs s)))"
proof -
  define xs where "xs = take (nat (lh_n (lg_lh (jl s)))) (lh_block (lg_lh (jl s)))"
  have r: "pinned (babs s) = set xs" "distinct xs" "int (length xs) = lh_n (lg_lh (jl s))"
    using assms by (auto simp: jopen_def ready_def head_ok_def lh_ok_def xs_def)
  show "in_log (jl s) x \<longleftrightarrow> x \<in> pinned (babs s)" by (simp add: r(1) in_log_def xs_def)
  show "lh_n (lg_lh (jl s)) = int (card (pinned (babs s)))" using r distinct_card [of xs] by simp
qed

lemma sleep_not_Ok: "sleep c l s \<noteq> Ok x t"
  by (auto simp: sleep_def sched_def seq_def bnd_def block_def split: outcome.splits)

lemma begin_op_iff:
  assumes "held s = []" "\<not> lg_committing (jl s)"
  shows "begin_op s = Ok () t \<longleftrightarrow> lh_n (lg_lh (jl s)) + (lg_outstanding (jl s) + 1) * int MAXOPBLOCKS \<le> int LOGSIZE \<and>
     t = s\<lparr>jl := (jl s)\<lparr>lg_outstanding := lg_outstanding (jl s) + 1, lg_batch_size := lg_batch_size (jl s) + 1\<rparr>\<rparr>"
  using assms by (auto simp: begin_op_def sleep_not_Ok set_log_def held_idem)

lemma begin_op_again:
  assumes "jopen s" "begin_op s = Ok () t"
  shows "jopen t" "lg_outstanding (jl t) = lg_outstanding (jl s) + 1" "lg_lh (jl t) = lg_lh (jl s)" "babs t = babs s"
    "lg_size (jl t) = lg_size (jl s)" "lg_start (jl t) = lg_start (jl s)"
    "lh_n (lg_lh (jl s)) + (lg_outstanding (jl s) + 1) * int MAXOPBLOCKS \<le> int LOGSIZE"
  using assms begin_op_iff [OF binv_held, of Map.empty s t]
  by (auto simp: jopen_def area_ok_def ready_def head_ok_def all_logged_def)

lemma end_op_others:
  assumes o: "jopen s" and more: "1 < lg_outstanding (jl s)"
  shows "\<exists>t. end_op s = Ok () t \<and> jopen t \<and> lg_outstanding (jl t) = lg_outstanding (jl s) - 1 \<and> lg_lh (jl t) = lg_lh (jl s)"
proof -
  let ?s = "s\<lparr>jl := (jl s)\<lparr>lg_outstanding := lg_outstanding (jl s) - 1\<rparr>\<rparr>"
  let ?t = "?s\<lparr>ptable := map (wake_proc ChLog) (ptable s)\<rparr>"
  have inv: "binv Map.empty s" using o by (simp add: jopen_def)
  have "binv Map.empty ?s" using inv by simp
  from binv_wake [OF this, of ChLog] have u: "binv Map.empty ?t" "babs ?t = babs s" by simp_all
  have "end_op s = Ok () ?t"
    using o more binv_held [OF inv] by (simp add: jopen_def end_op_def set_log_def held_idem)
  moreover have "jopen ?t" using o more u by (auto simp: jopen_def area_ok_def ready_def head_ok_def all_logged_def)
  ultimately show ?thesis by simp
qed

lemma log_update_entries:
  assumes o: "jopen s" and x: "may_log (jl s) x" "off + length d \<le> BSIZE" and u: "log_update x off d s = Ok () t"
    and n: "lh_n (lg_lh (jl s)) < lg_size (jl s) - 1"
  shows "jopen t" "lg_outstanding (jl t) = lg_outstanding (jl s)" "lg_size (jl t) = lg_size (jl s)" "lg_start (jl t) = lg_start (jl s)"
    "pinned (babs t) = insert x (pinned (babs s))"
    "lh_n (lg_lh (jl t)) = lh_n (lg_lh (jl s)) + (if in_log (jl s) x then 0 else 1)"
proof -
  show t: "jopen t" "lg_outstanding (jl t) = lg_outstanding (jl s)" "lg_size (jl t) = lg_size (jl s)" "lg_start (jl t) = lg_start (jl s)"
    "pinned (babs t) = insert x (pinned (babs s))"
    using log_update_spec [OF o x(1) n x(2)] u by auto
  show "lh_n (lg_lh (jl t)) = lh_n (lg_lh (jl s)) + (if in_log (jl s) x then 0 else 1)"
    using jopen_entries [OF o] jopen_entries(2) [OF t(1)] t(5) by (simp add: card_insert_if)
qed

text \<open>With one slot left, the one the header takes, an update panics.\<close>

lemma log_update_full:
  assumes o: "jopen s" and x: "may_log (jl s) x" "off + length d \<le> BSIZE"
    and n: "\<not> lh_n (lg_lh (jl s)) < lg_size (jl s) - 1"
  shows "\<exists>t. log_update x off d s = Panic ''log_write: transaction too large'' t"
proof -
  have inv: "binv Map.empty s" and r: "ready (jl s) (babs s)" "area_ok (jl s)" using o by (simp_all add: jopen_def)
  obtain b s1 where 1: "bread ROOTDEV x s = Ok b s1" "binv [b \<mapsto> x] s1" "babs s1 = babs s" "bframe s s1"
    using bc.rd_ok [OF inv, of x] ready_facts(2) [OF r] x(1) by (force simp: room_def may_log_def)
  have g: "get_data b s1 = Ok (view (babs s) x) s1" using bc.geta_ok [OF 1(2), of b x] 1(3) by simp
  obtain s2 where 2: "set_data b (bsplice off d (view (babs s) x)) s1 = Ok () s2" "bframe s1 s2"
    using bc.seta_ok [OF 1(2), of b x "bsplice off d (view (babs s) x)"] 1(3) bc.sizes [OF inv, of x] x(2) by auto
  have "jl s2 = jl s" using lst_frame(1) [OF 1(4)] lst_frame(1) [OF 2(2)] by simp
  then show ?thesis using 1(1) g 2(1) n by (simp add: log_update_def log_write_def)
qed

lemma rinv_step:
  assumes "rinv r" "rstep r r'"
  shows "rinv r'"
  using assms(2)
proof (cases rule: rstep.cases)
  case (r_begin s t bs)
  show ?thesis
  proof (cases "bs = []")
    case True
    then show ?thesis using assms(1) r_begin begin_op_spec [of s] by (auto simp: rinv_def)
  next
    case False
    then have "jopen s" using assms(1) r_begin by (simp add: rinv_def)
    from begin_op_again [OF this r_begin(3)] show ?thesis
      using assms(1) r_begin(1,2) False sum_list_bound [of bs MAXOPBLOCKS] by (auto simp: rinv_def algebra_simps)
  qed
next
  case (r_log i bs s x off d t)
  have o: "jopen s" using assms(1) r_log(1,3) by (auto simp: rinv_def split: if_splits)
  have n: "lh_n (lg_lh (jl s)) < lg_size (jl s) - 1"
    using log_update_full [OF o r_log(4,5)] r_log(7) by (cases "lh_n (lg_lh (jl s)) < lg_size (jl s) - 1") auto
  note u = log_update_entries [OF o r_log(4,5,7) n]
  have b: "lh_n (lg_lh (jl s)) + int (sum_list bs) \<le> int LOGSIZE" "\<forall>b\<in>set bs. b \<le> MAXOPBLOCKS" "lg_outstanding (jl s) = int (length bs)"
    using assms(1) r_log(1) by (simp_all add: rinv_def)
  have "\<forall>c\<in>set (bs[i := bs ! i - 1]). c \<le> MAXOPBLOCKS"
    using b(2) r_log(3) set_update_subset_insert [of bs i "bs ! i - 1"] nth_mem [of i bs] by fastforce
  moreover have "\<not> in_log (jl s) x \<Longrightarrow> sum_list (bs[i := bs ! i - 1]) + 1 = sum_list bs" using sum_list_spend r_log(3,6) by blast
  ultimately show ?thesis using b u r_log(2,3) by (cases "in_log (jl s) x") (auto simp: rinv_def)
next
  case (r_end i bs s t)
  have o: "jopen s" and l: "lg_outstanding (jl s) = int (length bs)" using assms(1) r_end(1,3) by (auto simp: rinv_def split: if_splits)
  show ?thesis
  proof (cases "length bs = 1")
    case True
    then have "take i bs @ drop (Suc i) bs = []" using r_end(3) by simp
    then show ?thesis using end_op_spec [OF o] l True r_end(2,4) by (auto simp: rinv_def jidle_def)
  next
    case False
    then have "jopen t" "lg_outstanding (jl t) = int (length bs) - 1" "lg_lh (jl t) = lg_lh (jl s)" "take i bs @ drop (Suc i) bs \<noteq> []"
      using end_op_others [OF o] l r_end(3,4) by auto
    then show ?thesis using assms(1) r_end(1,2,3) sum_list_drop [of i bs]
      by (auto simp: rinv_def dest: in_set_takeD in_set_dropD)
  qed
qed

interpretation rsv: machine rstart rstep rinv
proof unfold_locales
  show "rinv r" if "rstart r" for r :: "'z lst_scheme \<times> nat list" using that by (auto simp: rstart_def rinv_def jidle_def split: prod.splits)
qed (rule rinv_step)

section \<open>Properties\<close>

text \<open>A system with an empty log on the example disk, and the same with one operation open.\<close>

definition demo_idle :: lst where
  "demo_idle = (reboot demo_disk)\<lparr>jl := zero_log\<lparr>lg_start := 2, lg_size := 30, lg_dev := ROOTDEV\<rparr>,
     crc32_table := Some crc32_init\<rparr>"

definition demo_open :: lst where
  "demo_open = demo_idle\<lparr>jl := (jl demo_idle)\<lparr>lg_outstanding := 1\<rparr>\<rparr>"

lemma demo_idle_fields [simp]:
  "babs demo_idle = babs (reboot demo_disk)" "lg_start (jl demo_idle) = 2" "lg_size (jl demo_idle) = 30"
  "lg_lh (jl demo_idle) = zero_lh" "lg_dev (jl demo_idle) = ROOTDEV" "lg_outstanding (jl demo_idle) = 0"
  "\<not> lg_committing (jl demo_idle)" "crc32_table demo_idle = Some crc32_init" "crash_at_phase demo_idle = 0"
  by (simp_all add: demo_idle_def) (simp_all add: reboot_def zero_log_def)

lemma demo_idle_held: "held demo_idle = []"
  by (simp add: demo_idle_def reboot_def)

lemma demo_images: "image_ok 2 30 demo_disk" "dec_n (demo_disk 2) = 0"
  using demo_committable by (simp_all add: committable_def demo_babs)

lemma demo_idle_ok: "jidle demo_idle"
proof -
  have "binv Map.empty demo_idle" using reboot_binv [of demo_disk] by (simp add: demo_idle_def)
  moreover have "lh_ok zero_lh" "lh_n zero_lh = 0" by (simp_all add: lh_ok_def zero_lh_def)
  ultimately show ?thesis by (simp add: jidle_def reboot_babs demo_images area_ok_def)
qed

lemma demo_open_ok: "jopen demo_open"
proof -
  have "binv Map.empty demo_open" using reboot_binv [of demo_disk] by (simp add: demo_open_def demo_idle_def)
  moreover have "lh_ok zero_lh" "lh_n zero_lh = 0" by (simp_all add: lh_ok_def zero_lh_def)
  ultimately show ?thesis
    by (simp add: demo_open_def jopen_def reboot_babs demo_images area_ok_def ready_def head_ok_def
        all_logged_def changed_def)
qed

text \<open>Three operations begin on the example disk, and log 29 blocks within their budgets.\<close>

definition demo_run :: "nat \<Rightarrow> nat list \<Rightarrow> lst \<Rightarrow> bool" where
  "demo_run n bs s \<longleftrightarrow> reach rstart rstep (s, bs) \<and> jopen s \<and> pinned (babs s) = {100..<100 + n} \<and>
     lg_start (jl s) = 2 \<and> lg_size (jl s) = 30 \<and> lg_outstanding (jl s) = int (length bs)"

lemma demo_run_n: "demo_run n bs s \<Longrightarrow> lh_n (lg_lh (jl s)) = int n"
  using jopen_entries(2) [of s] by (simp add: demo_run_def)

lemma demo_run_begin:
  assumes "demo_run 0 bs s" "(length bs + 1) * MAXOPBLOCKS \<le> LOGSIZE"
  shows "\<exists>t. demo_run 0 (MAXOPBLOCKS # bs) t"
proof -
  have o: "jopen s" and r: "reach rstart rstep (s, bs)" using assms(1) by (simp_all add: demo_run_def)
  obtain t where t: "begin_op s = Ok () t"
    using begin_op_iff [OF binv_held, of Map.empty s] o assms demo_run_n [OF assms(1)] by (auto simp: jopen_def demo_run_def)
  have "reach rstart rstep (t, MAXOPBLOCKS # bs)" by (rule reach_step [OF r], rule r_begin [OF t])
  then show ?thesis using begin_op_again [OF o t] assms(1) by (intro exI [of _ t]) (auto simp: demo_run_def)
qed

lemma demo_run_three: "\<exists>s. demo_run 0 [10, 10, 10] s"
proof -
  obtain t where t: "begin_op demo_idle = Ok () t" "jopen t" "babs t = babs demo_idle" "lg_outstanding (jl t) = 1"
     "lg_start (jl t) = 2" "lg_size (jl t) = 30"
    using begin_op_spec [OF demo_idle_ok] by auto
  have "reach rstart rstep (demo_idle, [])" by (rule reach_start) (simp add: rstart_def demo_idle_ok)
  then have "reach rstart rstep (t, [MAXOPBLOCKS])" by (rule reach_step) (rule r_begin [OF t(1)])
  then have "demo_run 0 [10] t" using t by (simp add: demo_run_def reboot_babs)
  then show ?thesis using demo_run_begin [of "[10]"] demo_run_begin [of "[10, 10]"] by force
qed

lemma demo_run_log:
  assumes "demo_run n bs s" "i < length bs" "k \<le> bs ! i" "n + k \<le> 29"
  shows "\<exists>t. demo_run (n + k) (bs[i := bs ! i - k]) t"
  using assms(3,4)
proof (induction k)
  case (Suc k)
  let ?bs = "bs[i := bs ! i - k]"
  obtain t where t: "demo_run (n + k) ?bs t" using Suc by auto
  let ?x = "100 + n + k"
  have o: "jopen t" and r: "reach rstart rstep (t, ?bs)" using t by (simp_all add: demo_run_def)
  have x: "may_log (jl t) ?x" "\<not> in_log (jl t) ?x" using t Suc.prems jopen_entries(1) [OF o] by (auto simp: demo_run_def may_log_def home_def)
  have f: "lh_n (lg_lh (jl t)) < lg_size (jl t) - 1" using demo_run_n [OF t] t Suc.prems by (simp add: demo_run_def)
  obtain u where u: "log_update ?x 0 [1] t = Ok () u" using log_update_spec [OF o x(1) f, of 0 "[1]"] by auto
  have "reach rstart rstep (u, bs[i := bs ! i - Suc k])"
    using reach_step [OF r r_log [OF _ x(1) _ _ u, of i ?bs]] x(2) assms(2) Suc.prems by (simp add: Suc_eq_plus1)
  moreover have "insert ?x {100..<100 + (n + k)} = {100..<100 + (n + Suc k)}" by auto
  ultimately show ?case
    using log_update_entries [OF o x(1) _ u f] t assms(2) by (intro exI [of _ u]) (simp add: demo_run_def)
qed (use assms in auto)

lemma demo_run_full: "\<exists>s. demo_run 29 [0, 0, 1] s"
proof -
  obtain s1 where "demo_run 0 [10, 10, 10] s1" using demo_run_three by blast
  then obtain s2 where "demo_run 10 [0, 10, 10] s2" using demo_run_log [of 0 "[10, 10, 10]" s1 0 10] by auto
  then obtain s3 where "demo_run 20 [0, 0, 10] s3" using demo_run_log [of 10 "[0, 10, 10]" s2 "Suc 0" 10] by auto
  then show ?thesis using demo_run_log [of 20 "[0, 0, 10]" s3 "Suc (Suc 0)" 9] by (auto simp: One_nat_def)
qed

text \<open>
  C1: A transaction is atomic and durable. From an idle journal, \<open>begin_op\<close>, any list of
  logged updates that fits the log, and \<open>end_op\<close> return with the journal idle again and
  every block on the disk updated; and if the machine stops anywhere in between, recovery
  gives either the disk before the transaction or the disk after it.
\<close>
theorem transaction_atomic:
  assumes "jidle s" and "\<forall>u\<in>set us. update_ok (jl s) u" and "int (length us) \<le> lg_size (jl s) - 1"
  shows "\<exists>t. transaction us s = Ok () t \<and> jidle t \<and>
     (\<forall>b. home (lg_start (jl s)) (nat (lg_size (jl s))) b \<longrightarrow>
        media (babs t) b = fold apply_update us (media (babs s)) b) \<and>
     (\<exists>tr. wtrace (babs t) = wtrace (babs s) @ tr \<and>
        crash_safe (jl s) tr (media (babs s)) (fold apply_update us (media (babs s))))"
  by (rule transaction_spec [OF assms])

theorem transaction_atomic_witness:
  "\<exists>t. transaction [(100, 4, [1, 2, 3]), (101, 0, [7]), (100, 0, [9])] demo_idle = Ok () t \<and> jidle t \<and>
     (\<forall>b. home 2 30 b \<longrightarrow>
        media (babs t) b = fold apply_update [(100, 4, [1, 2, 3]), (101, 0, [7]), (100, 0, [9])] demo_disk b) \<and>
     (\<exists>tr. wtrace (babs t) = wtrace (babs demo_idle) @ tr \<and> crash_safe (jl demo_idle) tr demo_disk
        (fold apply_update [(100, 4, [1, 2, 3]), (101, 0, [7]), (100, 0, [9])] demo_disk))"
  using transaction_atomic [OF demo_idle_ok, of "[(100, 4, [1, 2, 3]), (101, 0, [7]), (100, 0, [9])]"]
  by (simp add: update_ok_def may_log_def home_def reboot_babs del: fold_simps)

text \<open>
  C4: Inside a transaction, reading a block, changing a range of it, \<open>log_write\<close> and
  \<open>brelse\<close> return, change what processes see in that block and nothing on the disk, and
  keep the invariant of open transactions: the blocks pinned in the cache are the blocks of
  the log, and the recorded ranges, merged or new, cover every byte that differs from the
  disk.
\<close>
theorem log_update_keeps_transaction:
  assumes "jopen s" and "may_log (jl s) x" and "lh_n (lg_lh (jl s)) < lg_size (jl s) - 1"
    and "off + length d \<le> BSIZE"
  shows "\<exists>t. log_update x off d s = Ok () t \<and> jopen t \<and>
     lh_n (lg_lh (jl t)) \<le> lh_n (lg_lh (jl s)) + 1 \<and> media (babs t) = media (babs s) \<and>
     wtrace (babs t) = wtrace (babs s) \<and> view (babs t) = (view (babs s))(x := bsplice off d (view (babs s) x))"
  using log_update_spec [OF assms] by blast

theorem log_update_keeps_transaction_witness:
  "\<exists>t. log_update 100 4 [1, 2, 3] demo_open = Ok () t \<and> jopen t \<and>
     lh_n (lg_lh (jl t)) \<le> lh_n (lg_lh (jl demo_open)) + 1 \<and> media (babs t) = media (babs demo_open) \<and>
     wtrace (babs t) = wtrace (babs demo_open) \<and>
     view (babs t) = (view (babs demo_open))(100 := bsplice 4 [1, 2, 3] (view (babs demo_open) 100))"
  by (rule log_update_keeps_transaction [OF demo_open_ok])
    (simp_all add: demo_open_def may_log_def home_def zero_lh_def)

text \<open>
  C9: The reservation of \<open>begin_op\<close> is sound. However operations interleave their calls of
  \<open>begin_op\<close>, logged updates and \<open>end_op\<close>, as long as each adds at most \<open>MAXOPBLOCKS\<close>
  blocks, \<open>outstanding\<close> counts the open ones, and the entries in the log and those still
  reserved never exceed \<open>LOGSIZE\<close>. In every state on the way \<open>begin_op\<close> returns exactly when
  one more reservation fits, \<open>end_op\<close> returns, and on the disk \<open>mkfs\<close> makes an update
  returns as long as it does not take the last reserved entry.
\<close>
theorem reservation_sound:
  fixes s :: "'z lst_scheme"
  assumes "reach rstart rstep (s, bs)"
  shows "lg_outstanding (jl s) = int (length bs) \<and> lh_n (lg_lh (jl s)) + int (sum_list bs) \<le> int LOGSIZE \<and>
     ((\<exists>t. begin_op s = Ok () t) \<longleftrightarrow> lh_n (lg_lh (jl s)) + int ((length bs + 1) * MAXOPBLOCKS) \<le> int LOGSIZE) \<and>
     (bs \<noteq> [] \<longrightarrow> (\<exists>t. end_op s = Ok () t)) \<and>
     (\<forall>x off d. lg_size (jl s) = int LOGSIZE \<and> 2 \<le> sum_list bs \<and> may_log (jl s) x \<and> off + length d \<le> BSIZE \<longrightarrow>
        (\<exists>t. log_update x off d s = Ok () t))"
proof -
  have i: "(if bs = [] then jidle s else jopen s)" "lg_outstanding (jl s) = int (length bs)"
    "lh_n (lg_lh (jl s)) + int (sum_list bs) \<le> int LOGSIZE"
    using rsv.reach_inv [OF assms] by (simp_all add: rinv_def)
  have "held s = []" "\<not> lg_committing (jl s)" using i(1) binv_held by (auto simp: jidle_def jopen_def split: if_splits)
  then have "(\<exists>t. begin_op s = Ok () t) \<longleftrightarrow> lh_n (lg_lh (jl s)) + int ((length bs + 1) * MAXOPBLOCKS) \<le> int LOGSIZE"
    using begin_op_iff [of s] i(2) by (simp add: algebra_simps)
  moreover have "\<exists>t. end_op s = Ok () t" if "bs \<noteq> []"
  proof -
    have o: "jopen s" using that i(1) by simp
    have "0 < length bs" using that by simp
    then have "length bs = 1 \<or> 1 < length bs" by linarith
    then show ?thesis using end_op_spec [OF o] end_op_others [OF o] i(2) by auto
  qed
  moreover have "\<exists>t. log_update x off d s = Ok () t"
    if "lg_size (jl s) = int LOGSIZE" "2 \<le> sum_list bs" "may_log (jl s) x" "off + length d \<le> BSIZE" for x off d
    using that i log_update_spec [of s x off d] by (cases "bs = []") auto
  ultimately show ?thesis using i by blast
qed

theorem reservation_sound_witness:
  "\<exists>s :: lst. reach rstart rstep (s, [10, 10, 10]) \<and> lg_outstanding (jl s) = 3 \<and> \<not> (\<exists>t. begin_op s = Ok () t) \<and>
     (\<exists>t. end_op s = Ok () t) \<and> (\<exists>t. log_update 100 0 [1] s = Ok () t)"
proof -
  obtain s where s: "demo_run 0 [10, 10, 10] s" using demo_run_three by blast
  then have r: "reach rstart rstep (s, [10, 10, 10])" and m: "may_log (jl s) 100" "lg_size (jl s) = 30"
    by (simp_all add: demo_run_def may_log_def home_def)
  have "\<exists>t. log_update 100 0 [1] s = Ok () t"
    using reservation_sound [OF r] m by (elim conjE allE [of _ 100] allE [of _ 0] allE [of _ "[1]"]) simp
  then show ?thesis using reservation_sound [OF r] r demo_run_n [OF s] by (intro exI [of _ s]) auto
qed

text \<open>
  C11: The reservation does not account for the header block of the log. On the disk
  \<open>mkfs\<close> makes (\<open>log.size = LOGSIZE\<close>) three operations that \<open>begin_op\<close> admits log their
  blocks, each within its budget of \<open>MAXOPBLOCKS\<close>, and reach a state in which one of them
  has a block left to log and \<open>log_write\<close> panics on it.
\<close>
theorem reservation_misses_header:
  "\<exists>(s :: lst) x. reach rstart rstep (s, [0, 0, 1]) \<and> lg_size (jl s) = int LOGSIZE \<and> may_log (jl s) x \<and> \<not> in_log (jl s) x \<and>
     (\<exists>t. log_update x 0 [1] s = Panic ''log_write: transaction too large'' t)"
proof -
  obtain s where s: "demo_run 29 [0, 0, 1] s" using demo_run_full by blast
  then have o: "jopen s" by (simp add: demo_run_def)
  have x: "may_log (jl s) 200" "\<not> in_log (jl s) 200" using s jopen_entries(1) [OF o] by (auto simp: demo_run_def may_log_def home_def)
  moreover have "\<exists>t. log_update 200 0 [1] s = Panic ''log_write: transaction too large'' t"
    using log_update_full [OF o x(1), of 0 "[1]"] s demo_run_n [OF s] by (simp add: demo_run_def)
  ultimately show ?thesis using s by (intro exI [of _ s] exI [of _ 200]) (simp add: demo_run_def)
qed

end
