(* ===== verification/JStore.thy ===== *)
theory JStore
  imports JTxn
begin

text \<open>
  The block store the file system sees inside a transaction: blocks are read into held
  buffers, changed, and either logged (metadata and directories) or written through
  (file data). \<open>journaled\<close> is the contract the file system relies on, in terms of the
  content processes see in each block; \<open>k\<close> counts the blocks the operation may still
  log. The buffer cache with the journal on top provides it.
\<close>

locale journaled =
  fixes run :: "(nat \<rightharpoonup> nat) \<Rightarrow> nat \<Rightarrow> 's \<Rightarrow> bool"
    and V :: "'s \<Rightarrow> nat \<Rightarrow> byte list"
    and fr :: "'s \<Rightarrow> 's \<Rightarrow> bool"
    and rd :: "nat \<Rightarrow> ('s, nat) kop"
    and wr rel :: "nat \<Rightarrow> ('s, unit) kop"
    and lw :: "nat \<Rightarrow> int \<Rightarrow> int \<Rightarrow> ('s, unit) kop"
    and geta :: "nat \<Rightarrow> ('s, byte list) kop"
    and seta :: "nat \<Rightarrow> byte list \<Rightarrow> ('s, unit) kop"
  assumes rd_ok: "run H k s \<Longrightarrow> n < FSSIZE \<Longrightarrow> n \<notin> ran H \<Longrightarrow> card (ran H) \<le> k \<Longrightarrow>
      \<exists>b t. rd n s = Ok b t \<and> H b = None \<and> run (H(b \<mapsto> n)) k t \<and> V t = V s \<and> fr s t"
    and rel_ok: "run H k s \<Longrightarrow> H b = Some n \<Longrightarrow>
      \<exists>t. rel b s = Ok () t \<and> run (H(b := None)) k t \<and> V t = V s \<and> fr s t"
    and geta_ok: "run H k s \<Longrightarrow> H b = Some n \<Longrightarrow> geta b s = Ok (V s n) s"
    and log_ok: "run H (Suc k) s \<Longrightarrow> H b = Some n \<Longrightarrow> length d = BSIZE \<Longrightarrow>
      \<exists>t. seq (seta b d) (lw b off len) s = Ok () t \<and> run H k t \<and> V t = (V s)(n := d) \<and> fr s t"
    and wr_ok: "run H k s \<Longrightarrow> H b = Some n \<Longrightarrow> length d = BSIZE \<Longrightarrow>
      \<exists>t. seq (seta b d) (wr b) s = Ok () t \<and> run H k t \<and> V t = (V s)(n := d) \<and> fr s t"
    and fr_refl: "fr s s"
    and fr_trans: "fr s t \<Longrightarrow> fr t u \<Longrightarrow> fr s u"
    and sizes: "run H k s \<Longrightarrow> length (V s n) = BSIZE"
    and run_less: "run H (Suc k) s \<Longrightarrow> run H k s"
begin

lemma run_mono: "run H k s \<Longrightarrow> j \<le> k \<Longrightarrow> run H j s"
  by (induction k) (auto simp: le_Suc_eq dest: run_less)

text \<open>Read a block and release it.\<close>

lemma peek:
  assumes "run H k s" "n < FSSIZE" "n \<notin> ran H" "card (ran H) \<le> k"
  shows "\<exists>t. bnd (rd n) (\<lambda>b. bnd (geta b) (\<lambda>d. seq (rel b) (ret (f d)))) s = Ok (f (V s n)) t \<and>
     run H k t \<and> V t = V s \<and> fr s t"
proof -
  obtain b t where r: "rd n s = Ok b t" "H b = None" "run (H(b \<mapsto> n)) k t" "V t = V s" "fr s t"
    using rd_ok [OF assms] by blast
  have g: "geta b t = Ok (V s n) t" using geta_ok [OF r(3), of b n] r(4) by simp
  obtain u where u: "rel b t = Ok () u" "run ((H(b \<mapsto> n))(b := None)) k u" "V u = V t" "fr t u"
    using rel_ok [OF r(3), of b n] by auto
  have "(H(b \<mapsto> n))(b := None) = H" using r(2) by auto
  then show ?thesis using r g u fr_trans by fastforce
qed

text \<open>Read a block, change it, log the change, release it; and the same with a write through.\<close>

lemma update:
  assumes "run H (Suc k) s" "n < FSSIZE" "n \<notin> ran H" "card (ran H) \<le> Suc k" "length (f (V s n)) = BSIZE"
  shows "\<exists>t. bnd (rd n) (\<lambda>b. bnd (geta b) (\<lambda>d. seq (seta b (f d)) (seq (lw b off len) (rel b)))) s = Ok () t \<and>
     run H k t \<and> V t = (V s)(n := f (V s n)) \<and> fr s t"
proof -
  obtain b t where r: "rd n s = Ok b t" "H b = None" "run (H(b \<mapsto> n)) (Suc k) t" "V t = V s" "fr s t"
    using rd_ok [OF assms(1-4)] by blast
  have g: "geta b t = Ok (V s n) t" using geta_ok [OF r(3), of b n] r(4) by simp
  obtain u where u: "seq (seta b (f (V s n))) (lw b off len) t = Ok () u" "run (H(b \<mapsto> n)) k u"
      "V u = (V s)(n := f (V s n))" "fr t u"
    using log_ok [OF r(3), of b n "f (V s n)" off len] assms(5) r(4) by auto
  obtain w where w: "rel b u = Ok () w" "run ((H(b \<mapsto> n))(b := None)) k w" "V w = V u" "fr u w"
    using rel_ok [OF u(2), of b n] by auto
  have "(H(b \<mapsto> n))(b := None) = H" using r(2) by auto
  moreover have "fr s w" using r(5) u(4) w(4) fr_trans by blast
  moreover have "seq (seta b (f (V s n))) (seq (lw b off len) (rel b)) t = Ok () w"
    using u(1) w(1) by (auto split: outcome.splits)
  ultimately show ?thesis using r g u w by simp
qed

lemma store:
  assumes "run H k s" "n < FSSIZE" "n \<notin> ran H" "card (ran H) \<le> k" "length (f (V s n)) = BSIZE"
  shows "\<exists>t. bnd (rd n) (\<lambda>b. bnd (geta b) (\<lambda>d. seq (seta b (f d)) (seq (wr b) (rel b)))) s = Ok () t \<and>
     run H k t \<and> V t = (V s)(n := f (V s n)) \<and> fr s t"
proof -
  obtain b t where r: "rd n s = Ok b t" "H b = None" "run (H(b \<mapsto> n)) k t" "V t = V s" "fr s t"
    using rd_ok [OF assms(1-4)] by blast
  have g: "geta b t = Ok (V s n) t" using geta_ok [OF r(3), of b n] r(4) by simp
  obtain u where u: "seq (seta b (f (V s n))) (wr b) t = Ok () u" "run (H(b \<mapsto> n)) k u"
      "V u = (V s)(n := f (V s n))" "fr t u"
    using wr_ok [OF r(3), of b n "f (V s n)"] assms(5) r(4) by auto
  obtain w where w: "rel b u = Ok () w" "run ((H(b \<mapsto> n))(b := None)) k w" "V w = V u" "fr u w"
    using rel_ok [OF u(2), of b n] by auto
  have "(H(b \<mapsto> n))(b := None) = H" using r(2) by auto
  moreover have "fr s w" using r(5) u(4) w(4) fr_trans by blast
  moreover have "seq (seta b (f (V s n))) (seq (wr b) (rel b)) t = Ok () w"
    using u(1) w(1) by (auto split: outcome.splits)
  ultimately show ?thesis using r g u w by simp
qed

end

section \<open>The journal provides the contract\<close>

text \<open>
  A transaction is open, \<open>k\<close> more entries fit in the log, every pinned block has an
  entry, and the held buffers carry no change that is neither logged nor on the disk.
\<close>

definition settled :: "bspec \<Rightarrow> nat \<Rightarrow> bool" where
  "settled a n \<longleftrightarrow> n \<in> pinned a \<or> view a n = media a n"

definition logged_blocks :: "logheader \<Rightarrow> nat set" where
  "logged_blocks h = set (take (nat (lh_n h)) (lh_block h))"

definition jrun :: "(nat \<rightharpoonup> nat) \<Rightarrow> nat \<Rightarrow> 'z lst_scheme \<Rightarrow> bool" where
  "jrun H k s \<longleftrightarrow> binv H s \<and> lh_ok (lg_lh (jl s)) \<and> 1 \<le> lg_outstanding (jl s) \<and>
     lh_n (lg_lh (jl s)) + int k < lg_size (jl s) \<and> lg_size (jl s) \<le> int LOGSIZE \<and>
     pinned (babs s) \<subseteq> logged_blocks (lg_lh (jl s)) \<and> (\<forall>n\<in>ran H. settled (babs s) n)"

abbreviation blk :: "'z bst_scheme \<Rightarrow> nat \<Rightarrow> byte list" where
  "blk s \<equiv> view (babs s)"

lemma jrun_room:
  assumes "jrun H k s" "card (ran H) \<le> k"
  shows "room H (babs s) n"
proof -
  let ?h = "lg_lh (jl s)"
  have h: "lh_ok ?h" "lh_n ?h + int k < int LOGSIZE" "pinned (babs s) \<subseteq> logged_blocks ?h" "bholds H s"
    using assms(1) by (simp_all add: jrun_def binv_def)
  have "card (logged_blocks ?h) \<le> nat (lh_n ?h)"
    unfolding logged_blocks_def by (rule le_trans [OF card_length]) simp
  moreover have "card (pinned (babs s)) \<le> card (logged_blocks ?h)"
    by (rule card_mono [OF _ h(3)]) (simp add: logged_blocks_def)
  moreover have "card (pinned (babs s) \<union> ran H) \<le> card (pinned (babs s)) + card (ran H)"
    by (rule card_Un_le)
  moreover have "0 \<le> lh_n ?h" using h(1) by (simp add: lh_ok_def)
  ultimately show ?thesis using assms(2) h(2) unfolding room_def by linarith
qed

lemma logged_blocks_entry:
  assumes "lh_ok h" "lh_n h < int LOGSIZE"
  shows "logged_blocks (log_entry x off len h) = insert x (logged_blocks h)"
    "lh_ok (log_entry x off len h)" "lh_n (log_entry x off len h) \<le> lh_n h + 1"
proof -
  have l: "nat (lh_n h) < length (lh_block h)" "0 \<le> lh_n h" using assms by (simp_all add: lh_ok_def)
  have s: "nat (lh_n h + 1) = Suc (nat (lh_n h))" using l by simp
  show "logged_blocks (log_entry x off len h) = insert x (logged_blocks h)"
  proof (cases "List.find (\<lambda>i. lh_block h ! i = x) [0..<nat (lh_n h)]")
    case None
    then show ?thesis
      using l by (simp add: log_entry_def append_entry_def Let_def logged_blocks_def s take_Suc_conv_app_nth)
  next
    case (Some i)
    then have "x \<in> logged_blocks h"
      using find_upt_Some [OF Some] l by (auto simp: logged_blocks_def in_set_conv_nth intro!: exI [of _ i])
    then show ?thesis using Some by (simp add: log_entry_def absorb_def Let_def logged_blocks_def insert_absorb)
  qed
  show "lh_ok (log_entry x off len h)" "lh_n (log_entry x off len h) \<le> lh_n h + 1"
    using assms by (auto simp: log_entry_def absorb_def append_entry_def Let_def lh_ok_def split: option.split)
qed

lemma jrun_frame:
  assumes "jrun H k s" "bframe s t" "binv H' t" "pinned (babs t) \<subseteq> pinned (babs s)" "\<forall>n\<in>ran H'. settled (babs t) n"
  shows "jrun H' k t"
  using assms lst_frame(1) [OF assms(2)] by (auto simp: jrun_def)

lemma jrun_read:
  fixes s :: "'z lst_scheme"
  assumes r: "jrun H k s" and n: "n < FSSIZE" "n \<notin> ran H" "card (ran H) \<le> k"
  shows "\<exists>b t. bread ROOTDEV n s = Ok b t \<and> H b = None \<and> jrun (H(b \<mapsto> n)) k t \<and> blk t = blk s \<and> jframe s t"
proof -
  have inv: "binv H s" using r by (simp add: jrun_def)
  obtain b t where t: "bread ROOTDEV n s = Ok b t" "H b = None" "binv (H(b \<mapsto> n)) t" "babs t = babs s" "bframe s t"
    using bc.rd_ok [OF inv n(1,2) jrun_room [OF r n(3)]] by blast
  have "settled (babs s) n" using bc.clean [OF inv _ n(2)] by (auto simp: settled_def)
  then have "jrun (H(b \<mapsto> n)) k t"
    using r t by (intro jrun_frame [OF r t(5) t(3)]) (auto simp: jrun_def dest: ran_map_upd)
  then show ?thesis using t jframe_bframe by auto
qed

lemma jrun_release:
  fixes s :: "'z lst_scheme"
  assumes r: "jrun H k s" and b: "H b = Some n"
  shows "\<exists>t. brelse b s = Ok () t \<and> jrun (H(b := None)) k t \<and> blk t = blk s \<and> jframe s t"
proof -
  have inv: "binv H s" "settled (babs s) n" using r b by (auto simp: jrun_def intro: ranI)
  then obtain t where t: "brelse b s = Ok () t" "binv (H(b := None)) t" "babs t = babs s" "bframe s t"
    using bc.rel_ok [OF inv(1) b] by (auto simp: settled_def)
  have "jrun (H(b := None)) k t"
    using r t by (intro jrun_frame [OF r t(4,2)]) (auto simp: jrun_def ran_def)
  then show ?thesis using t jframe_bframe by auto
qed

lemma jrun_log:
  fixes s :: "'z lst_scheme"
  assumes r: "jrun H (Suc k) s" and b: "H b = Some n" and d: "length d = BSIZE"
  shows "\<exists>t. seq (set_data b d) (log_write b off len) s = Ok () t \<and> jrun H k t \<and> blk t = (blk s)(n := d) \<and> jframe s t"
proof -
  have inv: "binv H s" and o: "1 \<le> lg_outstanding (jl s)" and h: "lh_ok (lg_lh (jl s))"
    and c: "lh_n (lg_lh (jl s)) < lg_size (jl s) - 1" "lh_n (lg_lh (jl s)) < int LOGSIZE"
    using r by (auto simp: jrun_def)
  obtain u where u: "set_data b d s = Ok () u" "binv H u" "bframe s u" "babs u = (babs s)\<lparr>view := (blk s)(n := d)\<rparr>"
    using bc.seta_ok [OF inv b d] by auto
  note ju = lst_frame(1) [OF u(3)]
  obtain t where t: "log_write b off len u = Ok () t" "binv H t" "jframe u t"
      "jl t = (jl s)\<lparr>lg_lh := log_entry n off len (lg_lh (jl s))\<rparr>" "babs t = (babs u)\<lparr>pinned := insert n (pinned (babs u))\<rparr>"
    using log_write_run [OF u(2) b, of off len] o c unfolding ju by auto
  have "jrun H k t"
    using r t(2,4,5) u(4) logged_blocks_entry [OF h c(2), of n off len] by (auto simp: jrun_def settled_def)
  moreover have "jframe s t" using jframe_bframe [OF u(3)] t(3) by (rule jframe_trans)
  ultimately show ?thesis using u t by auto
qed

lemma jrun_write:
  fixes s :: "'z lst_scheme"
  assumes r: "jrun H k s" and b: "H b = Some n" and d: "length d = BSIZE"
  shows "\<exists>t. seq (set_data b d) (bwrite b) s = Ok () t \<and> jrun H k t \<and> blk t = (blk s)(n := d) \<and> jframe s t"
proof -
  have inv: "binv H s" using r by (simp add: jrun_def)
  obtain u where u: "set_data b d s = Ok () u" "binv H u" "bframe s u" "babs u = (babs s)\<lparr>view := (blk s)(n := d)\<rparr>"
    using bc.seta_ok [OF inv b d] by auto
  obtain t where t: "bwrite b u = Ok () t" "binv H t" "bframe u t"
      "babs t = (babs u)\<lparr>media := (media (babs u))(n := blk u n), pinned := pinned (babs u) - {n},
          wtrace := wtrace (babs u) @ [DWrite ROOTDEV n (blk u n)]\<rparr>"
    using bc.wr_ok [OF u(2) b] by auto
  have "jrun H k t"
    using r t u(4) bframe_trans [OF u(3) t(3)] by (intro jrun_frame [OF r _ t(2)]) (auto simp: jrun_def settled_def)
  then show ?thesis using u t jframe_bframe [OF bframe_trans [OF u(3) t(3)]] by auto
qed

interpretation jv: journaled jrun blk jframe "bread ROOTDEV" bwrite brelse log_write get_data set_data
proof unfold_locales
  show "get_data b s = Ok (blk s n) s" if "jrun H k s" "H b = Some n" for H k b n and s :: "'z lst_scheme"
    using that bc.geta_ok [of H s b n] by (simp add: jrun_def)
  show "length (blk s n) = BSIZE" if "jrun H k s" for H k n and s :: "'z lst_scheme"
    using that bc.sizes [of H s n] by (simp add: jrun_def)
  show "jrun H k s" if "jrun H (Suc k) s" for H k and s :: "'z lst_scheme"
    using that by (simp add: jrun_def)
qed (fact jrun_read jrun_release jrun_log jrun_write jframe_refl jframe_trans)+

end
