(* ===== verification/CString.thy ===== *)
theory CString
  imports Prelude
begin

text \<open>
  The memory and string routines of \<open>string.c\<close>. \<open>memset\<close>, \<open>memmove\<close> and
  \<open>memcmp\<close> run on a byte memory indexed by addresses. A \<open>const char *\<close> argument
  of a string routine is the function from offsets to the bytes found there, so that one
  definition serves strings in memory and the byte lists the file system works with; the
  destination of a copy is the list of bytes written there.
\<close>

section \<open>Memory\<close>

type_synonym memory = "nat \<Rightarrow> byte"

text \<open>The string instructions of \<open>x86.h\<close> that \<open>memset\<close> uses.\<close>

primrec stosb :: "nat \<Rightarrow> byte \<Rightarrow> nat \<Rightarrow> memory \<Rightarrow> memory" where
  "stosb a c 0 mem = mem"
| "stosb a c (Suc n) mem = stosb (a + 1) c n (mem(a := c))"

primrec stosl :: "nat \<Rightarrow> u32 \<Rightarrow> nat \<Rightarrow> memory \<Rightarrow> memory" where
  "stosl a w 0 mem = mem"
| "stosl a w (Suc n) mem =
     stosl (a + 4) w n (mem(a := ucast w, a + 1 := ucast (drop_bit 8 w),
       a + 2 := ucast (drop_bit 16 w), a + 3 := ucast (drop_bit 24 w)))"

definition memset :: "nat \<Rightarrow> u32 \<Rightarrow> nat \<Rightarrow> memory \<Rightarrow> memory" where
  "memset dst c n =
     (if dst mod 4 = 0 \<and> n mod 4 = 0 then
        let c = c AND 0xFF in stosl dst (push_bit 24 c OR push_bit 16 c OR push_bit 8 c OR c) (n div 4)
      else stosb dst (ucast c) n)"

primrec memcmp :: "memory \<Rightarrow> nat \<Rightarrow> nat \<Rightarrow> nat \<Rightarrow> int" where
  "memcmp mem s1 s2 0 = 0"
| "memcmp mem s1 s2 (Suc n) =
     (if mem s1 \<noteq> mem s2 then uint (mem s1) - uint (mem s2) else memcmp mem (s1 + 1) (s2 + 1) n)"

primrec copy_up :: "nat \<Rightarrow> nat \<Rightarrow> nat \<Rightarrow> memory \<Rightarrow> memory" where
  "copy_up d s 0 mem = mem"
| "copy_up d s (Suc n) mem = copy_up (d + 1) (s + 1) n (mem(d := mem s))"

primrec copy_down :: "nat \<Rightarrow> nat \<Rightarrow> nat \<Rightarrow> memory \<Rightarrow> memory" where
  "copy_down d s 0 mem = mem"
| "copy_down d s (Suc n) mem = copy_down d s n (mem(d + n := mem (s + n)))"

definition memmove :: "nat \<Rightarrow> nat \<Rightarrow> nat \<Rightarrow> memory \<Rightarrow> memory" where
  "memmove dst src n mem =
     (if src < dst \<and> src + n > dst then copy_down dst src n mem else copy_up dst src n mem)"

definition memcpy :: "nat \<Rightarrow> nat \<Rightarrow> nat \<Rightarrow> memory \<Rightarrow> memory" where
  "memcpy dst src n mem = memmove dst src n mem"

section \<open>Strings\<close>

type_synonym cptr = "nat \<Rightarrow> byte"

text \<open>The bytes of a list followed by zeros: a string without its terminator, or an array padded with zeros.\<close>

definition of_list :: "byte list \<Rightarrow> cptr" where
  "of_list bs i = (if i < length bs then bs ! i else 0)"

definition advance :: "nat \<Rightarrow> cptr \<Rightarrow> cptr" where
  "advance k p = (\<lambda>i. p (k + i))"

primrec strncmp :: "cptr \<Rightarrow> cptr \<Rightarrow> nat \<Rightarrow> int" where
  "strncmp p q 0 = 0"
| "strncmp p q (Suc n) =
     (if p 0 \<noteq> 0 \<and> p 0 = q 0 then strncmp (advance 1 p) (advance 1 q) n
      else uint (p 0) - uint (q 0))"

text \<open>\<open>strncpy\<close> writes exactly \<open>n\<close> bytes: those of \<open>t\<close> up to its terminator, then zeros.\<close>

primrec strncpy :: "cptr \<Rightarrow> nat \<Rightarrow> byte list" where
  "strncpy t 0 = []"
| "strncpy t (Suc n) = t 0 # (if t 0 \<noteq> 0 then strncpy (advance 1 t) n else replicate n 0)"

text \<open>\<open>safestrcpy\<close> writes at most \<open>n\<close> bytes, the last one zero; \<open>n\<close> is positive in the loop.\<close>

primrec safestrcpy_loop :: "cptr \<Rightarrow> nat \<Rightarrow> byte list" where
  "safestrcpy_loop t 0 = [0]"
| "safestrcpy_loop t (Suc n) =
     (if t 0 \<noteq> 0 then t 0 # safestrcpy_loop (advance 1 t) n else [0, 0])"

definition safestrcpy :: "cptr \<Rightarrow> int \<Rightarrow> byte list" where
  "safestrcpy t n = (if n \<le> 0 then [] else safestrcpy_loop t (nat (n - 1)))"

text \<open>\<open>strlen\<close> has no bound: on memory without a zero byte it does not return.\<close>

partial_function (option) strlen_from :: "cptr \<Rightarrow> nat \<Rightarrow> nat option" where
  "strlen_from s n = (if s n = 0 then Some n else strlen_from s (n + 1))"

definition strlen :: "cptr \<Rightarrow> nat option" where
  "strlen s = strlen_from s 0"

section \<open>Filling and copying\<close>

lemma stosb_apply: "stosb d c n mem x = (if d \<le> x \<and> x < d + n then c else mem x)"
  by (induction n arbitrary: d mem) force+

lemma stosl_apply:
  assumes "ucast w = c" "ucast (drop_bit 8 w) = c" "ucast (drop_bit 16 w) = c" "ucast (drop_bit 24 w) = c"
  shows "stosl d w n mem x = (if d \<le> x \<and> x < d + 4 * n then c else mem x)"
proof (induction n arbitrary: d mem)
  case (Suc n)
  have "d \<le> x \<and> x < d + 4 * Suc n \<longleftrightarrow> x = d \<or> x = d + 1 \<or> x = d + 2 \<or> x = d + 3 \<or> (d + 4 \<le> x \<and> x < d + 4 + 4 * n)"
    by auto
  then show ?case using assms Suc.IH by simp
qed auto

lemma spread_byte:
  fixes c :: u32
  defines "w \<equiv> push_bit 24 (c AND 0xFF) OR push_bit 16 (c AND 0xFF) OR push_bit 8 (c AND 0xFF) OR (c AND 0xFF)"
  shows "ucast w = (ucast c :: byte)" "ucast (drop_bit 8 w) = (ucast c :: byte)"
    "ucast (drop_bit 16 w) = (ucast c :: byte)" "ucast (drop_bit 24 w) = (ucast c :: byte)"
proof -
  have w: "w = push_bit 24 (take_bit 8 c) OR push_bit 16 (take_bit 8 c) OR push_bit 8 (take_bit 8 c) OR take_bit 8 c"
    by (simp add: w_def take_bit_eq_mask mask_eq_exp_minus_1)
  show "ucast w = (ucast c :: byte)" "ucast (drop_bit 8 w) = (ucast c :: byte)"
    "ucast (drop_bit 16 w) = (ucast c :: byte)" "ucast (drop_bit 24 w) = (ucast c :: byte)"
    unfolding w by (auto intro!: bit_word_eqI simp: bit_simps)
qed

lemma copy_up_apply:
  assumes "d \<le> s \<or> s + n \<le> d"
  shows "copy_up d s n mem x = (if d \<le> x \<and> x < d + n then mem (s + (x - d)) else mem x)"
  using assms
proof (induction n arbitrary: d s mem)
  case (Suc n)
  have "copy_up (d + 1) (s + 1) n (mem(d := mem s)) x =
      (if d + 1 \<le> x \<and> x < d + 1 + n then (mem(d := mem s)) (s + 1 + (x - (d + 1))) else (mem(d := mem s)) x)"
    by (rule Suc.IH) (use Suc.prems in auto)
  moreover have "s + 1 + (x - (d + 1)) = s + (x - d)" if "d + 1 \<le> x" using that by simp
  moreover have "s + (x - d) \<noteq> d" if "d + 1 \<le> x" "x < d + 1 + n" using that Suc.prems by auto
  ultimately show ?case by auto
qed auto

lemma copy_down_apply:
  assumes "s \<le> d"
  shows "copy_down d s n mem x = (if d \<le> x \<and> x < d + n then mem (s + (x - d)) else mem x)"
proof (induction n arbitrary: mem)
  case (Suc n)
  have "s + (x - d) \<noteq> d + n" if "x < d + n" "d \<le> x" using that assms by simp
  then show ?case by (auto simp: Suc.IH)
qed auto

lemma uint_inj: "uint (a :: byte) = uint b \<longleftrightarrow> a = b"
  by (simp add: word_uint_eq_iff)

lemma memcmp_zero: "memcmp mem a b n = 0 \<longleftrightarrow> (\<forall>i<n. mem (a + i) = mem (b + i))"
  by (induction n arbitrary: a b) (auto simp: All_less_Suc2 uint_inj One_nat_def)

section \<open>C strings\<close>

text \<open>The string of at most \<open>n\<close> bytes at \<open>p\<close>: the bytes before the terminator.\<close>

definition cstr :: "nat \<Rightarrow> cptr \<Rightarrow> byte list" where
  "cstr n p = takeWhile (\<lambda>b. b \<noteq> 0) (map p [0..<n])"

lemma map_upt_Suc_shift: "map p [0..<Suc n] = p 0 # map (advance 1 p) [0..<n]"
  by (simp only: advance_def map_upt_Suc) (simp add: One_nat_def)

lemma cstr_0 [simp]: "cstr 0 p = []"
  by (simp add: cstr_def)

lemma cstr_Suc [simp]: "cstr (Suc n) p = (if p 0 = 0 then [] else p 0 # cstr n (advance 1 p))"
  by (simp add: cstr_def map_upt_Suc_shift del: upt_Suc)

lemma strncmp_zero: "strncmp p q n = 0 \<longleftrightarrow> cstr n p = cstr n q"
  by (induction n arbitrary: p q) (auto simp: uint_inj uint_0_iff)

lemma length_strncpy [simp]: "length (strncpy t n) = n"
  by (induction n arbitrary: t) auto

lemma strncpy_pad: "strncpy t n = cstr n t @ replicate (n - length (cstr n t)) 0"
  by (induction n arbitrary: t) auto

lemma advance_of_list [simp]: "advance 1 (of_list (x # xs)) = of_list xs" "of_list (x # xs) 0 = x"
  by (auto simp: advance_def of_list_def)

lemma of_list_Nil [simp]: "of_list [] i = 0"
  by (simp add: of_list_def)

lemma cstr_of_list: "0 \<notin> set xs \<Longrightarrow> cstr n (of_list xs) = take n xs"
proof (induction xs arbitrary: n)
  case Nil
  then show ?case by (cases n) simp_all
next
  case (Cons x xs)
  then show ?case by (cases n) auto
qed

lemma cstr_padded: "0 \<notin> set xs \<Longrightarrow> cstr n (of_list (xs @ replicate k 0)) = take n xs"
proof (induction xs arbitrary: n)
  case Nil
  then show ?case by (cases n) (auto simp: of_list_def)
next
  case (Cons x xs)
  then show ?case by (cases n) auto
qed

lemma cstr_end:
  assumes "0 \<notin> set xs"
  shows "cstr n (of_list (xs @ [0])) = take n xs" "cstr n (of_list (xs @ [0, 0])) = take n xs"
  using cstr_padded [OF assms, of n "Suc 0"] cstr_padded [OF assms, of n "Suc (Suc 0)"] by simp_all

lemma strlen_from_finds: "s (n + k) = 0 \<Longrightarrow> (\<forall>i<k. s (n + i) \<noteq> 0) \<Longrightarrow> strlen_from s n = Some (n + k)"
proof (induction k arbitrary: n)
  case 0
  then show ?case by (subst strlen_from.simps) simp
next
  case (Suc k)
  have "strlen_from s (n + 1) = Some (n + 1 + k)"
  proof (rule Suc.IH)
    show "s (n + 1 + k) = 0" using Suc.prems(1) by (simp add: One_nat_def)
    show "\<forall>i<k. s (n + 1 + i) \<noteq> 0" using Suc.prems(2) by (simp add: All_less_Suc2 One_nat_def)
  qed
  then show ?case using Suc.prems(2) [rule_format, of 0] by (subst strlen_from.simps) (simp add: One_nat_def)
qed

lemma safestrcpy_loop_shape:
  "safestrcpy_loop t n = cstr n t @ (if length (cstr n t) < n then [0, 0] else [0])"
  by (induction n arbitrary: t) auto

section \<open>Properties\<close>

text \<open>
  \<open>memset\<close> stores the low byte of its argument in exactly the \<open>n\<close> bytes at
  \<open>dst\<close>, whether it runs by words (aligned address and length) or by bytes.
\<close>
lemma memset_fills:
  "memset dst c n mem x = (if dst \<le> x \<and> x < dst + n then ucast c else mem x)"
proof (cases "dst mod 4 = 0 \<and> n mod 4 = 0")
  case True
  then have n: "4 * (n div 4) = n" by auto
  show ?thesis
    unfolding memset_def if_P [OF True] Let_def stosl_apply [OF spread_byte] n ..
next
  case False
  then show ?thesis by (auto simp: memset_def stosb_apply)
qed

text \<open>
  \<open>memmove\<close> copies correctly also when the two ranges overlap: afterwards the
  destination holds the bytes the source held before the call, and nothing else changed.
\<close>
theorem memmove_overlap:
  "memmove dst src n mem x = (if dst \<le> x \<and> x < dst + n then mem (src + (x - dst)) else mem x)"
proof (cases "src < dst \<and> src + n > dst")
  case True
  then show ?thesis by (simp add: memmove_def copy_down_apply)
next
  case False
  then have "dst \<le> src \<or> src + n \<le> dst" by auto
  then show ?thesis by (simp only: memmove_def if_not_P [OF False] copy_up_apply)
qed

text \<open>
  The bounded string routines agree: \<open>strncmp\<close> gives zero exactly for equal strings
  of at most \<open>n\<close> bytes, comparing with a copy made by \<open>strncpy\<close> gives zero, and
  \<open>safestrcpy\<close> writes at most \<open>n\<close> bytes, a prefix of the string and a terminator.
\<close>
theorem string_copies:
  "(strncmp p q n = 0 \<longleftrightarrow> cstr n p = cstr n q) \<and> length (strncpy p n) = n \<and>
   strncmp p (of_list (strncpy p n)) n = 0 \<and>
   length (safestrcpy p (int n)) \<le> n \<and> cstr n (of_list (safestrcpy p (int n))) = cstr (n - 1) p"
proof (intro conjI)
  have z: "0 \<notin> set (cstr m p)" for m by (auto simp: cstr_def dest: set_takeWhileD)
  have len: "length (cstr m p) \<le> m" for m
    using length_takeWhile_le [of "\<lambda>b. b \<noteq> 0" "map p [0..<m]"] by (simp add: cstr_def)
  show "strncmp p q n = 0 \<longleftrightarrow> cstr n p = cstr n q" by (rule strncmp_zero)
  show "length (strncpy p n) = n" by simp
  show "strncmp p (of_list (strncpy p n)) n = 0"
    using cstr_padded [OF z] len [of n] by (simp add: strncmp_zero strncpy_pad)
  have sh: "safestrcpy p (int (Suc m)) = cstr m p @ (if length (cstr m p) < m then [0, 0] else [0])" for m
    by (simp add: safestrcpy_def safestrcpy_loop_shape)
  show "length (safestrcpy p (int n)) \<le> n"
  proof (cases n)
    case (Suc m)
    then show ?thesis using sh [of m] len [of m] by simp
  qed (simp add: safestrcpy_def)
  show "cstr n (of_list (safestrcpy p (int n))) = cstr (n - 1) p"
  proof (cases n)
    case (Suc m)
    show ?thesis using sh [of m] cstr_end [OF z, of n m] len [of m] Suc by (simp split: if_splits)
  qed simp
qed

text \<open>
  \<open>strlen\<close> returns on every string that has a terminator, and gives the number of
  bytes before the first one.
\<close>
lemma strlen_returns:
  assumes "s k = 0" and "\<forall>i<k. s i \<noteq> 0"
  shows "strlen s = Some k"
  using strlen_from_finds [of s 0 k] assms by (simp add: strlen_def)

theorem strlen_returns_witness: "strlen (of_list [104, 105]) = Some 2"
proof (rule strlen_returns)
  show "\<forall>i<2. of_list [104, 105] i \<noteq> 0"
  proof (intro allI impI)
    fix i :: nat assume "i < 2"
    then have "i = 0 \<or> i = 1" by auto
    then show "of_list [104, 105] i \<noteq> 0" by (auto simp: of_list_def)
  qed
qed (simp add: of_list_def)

end
