(* ===== verification/Fs.thy ===== *)
theory Fs
  imports JStore CString
begin

text \<open>
  \<open>fs.c\<close>: the block allocator, the inode cache, the content of inodes, directories and
  path names, in the order of the source. Inode pointers are indices of the inode cache;
  null results are \<open>None\<close>, and a pointer that is an index passes the null tests of
  \<open>ilock\<close> and \<open>iunlock\<close>. A path or a name is the list of its bytes without the
  terminator. The buffers \<open>dst\<close> and \<open>src\<close> of the data routines are byte lists. The
  proofs are in \<open>FsAlloc\<close>, \<open>FsData\<close> and \<open>FsDir\<close>.
\<close>

section \<open>State\<close>

record inode =
  i_dev :: nat
  i_inum :: nat
  i_ref :: int
  i_lock :: sleeplock
  i_valid :: bool
  i_type :: u16
  i_major :: u16
  i_minor :: u16
  i_nlink :: u16
  i_size :: u32
  i_addrs :: "u32 list"

record ist = lst +
  sb :: superblock
  icache :: "inode list"

definition ino :: "nat \<Rightarrow> ('z ist_scheme, inode) kop" where
  "ino ip = getf (\<lambda>s. icache s ! ip)"

definition set_ino :: "nat \<Rightarrow> (inode \<Rightarrow> inode) \<Rightarrow> ('z ist_scheme, unit) kop" where
  "set_ino ip f = upd (\<lambda>s. s\<lparr>icache := (icache s)[ip := f (icache s ! ip)]\<rparr>)"

definition ino_getl :: "nat \<Rightarrow> 'z ist_scheme \<Rightarrow> sleeplock" where
  "ino_getl ip s = i_lock (icache s ! ip)"

definition ino_setl :: "nat \<Rightarrow> sleeplock \<Rightarrow> 'z ist_scheme \<Rightarrow> 'z ist_scheme" where
  "ino_setl ip l s = s\<lparr>icache := (icache s)[ip := (icache s ! ip)\<lparr>i_lock := l\<rparr>]\<rparr>"

text \<open>\<open>struct devsw\<close> (\<open>file.h\<close>): the read and write functions of each major device.\<close>

record 's devsw =
  dv_read :: "nat \<Rightarrow> (nat \<Rightarrow> nat \<Rightarrow> ('s, byte list option) kop) option"
  dv_write :: "nat \<Rightarrow> (nat \<Rightarrow> byte list \<Rightarrow> ('s, int) kop) option"

section \<open>Blocks\<close>

definition bzero :: "nat \<Rightarrow> nat \<Rightarrow> ('z ist_scheme, unit) kop" where
  "bzero dev bno =
     bnd (bread dev bno) (\<lambda>bp.
     seq (set_data bp (replicate BSIZE 0))
    (seq (log_write bp 0 (int BSIZE))
         (brelse bp)))"

text \<open>Bit \<open>bi\<close> of a block of the free map; \<open>m = 1 << (bi % 8)\<close>.\<close>

definition bmask :: "nat \<Rightarrow> byte" where
  "bmask bi = push_bit (bi mod 8) 1"

definition bit_free :: "byte list \<Rightarrow> nat \<Rightarrow> bool" where
  "bit_free d bi \<longleftrightarrow> d ! (bi div 8) AND bmask bi = 0"

definition mark_used :: "byte list \<Rightarrow> nat \<Rightarrow> byte list" where
  "mark_used d bi = d[bi div 8 := d ! (bi div 8) OR bmask bi]"

definition mark_free :: "byte list \<Rightarrow> nat \<Rightarrow> byte list" where
  "mark_free d bi = d[bi div 8 := d ! (bi div 8) AND NOT (bmask bi)]"

definition balloc :: "nat \<Rightarrow> ('z ist_scheme, nat) kop" where
  "balloc dev =
     bnd (getf sb) (\<lambda>q.
     bnd (search_each (map (\<lambda>k. k * BPB) [0..<(sb_size q + BPB - 1) div BPB]) (\<lambda>b.
       bnd (bread dev (BBLOCK b q)) (\<lambda>bp.
       bnd (get_data bp) (\<lambda>d.
       case List.find (bit_free d) [0..<min BPB (sb_size q - b)] of
         Some bi \<Rightarrow>
           seq (set_data bp (mark_used d bi))
          (seq (log_write bp (int (bi div 8)) 1)
          (seq (brelse bp)
          (seq (bzero dev (b + bi))
               (ret (Some (b + bi))))))
       | None \<Rightarrow> seq (brelse bp) (ret None))))) (\<lambda>r.
     case r of Some b \<Rightarrow> ret b | None \<Rightarrow> panic ''balloc: out of blocks''))"

definition bfree :: "nat \<Rightarrow> nat \<Rightarrow> ('z ist_scheme, unit) kop" where
  "bfree dev b =
     bnd (getf sb) (\<lambda>q.
     bnd (bread dev (BBLOCK b q)) (\<lambda>bp.
     bnd (get_data bp) (\<lambda>d.
     let bi = b mod BPB in
     seq (panic_if (bit_free d bi) ''freeing free block'')
    (seq (set_data bp (mark_free d bi))
    (seq (log_write bp (int (bi div 8)) 1)
         (brelse bp))))))"

section \<open>Inodes\<close>

definition iinit :: "nat \<Rightarrow> ('z ist_scheme, unit) kop" where
  "iinit dev =
     seq (upd (\<lambda>s. s\<lparr>icache := map (\<lambda>i. i\<lparr>i_lock := initsleeplock\<rparr>) (icache s)\<rparr>))
    (bnd (readsb dev) (\<lambda>q. upd (\<lambda>s. s\<lparr>sb := q\<rparr>)))"

text \<open>\<open>(struct dinode*)bp->data + inum%IPB\<close>.\<close>

definition dinode_at :: "byte list \<Rightarrow> nat \<Rightarrow> dinode" where
  "dinode_at d inum = dec_dinode (bslice (inum mod IPB * DINODESZ) DINODESZ d)"

definition put_dinode :: "byte list \<Rightarrow> nat \<Rightarrow> dinode \<Rightarrow> byte list" where
  "put_dinode d inum di = bsplice (inum mod IPB * DINODESZ) (enc_dinode di) d"

definition new_dinode :: "u16 \<Rightarrow> dinode" where
  "new_dinode ty = \<lparr>di_type = ty, di_major = 0, di_minor = 0, di_nlink = 0, di_size = 0,
     di_addrs = replicate (NDIRECT + 1) 0\<rparr>"

definition iget :: "nat \<Rightarrow> nat \<Rightarrow> ('z ist_scheme, nat) kop" where
  "iget dev inum =
     seq (lock LIcache)
    (bnd (getf icache) (\<lambda>c.
     case find_index (\<lambda>i. i_ref i > 0 \<and> i_dev i = dev \<and> i_inum i = inum) c of
       Some ip \<Rightarrow>
         seq (set_ino ip (\<lambda>i. i\<lparr>i_ref := i_ref i + 1\<rparr>))
        (seq (unlock LIcache) (ret ip))
     | None \<Rightarrow>
         (case find_index (\<lambda>i. i_ref i = 0) c of
            None \<Rightarrow> panic ''iget: no inodes''
          | Some ip \<Rightarrow>
              seq (set_ino ip (\<lambda>i. i\<lparr>i_dev := dev, i_inum := inum, i_ref := 1, i_valid := False\<rparr>))
             (seq (unlock LIcache) (ret ip)))))"

definition ialloc :: "nat \<Rightarrow> u16 \<Rightarrow> ('z ist_scheme, nat) kop" where
  "ialloc dev ty =
     bnd (getf sb) (\<lambda>q.
     bnd (search_each [1..<sb_ninodes q] (\<lambda>inum.
       bnd (bread dev (IBLOCK inum q)) (\<lambda>bp.
       bnd (get_data bp) (\<lambda>d.
       if di_type (dinode_at d inum) = 0 then
         seq (set_data bp (put_dinode d inum (new_dinode ty)))
        (seq (log_write bp (int (inum mod IPB * DINODESZ)) (int DINODESZ))
        (seq (brelse bp)
        (bnd (iget dev inum) (\<lambda>ip. ret (Some ip)))))
       else seq (brelse bp) (ret None))))) (\<lambda>r.
     case r of Some ip \<Rightarrow> ret ip | None \<Rightarrow> panic ''ialloc: no inodes''))"

definition disk_copy :: "inode \<Rightarrow> dinode" where
  "disk_copy i = \<lparr>di_type = i_type i, di_major = i_major i, di_minor = i_minor i, di_nlink = i_nlink i,
     di_size = i_size i, di_addrs = i_addrs i\<rparr>"

definition iupdate :: "nat \<Rightarrow> ('z ist_scheme, unit) kop" where
  "iupdate ip =
     bnd (getf sb) (\<lambda>q.
     bnd (ino ip) (\<lambda>i.
     bnd (bread (i_dev i) (IBLOCK (i_inum i) q)) (\<lambda>bp.
     bnd (get_data bp) (\<lambda>d.
     seq (set_data bp (put_dinode d (i_inum i) (disk_copy i)))
    (seq (log_write bp (int (i_inum i mod IPB * DINODESZ)) (int DINODESZ))
         (brelse bp))))))"

definition idup :: "nat \<Rightarrow> ('z ist_scheme, nat) kop" where
  "idup ip =
     seq (lock LIcache)
    (seq (set_ino ip (\<lambda>i. i\<lparr>i_ref := i_ref i + 1\<rparr>))
    (seq (unlock LIcache)
         (ret ip)))"

definition load_dinode :: "dinode \<Rightarrow> inode \<Rightarrow> inode" where
  "load_dinode di i = i\<lparr>i_type := di_type di, i_major := di_major di, i_minor := di_minor di,
     i_nlink := di_nlink di, i_size := di_size di, i_addrs := di_addrs di\<rparr>"

definition ilock :: "nat \<Rightarrow> ('z ist_scheme, unit) kop" where
  "ilock ip =
     bnd (ino ip) (\<lambda>i.
     seq (panic_if (i_ref i < 1) ''ilock'')
    (seq (acquiresleep (LInode ip) (ino_getl ip) (ino_setl ip))
    (bnd (ino ip) (\<lambda>i.
     whenc (\<not> i_valid i)
      (bnd (getf sb) (\<lambda>q.
       bnd (bread (i_dev i) (IBLOCK (i_inum i) q)) (\<lambda>bp.
       bnd (get_data bp) (\<lambda>d.
       seq (set_ino ip (load_dinode (dinode_at d (i_inum i))))
      (seq (brelse bp)
      (seq (set_ino ip (\<lambda>i. i\<lparr>i_valid := True\<rparr>))
      (bnd (ino ip) (\<lambda>i.
       panic_if (i_type i = 0) ''ilock: no type''))))))))))))"

definition iunlock :: "nat \<Rightarrow> ('z ist_scheme, unit) kop" where
  "iunlock ip =
     bnd (holdingsleep (LInode ip) (ino_getl ip)) (\<lambda>h.
     bnd (ino ip) (\<lambda>i.
     seq (panic_if (\<not> h \<or> i_ref i < 1) ''iunlock'')
         (releasesleep (LInode ip) (ino_setl ip))))"

text \<open>\<open>itrunc\<close>, declared ahead of its definition in the source.\<close>

definition itrunc :: "nat \<Rightarrow> ('z ist_scheme, unit) kop" where
  "itrunc ip =
     seq (for_each [0..<NDIRECT] (\<lambda>k.
            bnd (ino ip) (\<lambda>i.
            whenc (i_addrs i ! k \<noteq> 0)
             (seq (bfree (i_dev i) (unat (i_addrs i ! k)))
                  (set_ino ip (\<lambda>i. i\<lparr>i_addrs := (i_addrs i)[k := 0]\<rparr>))))))
    (seq (bnd (ino ip) (\<lambda>i.
          whenc (i_addrs i ! NDIRECT \<noteq> 0)
           (bnd (bread (i_dev i) (unat (i_addrs i ! NDIRECT))) (\<lambda>bp.
            seq (for_each [0..<NINDIRECT] (\<lambda>j.
                   bnd (get_data bp) (\<lambda>d.
                   whenc (get32 d (4 * j) \<noteq> 0) (bfree (i_dev i) (unat (get32 d (4 * j)))))))
           (seq (brelse bp)
           (seq (bfree (i_dev i) (unat (i_addrs i ! NDIRECT)))
                (set_ino ip (\<lambda>i. i\<lparr>i_addrs := (i_addrs i)[NDIRECT := 0]\<rparr>))))))))
    (seq (set_ino ip (\<lambda>i. i\<lparr>i_size := 0\<rparr>))
         (iupdate ip)))"

definition iput :: "nat \<Rightarrow> ('z ist_scheme, unit) kop" where
  "iput ip =
     seq (acquiresleep (LInode ip) (ino_getl ip) (ino_setl ip))
    (seq (bnd (ino ip) (\<lambda>i.
          whenc (i_valid i \<and> i_nlink i = 0)
           (seq (lock LIcache)
           (bnd (ino ip) (\<lambda>i.
            seq (unlock LIcache)
                (whenc (i_ref i = 1)
                 (seq (itrunc ip)
                 (seq (set_ino ip (\<lambda>i. i\<lparr>i_type := 0\<rparr>))
                 (seq (iupdate ip)
                      (set_ino ip (\<lambda>i. i\<lparr>i_valid := False\<rparr>)))))))))))
    (seq (releasesleep (LInode ip) (ino_setl ip))
    (seq (lock LIcache)
    (seq (set_ino ip (\<lambda>i. i\<lparr>i_ref := i_ref i - 1\<rparr>))
         (unlock LIcache)))))"

definition iunlockput :: "nat \<Rightarrow> ('z ist_scheme, unit) kop" where
  "iunlockput ip = seq (iunlock ip) (iput ip)"

section \<open>Inode content\<close>

text \<open>The address at \<open>addrs[k]\<close>, allocating a block where it is zero.\<close>

definition direct_addr :: "nat \<Rightarrow> nat \<Rightarrow> ('z ist_scheme, nat) kop" where
  "direct_addr ip k =
     bnd (ino ip) (\<lambda>i.
     if i_addrs i ! k = 0 then
       bnd (balloc (i_dev i)) (\<lambda>a.
       seq (set_ino ip (\<lambda>i. i\<lparr>i_addrs := (i_addrs i)[k := of_nat a]\<rparr>))
           (ret a))
     else ret (unat (i_addrs i ! k)))"

definition bmap :: "nat \<Rightarrow> nat \<Rightarrow> ('z ist_scheme, nat) kop" where
  "bmap ip bn =
     (if bn < NDIRECT then direct_addr ip bn
      else if bn - NDIRECT < NINDIRECT then
        bnd (direct_addr ip NDIRECT) (\<lambda>a.
        bnd (ino ip) (\<lambda>i.
        bnd (bread (i_dev i) a) (\<lambda>bp.
        bnd (get_data bp) (\<lambda>d.
        let off = 4 * (bn - NDIRECT) in
        if get32 d off = 0 then
          bnd (balloc (i_dev i)) (\<lambda>a.
          bnd (get_data bp) (\<lambda>d.
          seq (set_data bp (put32 d off (of_nat a)))
         (seq (log_write bp (int off) 4)
         (seq (brelse bp) (ret a)))))
        else seq (brelse bp) (ret (unat (get32 d off)))))))
      else panic ''bmap: out of range'')"

text \<open>\<open>struct stat\<close> (\<open>stat.h\<close>).\<close>

record fstat =
  st_type :: u16
  st_dev :: nat
  st_ino :: nat
  st_nlink :: u16
  st_size :: u32

definition stati :: "nat \<Rightarrow> ('z ist_scheme, fstat) kop" where
  "stati ip = bnd (ino ip) (\<lambda>i.
     ret \<lparr>st_type = i_type i, st_dev = i_dev i, st_ino = i_inum i, st_nlink = i_nlink i, st_size = i_size i\<rparr>)"

text \<open>
  The loops of \<open>readi\<close> and \<open>writei\<close>: \<open>r\<close> is \<open>n - tot\<close>, and the source of a
  write is what is left of it.
\<close>

function readi_loop :: "nat \<Rightarrow> nat \<Rightarrow> nat \<Rightarrow> ('z ist_scheme, byte list) kop" where
  "readi_loop ip off r =
     (if r = 0 then ret [] else
      let m = min r (BSIZE - off mod BSIZE) in
      bnd (ino ip) (\<lambda>i.
      bnd (bmap ip (off div BSIZE)) (\<lambda>a.
      bnd (bread (i_dev i) a) (\<lambda>bp.
      bnd (get_data bp) (\<lambda>d.
      seq (brelse bp)
     (bnd (readi_loop ip (off + m) (r - m)) (\<lambda>rest.
      ret (bslice (off mod BSIZE) m d @ rest))))))))"
  by pat_completeness auto
termination by (relation "measure (\<lambda>(ip, off, r). r)") auto

declare readi_loop.simps [simp del]

lemma readi_loop_0 [simp]: "readi_loop ip off 0 s = Ok [] s"
  by (subst readi_loop.simps) simp

text \<open>\<open>ip->major < 0 || ip->major >= NDEV\<close>.\<close>

definition bad_major :: "u16 \<Rightarrow> bool" where
  "bad_major m \<longleftrightarrow> sint m < 0 \<or> sint m \<ge> int NDEV"

definition readi :: "'z ist_scheme devsw \<Rightarrow> nat \<Rightarrow> u32 \<Rightarrow> u32 \<Rightarrow> ('z ist_scheme, byte list option) kop" where
  "readi dv ip off n =
     bnd (ino ip) (\<lambda>i.
     if i_type i = T_DEV then
       (if bad_major (i_major i) then ret None
        else case dv_read dv (unat (i_major i)) of None \<Rightarrow> ret None | Some rd \<Rightarrow> rd ip (unat n))
     else if off > i_size i \<or> off + n < off then ret None
     else
       let n = (if off + n > i_size i then i_size i - off else n) in
       bnd (readi_loop ip (unat off) (unat n)) (\<lambda>d. ret (Some d)))"

function writei_loop :: "nat \<Rightarrow> byte list \<Rightarrow> nat \<Rightarrow> ('z ist_scheme, unit) kop" where
  "writei_loop ip src off =
     (if src = [] then ret () else
      let m = min (length src) (BSIZE - off mod BSIZE) in
      bnd (ino ip) (\<lambda>i.
      bnd (bmap ip (off div BSIZE)) (\<lambda>a.
      bnd (bread (i_dev i) a) (\<lambda>bp.
      bnd (get_data bp) (\<lambda>d.
      seq (set_data bp (bsplice (off mod BSIZE) (take m src) d))
     (seq (if i_type i = T_DIR then log_write bp (int (off mod BSIZE)) (int m) else bwrite bp)
     (seq (brelse bp)
          (writei_loop ip (drop m src) (off + m)))))))))"
  by pat_completeness auto
termination
  by (relation "measure (\<lambda>(ip, src, off). length src)") (auto simp: min_def)

declare writei_loop.simps [simp del]

lemma writei_loop_Nil [simp]: "writei_loop ip [] off s = Ok () s"
  by (subst writei_loop.simps) simp

definition writei :: "'z ist_scheme devsw \<Rightarrow> nat \<Rightarrow> byte list \<Rightarrow> u32 \<Rightarrow> ('z ist_scheme, int) kop" where
  "writei dv ip src off =
     (let n = of_nat (length src) :: u32 in
     bnd (ino ip) (\<lambda>i.
     if i_type i = T_DEV then
       (if bad_major (i_major i) then ret (-1)
        else case dv_write dv (unat (i_major i)) of None \<Rightarrow> ret (-1) | Some wr \<Rightarrow> wr ip src)
     else if off > i_size i \<or> off + n < off then ret (-1)
     else if off + n > of_nat (MAXFILE * BSIZE) then ret (-1)
     else
       seq (writei_loop ip src (unat off))
      (bnd (ino ip) (\<lambda>i.
       seq (whenc (n > 0 \<and> off + n > i_size i)
             (seq (set_ino ip (\<lambda>i. i\<lparr>i_size := off + n\<rparr>))
                  (iupdate ip)))
           (ret (int (length src)))))))"

section \<open>Directories\<close>

definition namecmp :: "byte list \<Rightarrow> byte list \<Rightarrow> int" where
  "namecmp s t = strncmp (of_list s) (of_list t) DIRSIZ"

text \<open>The offsets \<open>0, sizeof(de), ...\<close> below the size, and the first one that is not.\<close>

definition slots :: "nat \<Rightarrow> nat" where
  "slots sz = (sz + DIRENTSZ - 1) div DIRENTSZ"

definition dir_offs :: "nat \<Rightarrow> nat list" where
  "dir_offs sz = map (\<lambda>k. k * DIRENTSZ) [0..<slots sz]"

text \<open>\<open>readi(dp, (char*)&de, off, sizeof(de)) != sizeof(de)\<close> is a panic in both scans.\<close>

definition read_dirent :: "'z ist_scheme devsw \<Rightarrow> string \<Rightarrow> nat \<Rightarrow> nat \<Rightarrow> ('z ist_scheme, dirent) kop" where
  "read_dirent dv msg dp off =
     bnd (readi dv dp (of_nat off) (of_nat DIRENTSZ)) (\<lambda>r.
     case r of None \<Rightarrow> panic msg
     | Some d \<Rightarrow> seq (panic_if (length d \<noteq> DIRENTSZ) msg) (ret (dec_dirent d)))"

definition dirlookup :: "'z ist_scheme devsw \<Rightarrow> nat \<Rightarrow> byte list \<Rightarrow> ('z ist_scheme, (nat \<times> nat) option) kop" where
  "dirlookup dv dp name =
     bnd (ino dp) (\<lambda>i.
     seq (panic_if (i_type i \<noteq> T_DIR) ''dirlookup not DIR'')
    (search_each (dir_offs (unat (i_size i))) (\<lambda>off.
       bnd (read_dirent dv ''dirlookup read'' dp off) (\<lambda>de.
       if de_inum de = 0 then ret None
       else if namecmp name (de_name de) = 0 then
         bnd (iget (i_dev i) (unat (de_inum de))) (\<lambda>ip. ret (Some (ip, off)))
       else ret None))))"

definition dirlink :: "'z ist_scheme devsw \<Rightarrow> nat \<Rightarrow> byte list \<Rightarrow> nat \<Rightarrow> ('z ist_scheme, int) kop" where
  "dirlink dv dp name inum =
     bnd (dirlookup dv dp name) (\<lambda>r.
     case r of
       Some (ip, _) \<Rightarrow> seq (iput ip) (ret (-1))
     | None \<Rightarrow>
         bnd (ino dp) (\<lambda>i.
         bnd (search_each (dir_offs (unat (i_size i))) (\<lambda>off.
           bnd (read_dirent dv ''dirlink read'' dp off) (\<lambda>de.
           ret (if de_inum de = 0 then Some off else None)))) (\<lambda>e.
         let off = (case e of Some off \<Rightarrow> off | None \<Rightarrow> slots (unat (i_size i)) * DIRENTSZ);
             de = \<lparr>de_inum = of_nat inum, de_name = strncpy (of_list name) DIRSIZ\<rparr> in
         bnd (writei dv dp (enc_dirent de) (of_nat off)) (\<lambda>n.
         seq (panic_if (n \<noteq> int DIRENTSZ) ''dirlink'')
             (ret 0)))))"

section \<open>Paths\<close>

abbreviation (input) slash :: byte where "slash \<equiv> 47"

text \<open>\<open>skipelem\<close>: the next element of the path and what follows it.\<close>

definition skipelem :: "byte list \<Rightarrow> (byte list \<times> byte list) option" where
  "skipelem path =
     (let path = dropWhile (\<lambda>c. c = slash) path in
      if path = [] then None
      else
        let s = takeWhile (\<lambda>c. c \<noteq> slash) path;
            path = dropWhile (\<lambda>c. c \<noteq> slash) path;
            name = (if length s \<ge> DIRSIZ then take DIRSIZ s else s)
        in Some (name, dropWhile (\<lambda>c. c = slash) path))"

lemma length_dropWhile_mono: "length (dropWhile P xs) \<le> length xs"
  by (induction xs) auto

lemma skipelem_shorter: "skipelem path = Some (name, rest) \<Longrightarrow> length rest < length path"
proof -
  assume a: "skipelem path = Some (name, rest)"
  let ?p = "dropWhile (\<lambda>c. c = slash) path"
  have ne: "?p \<noteq> []" and r: "rest = dropWhile (\<lambda>c. c = slash) (dropWhile (\<lambda>c. c \<noteq> slash) ?p)"
    using a by (auto simp: skipelem_def Let_def split: if_splits)
  have "hd ?p \<noteq> slash" using hd_dropWhile [OF ne] by simp
  then obtain c cs where p: "?p = c # cs" "c \<noteq> slash" using ne by (cases ?p) auto
  have "length rest \<le> length cs"
    unfolding r p using p(2) length_dropWhile_mono le_trans by (metis (mono_tags, lifting) dropWhile.simps(2))
  also have "\<dots> < length path" using length_dropWhile_mono [of "\<lambda>c. c = slash" path] p(1) by simp
  finally show ?thesis .
qed

text \<open>
  The loop of \<open>namex\<close>; the result is the inode and the last element copied into
  \<open>name\<close>.
\<close>

function namex_loop :: "'z ist_scheme devsw \<Rightarrow> bool \<Rightarrow> nat \<Rightarrow> byte list \<Rightarrow> byte list \<Rightarrow>
    ('z ist_scheme, (nat \<times> byte list) option) kop" where
  "namex_loop dv nameiparent ip name path =
     (case skipelem path of
        None \<Rightarrow> if nameiparent then seq (iput ip) (ret None) else ret (Some (ip, name))
      | Some (name, path) \<Rightarrow>
          seq (ilock ip)
         (bnd (ino ip) (\<lambda>i.
          if i_type i \<noteq> T_DIR then seq (iunlockput ip) (ret None)
          else if nameiparent \<and> path = [] then seq (iunlock ip) (ret (Some (ip, name)))
          else
            bnd (dirlookup dv ip name) (\<lambda>r.
            case r of
              None \<Rightarrow> seq (iunlockput ip) (ret None)
            | Some (nxt, _) \<Rightarrow> seq (iunlockput ip) (namex_loop dv nameiparent nxt name path)))))"
  by pat_completeness auto
termination
  by (relation "measure (\<lambda>(dv, par, ip, name, path). length path)") (auto simp: skipelem_shorter)

declare namex_loop.simps [simp del]

definition namex :: "'z ist_scheme devsw \<Rightarrow> byte list \<Rightarrow> bool \<Rightarrow> ('z ist_scheme, (nat \<times> byte list) option) kop" where
  "namex dv path nameiparent =
     bnd (if path \<noteq> [] \<and> hd path = slash then iget ROOTDEV ROOTINO
          else bnd myproc (\<lambda>p. bnd (getf ptable) (\<lambda>pt.
               case p of None \<Rightarrow> fault ''namex: no process''
               | Some p \<Rightarrow> (case p_cwd (pt ! p) of None \<Rightarrow> fault ''namex: no cwd'' | Some c \<Rightarrow> idup c)))) (\<lambda>ip.
     namex_loop dv nameiparent ip [] path)"

definition namei :: "'z ist_scheme devsw \<Rightarrow> byte list \<Rightarrow> ('z ist_scheme, nat option) kop" where
  "namei dv path = bnd (namex dv path False) (\<lambda>r. ret (map_option fst r))"

definition nameiparent :: "'z ist_scheme devsw \<Rightarrow> byte list \<Rightarrow> ('z ist_scheme, (nat \<times> byte list) option) kop" where
  "nameiparent dv path = namex dv path True"

end
