(* ===== verification/FsAlloc.thy ===== *)
theory FsAlloc
  imports Fs
begin

text \<open>
  The block allocator (\<open>balloc\<close>, \<open>bfree\<close>, \<open>bzero\<close> of \<open>fs.c\<close>) against the set of
  blocks the free map marks as used, and the frame of the file system state.
\<close>

section \<open>Frame\<close>

lemma ist_frame:
  assumes "jframe s t"
  shows "sb t = sb s" "icache t = icache s" "cur t = cur s" "ist.more t = ist.more s"
  using assms by (cases s, cases t, simp add: jframe_def)+

lemma babs_icache [simp]: "babs (s\<lparr>icache := c\<rparr>) = babs s" "babs (s\<lparr>sb := q\<rparr>) = babs s"
  by (simp_all add: babs_def fun_eq_iff bview_def cached_in_def dirty_blocks_def split: option.split)

lemma binv_icache [simp]: "binv H (s\<lparr>icache := c\<rparr>) = binv H s" "binv H (s\<lparr>sb := q\<rparr>) = binv H s"
  by (simp_all add: binv_def quiet_def bwf_def bholds_def curpid_def split: option.split)

lemma jrun_icache [simp]:
  "jrun H k (s\<lparr>icache := c\<rparr>) = jrun H k s" "jrun H k (s\<lparr>sb := q\<rparr>) = jrun H k s"
  by (simp_all add: jrun_def)

section \<open>The free map\<close>

lemma bit_bmask: "bit (bmask bi) j \<longleftrightarrow> j = bi mod 8"
  by (auto simp: bmask_def bit_simps)

lemma bit_free_bit: "bit_free d bi \<longleftrightarrow> \<not> bit (d ! (bi div 8)) (bi mod 8)"
proof
  assume "bit_free d bi"
  then have "\<not> bit (d ! (bi div 8) AND bmask bi) (bi mod 8)" by (simp add: bit_free_def)
  then show "\<not> bit (d ! (bi div 8)) (bi mod 8)" by (simp add: bit_simps bit_bmask)
next
  assume "\<not> bit (d ! (bi div 8)) (bi mod 8)"
  then show "bit_free d bi" by (auto simp: bit_free_def bit_simps bit_bmask intro!: bit_word_eqI)
qed

lemma length_mark [simp]: "length (mark_used d bi) = length d" "length (mark_free d bi) = length d"
  by (simp_all add: mark_used_def mark_free_def)

lemma bit_free_mark_used:
  assumes "bi div 8 < length d"
  shows "bit_free (mark_used d bi) j \<longleftrightarrow> bit_free d j \<and> j \<noteq> bi"
proof (cases "j div 8 = bi div 8")
  case True
  then have "j = bi \<longleftrightarrow> j mod 8 = bi mod 8" by (metis div_mult_mod_eq)
  then show ?thesis using True assms by (simp add: bit_free_bit mark_used_def bit_simps bit_bmask)
next
  case False
  then show ?thesis using assms by (auto simp: bit_free_bit mark_used_def)
qed

lemma bit_free_mark_free:
  assumes "bi div 8 < length d"
  shows "bit_free (mark_free d bi) j \<longleftrightarrow> bit_free d j \<or> j = bi"
proof (cases "j div 8 = bi div 8")
  case True
  then have "j = bi \<longleftrightarrow> j mod 8 = bi mod 8" by (metis div_mult_mod_eq)
  then show ?thesis using True assms by (auto simp: bit_free_bit mark_free_def bit_simps bit_bmask)
next
  case False
  then show ?thesis using assms by (auto simp: bit_free_bit mark_free_def)
qed

text \<open>
  The layout \<open>mkfs\<close> makes: inode blocks before the free map, the free map in one block
  (the file system has at most \<open>FSSIZE\<close> blocks), data after it.
\<close>

definition sb_ok :: "superblock \<Rightarrow> bool" where
  "sb_ok q \<longleftrightarrow> sb_size q \<le> FSSIZE \<and> sb_bmapstart q < sb_size q \<and> 1 < sb_inodestart q \<and>
     (\<forall>i < sb_ninodes q. IBLOCK i q < sb_bmapstart q)"

definition used :: "superblock \<Rightarrow> (nat \<Rightarrow> byte list) \<Rightarrow> nat \<Rightarrow> bool" where
  "used q V b \<longleftrightarrow> \<not> bit_free (V (BBLOCK b q)) (b mod BPB)"

text \<open>Every block up to the free map is in use.\<close>

definition fs_ok :: "superblock \<Rightarrow> (nat \<Rightarrow> byte list) \<Rightarrow> bool" where
  "fs_ok q V \<longleftrightarrow> sb_ok q \<and> (\<forall>x \<le> sb_bmapstart q. used q V x)"

lemma sb_one_map:
  assumes "sb_ok q" "b < sb_size q"
  shows "BBLOCK b q = sb_bmapstart q" "b mod BPB = b" "b < FSSIZE" "b div 8 < BSIZE"
  using assms by (auto simp: sb_ok_def BBLOCK_def)

lemma sb_scan:
  assumes "sb_ok q"
  shows "(4095 + sb_size q) div BPB = 1" "min BPB (sb_size q) = sb_size q"
  using assms by (auto simp: sb_ok_def)

text \<open>What an allocation does to the blocks.\<close>

definition alloc_eff :: "superblock \<Rightarrow> nat \<Rightarrow> (nat \<Rightarrow> byte list) \<Rightarrow> nat \<Rightarrow> byte list" where
  "alloc_eff q b V = V(sb_bmapstart q := mark_used (V (sb_bmapstart q)) b, b := replicate BSIZE 0)"

lemma used_mark:
  assumes "sb_ok q" "b < sb_size q" "length (V (sb_bmapstart q)) = BSIZE" "x < sb_size q"
  shows "used q (V(sb_bmapstart q := mark_used (V (sb_bmapstart q)) b)) x \<longleftrightarrow> used q V x \<or> x = b"
    "used q (V(sb_bmapstart q := mark_free (V (sb_bmapstart q)) b)) x \<longleftrightarrow> used q V x \<and> x \<noteq> b"
  using sb_one_map [OF assms(1,2)] sb_one_map [OF assms(1,4)] assms(3) bit_free_mark_used [of b "V (sb_bmapstart q)" x]
    bit_free_mark_free [of b "V (sb_bmapstart q)" x]
  by (auto simp: used_def)

lemma used_other: "sb_ok q \<Longrightarrow> x < sb_size q \<Longrightarrow> y \<noteq> sb_bmapstart q \<Longrightarrow> used q (V(y := d)) x = used q V x"
  by (simp add: used_def sb_one_map)

lemma used_alloc_eff:
  assumes f: "fs_ok q V" and b: "b < sb_size q" "\<not> used q V b" and len: "length (V (sb_bmapstart q)) = BSIZE"
  shows "sb_bmapstart q < b" "x < sb_size q \<Longrightarrow> used q (alloc_eff q b V) x \<longleftrightarrow> used q V x \<or> x = b"
    "fs_ok q (alloc_eff q b V)"
proof -
  have s: "sb_ok q" using f by (simp add: fs_ok_def)
  show bm: "sb_bmapstart q < b" using f b(2) by (auto simp: fs_ok_def not_less [symmetric])
  show u: "used q (alloc_eff q b V) x \<longleftrightarrow> used q V x \<or> x = b" if "x < sb_size q" for x
    unfolding alloc_eff_def using that bm used_mark(1) [where V = V, OF s b(1) len that] by (simp add: used_other [OF s that])
  show "fs_ok q (alloc_eff q b V)"
    using f u by (auto simp: fs_ok_def sb_ok_def)
qed

section \<open>Allocation\<close>

lemma bzero_spec:
  assumes "jrun H (Suc k) s" "b < FSSIZE" "b \<notin> ran H" "card (ran H) \<le> Suc k"
  shows "\<exists>t. bzero ROOTDEV b s = Ok () t \<and> jrun H k t \<and> blk t = (blk s)(b := replicate BSIZE 0) \<and> jframe s t"
proof -
  obtain bp u where u: "bread ROOTDEV b s = Ok bp u" "H bp = None" "jrun (H(bp \<mapsto> b)) (Suc k) u" "blk u = blk s" "jframe s u"
    using jv.rd_ok [OF assms] by blast
  obtain w where w: "seq (set_data bp (replicate BSIZE 0)) (log_write bp 0 (int BSIZE)) u = Ok () w"
      "jrun (H(bp \<mapsto> b)) k w" "blk w = (blk u)(b := replicate BSIZE 0)" "jframe u w"
    using jv.log_ok [OF u(3), of bp b "replicate BSIZE 0" 0 "int BSIZE"] by auto
  obtain t where t: "brelse bp w = Ok () t" "jrun ((H(bp \<mapsto> b))(bp := None)) k t" "blk t = blk w" "jframe w t"
    using jv.rel_ok [OF w(2), of bp b] by auto
  have "(H(bp \<mapsto> b))(bp := None) = H" using u(2) by auto
  moreover have "bzero ROOTDEV b s = Ok () t"
    using u(1) w(1) t(1) by (auto simp: bzero_def split: outcome.splits)
  moreover have "jframe s t" using u(5) w(4) t(4) jframe_trans by blast
  ultimately show ?thesis using t(2,3) w(3) u(4) by auto
qed

definition first_free :: "superblock \<Rightarrow> (nat \<Rightarrow> byte list) \<Rightarrow> nat option" where
  "first_free q V = List.find (\<lambda>b. \<not> used q V b) [0..<sb_size q]"

lemma first_free_find:
  assumes "sb_ok q"
  shows "List.find (bit_free (V (sb_bmapstart q))) [0..<sb_size q] = first_free q V"
  unfolding first_free_def using sb_one_map [OF assms] by (intro find_cong) (auto simp: used_def)

text \<open>The buffers held across an allocation are in-use blocks other than the free map.\<close>

definition held_ok :: "superblock \<Rightarrow> (nat \<Rightarrow> byte list) \<Rightarrow> (nat \<rightharpoonup> nat) \<Rightarrow> bool" where
  "held_ok q V H \<longleftrightarrow> (\<forall>x\<in>ran H. x < sb_size q \<and> used q V x \<and> x \<noteq> sb_bmapstart q)"

lemma held_ok_empty [simp]: "held_ok q V Map.empty"
  by (simp add: held_ok_def)

lemma balloc_spec:
  fixes s :: "'z ist_scheme"
  assumes r: "jrun H (Suc (Suc k)) s" and f: "fs_ok (sb s) (blk s)" and h: "held_ok (sb s) (blk s) H"
    and c: "card (ran H) \<le> Suc k" and ff: "first_free (sb s) (blk s) = Some b"
  shows "\<exists>t. balloc ROOTDEV s = Ok b t \<and> jrun H k t \<and> blk t = alloc_eff (sb s) b (blk s) \<and> jframe s t"
proof -
  let ?q = "sb s" let ?m = "sb_bmapstart ?q"
  have s: "sb_ok ?q" using f by (simp add: fs_ok_def)
  have b: "b < sb_size ?q" "\<not> used ?q (blk s) b" using ff find_SomeD [of _ _ b] by (fastforce simp: first_free_def)+
  have m: "?m < sb_size ?q" "?m < FSSIZE" using s by (simp_all add: sb_ok_def)
  have z: "BBLOCK 0 ?q = ?m" using sb_one_map(1) [OF s, of 0] m(1) by simp
  have nin: "?m \<notin> ran H" "b \<notin> ran H" using h b(2) by (auto simp: held_ok_def)
  have c2: "card (ran H) \<le> Suc (Suc k)" using c by simp
  obtain bp u where u: "bread ROOTDEV ?m s = Ok bp u" "H bp = None" "jrun (H(bp \<mapsto> ?m)) (Suc (Suc k)) u"
      "blk u = blk s" "jframe s u"
    using jv.rd_ok [OF r m(2) nin(1) c2] by blast
  have g: "get_data bp u = Ok (blk s ?m) u" using jv.geta_ok [OF u(3), of bp ?m] u(4) by simp
  have len: "length (blk s ?m) = BSIZE" by (rule jv.sizes [OF r])
  obtain w where w: "seq (set_data bp (mark_used (blk s ?m) b)) (log_write bp (int (b div 8)) 1) u = Ok () w"
      "jrun (H(bp \<mapsto> ?m)) (Suc k) w" "blk w = (blk u)(?m := mark_used (blk s ?m) b)" "jframe u w"
    using jv.log_ok [OF u(3), of bp ?m "mark_used (blk s ?m) b" "int (b div 8)" 1] len by auto
  obtain v where v: "brelse bp w = Ok () v" "jrun ((H(bp \<mapsto> ?m))(bp := None)) (Suc k) v" "blk v = blk w" "jframe w v"
    using jv.rel_ok [OF w(2), of bp ?m] by auto
  have He: "(H(bp \<mapsto> ?m))(bp := None) = H" using u(2) by auto
  obtain t where t: "bzero ROOTDEV b v = Ok () t" "jrun H k t" "blk t = (blk v)(b := replicate BSIZE 0)" "jframe v t"
    using bzero_spec [OF v(2) [unfolded He] sb_one_map(3) [OF s b(1)] nin(2) c] by blast
  have "balloc ROOTDEV s = Ok b t"
    using u(1) g w(1) v(1) t(1) ff
    by (auto simp: balloc_def sb_scan [OF s] One_nat_def z first_free_find [OF s] split: outcome.splits)
  moreover have "jframe s t" using u(5) w(4) v(4) t(4) jframe_trans by blast
  ultimately show ?thesis using t(2,3) v(3) w(3) u(4) by (auto simp: alloc_eff_def)
qed

text \<open>With no free block, \<open>balloc\<close> panics.\<close>

lemma balloc_full:
  fixes s :: "'z ist_scheme"
  assumes r: "jrun H k s" and f: "fs_ok (sb s) (blk s)" and h: "held_ok (sb s) (blk s) H"
    and c: "card (ran H) \<le> k" and ff: "first_free (sb s) (blk s) = None"
  shows "\<exists>t. balloc ROOTDEV s = Panic ''balloc: out of blocks'' t \<and> blk t = blk s"
proof -
  let ?q = "sb s" let ?m = "sb_bmapstart ?q"
  have s: "sb_ok ?q" using f by (simp add: fs_ok_def)
  have m: "?m < sb_size ?q" "?m < FSSIZE" using s by (simp_all add: sb_ok_def)
  have z: "BBLOCK 0 ?q = ?m" using sb_one_map(1) [OF s, of 0] m(1) by simp
  have nin: "?m \<notin> ran H" using h by (auto simp: held_ok_def)
  obtain bp u where u: "bread ROOTDEV ?m s = Ok bp u" "H bp = None" "jrun (H(bp \<mapsto> ?m)) k u" "blk u = blk s"
    using jv.rd_ok [OF r m(2) nin c] by blast
  have g: "get_data bp u = Ok (blk s ?m) u" using jv.geta_ok [OF u(3), of bp ?m] u(4) by simp
  obtain v where v: "brelse bp u = Ok () v" "blk v = blk u" using jv.rel_ok [OF u(3), of bp ?m] by auto
  show ?thesis
    using u(1,4) g v ff by (auto simp: balloc_def sb_scan [OF s] One_nat_def z first_free_find [OF s])
qed

lemma bfree_spec:
  fixes s :: "'z ist_scheme"
  assumes r: "jrun H (Suc k) s" and f: "fs_ok (sb s) (blk s)" and h: "sb_bmapstart (sb s) \<notin> ran H"
    and c: "card (ran H) \<le> Suc k" and b: "b < sb_size (sb s)"
  shows "used (sb s) (blk s) b \<Longrightarrow> \<exists>t. bfree ROOTDEV b s = Ok () t \<and> jrun H k t \<and> jframe s t \<and>
      blk t = (blk s)(sb_bmapstart (sb s) := mark_free (blk s (sb_bmapstart (sb s))) b)"
    and "\<not> used (sb s) (blk s) b \<Longrightarrow> \<exists>t. bfree ROOTDEV b s = Panic ''freeing free block'' t"
proof -
  let ?q = "sb s" let ?m = "sb_bmapstart ?q"
  have s: "sb_ok ?q" using f by (simp add: fs_ok_def)
  have m: "?m < FSSIZE" using s by (simp add: sb_ok_def)
  note z = sb_one_map [OF s b]
  obtain bp u where u: "bread ROOTDEV ?m s = Ok bp u" "H bp = None" "jrun (H(bp \<mapsto> ?m)) (Suc k) u" "blk u = blk s" "jframe s u"
    using jv.rd_ok [OF r m h c] by blast
  have g: "get_data bp u = Ok (blk s ?m) u" using jv.geta_ok [OF u(3), of bp ?m] u(4) by simp
  show "\<exists>t. bfree ROOTDEV b s = Panic ''freeing free block'' t" if "\<not> used ?q (blk s) b"
    using u(1) g that z by (auto simp: bfree_def used_def)
  assume us: "used ?q (blk s) b"
  have len: "length (blk s ?m) = BSIZE" by (rule jv.sizes [OF r])
  obtain w where w: "seq (set_data bp (mark_free (blk s ?m) b)) (log_write bp (int (b div 8)) 1) u = Ok () w"
      "jrun (H(bp \<mapsto> ?m)) k w" "blk w = (blk u)(?m := mark_free (blk s ?m) b)" "jframe u w"
    using jv.log_ok [OF u(3), of bp ?m "mark_free (blk s ?m) b" "int (b div 8)" 1] len by auto
  obtain t where t: "brelse bp w = Ok () t" "jrun ((H(bp \<mapsto> ?m))(bp := None)) k t" "blk t = blk w" "jframe w t"
    using jv.rel_ok [OF w(2), of bp ?m] by auto
  have "(H(bp \<mapsto> ?m))(bp := None) = H" using u(2) by auto
  moreover have "bfree ROOTDEV b s = Ok () t"
    using u(1) g w(1) t(1) us z by (auto simp: bfree_def used_def Let_def split: outcome.splits)
  moreover have "jframe s t" using u(5) w(4) t(4) jframe_trans by blast
  ultimately show "\<exists>t. bfree ROOTDEV b s = Ok () t \<and> jrun H k t \<and> jframe s t \<and>
      blk t = (blk s)(?m := mark_free (blk s ?m) b)"
    using t(2,3) w(3) u(4) by auto
qed

end
