(* ===== verification/FsData.thy ===== *)
theory FsData
  imports FsAlloc
begin

text \<open>
  The content of inodes: the map from file blocks to disk blocks (\<open>bmap\<close>), and
  \<open>readi\<close> and \<open>writei\<close> against the bytes of the file. A file is read through its
  pointers: twelve direct ones, and those in the indirect block.
\<close>

section \<open>Pointers\<close>

text \<open>
  Pointer \<open>m\<close> of an inode: file block \<open>m\<close> for \<open>m < MAXFILE\<close>, and the indirect block
  for \<open>m = MAXFILE\<close>; zero where there is none.
\<close>

definition ind :: "inode \<Rightarrow> nat" where
  "ind i = unat (i_addrs i ! NDIRECT)"

definition ptr :: "(nat \<Rightarrow> byte list) \<Rightarrow> inode \<Rightarrow> nat \<Rightarrow> nat" where
  "ptr V i m =
     (if m < NDIRECT then unat (i_addrs i ! m)
      else if m < MAXFILE then (if ind i = 0 then 0 else unat (get32 (V (ind i)) (4 * (m - NDIRECT))))
      else ind i)"

definition data_blk :: "superblock \<Rightarrow> (nat \<Rightarrow> byte list) \<Rightarrow> nat \<Rightarrow> bool" where
  "data_blk q V p \<longleftrightarrow> sb_bmapstart q < p \<and> p < sb_size q \<and> used q V p"

text \<open>Every pointer leads to a data block in use, and no two to the same one.\<close>

definition fwf :: "superblock \<Rightarrow> (nat \<Rightarrow> byte list) \<Rightarrow> inode \<Rightarrow> bool" where
  "fwf q V i \<longleftrightarrow> length (i_addrs i) = NDIRECT + 1 \<and>
     (\<forall>m\<le>MAXFILE. ptr V i m \<noteq> 0 \<longrightarrow> data_blk q V (ptr V i m)) \<and>
     (\<forall>m\<le>MAXFILE. \<forall>m'\<le>MAXFILE. ptr V i m \<noteq> 0 \<longrightarrow> ptr V i m = ptr V i m' \<longrightarrow> m = m')"

lemma fwfD:
  assumes "fwf q V i"
  shows "length (i_addrs i) = NDIRECT + 1"
    and "m \<le> MAXFILE \<Longrightarrow> ptr V i m \<noteq> 0 \<Longrightarrow> data_blk q V (ptr V i m)"
    and "m \<le> MAXFILE \<Longrightarrow> m' \<le> MAXFILE \<Longrightarrow> ptr V i m \<noteq> 0 \<Longrightarrow> ptr V i m = ptr V i m' \<Longrightarrow> m = m'"
  using assms by (simp_all add: fwf_def)

lemma ptr_ind [simp]: "ptr V i MAXFILE = ind i"
  by (simp add: ptr_def)

lemma ptr_cong: "V' (ind i) = V (ind i) \<Longrightarrow> ptr V' i m = ptr V i m"
  by (simp add: ptr_def)

lemma data_blkD: "data_blk q V p \<Longrightarrow> sb_bmapstart q < p \<and> p < sb_size q \<and> used q V p"
  by (simp add: data_blk_def)

text \<open>What reaching block \<open>sl\<close> of a file may change, when it is (or was) at \<open>a\<close>.\<close>

definition grow :: "superblock \<Rightarrow> (nat \<Rightarrow> byte list) \<Rightarrow> inode \<Rightarrow> (nat \<Rightarrow> byte list) \<Rightarrow> inode \<Rightarrow> nat \<Rightarrow> nat \<Rightarrow> bool" where
  "grow q V i V' i' sl a \<longleftrightarrow> fs_ok q V' \<and> fwf q V' i' \<and> i'\<lparr>i_addrs := []\<rparr> = i\<lparr>i_addrs := []\<rparr> \<and>
     ptr V' i' sl = a \<and> a \<noteq> 0 \<and>
     (\<forall>m<MAXFILE. m \<noteq> sl \<longrightarrow> ptr V' i' m = ptr V i m) \<and>
     (\<forall>m\<le>MAXFILE. ptr V i m \<noteq> 0 \<longrightarrow> ptr V' i' m = ptr V i m) \<and>
     (ptr V i sl = 0 \<longrightarrow> V' a = replicate BSIZE 0) \<and>
     (\<forall>m\<le>MAXFILE. ptr V i m = 0 \<longrightarrow> ptr V' i' m \<noteq> 0 \<longrightarrow> \<not> used q V (ptr V' i' m)) \<and>
     (\<forall>x < sb_size q. used q V x \<longrightarrow> used q V' x) \<and>
     (\<forall>x < sb_size q. used q V x \<longrightarrow> x \<noteq> sb_bmapstart q \<longrightarrow> (x = ind i \<longrightarrow> x = 0) \<longrightarrow> V' x = V x)"

lemma growD:
  assumes "grow q V i V' i' sl a"
  shows "fs_ok q V'" "fwf q V' i'" "i'\<lparr>i_addrs := []\<rparr> = i\<lparr>i_addrs := []\<rparr>" "ptr V' i' sl = a" "a \<noteq> 0"
    "m < MAXFILE \<Longrightarrow> m \<noteq> sl \<Longrightarrow> ptr V' i' m = ptr V i m"
    "m \<le> MAXFILE \<Longrightarrow> ptr V i m \<noteq> 0 \<Longrightarrow> ptr V' i' m = ptr V i m"
    "ptr V i sl = 0 \<Longrightarrow> V' a = replicate BSIZE 0"
    "m \<le> MAXFILE \<Longrightarrow> ptr V i m = 0 \<Longrightarrow> ptr V' i' m \<noteq> 0 \<Longrightarrow> \<not> used q V (ptr V' i' m)"
    "x < sb_size q \<Longrightarrow> used q V x \<Longrightarrow> used q V' x"
    "x < sb_size q \<Longrightarrow> used q V x \<Longrightarrow> x \<noteq> sb_bmapstart q \<Longrightarrow> (x = ind i \<longrightarrow> x = 0) \<Longrightarrow> V' x = V x"
  using assms unfolding grow_def by blast+

lemma grow_same:
  assumes "fs_ok q V" "fwf q V i" "ptr V i sl \<noteq> 0"
  shows "grow q V i V i sl (ptr V i sl)"
  using assms by (simp add: grow_def)

section \<open>One allocation\<close>

lemma unat_small: "b < FSSIZE \<Longrightarrow> unat (of_nat b :: u32) = b"
  by (simp add: unat_of_nat take_bit_nat_eq_self)

lemma get32_zeros: "off + 4 \<le> n \<Longrightarrow> get32 (replicate n 0) off = 0"
  by (simp add: get32_def fetchw_def bslice_def u32_of_bytes_def)

text \<open>What an allocated block is not: any block a pointer leads to.\<close>

lemma fresh_block:
  assumes "fs_ok q V" "fwf q V i" "b < sb_size q" "\<not> used q V b" "m \<le> MAXFILE" "ptr V i m \<noteq> 0"
  shows "ptr V i m \<noteq> b" "ptr V i m \<noteq> sb_bmapstart q" "ptr V i m < sb_size q"
    "alloc_eff q b V (ptr V i m) = V (ptr V i m)"
  using assms fwfD(2) [OF assms(2,5,6)] by (auto simp: data_blk_def alloc_eff_def)

text \<open>A new pointer at \<open>sl\<close> that leads to a fresh block, the others unchanged, keeps the file well-formed.\<close>

lemma fwf_new_pointer:
  assumes f: "fs_ok q V" "fwf q V i" and b: "b < sb_size q" "\<not> used q V b" and len: "length (V (sb_bmapstart q)) = BSIZE"
    and l: "length (i_addrs i') = NDIRECT + 1" and sl: "sl \<le> MAXFILE" "ptr V' i' sl = b"
    and other: "\<And>m. m \<le> MAXFILE \<Longrightarrow> m \<noteq> sl \<Longrightarrow> ptr V' i' m = ptr V i m"
    and u: "\<And>x. x < sb_size q \<Longrightarrow> used q V' x \<longleftrightarrow> used q V x \<or> x = b"
  shows "fwf q V' i'"
  unfolding fwf_def
proof (intro conjI allI impI)
  note bm = used_alloc_eff(1) [OF f(1) b len]
  show "length (i_addrs i') = NDIRECT + 1" by (rule l)
  show "data_blk q V' (ptr V' i' m)" if "m \<le> MAXFILE" "ptr V' i' m \<noteq> 0" for m
  proof (cases "m = sl")
    case True
    then show ?thesis using sl b bm u by (simp add: data_blk_def)
  next
    case False
    then show ?thesis using other that fwfD(2) [OF f(2), of m] u by (auto simp: data_blk_def)
  qed
  have ne: "ptr V i m \<noteq> b" if "m \<le> MAXFILE" for m
    using that fresh_block(1) [OF f b that] bm by (cases "ptr V i m = 0") auto
  show "m = m'" if m: "m \<le> MAXFILE" "m' \<le> MAXFILE" "ptr V' i' m \<noteq> 0" "ptr V' i' m = ptr V' i' m'" for m m'
  proof (cases "m = sl \<or> m' = sl")
    case True
    then show ?thesis using m ne other sl by metis
  next
    case False
    then show ?thesis using m other fwfD(3) [OF f(2)] by metis
  qed
qed

lemma grow_new:
  assumes "fs_ok q V'" "fwf q V' i'" "i'\<lparr>i_addrs := []\<rparr> = i\<lparr>i_addrs := []\<rparr>"
    and "ptr V' i' sl = b" "0 < b" "ptr V i sl = 0" "V' b = replicate BSIZE 0" "\<not> used q V b"
    and keep: "\<And>m. m \<le> MAXFILE \<Longrightarrow> m \<noteq> sl \<Longrightarrow> ptr V' i' m = ptr V i m"
    and u: "\<And>x. x < sb_size q \<Longrightarrow> used q V' x \<longleftrightarrow> used q V x \<or> x = b"
    and same: "\<And>x. used q V x \<Longrightarrow> x \<noteq> sb_bmapstart q \<Longrightarrow> (x = ind i \<longrightarrow> x = 0) \<Longrightarrow> V' x = V x"
  shows "grow q V i V' i' sl b"
  unfolding grow_def
proof (intro conjI allI impI)
  show "ptr V' i' m = ptr V i m" if "m \<le> MAXFILE" "ptr V i m \<noteq> 0" for m
    using keep [OF that(1)] that(2) assms(6) by (cases "m = sl") auto
  show "\<not> used q V (ptr V' i' m)" if "m \<le> MAXFILE" "ptr V i m = 0" "ptr V' i' m \<noteq> 0" for m
    using keep [OF that(1)] that assms(4,8) by (cases "m = sl") auto
qed (use assms in auto)

lemma grow_direct:
  assumes f: "fs_ok q V" "fwf q V i" and b: "b < sb_size q" "\<not> used q V b" and len: "length (V (sb_bmapstart q)) = BSIZE"
    and k: "k \<le> NDIRECT" "i_addrs i ! k = 0" and sl: "sl = (if k = NDIRECT then MAXFILE else k)"
  shows "grow q V i (alloc_eff q b V) (i\<lparr>i_addrs := (i_addrs i)[k := of_nat b]\<rparr>) sl b"
proof -
  let ?V = "alloc_eff q b V" and ?i = "i\<lparr>i_addrs := (i_addrs i)[k := of_nat b]\<rparr>"
  note ua = used_alloc_eff [OF f(1) b len] and l = fwfD(1) [OF f(2)]
  have b0: "0 < b" and bs: "unat (of_nat b :: u32) = b"
    using ua(1) b f(1) by (auto simp: fs_ok_def sb_ok_def intro!: unat_small)
  have psl: "ptr ?V ?i sl = b" "ptr V i sl = 0" "sl \<le> MAXFILE"
    using k l sl bs by (auto simp: ptr_def ind_def)
  have keep: "ptr ?V ?i m = ptr V i m" if m: "m \<le> MAXFILE" "m \<noteq> sl" for m
  proof (cases "k = NDIRECT")
    case True
    then have "ind i = 0" "ind ?i = b" "?V b = replicate BSIZE 0" using k l bs by (auto simp: ind_def alloc_eff_def)
    then show ?thesis using True m l sl b0 by (auto simp: ptr_def get32_zeros)
  next
    case False
    then have "ind ?i = ind i" using k l by (simp add: ind_def)
    moreover have "?V (ind i) = V (ind i)" if "ind i \<noteq> 0"
      using fresh_block(4) [OF f b, of MAXFILE] that by simp
    ultimately show ?thesis using False m l sl by (auto simp: ptr_def)
  qed
  have "fwf q ?V ?i"
    by (rule fwf_new_pointer [OF f b len _ psl(3,1) keep ua(2)]) (use l in simp_all)
  then show ?thesis
    by (rule grow_new [OF ua(3) _ _ psl(1) b0 psl(2) _ b(2) keep ua(2)]) (use b in \<open>auto simp: alloc_eff_def\<close>)
qed

lemma grow_indirect:
  assumes f: "fs_ok q V" "fwf q V i" and b: "b < sb_size q" "\<not> used q V b" and len: "\<And>n. length (V n) = BSIZE"
    and sl: "NDIRECT \<le> sl" "sl < MAXFILE" and p: "ind i \<noteq> 0" "ptr V i sl = 0"
  defines "V' \<equiv> (alloc_eff q b V)(ind i := put32 (V (ind i)) (4 * (sl - NDIRECT)) (of_nat b))"
  shows "grow q V i V' i sl b"
proof -
  note ua = used_alloc_eff [OF f(1) b len] and fr = fresh_block [OF f b order_refl, unfolded ptr_ind, OF p(1)]
  have s: "sb_ok q" using f(1) by (simp add: fs_ok_def)
  have b0: "0 < b" and bs: "unat (of_nat b :: u32) = b"
    using ua(1) b s by (auto simp: sb_ok_def intro!: unat_small)
  have psl: "ptr V' i sl = b" using sl p(1) bs len by (simp add: ptr_def V'_def)
  have keep: "ptr V' i m = ptr V i m" if m: "m \<le> MAXFILE" "m \<noteq> sl" for m
  proof -
    have "get32 (put32 (V (ind i)) (4 * (sl - NDIRECT)) (of_nat b)) (4 * (m - NDIRECT)) = get32 (V (ind i)) (4 * (m - NDIRECT))"
      if "\<not> m < NDIRECT" "m < MAXFILE" using that m sl len by (intro get32_put32_other) auto
    then show ?thesis by (auto simp: ptr_def V'_def)
  qed
  have u: "used q V' x \<longleftrightarrow> used q V x \<or> x = b" if "x < sb_size q" for x
    using ua(2) [OF that] fr(2) that by (simp add: V'_def used_other [OF s that])
  have wf: "fwf q V' i"
    by (rule fwf_new_pointer [OF f b len _ _ psl keep u]) (use sl fwfD(1) [OF f(2)] in simp_all)
  have fs: "fs_ok q V'" using f(1) u s by (auto simp: fs_ok_def sb_ok_def)
  have same: "V' x = V x" if "used q V x" "x \<noteq> sb_bmapstart q" "x = ind i \<longrightarrow> x = 0" for x
    using that b p(1) by (auto simp: V'_def alloc_eff_def)
  have "V' b = replicate BSIZE 0" using fr(1) by (simp add: V'_def alloc_eff_def)
  then show ?thesis
    by (rule grow_new [OF fs wf refl psl b0 p(2) _ b(2) keep u]) (use same in auto)
qed

lemma grow_trans:
  assumes g1: "grow q V i V1 i1 MAXFILE a" and g2: "grow q V1 i1 V2 i2 sl b" and f: "fwf q V i" and sl: "sl < MAXFILE"
  shows "grow q V i V2 i2 sl b"
  unfolding grow_def
proof (intro conjI allI impI)
  note d1 = growD [OF g1] and d2 = growD [OF g2]
  have a: "ind i1 = a" using d1(4) by simp
  have ps: "ptr V1 i1 m = ptr V i m" if "m < MAXFILE" for m using d1(6) [OF that] that by simp
  have pi: "ptr V1 i1 m \<noteq> 0" if "m \<le> MAXFILE" "ptr V i m \<noteq> 0" for m using d1(7) [OF that] that by simp
  show "fs_ok q V2" "fwf q V2 i2" "ptr V2 i2 sl = b" "b \<noteq> 0" by (rule d2)+
  show "i2\<lparr>i_addrs := []\<rparr> = i\<lparr>i_addrs := []\<rparr>" using d1(3) d2(3) by simp
  show "ptr V2 i2 m = ptr V i m" if "m < MAXFILE" "m \<noteq> sl" for m using d2(6) [OF that] ps [OF that(1)] by simp
  show "ptr V2 i2 m = ptr V i m" if "m \<le> MAXFILE" "ptr V i m \<noteq> 0" for m
    using d2(7) [OF that(1) pi [OF that]] d1(7) [OF that] by simp
  show "V2 b = replicate BSIZE 0" if "ptr V i sl = 0" using d2(8) that ps [OF sl] by simp
  show "\<not> used q V (ptr V2 i2 m)" if m: "m \<le> MAXFILE" "ptr V i m = 0" "ptr V2 i2 m \<noteq> 0" for m
  proof (cases "ptr V1 i1 m = 0")
    case True
    have "ptr V2 i2 m < sb_size q" using fwfD(2) [OF d2(2) m(1,3)] by (simp add: data_blk_def)
    then show ?thesis using d2(9) [OF m(1) True m(3)] d1(10) by blast
  next
    case False
    then show ?thesis using d2(7) [OF m(1) False] d1(9) [OF m(1,2) False] by simp
  qed
  show "used q V2 x" if "x < sb_size q" "used q V x" for x using d2(10) [OF that(1) d1(10) [OF that]] .
  show "V2 x = V x" if x: "x < sb_size q" "used q V x" "x \<noteq> sb_bmapstart q" "x = ind i \<longrightarrow> x = 0" for x
  proof -
    have "x = a \<longrightarrow> x = 0" using x d1(4,5) d1(7) [of MAXFILE] d1(9) [of MAXFILE] a by (cases "ind i = 0") auto
    then show ?thesis using d2(11) [OF x(1) d1(10) [OF x(1,2)] x(3)] d1(11) [OF x] a by simp
  qed
qed

section \<open>Reaching a block of a file\<close>

definition nfree :: "superblock \<Rightarrow> (nat \<Rightarrow> byte list) \<Rightarrow> nat" where
  "nfree q V = card {b. b < sb_size q \<and> \<not> used q V b}"

lemma finite_free [simp]: "finite {b. b < sb_size q \<and> \<not> used q V b}"
  by (rule finite_subset [of _ "{..<sb_size q}"]) auto

lemma nfree_first: "0 < nfree q V \<Longrightarrow> \<exists>b. first_free q V = Some b"
proof -
  assume "0 < nfree q V"
  then have "{b. b < sb_size q \<and> \<not> used q V b} \<noteq> {}" unfolding nfree_def by (metis card_gt_0_iff)
  then show ?thesis unfolding first_free_def by (intro find_exists) auto
qed

lemma first_freeD: "first_free q V = Some b \<Longrightarrow> b < sb_size q \<and> \<not> used q V b"
  unfolding first_free_def using find_SomeD by fastforce

lemma nfree_step:
  assumes "b < sb_size q" "\<not> used q V b" and "\<And>x. x < sb_size q \<Longrightarrow> used q V' x \<longleftrightarrow> used q V x \<or> x = b"
  shows "nfree q V = Suc (nfree q V')"
proof -
  have "{x. x < sb_size q \<and> \<not> used q V x} = insert b {x. x < sb_size q \<and> \<not> used q V' x}"
    using assms by auto
  moreover have "b \<notin> {x. x < sb_size q \<and> \<not> used q V' x}" using assms by auto
  ultimately show ?thesis unfolding nfree_def by simp
qed

text \<open>What the inode operations leave alone: everything but the journal, the buffers and the inode cache.\<close>

definition iframe :: "'z ist_scheme \<Rightarrow> 'z ist_scheme \<Rightarrow> bool" where
  "iframe s t \<longleftrightarrow> jframe s (t\<lparr>icache := icache s\<rparr>)"

lemma iframe_refl [simp]: "iframe s s"
  by (simp add: iframe_def)

lemma iframe_trans: "iframe s t \<Longrightarrow> iframe t u \<Longrightarrow> iframe s u"
  by (cases s, cases t, cases u) (simp add: iframe_def jframe_def)

lemma iframe_jframe: "jframe s t \<Longrightarrow> iframe s t"
  by (cases s, cases t) (simp add: iframe_def jframe_def)

lemma iframe_icache [simp]: "iframe s (t\<lparr>icache := c\<rparr>) = iframe s t"
  by (simp add: iframe_def)

lemma iframe_sb: "iframe s t \<Longrightarrow> sb t = sb s"
  by (cases s, cases t) (simp add: iframe_def jframe_def)

text \<open>The file of a cache entry, on a well-formed file system.\<close>

definition file_at :: "'z ist_scheme \<Rightarrow> nat \<Rightarrow> bool" where
  "file_at s ip \<longleftrightarrow> ip < length (icache s) \<and> i_dev (icache s ! ip) = ROOTDEV \<and> fs_ok (sb s) (blk s) \<and>
     fwf (sb s) (blk s) (icache s ! ip)"

text \<open>The outcome of an operation that reaches block \<open>sl\<close> of the file: at \<open>a\<close>, after at most \<open>n\<close> allocations.\<close>

definition reached :: "'z ist_scheme \<Rightarrow> nat \<Rightarrow> nat \<Rightarrow> nat \<Rightarrow> nat \<Rightarrow> 'z ist_scheme \<Rightarrow> bool" where
  "reached s ip sl a n t \<longleftrightarrow> iframe s t \<and> (\<exists>i'. icache t = (icache s)[ip := i'] \<and>
     grow (sb s) (blk s) (icache s ! ip) (blk t) i' sl a) \<and> nfree (sb s) (blk s) \<le> nfree (sb s) (blk t) + n"

lemma reachedE:
  assumes "reached s ip sl a n t" "ip < length (icache s)"
  shows "iframe s t" "sb t = sb s" "icache t = (icache s)[ip := icache t ! ip]" "length (icache t) = length (icache s)"
    "grow (sb s) (blk s) (icache s ! ip) (blk t) (icache t ! ip) sl a" "nfree (sb s) (blk s) \<le> nfree (sb s) (blk t) + n"
  using assms iframe_sb unfolding reached_def by auto

lemma grow_fields:
  assumes "grow q V i V' i' sl a"
  shows "i_dev i' = i_dev i" "i_type i' = i_type i" "i_size i' = i_size i" "i_inum i' = i_inum i"
    "i_ref i' = i_ref i" "i_valid i' = i_valid i" "i_lock i' = i_lock i" "i_nlink i' = i_nlink i"
    "i_major i' = i_major i" "i_minor i' = i_minor i"
  using growD(3) [OF assms] by (cases i, cases i', simp)+

lemma reached_file:
  assumes "reached s ip sl a n t" "file_at s ip"
  shows "file_at t ip"
proof -
  have ip: "ip < length (icache s)" using assms(2) by (simp add: file_at_def)
  note r = reachedE [OF assms(1) ip]
  show ?thesis using assms(2) growD(1,2) [OF r(5)] grow_fields [OF r(5)] r(2,4) by (simp add: file_at_def)
qed

lemma direct_addr_spec:
  fixes s :: "'z ist_scheme"
  assumes fa: "file_at s ip" and k: "kk \<le> NDIRECT" and sl: "sl = (if kk = NDIRECT then MAXFILE else kk)"
    and r: "jrun Map.empty (if ptr (blk s) (icache s ! ip) sl = 0 then k + 2 else k) s"
    and n: "ptr (blk s) (icache s ! ip) sl = 0 \<Longrightarrow> 0 < nfree (sb s) (blk s)"
  shows "\<exists>a t. direct_addr ip kk s = Ok a t \<and> jrun Map.empty k t \<and> reached s ip sl a (if ptr (blk s) (icache s ! ip) sl = 0 then 1 else 0) t"
proof -
  let ?i = "icache s ! ip" and ?q = "sb s" and ?V = "blk s"
  have f: "fs_ok ?q ?V" "fwf ?q ?V ?i" and ip: "ip < length (icache s)" "i_dev ?i = ROOTDEV"
    using fa by (simp_all add: file_at_def)
  have p: "ptr ?V ?i sl = unat (i_addrs ?i ! kk)" using k sl by (auto simp: ptr_def ind_def)
  show ?thesis
  proof (cases "i_addrs ?i ! kk = 0")
    case False
    then have nz: "ptr ?V ?i sl \<noteq> 0" by (simp add: p unat_eq_0)
    have "reached s ip sl (ptr ?V ?i sl) 0 s"
      unfolding reached_def using grow_same [OF f nz] by (auto intro!: exI [of _ ?i])
    then show ?thesis using False r nz p by (auto simp: direct_addr_def ino_def)
  next
    case True
    then have z: "ptr ?V ?i sl = 0" by (simp add: p)
    then obtain b where b: "first_free ?q ?V = Some b" using nfree_first n by blast
    note fb = first_freeD [OF b]
    obtain t where t: "balloc ROOTDEV s = Ok b t" "jrun Map.empty k t" "blk t = alloc_eff ?q b ?V" "jframe s t"
      using balloc_spec [OF _ f(1) held_ok_empty _ b, of k] r z by auto
    let ?i' = "?i\<lparr>i_addrs := (i_addrs ?i)[kk := of_nat b]\<rparr>"
    let ?t = "t\<lparr>icache := (icache t)[ip := ?i']\<rparr>"
    have len: "length (?V (sb_bmapstart ?q)) = BSIZE" by (rule jv.sizes [OF r])
    have g: "grow ?q ?V ?i (blk t) ?i' sl b"
      unfolding t(3) using grow_direct [OF f _ _ len k True sl] fb by simp
    have nf: "nfree ?q ?V = Suc (nfree ?q (blk t))"
      unfolding t(3) using nfree_step [OF _ _ used_alloc_eff(2) [OF f(1) _ _ len]] fb by simp
    have "direct_addr ip kk s = Ok b ?t"
      using True t(1) ip ist_frame(2) [OF t(4)] by (simp add: direct_addr_def ino_def set_ino_def)
    moreover have "reached s ip sl b 1 ?t"
      unfolding reached_def using g nf iframe_jframe [OF t(4)] ist_frame(2) [OF t(4)] by auto
    ultimately show ?thesis using t(2) z by auto
  qed
qed

text \<open>The outcome of reaching the indirect block, then an entry of it.\<close>

lemma reached_trans:
  assumes "reached s ip MAXFILE a n t" "reached t ip sl b m u" "file_at s ip" "sl < MAXFILE"
  shows "reached s ip sl b (n + m) u"
proof -
  have ip: "ip < length (icache s)" and f: "fwf (sb s) (blk s) (icache s ! ip)" using assms(3) by (simp_all add: file_at_def)
  note 1 = reachedE [OF assms(1) ip]
  have "ip < length (icache t)" using 1(4) ip by simp
  note 2 = reachedE [OF assms(2) this]
  have "grow (sb s) (blk s) (icache s ! ip) (blk u) (icache u ! ip) sl b"
    using grow_trans [OF 1(5) 2(5) [unfolded 1(2)] f assms(4)] .
  moreover have "icache u = (icache s)[ip := icache u ! ip]"
    using arg_cong [OF 1(3), of "\<lambda>c. c[ip := icache u ! ip]"] 2(3) by simp
  moreover have "nfree (sb s) (blk s) \<le> nfree (sb s) (blk u) + (n + m)" using 1(2,6) 2(6) by simp
  ultimately show ?thesis unfolding reached_def using iframe_trans [OF 1(1) 2(1)] by blast
qed

lemma balloc_hold:
  fixes s :: "'z ist_scheme"
  assumes r: "jrun H (k + 2) s" and f: "fs_ok (sb s) (blk s)" and h: "held_ok (sb s) (blk s) H"
    and c: "card (ran H) \<le> k + 1" and n: "0 < nfree (sb s) (blk s)"
  obtains b t where "balloc ROOTDEV s = Ok b t" "jrun H k t" "blk t = alloc_eff (sb s) b (blk s)" "jframe s t"
    "b < sb_size (sb s)" "\<not> used (sb s) (blk s) b"
proof -
  obtain b where b: "first_free (sb s) (blk s) = Some b" using nfree_first n by blast
  show thesis
    using balloc_spec [OF _ f h _ b, of k] r c first_freeD [OF b] that by (auto simp: One_nat_def)
qed

text \<open>The entry of the indirect block, once that block exists.\<close>

definition ind_entry :: "nat \<Rightarrow> nat \<Rightarrow> nat \<Rightarrow> ('z ist_scheme, nat) kop" where
  "ind_entry ip a off =
     bnd (ino ip) (\<lambda>i.
     bnd (bread (i_dev i) a) (\<lambda>bp.
     bnd (get_data bp) (\<lambda>d.
     if get32 d off = 0 then
       bnd (balloc (i_dev i)) (\<lambda>a.
       bnd (get_data bp) (\<lambda>d.
       seq (set_data bp (put32 d off (of_nat a)))
      (seq (log_write bp (int off) 4)
      (seq (brelse bp) (ret a)))))
     else seq (brelse bp) (ret (unat (get32 d off))))))"

lemma bmap_split:
  "bmap ip bn = (if bn < NDIRECT then direct_addr ip bn
     else if bn < MAXFILE then bnd (direct_addr ip NDIRECT) (\<lambda>a. ind_entry ip a (4 * (bn - NDIRECT)))
     else panic ''bmap: out of range'')"
  by (rule ext) (auto simp: bmap_def ind_entry_def Let_def)

lemma ind_entry_spec:
  fixes s :: "'z ist_scheme"
  assumes fa: "file_at s ip" and sl: "NDIRECT \<le> sl" "sl < MAXFILE" and nz: "ind (icache s ! ip) \<noteq> 0"
    and r: "jrun Map.empty (if ptr (blk s) (icache s ! ip) sl = 0 then k + 3 else k) s"
    and n: "ptr (blk s) (icache s ! ip) sl = 0 \<Longrightarrow> 0 < nfree (sb s) (blk s)"
  shows "\<exists>a t. ind_entry ip (ind (icache s ! ip)) (4 * (sl - NDIRECT)) s = Ok a t \<and> jrun Map.empty k t \<and> reached s ip sl a (if ptr (blk s) (icache s ! ip) sl = 0 then 1 else 0) t"
proof -
  let ?i = "icache s ! ip" and ?q = "sb s" and ?V = "blk s" let ?x = "ind ?i" and ?o = "4 * (sl - NDIRECT)"
  let ?k = "if ptr ?V ?i sl = 0 then k + 3 else k"
  have f: "fs_ok ?q ?V" "fwf ?q ?V ?i" and ip: "ip < length (icache s)" "i_dev ?i = ROOTDEV"
    using fa by (simp_all add: file_at_def)
  have p: "ptr ?V ?i sl = unat (get32 (?V ?x) ?o)" using sl nz by (auto simp: ptr_def)
  have dx: "data_blk ?q ?V ?x" using fwfD(2) [OF f(2) order_refl] nz by simp
  have xs: "?x < FSSIZE" using dx f(1) by (simp add: data_blk_def fs_ok_def sb_ok_def)
  obtain bp u where u: "bread ROOTDEV ?x s = Ok bp u" "jrun [bp \<mapsto> ?x] ?k u" "blk u = ?V" "jframe s u"
    using jv.rd_ok [OF r xs] by auto
  note fu = ist_frame [OF u(4)]
  have g: "get_data bp u = Ok (?V ?x) u" using jv.geta_ok [OF u(2), of bp ?x] u(3) by simp
  show ?thesis
  proof (cases "get32 (?V ?x) ?o = 0")
    case False
    then have nz': "ptr ?V ?i sl \<noteq> 0" by (simp add: p unat_eq_0)
    obtain t where t: "brelse bp u = Ok () t" "jrun Map.empty k t" "blk t = ?V" "jframe u t"
      using jv.rel_ok [OF u(2), of bp ?x] nz' u(3) by auto
    have fr: "jframe s t" using u(4) t(4) by (rule jframe_trans)
    have "reached s ip sl (ptr ?V ?i sl) 0 t"
      unfolding reached_def t(3) using grow_same [OF f nz'] iframe_jframe [OF fr] ist_frame(2) [OF fr]
      by (auto intro!: exI [of _ ?i])
    moreover have "ind_entry ip ?x ?o s = Ok (ptr ?V ?i sl) t"
      using False u(1) g t(1) ip p by (simp add: ind_entry_def ino_def)
    ultimately show ?thesis using t(2) nz' by auto
  next
    case True
    then have z: "ptr ?V ?i sl = 0" by (simp add: p)
    have hk: "held_ok ?q ?V [bp \<mapsto> ?x]" using dx by (auto simp: held_ok_def data_blk_def)
    have k3: "k + 3 = Suc k + 2" by simp
    have r3: "jrun [bp \<mapsto> ?x] (Suc k + 2) u" using u(2) z k3 by simp
    obtain b v where v: "balloc ROOTDEV u = Ok b v" "jrun [bp \<mapsto> ?x] (Suc k) v" "blk v = alloc_eff ?q b ?V" "jframe u v"
        "b < sb_size ?q" "\<not> used ?q ?V b"
      using balloc_hold [OF r3] f(1) hk n [OF z] by (auto simp: fu u(3))
    note fr = fresh_block [OF f v(5,6) order_refl, unfolded ptr_ind, OF nz]
    have g2: "get_data bp v = Ok (?V ?x) v" using jv.geta_ok [OF v(2), of bp ?x] v(3) fr(4) by simp
    have len: "length (?V y) = BSIZE" for y by (rule jv.sizes [OF r])
    let ?d = "put32 (?V ?x) ?o (of_nat b)"
    have ld: "length ?d = BSIZE" using len sl by simp
    obtain w where w: "seq (set_data bp ?d) (log_write bp (int ?o) 4) v = Ok () w" "jrun [bp \<mapsto> ?x] k w"
        "blk w = (blk v)(?x := ?d)" "jframe v w"
      using jv.log_ok [OF v(2) _ ld, of bp ?x "int ?o" 4] by auto
    obtain t where t: "brelse bp w = Ok () t" "jrun Map.empty k t" "blk t = blk w" "jframe w t"
      using jv.rel_ok [OF w(2), of bp ?x] by auto
    have ft: "jframe s t" using u(4) v(4) w(4) t(4) by (meson jframe_trans)
    have "ind_entry ip ?x ?o s = Ok b t"
      using True u(1) g v(1) g2 w(1) t(1) ip by (auto simp: ind_entry_def ino_def split: outcome.splits)
    moreover have gr: "grow ?q ?V ?i (blk t) ?i sl b"
      using grow_indirect [OF f v(5,6) len sl nz z] by (simp add: t(3) w(3) v(3))
    moreover have "nfree ?q ?V \<le> nfree ?q (blk t) + 1"
    proof -
      have "used ?q (blk t) y \<longleftrightarrow> used ?q ?V y \<or> y = b" if y: "y < sb_size ?q" for y
        using used_alloc_eff(2) [OF f(1) v(5,6) len y] f(1) fr(2) y
        by (simp add: t(3) w(3) v(3) used_other fs_ok_def)
      then show ?thesis using nfree_step [OF v(5,6), of "blk t"] by simp
    qed
    ultimately show ?thesis
      using t(2) iframe_jframe [OF ft] ist_frame(2) [OF ft] z unfolding reached_def
      by (intro exI [of _ b] exI [of _ t]) (auto intro!: exI [of _ ?i])
  qed
qed

text \<open>\<open>bmap\<close>: five blocks are logged at most, and none if the file block exists.\<close>

lemma bmap_spec:
  fixes s :: "'z ist_scheme"
  assumes fa: "file_at s ip" and bn: "bn < MAXFILE"
    and r: "jrun Map.empty (if ptr (blk s) (icache s ! ip) bn = 0 then k + 5 else k) s"
    and n: "ptr (blk s) (icache s ! ip) bn = 0 \<Longrightarrow> 2 \<le> nfree (sb s) (blk s)"
  shows "\<exists>a t. bmap ip bn s = Ok a t \<and> jrun Map.empty k t \<and>
     reached s ip bn a (if ptr (blk s) (icache s ! ip) bn = 0 then 2 else 0) t"
proof (cases "bn < NDIRECT")
  case True
  let ?z = "ptr (blk s) (icache s ! ip) bn = 0"
  have n1: "?z \<longrightarrow> 0 < nfree (sb s) (blk s)" using n by auto
  have "jrun Map.empty (if ?z then k + 2 else k) s" using r by (auto split: if_splits elim: jv.run_mono)
  then obtain a t where "direct_addr ip bn s = Ok a t" "jrun Map.empty k t" "reached s ip bn a (if ?z then 1 else 0) t"
    using direct_addr_spec [OF fa, of bn bn k] True n1 by auto
  then show ?thesis using True by (cases ?z) (auto simp: bmap_split reached_def)
next
  case False
  let ?i = "icache s ! ip" and ?V = "blk s"
  let ?k = "if ptr ?V ?i bn = 0 then k + 3 else k"
  have zz: "ptr ?V ?i bn = 0" if "ind ?i = 0" using that False bn by (simp add: ptr_def)
  have n1: "ind ?i = 0 \<longrightarrow> 0 < nfree (sb s) ?V" using n zz by auto
  have "jrun Map.empty (if ptr ?V ?i MAXFILE = 0 then ?k + 2 else ?k) s"
    using r zz by (auto split: if_splits elim: jv.run_mono)
  then obtain a t where t: "direct_addr ip NDIRECT s = Ok a t" "jrun Map.empty ?k t"
      "reached s ip MAXFILE a (if ind ?i = 0 then 1 else 0) t"
    using direct_addr_spec [OF fa, of NDIRECT MAXFILE ?k] n1 by auto
  have ip: "ip < length (icache s)" using fa by (simp add: file_at_def)
  note e = reachedE [OF t(3) ip]
  have a: "ind (icache t ! ip) = a" "a \<noteq> 0" using growD(4,5) [OF e(5)] by simp_all
  have pt: "ptr (blk t) (icache t ! ip) bn = ptr ?V ?i bn" using growD(6) [OF e(5) bn] bn by simp
  have n2: "ptr ?V ?i bn = 0 \<longrightarrow> 0 < nfree (sb s) (blk t)" using n e(6) by (auto split: if_splits)
  obtain b u where u: "ind_entry ip a (4 * (bn - NDIRECT)) t = Ok b u" "jrun Map.empty k u"
      "reached t ip bn b (if ptr ?V ?i bn = 0 then 1 else 0) u"
    using ind_entry_spec [OF reached_file [OF t(3) fa], of bn k] False bn a pt t(2) n2 e(2) by auto
  have "reached s ip bn b (if ptr ?V ?i bn = 0 then 2 else 0) u"
    using reached_trans [OF t(3) u(3) fa bn] zz by (cases "ind ?i = 0") (auto simp: reached_def)
  then show ?thesis using False bn t(1) u(1,2) by (auto simp: bmap_split)
qed

end
