(* ===== verification/FsFile.thy ===== *)
theory FsFile
  imports FsData
begin

text \<open>
  \<open>readi\<close> and \<open>writei\<close> against the bytes of a file: reading gives them, writing
  replaces a range of them, and neither touches a block of another file.
\<close>

section \<open>The bytes of a file\<close>

text \<open>A file block without a disk block reads as zeros.\<close>

definition cbyte :: "(nat \<Rightarrow> byte list) \<Rightarrow> inode \<Rightarrow> nat \<Rightarrow> byte" where
  "cbyte V i j = (let p = ptr V i (j div BSIZE) in if p = 0 then 0 else V p ! (j mod BSIZE))"

definition content :: "'z ist_scheme \<Rightarrow> nat \<Rightarrow> nat \<Rightarrow> byte" where
  "content s ip j = cbyte (blk s) (icache s ! ip) j"

definition owned :: "(nat \<Rightarrow> byte list) \<Rightarrow> inode \<Rightarrow> nat set" where
  "owned V i = {ptr V i m | m. m \<le> MAXFILE \<and> ptr V i m \<noteq> 0}"

lemma block_range: "j < MAXFILE * BSIZE \<Longrightarrow> j div BSIZE < MAXFILE"
  by (simp add: less_mult_imp_div_less)

lemma grow_block:
  assumes g: "grow q V i V' i' sl a" and f: "fwf q V i" and m: "m < MAXFILE" "ptr V i m \<noteq> 0"
  shows "ptr V' i' m = ptr V i m" "V' (ptr V i m) = V (ptr V i m)"
proof -
  show "ptr V' i' m = ptr V i m" using growD(7) [OF g, of m] m by simp
  have d: "data_blk q V (ptr V i m)" using fwfD(2) [OF f, of m] m by simp
  have "ptr V i m \<noteq> ind i" using fwfD(3) [OF f, of m MAXFILE] m by auto
  then show "V' (ptr V i m) = V (ptr V i m)" using growD(11) [OF g] d by (auto simp: data_blk_def)
qed

lemma grow_cbyte:
  assumes g: "grow q V i V' i' sl a" and f: "fwf q V i" and sl: "sl < MAXFILE" and j: "j < MAXFILE * BSIZE"
  shows "cbyte V' i' j = cbyte V i j"
proof (cases "ptr V i (j div BSIZE) = 0")
  case False
  then show ?thesis using grow_block [OF g f block_range [OF j] False] by (simp add: cbyte_def)
next
  case True
  show ?thesis
  proof (cases "j div BSIZE = sl")
    case True
    then show ?thesis using growD(4,5,8) [OF g] \<open>ptr V i (j div BSIZE) = 0\<close> by (simp add: cbyte_def)
  next
    case False
    then show ?thesis using growD(6) [OF g block_range [OF j]] True by (simp add: cbyte_def)
  qed
qed

lemma grow_owned:
  assumes g: "grow q V i V' i' sl a" and x: "x < sb_size q" "used q V x" "x \<notin> owned V i"
  shows "x \<notin> owned V' i'"
proof
  assume "x \<in> owned V' i'"
  then obtain m where m: "m \<le> MAXFILE" "x = ptr V' i' m" "ptr V' i' m \<noteq> 0" by (auto simp: owned_def)
  show False
  proof (cases "ptr V i m = 0")
    case True
    then show ?thesis using growD(9) [OF g m(1) True m(3)] x(2) m(2) by simp
  next
    case False
    then show ?thesis using growD(7) [OF g m(1) False] x(3) m(1,2) by (auto simp: owned_def)
  qed
qed

text \<open>
  What an operation on the content of \<open>ip\<close> leaves alone: the inode apart from its
  pointers and size, the other inodes, and every block in use that is neither the free map
  nor one of the file's nor in \<open>X\<close>.
\<close>

definition meta :: "inode \<Rightarrow> inode" where
  "meta i = i\<lparr>i_addrs := [], i_size := 0\<rparr>"

definition others :: "superblock \<Rightarrow> (nat \<Rightarrow> byte list) \<Rightarrow> inode \<Rightarrow> nat set \<Rightarrow> (nat \<Rightarrow> byte list) \<Rightarrow> bool" where
  "others q V i X V' \<longleftrightarrow> (\<forall>x < sb_size q. used q V x \<longrightarrow> used q V' x \<and>
     (x \<noteq> sb_bmapstart q \<longrightarrow> x \<notin> owned V i \<longrightarrow> x \<notin> X \<longrightarrow> V' x = V x))"

definition kept :: "'z ist_scheme \<Rightarrow> nat \<Rightarrow> nat set \<Rightarrow> 'z ist_scheme \<Rightarrow> bool" where
  "kept s ip X t \<longleftrightarrow> iframe s t \<and> file_at t ip \<and> icache t = (icache s)[ip := icache t ! ip] \<and>
     meta (icache t ! ip) = meta (icache s ! ip) \<and>
     others (sb s) (blk s) (icache s ! ip) X (blk t) \<and>
     (\<forall>x < sb_size (sb s). used (sb s) (blk s) x \<longrightarrow> x \<notin> owned (blk s) (icache s ! ip) \<longrightarrow>
        x \<notin> owned (blk t) (icache t ! ip))"

lemma metaD:
  assumes "meta i' = meta i"
  shows "i_dev i' = i_dev i" "i_type i' = i_type i" "i_inum i' = i_inum i" "i_ref i' = i_ref i"
    "i_valid i' = i_valid i" "i_lock i' = i_lock i" "i_nlink i' = i_nlink i" "i_major i' = i_major i" "i_minor i' = i_minor i"
  using assms by (cases i, cases i', simp add: meta_def)+

lemma kept_refl: "file_at s ip \<Longrightarrow> kept s ip X s"
  by (simp add: kept_def others_def)

lemma keptD:
  assumes "kept s ip X t"
  shows "iframe s t" "file_at t ip" "icache t = (icache s)[ip := icache t ! ip]" "meta (icache t ! ip) = meta (icache s ! ip)"
    "others (sb s) (blk s) (icache s ! ip) X (blk t)" "sb t = sb s" "length (icache t) = length (icache s)"
  using assms iframe_sb unfolding kept_def by (auto dest: arg_cong [of _ _ length])

lemma kept_trans:
  assumes "kept s ip X t" "kept t ip X u"
  shows "kept s ip X u"
proof -
  note a = keptD [OF assms(1)] and b = keptD [OF assms(2)]
  have "icache u = (icache s)[ip := icache u ! ip]"
    using arg_cong [OF a(3), of "\<lambda>c. c[ip := icache u ! ip]"] b(3) by simp
  moreover have "others (sb s) (blk s) (icache s ! ip) X (blk u)"
    using assms unfolding kept_def others_def a(6) by simp
  ultimately show ?thesis
    using assms iframe_trans [OF a(1) b(1)] unfolding kept_def others_def a(6) by simp
qed

lemma kept_reached:
  assumes r: "reached s ip sl a n t" and f: "file_at s ip"
  shows "kept s ip X t"
proof -
  have ip: "ip < length (icache s)" using f by (simp add: file_at_def)
  note e = reachedE [OF r ip]
  have "meta (icache t ! ip) = meta (icache s ! ip)" using growD(3) [OF e(5)] by (cases "icache t ! ip", cases "icache s ! ip") (simp add: meta_def)
  moreover have "others (sb s) (blk s) (icache s ! ip) X (blk t)"
    unfolding others_def
  proof (intro allI impI conjI)
    fix x assume x: "x < sb_size (sb s)" "used (sb s) (blk s) x"
    show "used (sb s) (blk t) x" by (rule growD(10) [OF e(5) x])
    assume y: "x \<noteq> sb_bmapstart (sb s)" "x \<notin> owned (blk s) (icache s ! ip)"
    have "x = ind (icache s ! ip) \<longrightarrow> x = 0" using y(2) ptr_ind order_refl unfolding owned_def by fastforce
    then show "blk t x = blk s x" by (rule growD(11) [OF e(5) x y(1)])
  qed
  ultimately show ?thesis
    unfolding kept_def using e(1,3) reached_file [OF r f] grow_owned [OF e(5)] by auto
qed

section \<open>Chunks\<close>

text \<open>The file blocks of a range, and how many of them have no disk block yet.\<close>

definition fblocks :: "nat \<Rightarrow> nat \<Rightarrow> nat set" where
  "fblocks off r = (if r = 0 then {} else {off div BSIZE..(off + r - 1) div BSIZE})"

definition holes :: "(nat \<Rightarrow> byte list) \<Rightarrow> inode \<Rightarrow> nat \<Rightarrow> nat \<Rightarrow> nat" where
  "holes V i off r = card {bn \<in> fblocks off r. ptr V i bn = 0}"

lemma finite_fblocks [simp]: "finite (fblocks off r)"
  by (simp add: fblocks_def)

lemma fblocks_step:
  assumes "0 < r" and m: "m = min r (BSIZE - off mod BSIZE)"
  shows "fblocks off r = insert (off div BSIZE) (fblocks (off + m) (r - m))"
    "off div BSIZE \<notin> fblocks (off + m) (r - m)" "0 < m" "m \<le> r" "off mod BSIZE + m \<le> BSIZE"
proof -
  define Q R where qr: "Q = off div BSIZE" "R = off mod BSIZE"
  have o: "off = BSIZE * Q + R" "R < BSIZE" "off div BSIZE = Q" "off mod BSIZE = R" by (simp_all add: qr)
  show m0: "0 < m" "m \<le> r" "off mod BSIZE + m \<le> BSIZE" using assms o by (simp_all add: min_def) auto
  have dv: "(BSIZE * Q + x) div BSIZE = Q" if "x < BSIZE" for x using that by simp
  have "fblocks off r = insert Q (fblocks (off + m) (r - m)) \<and> Q \<notin> fblocks (off + m) (r - m)"
  proof (cases "m = r")
    case True
    then have "off + r - 1 = BSIZE * Q + (R + r - 1)" "R + r - 1 < BSIZE" using assms o by auto
    then have "(off + r - 1) div BSIZE = Q" using dv by simp
    then show ?thesis using True assms(1) o by (simp add: fblocks_def)
  next
    case False
    then have mm: "m = BSIZE - R" "m < r" using assms o by auto
    then have om: "off + m = BSIZE * (Q + 1)" using o by simp
    have e: "(off + m) div BSIZE = Q + 1" unfolding om by simp
    have "(off + m) div BSIZE \<le> (off + r - 1) div BSIZE" using mm(2) by (intro div_le_mono) simp
    moreover have "off + m + (r - m) = off + r" using mm(2) by simp
    ultimately show ?thesis using mm(2) e o by (auto simp: fblocks_def)
  qed
  then show "fblocks off r = insert (off div BSIZE) (fblocks (off + m) (r - m))"
    "off div BSIZE \<notin> fblocks (off + m) (r - m)" using o by auto
qed

lemma fblocks_range: "off + r \<le> MAXFILE * BSIZE \<Longrightarrow> bn \<in> fblocks off r \<Longrightarrow> bn < MAXFILE"
proof -
  assume a: "off + r \<le> MAXFILE * BSIZE" "bn \<in> fblocks off r"
  then have "bn \<le> (off + r - 1) div BSIZE" "0 < r" by (auto simp: fblocks_def split: if_splits)
  moreover have "(off + r - 1) div BSIZE < MAXFILE" using a(1) \<open>0 < r\<close> by (intro block_range) simp
  ultimately show ?thesis by simp
qed

lemma chunk_div:
  assumes "x < m" "off mod BSIZE + m \<le> BSIZE"
  shows "(off + x) div BSIZE = off div BSIZE" "(off + x) mod BSIZE = off mod BSIZE + x"
proof -
  define Q R where qr: "Q = off div BSIZE" "R = off mod BSIZE"
  have e: "off + x = BSIZE * Q + (R + x)" "R + x < BSIZE" using assms by (simp_all add: qr)
  then have "(off + x) div BSIZE = Q" by simp
  moreover have "(off + x) mod BSIZE = R + x" unfolding e(1) mod_mult_self4 using e(2) by (rule mod_less)
  ultimately show "(off + x) div BSIZE = off div BSIZE" "(off + x) mod BSIZE = off mod BSIZE + x" by (simp_all add: qr)
qed

lemma holes_step:
  assumes "0 < r" and m: "m = min r (BSIZE - off mod BSIZE)"
  shows "holes V i off r = (if ptr V i (off div BSIZE) = 0 then 1 else 0) + holes V i (off + m) (r - m)"
proof -
  note f = fblocks_step [OF assms]
  let ?A = "{bn \<in> fblocks (off + m) (r - m). ptr V i bn = 0}"
  have "{bn \<in> fblocks off r. ptr V i bn = 0} = (if ptr V i (off div BSIZE) = 0 then insert (off div BSIZE) ?A else ?A)"
    unfolding f(1) by auto
  moreover have "card (insert (off div BSIZE) ?A) = Suc (card ?A)" using f(2) by (intro card_insert_disjoint) auto
  ultimately show ?thesis by (simp add: holes_def One_nat_def)
qed

lemma holes_grow:
  assumes "grow q V i V' i' sl a" "sl \<notin> fblocks off r" "off + r \<le> MAXFILE * BSIZE"
  shows "holes V' i' off r = holes V i off r"
proof -
  have "ptr V' i' bn = ptr V i bn" if "bn \<in> fblocks off r" for bn
    using growD(6) [OF assms(1) fblocks_range [OF assms(3) that]] that assms(2) by metis
  then have "{bn \<in> fblocks off r. ptr V' i' bn = 0} = {bn \<in> fblocks off r. ptr V i bn = 0}" by auto
  then show ?thesis by (simp add: holes_def)
qed

text \<open>The first step of a chunk, shared by the two loops: the block is reached and read into a buffer.\<close>

lemma chunk_spec:
  fixes s :: "'z ist_scheme"
  assumes fa: "file_at s ip" and r0: "0 < r" and m: "m = min r (BSIZE - off mod BSIZE)" and rg: "off + r \<le> MAXFILE * BSIZE"
    and r: "jrun Map.empty (k + 5 * holes (blk s) (icache s ! ip) off r) s"
    and n: "2 * holes (blk s) (icache s ! ip) off r \<le> nfree (sb s) (blk s)"
  obtains a u b v where "bmap ip (off div BSIZE) s = Ok a u" "reached s ip (off div BSIZE) a 2 u" "file_at u ip"
    "bread ROOTDEV a u = Ok b v" "jrun [b \<mapsto> a] (k + 5 * holes (blk u) (icache u ! ip) (off + m) (r - m)) v"
    "blk v = blk u" "jframe u v" "2 * holes (blk u) (icache u ! ip) (off + m) (r - m) \<le> nfree (sb s) (blk u)"
    "a < FSSIZE" "ptr (blk u) (icache u ! ip) (off div BSIZE) = a" "data_blk (sb s) (blk u) a"
proof -
  let ?i = "icache s ! ip" and ?V = "blk s" and ?bn = "off div BSIZE"
  let ?h = "holes ?V ?i (off + m) (r - m)"
  note f = fblocks_step [OF r0 m] and hs = holes_step [OF r0 m, of ?V ?i]
  have bn: "?bn < MAXFILE" using fblocks_range [OF rg] f(1) by blast
  have ip: "ip < length (icache s)" using fa by (simp add: file_at_def)
  have run: "jrun Map.empty (if ptr ?V ?i ?bn = 0 then (k + 5 * ?h) + 5 else k + 5 * ?h) s"
    using r unfolding hs by (simp add: algebra_simps split: if_splits)
  have n1: "ptr ?V ?i ?bn = 0 \<longrightarrow> 2 \<le> nfree (sb s) ?V" using n unfolding hs by auto
  let ?c = "if ptr ?V ?i ?bn = 0 then 2 else 0"
  obtain a u where u: "bmap ip ?bn s = Ok a u" "jrun Map.empty (k + 5 * ?h) u" "reached s ip ?bn a ?c u"
    using bmap_spec [OF fa bn run] n1 by auto
  note e = reachedE [OF u(3) ip] and fu = reached_file [OF u(3) fa]
  have g: "off + m + (r - m) \<le> MAXFILE * BSIZE" using rg f(4) by simp
  have hu: "holes (blk u) (icache u ! ip) (off + m) (r - m) = ?h" by (rule holes_grow [OF e(5) f(2) g])
  have nu: "2 * ?h \<le> nfree (sb s) (blk u)" using n e(6) unfolding hs by (simp split: if_splits)
  have p: "ptr (blk u) (icache u ! ip) ?bn = a" "a \<noteq> 0" using growD(4,5) [OF e(5)] by auto
  have d: "data_blk (sb s) (blk u) a" using fwfD(2) [OF growD(2) [OF e(5)], of ?bn] p bn by simp
  have af: "a < FSSIZE" using d growD(1) [OF e(5)] by (simp add: data_blk_def fs_ok_def sb_ok_def)
  obtain b v where "bread ROOTDEV a u = Ok b v" "jrun [b \<mapsto> a] (k + 5 * ?h) v" "blk v = blk u" "jframe u v"
    using jv.rd_ok [OF u(2) af] by auto
  moreover have "reached s ip ?bn a 2 u" using u(3) by (auto simp: reached_def split: if_splits)
  ultimately show thesis using that u(1) fu nu p af d hu by simp
qed

section \<open>Reading\<close>

definition same_content :: "'z ist_scheme \<Rightarrow> nat \<Rightarrow> 'z ist_scheme \<Rightarrow> bool" where
  "same_content s ip t \<longleftrightarrow> i_size (icache t ! ip) = i_size (icache s ! ip) \<and>
     (\<forall>j < MAXFILE * BSIZE. content t ip j = content s ip j)"

lemma same_content_trans: "same_content s ip t \<Longrightarrow> same_content t ip u \<Longrightarrow> same_content s ip u"
  by (simp add: same_content_def)

lemma same_content_reached:
  assumes "reached s ip sl a n t" "file_at s ip" "sl < MAXFILE"
  shows "same_content s ip t"
proof -
  have ip: "ip < length (icache s)" and f: "fwf (sb s) (blk s) (icache s ! ip)" using assms(2) by (simp_all add: file_at_def)
  note e = reachedE [OF assms(1) ip]
  show ?thesis
    using grow_cbyte [OF e(5) f assms(3)] grow_fields(3) [OF e(5)] by (simp add: same_content_def content_def)
qed

lemma kept_jframe:
  assumes "kept s ip X t" "jframe t u" "blk u = blk t"
  shows "kept s ip X u"
proof -
  have f: "icache u = icache t" "sb u = sb t" using ist_frame [OF assms(2)] by simp_all
  show ?thesis
    using assms(1) iframe_trans [OF _ iframe_jframe [OF assms(2)], of s] unfolding kept_def file_at_def f assms(3) by auto
qed

lemma same_content_jframe:
  assumes "same_content s ip t" "jframe t u" "blk u = blk t"
  shows "same_content s ip u"
  using assms ist_frame(2) [OF assms(2)] by (simp add: same_content_def content_def)

lemma map_upt_split: "m \<le> r \<Longrightarrow> map f [off..<off + r] = map f [off..<off + m] @ map f [off + m..<off + r]"
  using upt_add_eq_append [of off "off + m" "r - m"] by (simp flip: map_append)

lemma chunk_bytes:
  assumes "ptr V i (off div BSIZE) = a" "a \<noteq> 0" "length (V a) = BSIZE" "off mod BSIZE + m \<le> BSIZE"
  shows "bslice (off mod BSIZE) m (V a) = map (cbyte V i) [off..<off + m]"
proof (rule nth_equalityI)
  fix x assume "x < length (bslice (off mod BSIZE) m (V a))"
  then have x: "x < m" using assms by simp
  then show "bslice (off mod BSIZE) m (V a) ! x = map (cbyte V i) [off..<off + m] ! x"
    using bslice_nth [of "off mod BSIZE" m "V a" x] chunk_div [OF x assms(4)] assms by (simp add: cbyte_def Let_def)
qed (use assms in simp)

lemma readi_loop_spec:
  fixes s :: "'z ist_scheme"
  assumes "file_at s ip" "off + r \<le> MAXFILE * BSIZE"
    and "jrun Map.empty (k + 5 * holes (blk s) (icache s ! ip) off r) s"
    and "2 * holes (blk s) (icache s ! ip) off r \<le> nfree (sb s) (blk s)"
  shows "\<exists>t. readi_loop ip off r s = Ok (map (content s ip) [off..<off + r]) t \<and> jrun Map.empty k t \<and>
     kept s ip X t \<and> same_content s ip t"
  using assms
proof (induction r arbitrary: off s rule: less_induct)
  case (less r)
  note fa = less.prems(1) and rg = less.prems(2)
  show ?case
  proof (cases "r = 0")
    case True
    then show ?thesis using less.prems kept_refl [OF fa] by (simp add: holes_def fblocks_def same_content_def)
  next
    case False
    define m where m: "m = min r (BSIZE - off mod BSIZE)"
    have r0: "0 < r" using False by simp
    note f = fblocks_step [OF r0 m]
    obtain a u b v where c: "bmap ip (off div BSIZE) s = Ok a u" "reached s ip (off div BSIZE) a 2 u" "file_at u ip"
        "bread ROOTDEV a u = Ok b v" "jrun [b \<mapsto> a] (k + 5 * holes (blk u) (icache u ! ip) (off + m) (r - m)) v"
        "blk v = blk u" "jframe u v" "2 * holes (blk u) (icache u ! ip) (off + m) (r - m) \<le> nfree (sb s) (blk u)"
        "ptr (blk u) (icache u ! ip) (off div BSIZE) = a" "data_blk (sb s) (blk u) a"
      using chunk_spec [OF fa r0 m less.prems(2-4)] by metis
    obtain w where w: "brelse b v = Ok () w" "jrun Map.empty (k + 5 * holes (blk u) (icache u ! ip) (off + m) (r - m)) w"
        "blk w = blk v" "jframe v w"
      using jv.rel_ok [OF c(5), of b a] by auto
    have fr: "jframe u w" using c(7) w(4) by (rule jframe_trans)
    have bw: "blk w = blk u" "icache w = icache u" "sb w = sb u" using w(3) c(6) ist_frame [OF fr] by simp_all
    have g: "get_data b v = Ok (blk u a) v" using jv.geta_ok [OF c(5), of b a] c(6) by simp
    have bn: "off div BSIZE < MAXFILE" using fblocks_range [OF rg] f(1) by blast
    have ku: "kept s ip X u" "same_content s ip u"
      using kept_reached [OF c(2) fa] same_content_reached [OF c(2) fa bn] by simp_all
    have kw: "kept s ip X w" "same_content s ip w"
      using kept_jframe [OF ku(1) fr bw(1)] same_content_jframe [OF ku(2) fr bw(1)] by simp_all
    note D = keptD [OF kw(1)] and su = keptD(6) [OF ku(1)]
    have "\<exists>t. readi_loop ip (off + m) (r - m) w = Ok (map (content w ip) [off + m..<off + m + (r - m)]) t \<and>
        jrun Map.empty k t \<and> kept w ip X t \<and> same_content w ip t"
    proof (rule less.IH)
      show "r - m < r" using f(3) r0 by simp
      show "off + m + (r - m) \<le> MAXFILE * BSIZE" using rg f(4) by simp
    qed (use D(2) w(2) c(8) su in \<open>simp_all add: bw\<close>)
    then obtain t where t: "readi_loop ip (off + m) (r - m) w = Ok (map (content w ip) [off + m..<off + r]) t"
        "jrun Map.empty k t" "kept w ip X t" "same_content w ip t" using f(4) by auto
    have dev: "i_dev (icache s ! ip) = ROOTDEV" using fa by (simp add: file_at_def)
    have cw: "content w ip j = content s ip j" if "j < off + r" for j
      using kw(2) that rg by (simp add: same_content_def)
    have "bslice (off mod BSIZE) m (blk u a) = map (content w ip) [off..<off + m]"
      using chunk_bytes [OF c(9) _ _ f(5)] c(10) jv.sizes [OF c(5)] c(6) by (simp add: content_def [abs_def] bw data_blk_def)
    also have "\<dots> = map (content s ip) [off..<off + m]" using cw f(4) by simp
    finally have "bslice (off mod BSIZE) m (blk u a) = map (content s ip) [off..<off + m]" .
    moreover have "map (content w ip) [off + m..<off + r] = map (content s ip) [off + m..<off + r]" using cw by simp
    ultimately have "readi_loop ip off r s = Ok (map (content s ip) [off..<off + r]) t"
      using False c(1,4) w(1) t(1) g dev map_upt_split [OF f(4), of "content s ip" off]
      by (subst readi_loop.simps) (simp add: ino_def Let_def m [symmetric])
    then show ?thesis
      using t(2) kept_trans [OF kw(1) t(3)] same_content_trans [OF kw(2) t(4)] by blast
  qed
qed

section \<open>Writing\<close>

text \<open>New data in file block \<open>bn\<close>.\<close>

lemma put_data:
  assumes f: "fs_ok q V" "fwf q V i" and bn: "bn < MAXFILE" "ptr V i bn = a" "a \<noteq> 0"
  shows "fs_ok q (V(a := d))" "fwf q (V(a := d)) i" "ptr (V(a := d)) i m = ptr V i m"
    "x < sb_size q \<Longrightarrow> used q (V(a := d)) x = used q V x"
    "j < MAXFILE * BSIZE \<Longrightarrow> cbyte (V(a := d)) i j = (if j div BSIZE = bn then d ! (j mod BSIZE) else cbyte V i j)"
    "nfree q (V(a := d)) = nfree q V"
proof -
  have da: "data_blk q V a" using fwfD(2) [OF f(2), of bn] bn by simp
  have am: "a \<noteq> sb_bmapstart q" using da by (simp add: data_blk_def)
  have s: "sb_ok q" using f(1) by (simp add: fs_ok_def)
  have ai: "a \<noteq> ind i" using fwfD(3) [OF f(2), of bn MAXFILE] bn by auto
  show p: "ptr (V(a := d)) i m = ptr V i m" for m using ai by (intro ptr_cong) simp
  show u: "used q (V(a := d)) x = used q V x" if "x < sb_size q" for x by (rule used_other [OF s that am])
  show "fs_ok q (V(a := d))" using f(1) u s by (auto simp: fs_ok_def sb_ok_def)
  have db: "data_blk q (V(a := d)) x = data_blk q V x" for x using u by (auto simp: data_blk_def)
  show "fwf q (V(a := d)) i" using f(2) unfolding fwf_def p db .
  show "nfree q (V(a := d)) = nfree q V"
    unfolding nfree_def by (rule arg_cong [of _ _ card]) (use u in auto)
  show "cbyte (V(a := d)) i j = (if j div BSIZE = bn then d ! (j mod BSIZE) else cbyte V i j)" if j: "j < MAXFILE * BSIZE"
  proof -
    have jb: "j div BSIZE \<le> MAXFILE" "bn \<le> MAXFILE" using block_range [OF j] bn(1) by simp_all
    have "ptr V i (j div BSIZE) = a \<longleftrightarrow> j div BSIZE = bn"
      using fwfD(3) [OF f(2) jb(2,1)] bn(2,3) by metis
    then show ?thesis using bn by (simp add: cbyte_def p Let_def)
  qed
qed

definition overlay :: "nat \<Rightarrow> byte list \<Rightarrow> (nat \<Rightarrow> byte) \<Rightarrow> nat \<Rightarrow> byte" where
  "overlay off src c j = (if off \<le> j \<and> j < off + length src then src ! (j - off) else c j)"

lemma overlay_take_drop:
  "m \<le> length src \<Longrightarrow> overlay (off + m) (drop m src) (overlay off (take m src) c) = overlay off src c"
  by (auto simp: overlay_def fun_eq_iff)

lemma chunk_overlay:
  assumes "off mod BSIZE + m \<le> BSIZE" "m \<le> length src" "length d = BSIZE"
  shows "(if j div BSIZE = off div BSIZE then bsplice (off mod BSIZE) (take m src) d ! (j mod BSIZE) else c)
     = (if off \<le> j \<and> j < off + m then src ! (j - off) else if j div BSIZE = off div BSIZE then d ! (j mod BSIZE) else c)"
proof -
  define Q R where qr: "Q = off div BSIZE" "R = off mod BSIZE"
  define Q' R' where qr': "Q' = j div BSIZE" "R' = j mod BSIZE"
  have o: "off = BSIZE * Q + R" "j = BSIZE * Q' + R'" "R' < BSIZE" "R + m \<le> BSIZE" using assms by (simp_all add: qr qr')
  have e: "off \<le> j \<and> j < off + m \<longleftrightarrow> Q' = Q \<and> R \<le> R' \<and> R' < R + m"
  proof (cases "Q' < Q \<or> Q < Q'")
    case True
    then have "BSIZE * Q' + BSIZE \<le> BSIZE * Q \<or> BSIZE * Q + BSIZE \<le> BSIZE * Q'" by auto
    then show ?thesis using True o by auto
  qed (use o in auto)
  have je: "j - off = R' - R" if "Q' = Q" using o that by simp
  have ln: "length (take m src) = m" using assms(2) by simp
  have "bsplice R (take m src) d ! R' = (if R \<le> R' \<and> R' < R + m then src ! (R' - R) else d ! R')"
    using bsplice_nth [of R "take m src" d R', unfolded ln] o(3,4) assms(2,3) by auto
  then show ?thesis unfolding e qr [symmetric] qr' [symmetric] using je by auto
qed

definition wrote :: "'z ist_scheme \<Rightarrow> nat \<Rightarrow> nat \<Rightarrow> byte list \<Rightarrow> 'z ist_scheme \<Rightarrow> bool" where
  "wrote s ip off src t \<longleftrightarrow> i_size (icache t ! ip) = i_size (icache s ! ip) \<and>
     (\<forall>j < MAXFILE * BSIZE. content t ip j = overlay off src (content s ip) j)"

text \<open>The blocks a write may log: those of its allocations, and its data when the file is a directory.\<close>

definition wcost :: "(nat \<Rightarrow> byte list) \<Rightarrow> inode \<Rightarrow> nat \<Rightarrow> nat \<Rightarrow> nat" where
  "wcost V i off r = 5 * holes V i off r + (if i_type i = T_DIR then card (fblocks off r) else 0)"

lemma card_fblocks_step:
  assumes "0 < r" "m = min r (BSIZE - off mod BSIZE)"
  shows "card (fblocks off r) = Suc (card (fblocks (off + m) (r - m)))"
  unfolding fblocks_step(1) [OF assms] by (rule card_insert_disjoint [OF finite_fblocks fblocks_step(2) [OF assms]])

text \<open>The data goes into the held buffer and to the log or to the disk.\<close>

lemma put_chunk:
  fixes s :: "'z ist_scheme"
  assumes r: "jrun [b \<mapsto> a] (if lg then Suc k else k) s" and d: "length d = BSIZE"
  shows "\<exists>t. seq (set_data b d) (seq (if lg then log_write b off len else bwrite b) (brelse b)) s = Ok () t \<and>
     jrun Map.empty k t \<and> blk t = (blk s)(a := d) \<and> jframe s t"
proof -
  obtain u where u: "seq (set_data b d) (if lg then log_write b off len else bwrite b) s = Ok () u"
      "jrun [b \<mapsto> a] k u" "blk u = (blk s)(a := d)" "jframe s u"
    using jv.log_ok [of "[b \<mapsto> a]" k s b a d off len] jv.wr_ok [of "[b \<mapsto> a]" k s b a d] r d by (cases lg) auto
  obtain t where t: "brelse b u = Ok () t" "jrun Map.empty k t" "blk t = blk u" "jframe u t"
    using jv.rel_ok [OF u(2), of b a] by auto
  have "seq (set_data b d) (seq (if lg then log_write b off len else bwrite b) (brelse b)) s = Ok () t"
    using u(1) t(1) by (cases lg) (auto split: outcome.splits)
  then show ?thesis using t u jframe_trans [OF u(4) t(4)] by auto
qed

text \<open>Writing the chunk that has been read into buffer \<open>b\<close>.\<close>

lemma write_chunk:
  assumes fu: "file_at u ip" and bn: "bn < MAXFILE" and p: "ptr (blk u) (icache u ! ip) bn = a" "a \<noteq> 0"
    and fr: "jframe u w" and bw: "blk w = (blk u)(a := d)"
  shows "kept u ip X w" "nfree (sb u) (blk w) = nfree (sb u) (blk u)"
    "i_size (icache w ! ip) = i_size (icache u ! ip)" "ptr (blk w) (icache w ! ip) m = ptr (blk u) (icache u ! ip) m"
    "j < MAXFILE * BSIZE \<Longrightarrow> content w ip j = (if j div BSIZE = bn then d ! (j mod BSIZE) else content u ip j)"
proof -
  have f: "fs_ok (sb u) (blk u)" "fwf (sb u) (blk u) (icache u ! ip)" using fu by (simp_all add: file_at_def)
  note pd = put_data [OF f bn p, where d = d, folded bw] and e = ist_frame(1,2) [OF fr]
  have ow: "owned (blk w) (icache w ! ip) = owned (blk u) (icache u ! ip)" by (simp add: owned_def e pd(3))
  have ao: "a \<in> owned (blk u) (icache u ! ip)" using p bn by (auto simp: owned_def intro!: exI [of _ bn])
  have "file_at w ip" using fu pd(1,2) by (simp add: file_at_def e)
  moreover have "others (sb u) (blk u) (icache u ! ip) X (blk w)"
    unfolding others_def using pd(4) ao bw by (auto simp del: fun_upd_apply) (auto simp: bw)
  ultimately show "kept u ip X w" unfolding kept_def ow using iframe_jframe [OF fr] e by simp
  show "nfree (sb u) (blk w) = nfree (sb u) (blk u)" by (rule pd(6))
  show "i_size (icache w ! ip) = i_size (icache u ! ip)" "ptr (blk w) (icache w ! ip) m = ptr (blk u) (icache u ! ip) m"
    using e pd(3) by simp_all
  show "content w ip j = (if j div BSIZE = bn then d ! (j mod BSIZE) else content u ip j)" if "j < MAXFILE * BSIZE"
    using pd(5) [OF that] by (simp add: content_def e)
qed

lemma wrote_step:
  assumes "same_content s ip u" "wrote w ip (off + m) (drop m src) t" "m \<le> length src"
    and sz: "i_size (icache w ! ip) = i_size (icache u ! ip)"
    and c: "\<And>j. j < MAXFILE * BSIZE \<Longrightarrow> content w ip j = overlay off (take m src) (content u ip) j"
  shows "wrote s ip off src t"
proof -
  have "content t ip j = overlay off src (content s ip) j" if j: "j < MAXFILE * BSIZE" for j
  proof -
    have "content t ip j = overlay (off + m) (drop m src) (content w ip) j" using assms(2) j by (simp add: wrote_def)
    also have "\<dots> = overlay (off + m) (drop m src) (overlay off (take m src) (content s ip)) j"
      using c [OF j] assms(1) j by (simp add: overlay_def same_content_def)
    finally show ?thesis using overlay_take_drop [OF assms(3)] by metis
  qed
  then show ?thesis using assms(1,2) sz by (simp add: wrote_def same_content_def)
qed

text \<open>After the write, the blocks of its range have disk blocks.\<close>

definition mapped :: "'z ist_scheme \<Rightarrow> nat \<Rightarrow> nat \<Rightarrow> nat \<Rightarrow> 'z ist_scheme \<Rightarrow> bool" where
  "mapped s ip off r t \<longleftrightarrow>
     (\<forall>bn < MAXFILE. ptr (blk s) (icache s ! ip) bn \<noteq> 0 \<or> bn \<in> fblocks off r \<longrightarrow> ptr (blk t) (icache t ! ip) bn \<noteq> 0)"

lemma mapped_step:
  assumes re: "reached s ip (off div BSIZE) a n u" and ip: "ip < length (icache s)" and r0: "0 < r"
    and m: "m = min r (BSIZE - off mod BSIZE)"
    and w: "\<And>bn. ptr (blk w) (icache w ! ip) bn = ptr (blk u) (icache u ! ip) bn" and t: "mapped w ip (off + m) (r - m) t"
  shows "mapped s ip off r t"
  unfolding mapped_def
proof (intro allI impI)
  fix bn assume bn: "bn < MAXFILE" and c: "ptr (blk s) (icache s ! ip) bn \<noteq> 0 \<or> bn \<in> fblocks off r"
  note e = reachedE [OF re ip]
  have "ptr (blk u) (icache u ! ip) bn \<noteq> 0 \<or> bn \<in> fblocks (off + m) (r - m)"
    using c growD(4,5) [OF e(5)] growD(7) [OF e(5), of bn] bn unfolding fblocks_step(1) [OF r0 m] by auto
  then show "ptr (blk t) (icache t ! ip) bn \<noteq> 0" using t bn unfolding mapped_def w by blast
qed

lemma writei_loop_step:
  assumes "src \<noteq> []" and m: "m = min (length src) (BSIZE - off mod BSIZE)"
    and "bmap ip (off div BSIZE) s = Ok a u" "bread ROOTDEV a u = Ok b v" "get_data b v = Ok d v"
    and "i_dev (icache s ! ip) = ROOTDEV"
    and w: "seq (set_data b (bsplice (off mod BSIZE) (take m src) d))
        (seq (if i_type (icache s ! ip) = T_DIR then log_write b (int (off mod BSIZE)) (int m) else bwrite b) (brelse b)) v = Ok () w"
    and "writei_loop ip (drop m src) (off + m) w = Ok () t"
  shows "writei_loop ip src off s = Ok () t"
proof -
  obtain x y where "set_data b (bsplice (off mod BSIZE) (take m src) d) v = Ok () x"
      "(if i_type (icache s ! ip) = T_DIR then log_write b (int (off mod BSIZE)) (int m) else bwrite b) x = Ok () y"
      "brelse b y = Ok () w"
    using w by (elim seq_OkE) auto
  then show ?thesis
    using assms(1,3-6,8) by (subst writei_loop.simps) (simp add: ino_def Let_def m [symmetric])
qed

lemma writei_loop_spec:
  fixes s :: "'z ist_scheme"
  assumes "file_at s ip" "off + length src \<le> MAXFILE * BSIZE"
    and "jrun Map.empty (k + wcost (blk s) (icache s ! ip) off (length src)) s"
    and "2 * holes (blk s) (icache s ! ip) off (length src) \<le> nfree (sb s) (blk s)"
  shows "\<exists>t. writei_loop ip src off s = Ok () t \<and> jrun Map.empty k t \<and> kept s ip X t \<and> wrote s ip off src t \<and>
     mapped s ip off (length src) t"
  using assms
proof (induction "length src" arbitrary: src off s rule: less_induct)
  case less
  note fa = less.prems(1) and rg = less.prems(2)
  let ?r = "length src" and ?dir = "i_type (icache s ! ip) = T_DIR"
  show ?case
  proof (cases "src = []")
    case True
    have "fblocks off 0 = {}" by (simp add: fblocks_def)
    moreover have "wrote s ip off [] s" by (auto simp: wrote_def overlay_def)
    ultimately show ?thesis
      using True less.prems(3) kept_refl [OF fa] by (simp add: wcost_def holes_def mapped_def split: if_splits)
  next
    case False
    define m where m: "m = min ?r (BSIZE - off mod BSIZE)"
    have r0: "0 < ?r" using False by simp
    note f = fblocks_step [OF r0 m]
    let ?dc = "if ?dir then card (fblocks (off + m) (?r - m)) else 0"
    let ?k = "k + ?dc + (if ?dir then 1 else 0)"
    have run: "jrun Map.empty (?k + 5 * holes (blk s) (icache s ! ip) off ?r) s"
      using less.prems(3) card_fblocks_step [OF r0 m] by (simp add: wcost_def algebra_simps One_nat_def split: if_splits)
    obtain a u b v where c: "bmap ip (off div BSIZE) s = Ok a u" "reached s ip (off div BSIZE) a 2 u" "file_at u ip"
        "bread ROOTDEV a u = Ok b v" "jrun [b \<mapsto> a] (?k + 5 * holes (blk u) (icache u ! ip) (off + m) (?r - m)) v"
        "blk v = blk u" "jframe u v" "2 * holes (blk u) (icache u ! ip) (off + m) (?r - m) \<le> nfree (sb s) (blk u)"
        "ptr (blk u) (icache u ! ip) (off div BSIZE) = a" "data_blk (sb s) (blk u) a"
      using chunk_spec [OF fa r0 m rg run less.prems(4)] by metis
    let ?h = "holes (blk u) (icache u ! ip) (off + m) (?r - m)"
    have a0: "a \<noteq> 0" using c(10) by (simp add: data_blk_def)
    have bn: "off div BSIZE < MAXFILE" using fblocks_range [OF rg] f(1) by blast
    have g: "get_data b v = Ok (blk u a) v" using jv.geta_ok [OF c(5), of b a] c(6) by simp
    have len: "length (blk u a) = BSIZE" using jv.sizes [OF c(5)] c(6) by simp
    let ?d = "bsplice (off mod BSIZE) (take m src) (blk u a)"
    have ld: "length ?d = BSIZE" using len f(4,5) by simp
    have "jrun [b \<mapsto> a] (if ?dir then Suc (k + ?dc + 5 * ?h) else k + ?dc + 5 * ?h) v"
      using c(5) by (simp add: One_nat_def split: if_splits)
    then obtain w where w: "seq (set_data b ?d) (seq (if ?dir then log_write b (int (off mod BSIZE)) (int m) else bwrite b) (brelse b)) v
          = Ok () w" "jrun Map.empty (k + ?dc + 5 * ?h) w" "blk w = (blk u)(a := ?d)" "jframe u w"
      using put_chunk [OF _ ld, of b a ?dir "k + ?dc + 5 * ?h" v] c(6) jframe_trans [OF c(7)] by metis
    note W = write_chunk [OF c(3) bn c(9) a0 w(4,3)]
    have ku: "kept s ip X u" "same_content s ip u"
      using kept_reached [OF c(2) fa] same_content_reached [OF c(2) fa bn] by simp_all
    have kw: "kept s ip X w" using kept_trans [OF ku(1) W(1)] .
    have hw: "holes (blk w) (icache w ! ip) x y = holes (blk u) (icache u ! ip) x y" for x y by (simp add: holes_def W(4))
    have ty: "i_type (icache w ! ip) = i_type (icache s ! ip)" by (rule metaD(2) [OF keptD(4) [OF kw]])
    have "\<exists>t. writei_loop ip (drop m src) (off + m) w = Ok () t \<and> jrun Map.empty k t \<and> kept w ip X t \<and> wrote w ip (off + m) (drop m src) t
        \<and> mapped w ip (off + m) (length (drop m src)) t"
    proof (rule less.hyps)
      show "length (drop m src) < ?r" using f(3) r0 by simp
      show "off + m + length (drop m src) \<le> MAXFILE * BSIZE" using rg f(4) by simp
      show "file_at w ip" by (rule keptD(2) [OF kw])
      show "jrun Map.empty (k + wcost (blk w) (icache w ! ip) (off + m) (length (drop m src))) w"
        using w(2) by (simp add: wcost_def hw ty add.assoc add.commute [of "5 * _"])
      show "2 * holes (blk w) (icache w ! ip) (off + m) (length (drop m src)) \<le> nfree (sb w) (blk w)"
        using c(8) W(2) keptD(6) [OF ku(1)] keptD(6) [OF kw] by (simp add: hw)
    qed
    then obtain t where t: "writei_loop ip (drop m src) (off + m) w = Ok () t" "jrun Map.empty k t" "kept w ip X t"
        "wrote w ip (off + m) (drop m src) t" "mapped w ip (off + m) (?r - m) t" by auto
    have "content w ip j = overlay off (take m src) (content u ip) j" if j: "j < MAXFILE * BSIZE" for j
    proof -
      have "content u ip j = blk u a ! (j mod BSIZE)" if "j div BSIZE = off div BSIZE"
        using that c(9) a0 by (simp add: content_def cbyte_def Let_def)
      then show ?thesis
        unfolding W(5) [OF j] chunk_overlay [OF f(5,4) len] using f(4) by (auto simp: overlay_def)
    qed
    then have "wrote s ip off src t" using wrote_step [OF ku(2) t(4) f(4) W(3)] by blast
    moreover have "writei_loop ip src off s = Ok () t"
      using w(1) t(1) False fa by (intro writei_loop_step [OF _ m c(1,4) g]) (auto simp: file_at_def)
    moreover have "mapped s ip off ?r t"
      using fa t(5) W(4) by (intro mapped_step [OF c(2) _ r0 m]) (auto simp: file_at_def)
    ultimately show ?thesis using t(2) kept_trans [OF kw t(3)] by blast
  qed
qed

section \<open>The operations\<close>

lemma u32_sum:
  fixes off n :: u32
  assumes "\<not> off + n < off"
  shows "unat (off + n) = unat off + unat n"
  using assms no_plus_overflow_unat_size [of off n] unat_add_lem [of off n] by (simp add: not_less word_size)

lemma readi_bad:
  assumes "i_type (icache s ! ip) \<noteq> T_DEV" "off > i_size (icache s ! ip) \<or> off + n < off"
  shows "readi dv ip off n s = Ok None s"
  using assms by (simp add: readi_def ino_def)

lemma readi_spec:
  fixes s :: "'z ist_scheme"
  assumes fa: "file_at s ip" and ty: "i_type (icache s ! ip) \<noteq> T_DEV"
    and rg: "\<not> (off > i_size (icache s ! ip) \<or> off + n < off)" and sz: "unat (i_size (icache s ! ip)) \<le> MAXFILE * BSIZE"
    and r: "r = min (unat n) (unat (i_size (icache s ! ip)) - unat off)"
    and b: "jrun Map.empty (k + 5 * holes (blk s) (icache s ! ip) (unat off) r) s"
      "2 * holes (blk s) (icache s ! ip) (unat off) r \<le> nfree (sb s) (blk s)"
  shows "\<exists>t. readi dv ip off n s = Ok (Some (map (content s ip) [unat off..<unat off + r])) t \<and> jrun Map.empty k t \<and>
     kept s ip X t \<and> same_content s ip t"
proof -
  let ?i = "icache s ! ip" let ?n = "if off + n > i_size ?i then i_size ?i - off else n"
  have le: "off \<le> i_size ?i" and sum: "unat (off + n) = unat off + unat n" using rg u32_sum by auto
  have ou: "unat off \<le> unat (i_size ?i)" using le by (simp add: word_le_nat_alt)
  have n': "unat ?n = r"
    using sum ou by (auto simp: r word_less_nat_alt unat_sub [OF le])
  have "unat off + r \<le> MAXFILE * BSIZE" using sz ou by (simp add: r)
  then obtain t where "readi_loop ip (unat off) r s = Ok (map (content s ip) [unat off..<unat off + r]) t" "jrun Map.empty k t"
      "kept s ip X t" "same_content s ip t"
    using readi_loop_spec [OF fa _ b] by blast
  then show ?thesis using ty rg n' by (auto simp: readi_def ino_def Let_def)
qed

text \<open>\<open>iupdate\<close> writes the inode's copy of the disk inode to its place.\<close>

lemma length_put_dinode:
  assumes "length d = BSIZE" "length (di_addrs di) = NDIRECT + 1"
  shows "length (put_dinode d inum di) = BSIZE"
proof -
  have "inum mod IPB < IPB" by simp
  then have "inum mod IPB * DINODESZ + DINODESZ \<le> BSIZE" by linarith
  then show ?thesis using assms length_enc_dinode [of di] by (simp add: put_dinode_def)
qed

lemma dinode_at_put:
  assumes "length d = BSIZE" "length (di_addrs di) = NDIRECT + 1"
  shows "dinode_at (put_dinode d inum di) inum = di"
    "inum' mod IPB \<noteq> inum mod IPB \<Longrightarrow> dinode_at (put_dinode d inum di) inum' = dinode_at d inum'"
proof -
  have b: "x mod IPB * DINODESZ + DINODESZ \<le> BSIZE" for x using mod_less_divisor [of IPB x] by linarith
  have l: "length (enc_dinode di) = DINODESZ" using length_enc_dinode [of di] assms(2) by simp
  show "dinode_at (put_dinode d inum di) inum = di"
    using bslice_bsplice_same [of "inum mod IPB * DINODESZ" "enc_dinode di" d] b [of inum] l assms dec_enc_dinode [of di]
    by (simp add: dinode_at_def put_dinode_def)
  assume ne: "inum' mod IPB \<noteq> inum mod IPB"
  have "inum' mod IPB * DINODESZ + DINODESZ \<le> inum mod IPB * DINODESZ \<or> inum mod IPB * DINODESZ + DINODESZ \<le> inum' mod IPB * DINODESZ"
    using ne by linarith
  then show "dinode_at (put_dinode d inum di) inum' = dinode_at d inum'"
    using bslice_bsplice_disjoint [of "inum mod IPB * DINODESZ" "enc_dinode di" d "inum' mod IPB * DINODESZ" DINODESZ]
      b [of inum] b [of inum'] l assms(1) by (simp add: dinode_at_def put_dinode_def)
qed

lemma iupdate_spec:
  fixes s :: "'z ist_scheme"
  assumes r: "jrun Map.empty (Suc k) s" and i: "i = icache s ! ip" "i_dev i = ROOTDEV" "length (i_addrs i) = NDIRECT + 1"
    and q: "sb_ok (sb s)" "i_inum i < sb_ninodes (sb s)"
  defines "x \<equiv> IBLOCK (i_inum i) (sb s)"
  shows "\<exists>t. iupdate ip s = Ok () t \<and> jrun Map.empty k t \<and> jframe s t \<and>
     blk t = (blk s)(x := put_dinode (blk s x) (i_inum i) (disk_copy i))"
proof -
  have xs: "x < FSSIZE" using q by (auto simp: sb_ok_def x_def)
  have ld: "length (put_dinode (blk s x) (i_inum i) (disk_copy i)) = BSIZE"
    using jv.sizes [OF r] i(3) by (intro length_put_dinode) (simp_all add: disk_copy_def)
  obtain t where "bnd (bread ROOTDEV x) (\<lambda>b. bnd (get_data b) (\<lambda>d. seq (set_data b (put_dinode d (i_inum i) (disk_copy i)))
        (seq (log_write b (int (i_inum i mod IPB * DINODESZ)) (int DINODESZ)) (brelse b)))) s = Ok () t"
      "jrun Map.empty k t" "blk t = (blk s)(x := put_dinode (blk s x) (i_inum i) (disk_copy i))" "jframe s t"
    using jv.update [OF r xs, of "\<lambda>d. put_dinode d (i_inum i) (disk_copy i)"] ld by auto
  then show ?thesis using i by (auto simp: iupdate_def ino_def x_def)
qed

text \<open>Changing the size of the inode and its block leaves the pointers and the content alone.\<close>

lemma ptr_min: "ptr V i (min m MAXFILE) = ptr V i m"
  by (simp add: ptr_def min_def)

lemma file_update:
  fixes s :: "'z ist_scheme"
  assumes fa: "file_at s ip" and x: "x \<le> sb_bmapstart (sb s)" "x \<noteq> sb_bmapstart (sb s)"
    and t: "jframe (s\<lparr>icache := (icache s)[ip := (icache s ! ip)\<lparr>i_size := z\<rparr>]\<rparr>) t" and b: "blk t = (blk s)(x := d)"
  shows "kept s ip {x} t" "i_size (icache t ! ip) = z" "content t ip j = content s ip j"
    "ptr (blk t) (icache t ! ip) m = ptr (blk s) (icache s ! ip) m" "nfree (sb s) (blk t) = nfree (sb s) (blk s)"
proof -
  let ?i = "icache s ! ip"
  have f: "fs_ok (sb s) (blk s)" "fwf (sb s) (blk s) ?i" "ip < length (icache s)" "i_dev ?i = ROOTDEV" using fa by (simp_all add: file_at_def)
  have it: "icache t = (icache s)[ip := ?i\<lparr>i_size := z\<rparr>]" "sb t = sb s" using ist_frame [OF t] by simp_all
  have s: "sb_ok (sb s)" using f(1) by (simp add: fs_ok_def)
  have np: "ptr (blk s) ?i m \<noteq> x" if "m \<le> MAXFILE" "ptr (blk s) ?i m \<noteq> 0" for m
    using fwfD(2) [OF f(2) that] x(1) by (auto simp: data_blk_def)
  have vi: "blk t (ind ?i) = blk s (ind ?i)" if "ind ?i \<noteq> 0" using np [of MAXFILE] that b by auto
  have p: "ptr (blk t) (?i\<lparr>i_size := z\<rparr>) m = ptr (blk s) ?i m" for m using vi by (auto simp: ptr_def ind_def)
  then show "ptr (blk t) (icache t ! ip) m = ptr (blk s) ?i m" using it f(3) by simp
  have u: "used (sb s) (blk t) y = used (sb s) (blk s) y" if "y < sb_size (sb s)" for y
    unfolding b by (rule used_other [OF s that x(2)])
  have db: "data_blk (sb s) (blk t) y = data_blk (sb s) (blk s) y" for y using u by (auto simp: data_blk_def)
  have "fs_ok (sb s) (blk t)" using f(1) u s by (auto simp: fs_ok_def sb_ok_def)
  moreover have "fwf (sb s) (blk t) (?i\<lparr>i_size := z\<rparr>)" using f(2) unfolding fwf_def p db by simp
  ultimately have ft: "file_at t ip" using it f(3,4) by (simp add: file_at_def)
  have ow: "owned (blk t) (icache t ! ip) = owned (blk s) ?i" using it f(3) by (simp add: owned_def p)
  have "iframe s t" using t by (cases s, cases t) (simp add: iframe_def jframe_def)
  then show "kept s ip {x} t"
    unfolding kept_def ow others_def using ft it f(3) u by (simp add: meta_def b)
  show "i_size (icache t ! ip) = z" using it f(3) by simp
  show "nfree (sb s) (blk t) = nfree (sb s) (blk s)"
    unfolding nfree_def by (rule arg_cong [of _ _ card]) (use u in auto)
  have "blk t (ptr (blk s) ?i (j div BSIZE)) = blk s (ptr (blk s) ?i (j div BSIZE))"
    if "ptr (blk s) ?i (j div BSIZE) \<noteq> 0"
    using np [of "min (j div BSIZE) MAXFILE", unfolded ptr_min] that b by auto
  then show "content t ip j = content s ip j" using it f(3) by (simp add: content_def cbyte_def p Let_def)
qed

lemma writei_bad:
  assumes "i_type (icache s ! ip) \<noteq> T_DEV"
    and "off > i_size (icache s ! ip) \<or> off + of_nat (length src) < off \<or> off + of_nat (length src) > of_nat (MAXFILE * BSIZE)"
  shows "writei dv ip src off s = Ok (-1) s"
  using assms by (auto simp: writei_def ino_def Let_def)

lemma writei_spec:
  fixes s :: "'z ist_scheme"
  assumes fa: "file_at s ip" and ty: "i_type (icache s ! ip) \<noteq> T_DEV" and inum: "i_inum (icache s ! ip) < sb_ninodes (sb s)"
    and rg: "unat off \<le> unat (i_size (icache s ! ip))" "unat off + length src \<le> MAXFILE * BSIZE"
    and b: "jrun Map.empty (k + 1 + wcost (blk s) (icache s ! ip) (unat off) (length src)) s"
      "2 * holes (blk s) (icache s ! ip) (unat off) (length src) \<le> nfree (sb s) (blk s)"
  shows "\<exists>t. writei dv ip src off s = Ok (int (length src)) t \<and> jrun Map.empty k t \<and>
     kept s ip {IBLOCK (i_inum (icache s ! ip)) (sb s)} t \<and> mapped s ip (unat off) (length src) t \<and>
     unat (i_size (icache t ! ip)) = max (unat (i_size (icache s ! ip))) (if src = [] then 0 else unat off + length src) \<and>
     (\<forall>j < MAXFILE * BSIZE. content t ip j = overlay (unat off) src (content s ip) j)"
proof -
  let ?n = "of_nat (length src) :: u32" let ?x = "IBLOCK (i_inum (icache s ! ip)) (sb s)"
  have un: "unat ?n = length src" using rg(2) by (simp add: unat_of_nat take_bit_nat_eq_self)
  have nw: "\<not> off + ?n < off" and sum: "unat (off + ?n) = unat off + length src"
    using no_plus_overflow_unat_size [of off ?n] u32_sum [of off ?n] un rg(2) by (auto simp: word_size not_less)
  have big: "\<not> off + ?n > of_nat (MAXFILE * BSIZE)" using sum rg(2) by (simp add: word_less_nat_alt)
  have le: "\<not> off > i_size (icache s ! ip)" using rg(1) by (simp add: word_less_nat_alt)
  obtain u where u: "writei_loop ip src (unat off) s = Ok () u" "jrun Map.empty (k + 1) u" "kept s ip {?x} u"
      "wrote s ip (unat off) src u" "mapped s ip (unat off) (length src) u"
    using writei_loop_spec [OF fa rg(2) b] by blast
  note ku = keptD [OF u(3)]
  have go: "?n > 0 \<and> off + ?n > i_size (icache u ! ip) \<longleftrightarrow> src \<noteq> [] \<and> unat off + length src > unat (i_size (icache s ! ip))"
    using un sum u(4) by (simp add: word_less_nat_alt wrote_def)
  show ?thesis
  proof (cases "src \<noteq> [] \<and> unat off + length src > unat (i_size (icache s ! ip))")
    case False
    have "writei dv ip src off s = Ok (int (length src)) u"
      using ty nw big le u(1) go False by (auto simp: writei_def ino_def Let_def)
    then show ?thesis using u False jv.run_mono [OF u(2), of k] rg(1) by (auto simp: wrote_def)
  next
    case True
    let ?i = "(icache u ! ip)\<lparr>i_size := off + ?n\<rparr>" let ?u = "u\<lparr>icache := (icache u)[ip := ?i]\<rparr>"
    have fu: "ip < length (icache u)" "fs_ok (sb u) (blk u)" "fwf (sb u) (blk u) (icache u ! ip)" "i_dev (icache u ! ip) = ROOTDEV"
      using ku(2) by (simp_all add: file_at_def)
    have iu: "i_inum (icache u ! ip) = i_inum (icache s ! ip)" by (rule metaD(3) [OF ku(4)])
    have so: "sb_ok (sb u)" using fu(2) by (simp add: fs_ok_def)
    obtain t where t: "iupdate ip ?u = Ok () t" "jrun Map.empty k t" "jframe ?u t"
        "blk t = (blk u)(?x := put_dinode (blk u ?x) (i_inum (icache s ! ip)) (disk_copy ?i))"
      using iupdate_spec [of k ?u ?i ip] u(2) fu fwfD(1) [OF fu(3)] so inum ku(6) iu by (auto simp: One_nat_def)
    have xl: "?x < sb_bmapstart (sb u)" using so inum ku(6) by (simp add: sb_ok_def)
    note F = file_update [OF ku(2) _ _ t(3,4)]
    have "writei dv ip src off s = Ok (int (length src)) t"
      using ty nw big le u(1) go True t(1) by (simp add: writei_def ino_def set_ino_def Let_def)
    moreover have "kept s ip {?x} t" using kept_trans [OF u(3) F(1)] xl by simp
    moreover have "mapped s ip (unat off) (length src) t" using u(5) F(4) xl by (simp add: mapped_def)
    moreover have "unat (i_size (icache t ! ip)) = unat off + length src" using F(2) xl sum by simp
    moreover have "\<forall>j < MAXFILE * BSIZE. content t ip j = overlay (unat off) src (content s ip) j"
      using u(4) F(3) xl by (simp add: wrote_def)
    ultimately show ?thesis using t(2) True by auto
  qed
qed

end
