(* ===== verification/FsSpec.thy ===== *)
theory FsSpec
  imports FsFile
begin

text \<open>
  The properties of the block allocator and of file content, with a small file system on
  which they are instantiated.
\<close>

section \<open>An example file system\<close>

text \<open>
  One hundred blocks: log in 2--31, sixteen inodes in 32 and 33, the free map in 34, data
  from 35 on. The inode cache holds one empty file, locked by the running process, in an
  open transaction.
\<close>

definition demo_sb :: superblock where
  "demo_sb = \<lparr>sb_size = 100, sb_nblocks = 65, sb_ninodes = 16, sb_nlog = 30, sb_logstart = 2,
     sb_inodestart = 32, sb_bmapstart = 34\<rparr>"

definition fs_disk :: "nat \<Rightarrow> byte list" where
  "fs_disk n = (if n = 34 then replicate 4 0xFF @ [7] @ replicate 507 0 else replicate BSIZE 0)"

definition demo_inode :: "u16 \<Rightarrow> inode" where
  "demo_inode ty = \<lparr>i_dev = ROOTDEV, i_inum = 2, i_ref = 1, i_lock = \<lparr>sl_locked = True, sl_pid = 1\<rparr>, i_valid = True,
     i_type = ty, i_major = 0, i_minor = 0, i_nlink = 1, i_size = 0, i_addrs = replicate (NDIRECT + 1) 0\<rparr>"

definition no_dev :: "'s devsw" where
  "no_dev = \<lparr>dv_read = (\<lambda>_. None), dv_write = (\<lambda>_. None)\<rparr>"

definition demo_open_log :: lst where
  "demo_open_log = (reboot fs_disk)\<lparr>jl := zero_log\<lparr>lg_start := 2, lg_size := 30, lg_dev := ROOTDEV, lg_outstanding := 1\<rparr>\<rparr>"

definition demo_fs :: "u16 \<Rightarrow> ist" where
  "demo_fs ty = lst.extend demo_open_log (ist.fields demo_sb [demo_inode ty])"

lemma extend_jrun: "jrun H k (lst.extend s m) = jrun H k s" and extend_babs: "babs (lst.extend s m) = babs s"
proof -
  show b: "babs (lst.extend s m) = babs s"
    by (simp add: lst.extend_def babs_def fun_eq_iff bview_def cached_in_def dirty_blocks_def split: option.split)
  have "binv H (lst.extend s m) = binv H s"
    by (simp add: lst.extend_def binv_def quiet_def bwf_def bholds_def curpid_def split: option.split)
  then show "jrun H k (lst.extend s m) = jrun H k s" by (simp add: jrun_def b) (simp add: lst.extend_def)
qed

lemma demo_fs_fields [simp]: "sb (demo_fs ty) = demo_sb" "icache (demo_fs ty) = [demo_inode ty]"
  by (simp_all add: demo_fs_def lst.extend_def ist.fields_def)

lemma demo_fs_blk [simp]: "blk (demo_fs ty) = fs_disk"
  by (simp add: demo_fs_def extend_babs demo_open_log_def reboot_babs)

lemma demo_fs_run:
  assumes "k < 30"
  shows "jrun Map.empty k (demo_fs ty)"
proof -
  have "length (fs_disk n) = BSIZE" for n by (simp add: fs_disk_def)
  then have "binv Map.empty demo_open_log" using reboot_binv [of fs_disk] by (simp add: demo_open_log_def)
  moreover have "pinned (babs demo_open_log) = {}" by (simp add: demo_open_log_def reboot_babs)
  ultimately have "jrun Map.empty k demo_open_log"
    using assms unfolding jrun_def by (simp add: demo_open_log_def zero_log_def zero_lh_def lh_ok_def)
  then show ?thesis by (simp add: demo_fs_def extend_jrun)
qed

lemma fs_disk_used:
  assumes "x < 100"
  shows "used demo_sb fs_disk x \<longleftrightarrow> x < 35"
proof -
  have m: "(0xFF :: byte) = mask 8" "(7 :: byte) = mask 3" by (simp_all add: mask_eq_exp_minus_1)
  have u: "used demo_sb fs_disk x \<longleftrightarrow> bit (fs_disk 34 ! (x div 8)) (x mod 8)"
    using assms by (simp add: used_def bit_free_bit BBLOCK_def demo_sb_def)
  consider "x div 8 < 4" | "x div 8 = 4" | "4 < x div 8" by linarith
  then show ?thesis
  proof cases
    case 1
    then have "fs_disk 34 ! (x div 8) = mask 8" by (simp add: fs_disk_def nth_append m)
    then show ?thesis using u 1 by (auto simp: bit_mask_iff)
  next
    case 2
    then have "fs_disk 34 ! (x div 8) = mask 3" by (simp add: fs_disk_def nth_append m)
    moreover have "x = 32 + x mod 8" using 2 by presburger
    ultimately show ?thesis using u by (auto simp: bit_mask_iff)
  next
    case 3
    then have "fs_disk 34 ! (x div 8) = 0" using assms by (auto simp: fs_disk_def nth_append)
    then show ?thesis using u 3 by auto
  qed
qed

lemma demo_fs_ok: "fs_ok demo_sb fs_disk"
proof -
  have "sb_ok demo_sb" by (auto simp: sb_ok_def demo_sb_def IBLOCK_def)
  then show ?thesis using fs_disk_used by (auto simp: fs_ok_def demo_sb_def)
qed

lemma demo_ptr [simp]: "ptr V (demo_inode ty) m = 0"
proof -
  have "replicate 13 0 ! m = (0 :: u32)" if "m < 12" using that by simp
  then show ?thesis by (simp add: ptr_def ind_def demo_inode_def)
qed

lemma demo_file: "file_at (demo_fs ty) 0"
  using demo_fs_ok by (simp add: file_at_def fwf_def) (simp add: demo_inode_def)

lemma demo_nfree: "2 \<le> nfree demo_sb fs_disk"
proof -
  have "{40, 41} \<subseteq> {b. b < sb_size demo_sb \<and> \<not> used demo_sb fs_disk b}"
    using fs_disk_used by (simp add: demo_sb_def)
  then have "card {40 :: nat, 41} \<le> nfree demo_sb fs_disk"
    unfolding nfree_def by (rule card_mono [OF finite_free])
  then show ?thesis by simp
qed

section \<open>Properties\<close>

text \<open>
  C10: \<open>balloc\<close> returns the first block the free map marks as free, marks it used and
  fills it with zeros; no other block changes, and no block up to the free map is ever
  handed out. When there is no free block it panics.
\<close>
theorem balloc_correct:
  fixes s :: "'z ist_scheme"
  assumes "jrun Map.empty (Suc (Suc k)) s" and "fs_ok (sb s) (blk s)"
  shows "(\<forall>b. b < sb_size (sb s) \<and> \<not> used (sb s) (blk s) b \<and> (\<forall>c<b. used (sb s) (blk s) c) \<longrightarrow>
       (\<exists>t. balloc ROOTDEV s = Ok b t \<and> sb_bmapstart (sb s) < b \<and> blk t b = replicate BSIZE 0 \<and>
          (\<forall>x < sb_size (sb s). used (sb s) (blk t) x \<longleftrightarrow> used (sb s) (blk s) x \<or> x = b) \<and>
          (\<forall>x. x \<noteq> b \<longrightarrow> x \<noteq> sb_bmapstart (sb s) \<longrightarrow> blk t x = blk s x))) \<and>
     ((\<forall>b < sb_size (sb s). used (sb s) (blk s) b) \<longrightarrow>
       (\<exists>t. balloc ROOTDEV s = Panic ''balloc: out of blocks'' t \<and> blk t = blk s))"
proof (intro conjI allI impI)
  note len = jv.sizes [OF assms(1)]
  fix b assume b: "b < sb_size (sb s) \<and> \<not> used (sb s) (blk s) b \<and> (\<forall>c<b. used (sb s) (blk s) c)"
  then have "first_free (sb s) (blk s) = Some b"
    by (auto simp: first_free_def find_Some_iff intro!: exI [of _ b])
  then obtain t where t: "balloc ROOTDEV s = Ok b t" "blk t = alloc_eff (sb s) b (blk s)"
    using balloc_spec [OF assms held_ok_empty] by auto
  note ua = used_alloc_eff [OF assms(2) _ _ len, of b]
  show "\<exists>t. balloc ROOTDEV s = Ok b t \<and> sb_bmapstart (sb s) < b \<and> blk t b = replicate BSIZE 0 \<and>
      (\<forall>x < sb_size (sb s). used (sb s) (blk t) x \<longleftrightarrow> used (sb s) (blk s) x \<or> x = b) \<and>
      (\<forall>x. x \<noteq> b \<longrightarrow> x \<noteq> sb_bmapstart (sb s) \<longrightarrow> blk t x = blk s x)"
    using b t ua by (intro exI [of _ t]) (simp add: alloc_eff_def)
next
  assume "\<forall>b < sb_size (sb s). used (sb s) (blk s) b"
  then have "first_free (sb s) (blk s) = None" by (auto simp: first_free_def find_None_iff)
  then show "\<exists>t. balloc ROOTDEV s = Panic ''balloc: out of blocks'' t \<and> blk t = blk s"
    using balloc_full [OF assms held_ok_empty] by simp
qed

theorem balloc_correct_witness:
  "\<exists>t. balloc ROOTDEV (demo_fs T_FILE) = Ok 35 t \<and> blk t 35 = replicate BSIZE 0 \<and> used demo_sb (blk t) 35"
proof -
  let ?s = "demo_fs T_FILE"
  have r: "jrun Map.empty (Suc (Suc 0)) ?s" by (rule demo_fs_run) simp
  have f: "fs_ok (sb ?s) (blk ?s)" using demo_fs_ok by simp
  have c: "35 < sb_size (sb ?s) \<and> \<not> used (sb ?s) (blk ?s) 35 \<and> (\<forall>c<35. used (sb ?s) (blk ?s) c)"
    using fs_disk_used by (simp add: demo_sb_def)
  obtain t where t: "balloc ROOTDEV ?s = Ok 35 t" "blk t 35 = replicate BSIZE 0"
      "\<forall>x < sb_size (sb ?s). used (sb ?s) (blk t) x \<longleftrightarrow> used (sb ?s) (blk ?s) x \<or> x = 35"
    using balloc_correct [OF r f, THEN conjunct1, THEN spec, THEN mp, OF c] by blast
  have "used demo_sb (blk t) 35" using t(3) c by simp
  then show ?thesis using t(1,2) by blast
qed

text \<open>
  C17: \<open>bfree\<close> clears the bit of a used block and nothing else, so that the block can be
  allocated again; freeing a free block panics.
\<close>
theorem bfree_correct:
  fixes s :: "'z ist_scheme"
  assumes "jrun Map.empty (Suc k) s" and "fs_ok (sb s) (blk s)" and "b < sb_size (sb s)"
  shows "(used (sb s) (blk s) b \<longrightarrow> (\<exists>t. bfree ROOTDEV b s = Ok () t \<and>
       (\<forall>x < sb_size (sb s). used (sb s) (blk t) x \<longleftrightarrow> used (sb s) (blk s) x \<and> x \<noteq> b) \<and>
       (\<forall>x. x \<noteq> sb_bmapstart (sb s) \<longrightarrow> blk t x = blk s x))) \<and>
     (\<not> used (sb s) (blk s) b \<longrightarrow> (\<exists>t. bfree ROOTDEV b s = Panic ''freeing free block'' t))"
proof (intro conjI impI)
  have c: "sb_bmapstart (sb s) \<notin> ran (Map.empty :: nat \<rightharpoonup> nat)" "card (ran (Map.empty :: nat \<rightharpoonup> nat)) \<le> Suc k" by simp_all
  note F = bfree_spec [OF assms(1,2) c assms(3)]
  have s: "sb_ok (sb s)" using assms(2) by (simp add: fs_ok_def)
  show "\<exists>t. bfree ROOTDEV b s = Ok () t \<and>
       (\<forall>x < sb_size (sb s). used (sb s) (blk t) x \<longleftrightarrow> used (sb s) (blk s) x \<and> x \<noteq> b) \<and>
       (\<forall>x. x \<noteq> sb_bmapstart (sb s) \<longrightarrow> blk t x = blk s x)" if "used (sb s) (blk s) b"
    using F(1) [OF that] used_mark(2) [where V = "blk s", OF s assms(3) jv.sizes [OF assms(1)]] by fastforce
  show "\<exists>t. bfree ROOTDEV b s = Panic ''freeing free block'' t" if "\<not> used (sb s) (blk s) b"
    by (rule F(2) [OF that])
qed

theorem bfree_correct_witness:
  "(\<exists>t. bfree ROOTDEV 20 (demo_fs T_FILE) = Ok () t) \<and>
   (\<exists>t. bfree ROOTDEV 77 (demo_fs T_FILE) = Panic ''freeing free block'' t)"
  using bfree_correct [OF demo_fs_run, of 2 T_FILE 20] bfree_correct [OF demo_fs_run, of 2 T_FILE 77] demo_fs_ok
    fs_disk_used [of 20] fs_disk_used [of 77] by (auto simp: demo_sb_def)

text \<open>
  C5: \<open>writei\<close> on a file or directory, at an offset inside it and within the maximal file
  size, writes all its bytes: the content of the file is the old one with the range
  replaced, blocks that did not exist are allocated and read as zeros elsewhere, the size
  grows to the end of the write if that is beyond it, and every block in use that is not
  the file's, the free map or the inode's block keeps its content.
\<close>
theorem writei_correct:
  fixes s :: "'z ist_scheme"
  assumes "file_at s ip" and "i_type (icache s ! ip) \<noteq> T_DEV" and "i_inum (icache s ! ip) < sb_ninodes (sb s)"
    and "unat off \<le> unat (i_size (icache s ! ip))" and "unat off + length src \<le> MAXFILE * BSIZE"
    and "jrun Map.empty (k + 1 + wcost (blk s) (icache s ! ip) (unat off) (length src)) s"
    and "2 * holes (blk s) (icache s ! ip) (unat off) (length src) \<le> nfree (sb s) (blk s)"
  shows "\<exists>t. writei dv ip src off s = Ok (int (length src)) t \<and> file_at t ip \<and>
     unat (i_size (icache t ! ip)) = max (unat (i_size (icache s ! ip))) (if src = [] then 0 else unat off + length src) \<and>
     (\<forall>j < MAXFILE * BSIZE. content t ip j = overlay (unat off) src (content s ip) j) \<and>
     others (sb s) (blk s) (icache s ! ip) {IBLOCK (i_inum (icache s ! ip)) (sb s)} (blk t)"
  using writei_spec [OF assms] keptD(2,5) by blast

lemma holes_demo:
  assumes "unat off + n \<le> BSIZE"
  shows "holes V (demo_inode ty) (unat off) n \<le> 1"
proof -
  have "{bn \<in> fblocks (unat off) n. ptr V (demo_inode ty) bn = 0} \<subseteq> {0}"
    using assms by (auto simp: fblocks_def split: if_splits)
  then have "card {bn \<in> fblocks (unat off) n. ptr V (demo_inode ty) bn = 0} \<le> card {0 :: nat}" by (rule card_mono [rotated]) simp
  then show ?thesis by (simp add: holes_def One_nat_def)
qed

text \<open>The premises of a write at the start of the example file.\<close>

lemma demo_write:
  fixes src :: "byte list"
  defines "s \<equiv> demo_fs T_FILE"
  assumes "length src \<le> BSIZE"
  shows "file_at s 0" "i_type (icache s ! 0) \<noteq> T_DEV" "i_inum (icache s ! 0) < sb_ninodes (sb s)"
    "unat (0 :: u32) \<le> unat (i_size (icache s ! 0))" "unat (0 :: u32) + length src \<le> MAXFILE * BSIZE"
    "unat (i_size (icache s ! 0)) \<le> MAXFILE * BSIZE"
    "jrun Map.empty (0 + 1 + wcost (blk s) (icache s ! 0) (unat (0 :: u32)) (length src)) s"
    "2 * holes (blk s) (icache s ! 0) (unat (0 :: u32)) (length src) \<le> nfree (sb s) (blk s)"
proof -
  have h: "holes fs_disk (demo_inode T_FILE) 0 (length src) \<le> 1" using holes_demo [of 0 "length src"] assms by simp
  have "wcost fs_disk (demo_inode T_FILE) 0 (length src) \<le> 5" using h by (simp add: wcost_def) (simp add: demo_inode_def)
  then show "jrun Map.empty (0 + 1 + wcost (blk s) (icache s ! 0) (unat (0 :: u32)) (length src)) s"
    using demo_fs_run [of "0 + 1 + wcost fs_disk (demo_inode T_FILE) 0 (length src)" T_FILE] by (simp add: s_def)
  show "2 * holes (blk s) (icache s ! 0) (unat (0 :: u32)) (length src) \<le> nfree (sb s) (blk s)"
    using h demo_nfree by (simp add: s_def)
  show "file_at s 0" unfolding s_def by (rule demo_file)
qed (use assms in \<open>simp_all add: s_def\<close>, simp_all add: demo_inode_def demo_sb_def)

theorem writei_correct_witness:
  "\<exists>t. writei no_dev 0 [1, 2, 3] 0 (demo_fs T_FILE) = Ok (int (length [1, 2, 3 :: byte])) t \<and> file_at t 0 \<and>
     unat (i_size (icache t ! 0)) = 3 \<and>
     (\<forall>j < MAXFILE * BSIZE. content t 0 j = overlay (unat (0 :: u32)) [1, 2, 3] (content (demo_fs T_FILE) 0) j)"
proof -
  have l: "length [1, 2, 3 :: byte] \<le> BSIZE" by simp
  note w = demo_write [OF l]
  have z: "unat (i_size (icache (demo_fs T_FILE) ! 0)) = 0" by (simp add: demo_inode_def)
  show ?thesis
    using writei_correct [OF w(1-5,7,8), of no_dev] unfolding z by (elim exE conjE) (rule exI, intro conjI, assumption+, simp, assumption)
qed

text \<open>
  C16: \<open>readi\<close> returns the bytes of the file from the offset on, at most \<open>n\<close> and at most
  up to the size, and changes neither the content nor any block of another file; past the
  end, or when \<open>off + n\<close> wraps around, it fails and changes nothing.
\<close>
theorem readi_correct:
  fixes s :: "'z ist_scheme"
  assumes "file_at s ip" and "i_type (icache s ! ip) \<noteq> T_DEV" and "unat (i_size (icache s ! ip)) \<le> MAXFILE * BSIZE"
    and "jrun Map.empty k s" and "holes (blk s) (icache s ! ip) (unat off) (min (unat n) (unat (i_size (icache s ! ip)) - unat off)) = 0"
  shows "(off > i_size (icache s ! ip) \<or> off + n < off \<longrightarrow> readi dv ip off n s = Ok None s) \<and>
     (off \<le> i_size (icache s ! ip) \<and> off \<le> off + n \<longrightarrow>
       (\<exists>t. readi dv ip off n s =
           Ok (Some (map (content s ip) [unat off..<min (unat off + unat n) (unat (i_size (icache s ! ip)))])) t \<and>
          same_content s ip t \<and> others (sb s) (blk s) (icache s ! ip) {} (blk t)))"
proof (intro conjI impI)
  show "readi dv ip off n s = Ok None s" if "off > i_size (icache s ! ip) \<or> off + n < off"
    using readi_bad [OF assms(2) that] .
  assume a: "off \<le> i_size (icache s ! ip) \<and> off \<le> off + n"
  let ?r = "min (unat n) (unat (i_size (icache s ! ip)) - unat off)"
  have "unat off \<le> unat (i_size (icache s ! ip))" using a by (simp add: word_le_nat_alt)
  then have "unat off + ?r = min (unat off + unat n) (unat (i_size (icache s ! ip)))" by linarith
  then show "\<exists>t. readi dv ip off n s =
           Ok (Some (map (content s ip) [unat off..<min (unat off + unat n) (unat (i_size (icache s ! ip)))])) t \<and>
          same_content s ip t \<and> others (sb s) (blk s) (icache s ! ip) {} (blk t)"
    using readi_spec [OF assms(1,2) _ assms(3) refl, of off n k dv "{}"] a assms(4,5) keptD(5) by fastforce
qed

theorem readi_correct_witness:
  "readi no_dev 0 5 3 (demo_fs T_FILE) = Ok None (demo_fs T_FILE) \<and> (\<exists>t. readi no_dev 0 0 3 (demo_fs T_FILE) = Ok (Some []) t)"
proof -
  have h: "holes fs_disk (demo_inode T_FILE) x 0 = 0" for x by (simp add: holes_def fblocks_def)
  show ?thesis
    using readi_correct [OF demo_file, of T_FILE 2 5 3 no_dev] readi_correct [OF demo_file, of T_FILE 2 0 3 no_dev] demo_fs_run h
    by (auto simp: demo_inode_def)
qed

text \<open>
  C6: Reading back what was written gives it: \<open>readi\<close> at the offset and with the length
  of a \<open>writei\<close> that was within bounds returns the bytes that were written.
\<close>
theorem write_read_roundtrip:
  fixes s :: "'z ist_scheme"
  assumes "file_at s ip" and "i_type (icache s ! ip) \<noteq> T_DEV" and "i_inum (icache s ! ip) < sb_ninodes (sb s)"
    and "unat off \<le> unat (i_size (icache s ! ip))" and "unat off + length src \<le> MAXFILE * BSIZE"
    and "unat (i_size (icache s ! ip)) \<le> MAXFILE * BSIZE"
    and "jrun Map.empty (k + 1 + wcost (blk s) (icache s ! ip) (unat off) (length src)) s"
    and "2 * holes (blk s) (icache s ! ip) (unat off) (length src) \<le> nfree (sb s) (blk s)"
  shows "\<exists>t u. writei dv ip src off s = Ok (int (length src)) t \<and>
     readi dv ip off (of_nat (length src)) t = Ok (Some src) u"
proof -
  obtain t where t: "writei dv ip src off s = Ok (int (length src)) t" "jrun Map.empty k t"
      "kept s ip {IBLOCK (i_inum (icache s ! ip)) (sb s)} t" "mapped s ip (unat off) (length src) t"
      "unat (i_size (icache t ! ip)) = max (unat (i_size (icache s ! ip))) (if src = [] then 0 else unat off + length src)"
      "\<forall>j < MAXFILE * BSIZE. content t ip j = overlay (unat off) src (content s ip) j"
    using writei_spec [OF assms(1-5,7,8)] by blast
  let ?n = "of_nat (length src) :: u32"
  have un: "unat ?n = length src" using assms(5) by (simp add: unat_of_nat take_bit_nat_eq_self)
  have r: "length src = min (unat ?n) (unat (i_size (icache t ! ip)) - unat off)" using un t(5) by auto
  have h: "holes (blk t) (icache t ! ip) (unat off) (length src) = 0"
  proof -
    have "{bn \<in> fblocks (unat off) (length src). ptr (blk t) (icache t ! ip) bn = 0} = {}"
      using t(4) fblocks_range [OF assms(5)] unfolding mapped_def by blast
    then show ?thesis by (simp add: holes_def)
  qed
  have ok: "\<not> (off > i_size (icache t ! ip) \<or> off + ?n < off)"
  proof -
    have "\<not> off + ?n < off" using assms(5) un no_plus_overflow_unat_size [of off ?n] by (simp add: word_size not_less)
    then show ?thesis using t(5) assms(4) by (auto simp: word_less_nat_alt)
  qed
  have ty: "i_type (icache t ! ip) \<noteq> T_DEV" using metaD(2) [OF keptD(4) [OF t(3)]] assms(2) by simp
  have sz: "unat (i_size (icache t ! ip)) \<le> MAXFILE * BSIZE" using t(5) assms(5,6) by simp
  have "map (content t ip) [unat off..<unat off + length src] = src"
    using t(6) assms(5) by (intro nth_equalityI) (auto simp: overlay_def)
  then show ?thesis
    using readi_spec [OF keptD(2) [OF t(3)] ty ok sz r, of k dv "{}"] t(1,2) h by auto
qed

theorem write_read_roundtrip_witness:
  "\<exists>t u. writei no_dev 0 [1, 2, 3] 0 (demo_fs T_FILE) = Ok (int (length [1, 2, 3 :: byte])) t \<and>
     readi no_dev 0 0 (of_nat (length [1, 2, 3 :: byte])) t = Ok (Some [1, 2, 3]) u"
proof -
  have l: "length [1, 2, 3 :: byte] \<le> BSIZE" by simp
  show ?thesis by (rule write_read_roundtrip [OF demo_write [OF l]])
qed

end
