(* ===== verification/FsDir.thy ===== *)
theory FsDir
  imports FsSpec
begin

text \<open>
  The inode cache (\<open>iget\<close>, \<open>ilock\<close>), directories (\<open>dirlookup\<close>, \<open>dirlink\<close>) against the
  list of their entries, and path elements.
\<close>

section \<open>The inode cache\<close>

text \<open>No two referenced entries stand for the same inode, and counts are not negative.\<close>

definition ic_ok :: "inode list \<Rightarrow> bool" where
  "ic_ok c \<longleftrightarrow> (\<forall>a < length c. 0 \<le> i_ref (c ! a)) \<and>
     (\<forall>a < length c. \<forall>b < length c. 0 < i_ref (c ! a) \<longrightarrow> 0 < i_ref (c ! b) \<longrightarrow>
        i_dev (c ! a) = i_dev (c ! b) \<longrightarrow> i_inum (c ! a) = i_inum (c ! b) \<longrightarrow> a = b)"

lemma ic_okD:
  assumes "ic_ok c" "a < length c" "b < length c" "0 < i_ref (c ! a)" "0 < i_ref (c ! b)"
    "i_dev (c ! a) = i_dev (c ! b)" "i_inum (c ! a) = i_inum (c ! b)"
  shows "a = b"
  using assms unfolding ic_ok_def by blast

definition cached_ino :: "nat \<Rightarrow> nat \<Rightarrow> inode list \<Rightarrow> nat option" where
  "cached_ino dev inum c = find_index (\<lambda>i. i_ref i > 0 \<and> i_dev i = dev \<and> i_inum i = inum) c"

text \<open>The slot \<open>iget\<close> uses and what it puts there.\<close>

definition iget_slot :: "nat \<Rightarrow> nat \<Rightarrow> inode list \<Rightarrow> nat option" where
  "iget_slot dev inum c = (case cached_ino dev inum c of Some ip \<Rightarrow> Some ip | None \<Rightarrow> find_index (\<lambda>i. i_ref i = 0) c)"

definition iget_entry :: "nat \<Rightarrow> nat \<Rightarrow> inode \<Rightarrow> inode" where
  "iget_entry dev inum i = (if i_ref i = 0 then i\<lparr>i_dev := dev, i_inum := inum, i_ref := 1, i_valid := False\<rparr>
     else i\<lparr>i_ref := i_ref i + 1\<rparr>)"

lemma iget_run:
  assumes "held s = []"
  shows "iget dev inum s = (case iget_slot dev inum (icache s) of
      None \<Rightarrow> Panic ''iget: no inodes'' (s\<lparr>held := [LIcache]\<rparr>)
    | Some ip \<Rightarrow> Ok ip (s\<lparr>icache := (icache s)[ip := iget_entry dev inum (icache s ! ip)]\<rparr>))"
proof (cases "cached_ino dev inum (icache s)")
  case (Some ip)
  then have "0 < i_ref (icache s ! ip)" by (simp add: cached_ino_def find_index_Some)
  then show ?thesis
    using assms Some by (simp add: iget_def cached_ino_def iget_slot_def iget_entry_def set_ino_def)
next
  case None
  show ?thesis
  proof (cases "find_index (\<lambda>i. i_ref i = 0) (icache s)")
    case (Some ip)
    then have "i_ref (icache s ! ip) = 0" by (simp add: find_index_Some)
    then show ?thesis
      using assms None Some by (simp add: iget_def cached_ino_def iget_slot_def iget_entry_def set_ino_def)
  qed (use assms None in \<open>simp add: iget_def cached_ino_def iget_slot_def\<close>)
qed

lemma iget_keeps:
  assumes c: "ic_ok c" and sl: "iget_slot dev inum c = Some ip"
  shows "ip < length c" "ic_ok (c[ip := iget_entry dev inum (c ! ip)])"
    "i_dev (iget_entry dev inum (c ! ip)) = dev" "i_inum (iget_entry dev inum (c ! ip)) = inum"
    "0 < i_ref (iget_entry dev inum (c ! ip))"
    "cached_ino dev inum (c[ip := iget_entry dev inum (c ! ip)]) = Some ip"
proof -
  let ?e = "iget_entry dev inum (c ! ip)"
  show ip: "ip < length c"
    using sl by (auto simp: iget_slot_def cached_ino_def find_index_Some split: option.splits)
  have old: "0 < i_ref (c ! ip) \<Longrightarrow> i_dev (c ! ip) = dev \<and> i_inum (c ! ip) = inum"
    using sl by (auto simp: iget_slot_def cached_ino_def find_index_Some split: option.splits)
  have none: "i_ref (c ! ip) = 0 \<Longrightarrow> b < length c \<Longrightarrow> 0 < i_ref (c ! b) \<Longrightarrow> \<not> (i_dev (c ! b) = dev \<and> i_inum (c ! b) = inum)" for b
    using sl by (auto simp: iget_slot_def cached_ino_def find_index_Some find_index_None split: option.splits)
  have nn: "0 \<le> i_ref (c ! ip)" using c ip by (simp add: ic_ok_def)
  show e: "i_dev ?e = dev" "i_inum ?e = inum" "0 < i_ref ?e" using old nn by (auto simp: iget_entry_def)
  have u: "b = ip" if "b < length c" "0 < i_ref (c ! b)" "i_dev (c ! b) = dev" "i_inum (c ! b) = inum" for b
  proof (cases "i_ref (c ! ip) = 0")
    case True
    then show ?thesis using none that by blast
  next
    case False
    then have "0 < i_ref (c ! ip)" using nn by simp
    then show ?thesis using old by - (rule ic_okD [OF c that(1) ip that(2)], simp_all add: that)
  qed
  show ok: "ic_ok (c[ip := ?e])"
    unfolding ic_ok_def
  proof (intro conjI allI impI)
    show "0 \<le> i_ref (c[ip := ?e] ! a)" if "a < length (c[ip := ?e])" for a
      using that c e(3) by (cases "a = ip") (auto simp: ic_ok_def)
    fix a b assume a: "a < length (c[ip := ?e])" "b < length (c[ip := ?e])" "0 < i_ref (c[ip := ?e] ! a)" "0 < i_ref (c[ip := ?e] ! b)"
      "i_dev (c[ip := ?e] ! a) = i_dev (c[ip := ?e] ! b)" "i_inum (c[ip := ?e] ! a) = i_inum (c[ip := ?e] ! b)"
    show "a = b"
    proof (cases "a = ip"; cases "b = ip")
      assume "a = ip" "b \<noteq> ip"
      have "b = ip" by (rule u) (use a e ip \<open>a = ip\<close> \<open>b \<noteq> ip\<close> in simp_all)
      then show ?thesis using \<open>a = ip\<close> by simp
    next
      assume "a \<noteq> ip" "b = ip"
      have "a = ip" by (rule u) (use a e ip \<open>a \<noteq> ip\<close> \<open>b = ip\<close> in simp_all)
      then show ?thesis using \<open>b = ip\<close> by simp
    next
      assume "a \<noteq> ip" "b \<noteq> ip"
      then show ?thesis by - (rule ic_okD [OF c], use a in simp_all)
    qed simp
  qed
  show "cached_ino dev inum (c[ip := ?e]) = Some ip"
    unfolding cached_ino_def find_index_Some
  proof (intro conjI allI impI)
    show "ip < length (c[ip := ?e])" "0 < i_ref (c[ip := ?e] ! ip)" "i_dev (c[ip := ?e] ! ip) = dev" "i_inum (c[ip := ?e] ! ip) = inum"
      using ip e by simp_all
    fix j assume "j < ip"
    then show "\<not> (0 < i_ref (c[ip := ?e] ! j) \<and> i_dev (c[ip := ?e] ! j) = dev \<and> i_inum (c[ip := ?e] ! j) = inum)"
    proof (intro notI, elim conjE)
      assume j: "0 < i_ref (c[ip := ?e] ! j)" "i_dev (c[ip := ?e] ! j) = dev" "i_inum (c[ip := ?e] ! j) = inum"
      have "j = ip" by (rule u) (use j \<open>j < ip\<close> ip in simp_all)
      then show False using \<open>j < ip\<close> by simp
    qed
  qed
qed

section \<open>Reading existing blocks\<close>

text \<open>Where every block of the range exists, reading changes nothing but the state of the cache.\<close>

lemma bmap_found:
  fixes s :: "'z ist_scheme"
  assumes fa: "file_at s ip" and bn: "bn < MAXFILE" and p: "ptr (blk s) (icache s ! ip) bn \<noteq> 0" and r: "jrun Map.empty k s"
  shows "\<exists>t. bmap ip bn s = Ok (ptr (blk s) (icache s ! ip) bn) t \<and> jrun Map.empty k t \<and> blk t = blk s \<and> jframe s t"
proof (cases "bn < NDIRECT")
  case True
  then show ?thesis using p r by (simp add: bmap_split direct_addr_def ino_def ptr_def unat_eq_0)
next
  case False
  let ?i = "icache s ! ip" let ?x = "ind ?i" and ?o = "4 * (bn - NDIRECT)"
  have pe: "ptr (blk s) ?i bn = unat (get32 (blk s ?x) ?o)" "?x \<noteq> 0" using False bn p by (auto simp: ptr_def split: if_splits)
  have f: "fs_ok (sb s) (blk s)" "fwf (sb s) (blk s) ?i" "i_dev ?i = ROOTDEV" using fa by (simp_all add: file_at_def)
  have "data_blk (sb s) (blk s) ?x" using fwfD(2) [OF f(2) order_refl] pe(2) by simp
  then have xs: "?x < FSSIZE" using f(1) by (simp add: data_blk_def fs_ok_def sb_ok_def)
  obtain b u where u: "bread ROOTDEV ?x s = Ok b u" "jrun [b \<mapsto> ?x] k u" "blk u = blk s" "jframe s u"
    using jv.rd_ok [OF r xs] by auto
  have g: "get_data b u = Ok (blk s ?x) u" using jv.geta_ok [OF u(2), of b ?x] u(3) by simp
  obtain t where t: "brelse b u = Ok () t" "jrun Map.empty k t" "blk t = blk u" "jframe u t"
    using jv.rel_ok [OF u(2), of b ?x] by auto
  have "direct_addr ip NDIRECT s = Ok ?x s" using pe(2) by (simp add: direct_addr_def ino_def ind_def unat_eq_0)
  moreover have "ind_entry ip ?x ?o s = Ok (ptr (blk s) ?i bn) t"
    using u(1) g t(1) f(3) p pe by (auto simp: ind_entry_def ino_def)
  ultimately show ?thesis
    using False bn t(2,3) u(3) jframe_trans [OF u(4) t(4)] by (auto simp: bmap_split)
qed

lemma file_at_frame: "jframe s t \<Longrightarrow> blk t = blk s \<Longrightarrow> file_at t ip = file_at s ip"
  using ist_frame [of s t] by (simp add: file_at_def)

lemma readi_loop_found:
  fixes s :: "'z ist_scheme"
  assumes "file_at s ip" "off + r \<le> MAXFILE * BSIZE" "jrun Map.empty k s"
    and "\<And>bn. bn \<in> fblocks off r \<Longrightarrow> ptr (blk s) (icache s ! ip) bn \<noteq> 0"
  shows "\<exists>t. readi_loop ip off r s = Ok (map (content s ip) [off..<off + r]) t \<and> jrun Map.empty k t \<and> blk t = blk s \<and> jframe s t"
  using assms
proof (induction r arbitrary: off s rule: less_induct)
  case (less r)
  note fa = less.prems(1) and rg = less.prems(2)
  show ?case
  proof (cases "r = 0")
    case False
    define m where m: "m = min r (BSIZE - off mod BSIZE)"
    have r0: "0 < r" using False by simp
    note f = fblocks_step [OF r0 m]
    let ?a = "ptr (blk s) (icache s ! ip) (off div BSIZE)"
    have bn: "off div BSIZE < MAXFILE" "?a \<noteq> 0" using fblocks_range [OF rg] f(1) less.prems(4) by blast+
    have fs: "fs_ok (sb s) (blk s)" "fwf (sb s) (blk s) (icache s ! ip)" "i_dev (icache s ! ip) = ROOTDEV" using fa by (simp_all add: file_at_def)
    have "data_blk (sb s) (blk s) ?a" using fwfD(2) [OF fs(2)] bn by simp
    then have af: "?a < FSSIZE" using fs(1) by (simp add: data_blk_def fs_ok_def sb_ok_def)
    obtain u where u: "bmap ip (off div BSIZE) s = Ok ?a u" "jrun Map.empty k u" "blk u = blk s" "jframe s u"
      using bmap_found [OF fa bn less.prems(3)] by blast
    obtain b v where v: "bread ROOTDEV ?a u = Ok b v" "jrun [b \<mapsto> ?a] k v" "blk v = blk u" "jframe u v"
      using jv.rd_ok [OF u(2) af] by auto
    have g: "get_data b v = Ok (blk s ?a) v" using jv.geta_ok [OF v(2), of b ?a] v(3) u(3) by simp
    obtain w where w: "brelse b v = Ok () w" "jrun Map.empty k w" "blk w = blk v" "jframe v w"
      using jv.rel_ok [OF v(2), of b ?a] by auto
    have fr: "jframe s w" using u(4) v(4) w(4) by (meson jframe_trans)
    have bw: "blk w = blk s" "icache w = icache s" using w(3) v(3) u(3) ist_frame [OF fr] by simp_all
    have "\<exists>t. readi_loop ip (off + m) (r - m) w = Ok (map (content w ip) [off + m..<off + m + (r - m)]) t \<and>
        jrun Map.empty k t \<and> blk t = blk w \<and> jframe w t"
    proof (rule less.IH)
      show "r - m < r" using f(3) r0 by simp
      show "off + m + (r - m) \<le> MAXFILE * BSIZE" using rg f(4) by simp
      show "file_at w ip" using file_at_frame [OF fr bw(1)] fa by simp
      show "ptr (blk w) (icache w ! ip) bn \<noteq> 0" if "bn \<in> fblocks (off + m) (r - m)" for bn
        unfolding bw by (rule less.prems(4)) (use that f(1) in blast)
    qed (rule w(2))
    then obtain t where t: "readi_loop ip (off + m) (r - m) w = Ok (map (content s ip) [off + m..<off + r]) t"
        "jrun Map.empty k t" "blk t = blk s" "jframe w t" using f(4) by (auto simp: content_def [abs_def] bw)
    have "bslice (off mod BSIZE) m (blk s ?a) = map (content s ip) [off..<off + m]"
      using chunk_bytes [OF refl bn(2) jv.sizes [OF less.prems(3)] f(5)] by (simp add: content_def [abs_def])
    then have "readi_loop ip off r s = Ok (map (content s ip) [off..<off + r]) t"
      using False u(1) v(1) w(1) t(1) g fs(3) map_upt_split [OF f(4), of "content s ip" off]
      by (subst readi_loop.simps) (simp add: ino_def Let_def m [symmetric])
    then show ?thesis using t(2,3) jframe_trans [OF fr t(4)] by blast
  qed (use less.prems(3) in simp)
qed

section \<open>Directories\<close>

text \<open>
  A directory: a file of whole entries, all of whose blocks exist.
\<close>

definition dir_at :: "'z ist_scheme \<Rightarrow> nat \<Rightarrow> nat \<Rightarrow> bool" where
  "dir_at s dp n \<longleftrightarrow> file_at s dp \<and> i_type (icache s ! dp) = T_DIR \<and> unat (i_size (icache s ! dp)) = n * DIRENTSZ \<and>
     n * DIRENTSZ \<le> MAXFILE * BSIZE \<and>
     (\<forall>bn \<in> fblocks 0 (n * DIRENTSZ). ptr (blk s) (icache s ! dp) bn \<noteq> 0)"

definition dent :: "'z ist_scheme \<Rightarrow> nat \<Rightarrow> nat \<Rightarrow> dirent" where
  "dent s dp k = dec_dirent (map (content s dp) [k * DIRENTSZ..<k * DIRENTSZ + DIRENTSZ])"

lemma slots_mult: "slots (n * DIRENTSZ) = n"
  by (simp add: slots_def)

lemma dent_range:
  assumes "k < n" "bn \<in> fblocks (k * DIRENTSZ) DIRENTSZ"
  shows "bn \<in> fblocks 0 (n * DIRENTSZ)"
proof -
  have "bn \<le> (k * DIRENTSZ + DIRENTSZ - 1) div BSIZE" using assms(2) by (simp add: fblocks_def)
  also have "\<dots> \<le> (n * DIRENTSZ - 1) div BSIZE" using assms(1) by (intro div_le_mono) simp
  finally show ?thesis using assms(1) by (simp add: fblocks_def)
qed

lemma read_dirent_spec:
  fixes s :: "'z ist_scheme"
  assumes d: "dir_at s dp n" and k: "k < n" and r: "jrun Map.empty j s"
  shows "\<exists>t. read_dirent dv msg dp (k * DIRENTSZ) s = Ok (dent s dp k) t \<and> jrun Map.empty j t \<and> blk t = blk s \<and> jframe s t"
proof -
  let ?i = "icache s ! dp" and ?off = "of_nat (k * DIRENTSZ) :: u32" and ?n = "of_nat DIRENTSZ :: u32"
  have sz: "unat (i_size ?i) = n * DIRENTSZ" "n * DIRENTSZ \<le> 71680" "i_type ?i = T_DIR" using d by (simp_all add: dir_at_def)
  have ko: "k * DIRENTSZ + DIRENTSZ \<le> n * DIRENTSZ" using k by (simp add: mult.commute)
  have uo: "unat ?off = k * DIRENTSZ" using ko sz by (subst unat_of_nat) (simp add: take_bit_nat_eq_self)
  have nw: "\<not> ?off + ?n < ?off" and sum: "unat (?off + ?n) = k * DIRENTSZ + DIRENTSZ"
    using no_plus_overflow_unat_size [of ?off ?n] u32_sum [of ?off ?n] uo ko sz by (auto simp: word_size not_less)
  have le: "\<not> ?off > i_size ?i" "\<not> ?off + ?n > i_size ?i" using ko sz(1) uo sum by (simp_all add: word_less_nat_alt)
  obtain t where t: "readi_loop dp (k * DIRENTSZ) DIRENTSZ s = Ok (map (content s dp) [k * DIRENTSZ..<k * DIRENTSZ + DIRENTSZ]) t"
      "jrun Map.empty j t" "blk t = blk s" "jframe s t"
    using readi_loop_found [of s dp "k * DIRENTSZ" DIRENTSZ j] d r ko sz dent_range [OF k] by (auto simp: dir_at_def)
  have "readi dv dp ?off ?n s = Ok (Some (map (content s dp) [k * DIRENTSZ..<k * DIRENTSZ + DIRENTSZ])) t"
    using t(1) sz(3) nw le uo by (simp add: readi_def ino_def Let_def)
  then have "read_dirent dv msg dp (k * DIRENTSZ) s = Ok (dent s dp k) t"
    unfolding read_dirent_def dent_def bnd_apply by simp
  then show ?thesis using t by blast
qed

lemma search_each_map: "search_each (map f ks) body = search_each ks (\<lambda>k. body (f k))"
  by (induction ks) (simp_all add: fun_eq_iff split: outcome.splits option.splits)

definition dmatch :: "'z ist_scheme \<Rightarrow> nat \<Rightarrow> byte list \<Rightarrow> nat \<Rightarrow> bool" where
  "dmatch s dp name k \<longleftrightarrow> de_inum (dent s dp k) \<noteq> 0 \<and> namecmp name (de_name (dent s dp k)) = 0"

text \<open>A state that differs from \<open>s\<close> only in what reading changes.\<close>

definition quiet_read :: "nat \<Rightarrow> 'z ist_scheme \<Rightarrow> 'z ist_scheme \<Rightarrow> bool" where
  "quiet_read j s t \<longleftrightarrow> jrun Map.empty j t \<and> blk t = blk s \<and> jframe s t"

lemma quiet_readD:
  assumes "quiet_read j s t"
  shows "jrun Map.empty j t" "icache t = icache s" "dir_at t dp n = dir_at s dp n" "dent t dp k = dent s dp k" "held t = []"
proof -
  have f: "jframe s t" "blk t = blk s" and r: "jrun Map.empty j t" using assms by (simp_all add: quiet_read_def)
  show "jrun Map.empty j t" by (rule r)
  show ic: "icache t = icache s" by (rule ist_frame(2) [OF f(1)])
  show "dir_at t dp n = dir_at s dp n" using file_at_frame [OF f] by (simp add: dir_at_def ic f(2))
  show "dent t dp k = dent s dp k" by (simp add: dent_def content_def [abs_def] ic f(2))
  show "held t = []" using r binv_held unfolding jrun_def by blast
qed

lemma quiet_read_dirent:
  assumes "dir_at s dp n" "k < n" "quiet_read j s t"
  shows "\<exists>t'. read_dirent dv msg dp (k * DIRENTSZ) t = Ok (dent s dp k) t' \<and> quiet_read j s t'"
proof -
  note q = quiet_readD [OF assms(3)]
  obtain t' where t': "read_dirent dv msg dp (k * DIRENTSZ) t = Ok (dent s dp k) t'" "jrun Map.empty j t'" "blk t' = blk t" "jframe t t'"
    using read_dirent_spec [of t dp n k j dv msg] assms(1,2) q by auto
  have "jframe s t'" using assms(3) t'(4) jframe_trans unfolding quiet_read_def by blast
  then show ?thesis using t' assms(3) by (auto simp: quiet_read_def)
qed

text \<open>The state after \<open>dirlookup\<close> found inode \<open>inum\<close> and \<open>iget\<close> gave the entry \<open>ip\<close>.\<close>

definition got :: "nat \<Rightarrow> 'z ist_scheme \<Rightarrow> nat \<Rightarrow> nat \<Rightarrow> 'z ist_scheme \<Rightarrow> bool" where
  "got j s inum ip t \<longleftrightarrow> iget_slot ROOTDEV inum (icache s) = Some ip \<and>
     (\<exists>u. quiet_read j s u \<and> t = u\<lparr>icache := (icache s)[ip := iget_entry ROOTDEV inum (icache s ! ip)]\<rparr>)"

lemma dirlookup_spec:
  fixes s :: "'z ist_scheme"
  assumes d: "dir_at s dp n" and r: "jrun Map.empty j s"
    and slot: "\<And>k. k < n \<Longrightarrow> dmatch s dp name k \<Longrightarrow> iget_slot ROOTDEV (unat (de_inum (dent s dp k))) (icache s) \<noteq> None"
  shows "case List.find (dmatch s dp name) [0..<n] of
      None \<Rightarrow> \<exists>t. dirlookup dv dp name s = Ok None t \<and> quiet_read j s t
    | Some k \<Rightarrow> \<exists>x t. dirlookup dv dp name s = Ok (Some x) t \<and>
        snd x = k * DIRENTSZ \<and> got j s (unat (de_inum (dent s dp k))) (fst x) t"
proof -
  let ?b = "\<lambda>k. bnd (read_dirent dv ''dirlookup read'' dp (k * DIRENTSZ)) (\<lambda>de.
       if de_inum de = 0 then ret None
       else if namecmp name (de_name de) = 0 then
         bnd (iget (i_dev (icache s ! dp)) (unat (de_inum de))) (\<lambda>ip. ret (Some (ip, k * DIRENTSZ)))
       else ret None)"
  have dd: "i_type (icache s ! dp) = T_DIR" "unat (i_size (icache s ! dp)) = n * DIRENTSZ" "i_dev (icache s ! dp) = ROOTDEV"
    using d by (simp_all add: dir_at_def file_at_def)
  have q0: "quiet_read j s s" using r by (simp add: quiet_read_def)
  have e: "dirlookup dv dp name s = search_each [0..<n] ?b s"
    using dd by (simp add: dirlookup_def ino_def dir_offs_def slots_mult search_each_map)
  show ?thesis
    unfolding e
  proof (rule search_each_find [where I = "quiet_read j s", OF q0])
    fix k t assume k: "k \<in> set [0..<n]" and t: "quiet_read j s t"
    then obtain t' where t': "read_dirent dv ''dirlookup read'' dp (k * DIRENTSZ) t = Ok (dent s dp k) t'" "quiet_read j s t'"
      using quiet_read_dirent [OF d _ t, of k dv "''dirlookup read''"] by auto
    show "\<exists>t'. ?b k t = Ok None t' \<and> quiet_read j s t'" if "\<not> dmatch s dp name k"
      using that t' by (auto simp: dmatch_def)
    assume m: "dmatch s dp name k"
    then obtain ip where ip: "iget_slot ROOTDEV (unat (de_inum (dent s dp k))) (icache s) = Some ip" using slot k by auto
    note q = quiet_readD [OF t'(2)]
    have "?b k t = Ok (Some (ip, k * DIRENTSZ))
        (t'\<lparr>icache := (icache s)[ip := iget_entry ROOTDEV (unat (de_inum (dent s dp k))) (icache s ! ip)]\<rparr>)"
      using m t'(1) ip iget_run [OF q(5)] by (simp add: dmatch_def dd(3) q(2))
    then show "\<exists>x t'. ?b k t = Ok (Some x) t' \<and> snd x = k * DIRENTSZ \<and> got j s (unat (de_inum (dent s dp k))) (fst x) t'"
      using ip t'(2) by (auto simp: got_def)
  qed
qed

text \<open>The first unused entry, or the end of the directory.\<close>

definition free_slot :: "'z ist_scheme \<Rightarrow> nat \<Rightarrow> nat \<Rightarrow> nat" where
  "free_slot s dp n = (case List.find (\<lambda>k. de_inum (dent s dp k) = 0) [0..<n] of Some k \<Rightarrow> k | None \<Rightarrow> n)"

definition new_dirent :: "byte list \<Rightarrow> nat \<Rightarrow> dirent" where
  "new_dirent name inum = \<lparr>de_inum = of_nat inum, de_name = strncpy (of_list name) DIRSIZ\<rparr>"

lemma free_slot_le: "free_slot s dp n \<le> n"
  using find_upt_Some(1) by (fastforce simp: free_slot_def split: option.split)

lemma find_slot:
  fixes s :: "'z ist_scheme"
  assumes d: "dir_at s dp n" and q: "quiet_read j s t"
  shows "\<exists>r u. search_each (dir_offs (n * DIRENTSZ)) (\<lambda>off.
           bnd (read_dirent dv ''dirlink read'' dp off) (\<lambda>de. ret (if de_inum de = 0 then Some off else None))) t = Ok r u \<and>
     quiet_read j s u \<and> (case r of Some off \<Rightarrow> off | None \<Rightarrow> n * DIRENTSZ) = free_slot s dp n * DIRENTSZ"
proof -
  let ?b = "\<lambda>k. bnd (read_dirent dv ''dirlink read'' dp (k * DIRENTSZ)) (\<lambda>de. ret (if de_inum de = 0 then Some (k * DIRENTSZ) else None))"
  let ?P = "\<lambda>k. de_inum (dent s dp k) = 0"
  have "case List.find ?P [0..<n] of
      None \<Rightarrow> \<exists>u. search_each [0..<n] ?b t = Ok None u \<and> quiet_read j s u
    | Some k \<Rightarrow> \<exists>x u. search_each [0..<n] ?b t = Ok (Some x) u \<and> x = k * DIRENTSZ \<and> quiet_read j s u"
  proof (rule search_each_find [where I = "quiet_read j s", OF q])
    fix k v assume k: "k \<in> set [0..<n]" and v: "quiet_read j s v"
    then obtain v' where v': "read_dirent dv ''dirlink read'' dp (k * DIRENTSZ) v = Ok (dent s dp k) v'" "quiet_read j s v'"
      using quiet_read_dirent [OF d _ v, of k dv "''dirlink read''"] by auto
    show "\<exists>v'. ?b k v = Ok None v' \<and> quiet_read j s v'" if "\<not> ?P k" using that v' by simp
    show "\<exists>x v'. ?b k v = Ok (Some x) v' \<and> x = k * DIRENTSZ \<and> quiet_read j s v'" if "?P k" using that v' by simp
  qed
  then show ?thesis
    by (auto simp: dir_offs_def slots_mult search_each_map free_slot_def split: option.splits)
qed

lemma div_dirent: "x div BSIZE = x div DIRENTSZ div 32"
  by (simp flip: div_mult2_eq)

lemma last_byte: "(k * DIRENTSZ + 15) div BSIZE = k div 32" "k * DIRENTSZ div BSIZE = k div 32"
  by (simp_all add: div_dirent)

lemma fblocks_dirent: "fblocks (k * DIRENTSZ) DIRENTSZ = {k div 32}"
  using last_byte [of k] by (simp add: fblocks_def add.commute)

lemma fblocks_dir: "fblocks 0 (n * DIRENTSZ) = (if n = 0 then {} else {0..(n - 1) div 32})"
proof (cases n)
  case (Suc m)
  then have "n * DIRENTSZ - 1 = m * DIRENTSZ + 15" by simp
  then show ?thesis using last_byte(1) [of m] Suc by (simp add: fblocks_def)
qed (simp add: fblocks_def)

lemma slot_block:
  assumes "k \<le> n"
  shows "fblocks 0 (max n (k + 1) * DIRENTSZ) = fblocks 0 (n * DIRENTSZ) \<union> fblocks (k * DIRENTSZ) DIRENTSZ"
proof (cases "k < n")
  case True
  then have "max n (k + 1) = n" by simp
  then show ?thesis using dent_range [OF True] by auto
next
  case False
  then have k: "k = n" using assms by simp
  show ?thesis
  proof (cases n)
    case (Suc m)
    then show ?thesis unfolding k fblocks_dir fblocks_dirent by (auto simp: div_Suc One_nat_def)
  next
    case 0
    then show ?thesis unfolding k fblocks_dir fblocks_dirent by simp
  qed
qed

lemma dirent_write:
  fixes s :: "'z ist_scheme" and off :: u32
  assumes d: "dir_at s dp n" and k: "k \<le> n" "(k + 1) * DIRENTSZ \<le> MAXFILE * BSIZE"
    and de: "length (de_name de) = DIRSIZ" and inum: "i_inum (icache s ! dp) < sb_ninodes (sb s)"
    and r: "jrun Map.empty (j + 7) s" and nf: "2 \<le> nfree (sb s) (blk s)"
    and uo: "unat off = k * DIRENTSZ"
  shows "\<exists>t. writei dv dp (enc_dirent de) off s = Ok (int DIRENTSZ) t \<and> jrun Map.empty j t \<and>
     dir_at t dp (max n (k + 1)) \<and> (\<forall>i < max n (k + 1). dent t dp i = (if i = k then de else dent s dp i)) \<and>
     kept s dp {IBLOCK (i_inum (icache s ! dp)) (sb s)} t"
proof -
  let ?i = "icache s ! dp"
  have fa: "file_at s dp" and ty: "i_type ?i = T_DIR" and sz: "unat (i_size ?i) = n * DIRENTSZ" "n * DIRENTSZ \<le> MAXFILE * BSIZE"
    and bl: "\<And>bn. bn \<in> fblocks 0 (n * DIRENTSZ) \<Longrightarrow> ptr (blk s) ?i bn \<noteq> 0" using d by (auto simp: dir_at_def)
  have le: "length (enc_dirent de) = DIRENTSZ" using length_enc_dirent [of de] de by simp
  have "holes (blk s) ?i (k * DIRENTSZ) DIRENTSZ \<le> card {k div 32}"
    unfolding holes_def fblocks_dirent by (intro card_mono) auto
  then have h: "holes (blk s) ?i (k * DIRENTSZ) DIRENTSZ \<le> 1" by (simp add: One_nat_def)
  then have w: "wcost (blk s) ?i (k * DIRENTSZ) DIRENTSZ \<le> 6" using ty unfolding wcost_def fblocks_dirent by (simp add: One_nat_def)
  have run: "jrun Map.empty (j + 1 + wcost (blk s) ?i (unat off) (length (enc_dirent de))) s"
    using jv.run_mono [OF r] w by (simp add: uo le)
  obtain t where t: "writei dv dp (enc_dirent de) off s = Ok (int (length (enc_dirent de))) t" "jrun Map.empty j t"
      "kept s dp {IBLOCK (i_inum ?i) (sb s)} t" "mapped s dp (unat off) (length (enc_dirent de)) t"
      "unat (i_size (icache t ! dp)) = max (unat (i_size ?i)) (if enc_dirent de = [] then 0 else unat off + length (enc_dirent de))"
      "\<forall>x < MAXFILE * BSIZE. content t dp x = overlay (unat off) (enc_dirent de) (content s dp) x"
    using writei_spec [OF fa _ inum _ _ run, of dv] ty uo le k sz h nf by auto
  have ne: "enc_dirent de \<noteq> []" using le by auto
  have st: "unat (i_size (icache t ! dp)) = max n (k + 1) * DIRENTSZ" using t(5) sz(1) uo le ne by (auto simp: max_def)
  have mx: "max n (k + 1) * DIRENTSZ \<le> MAXFILE * BSIZE" using sz(2) k(2) by (simp add: max_def)
  have "ptr (blk t) (icache t ! dp) bn \<noteq> 0" if "bn \<in> fblocks 0 (max n (k + 1) * DIRENTSZ)" for bn
  proof -
    have "bn < MAXFILE" using fblocks_range [of 0 "max n (k + 1) * DIRENTSZ" bn] mx that by simp
    moreover have "ptr (blk s) ?i bn \<noteq> 0 \<or> bn \<in> fblocks (k * DIRENTSZ) DIRENTSZ"
      using that bl unfolding slot_block [OF k(1)] by blast
    ultimately show ?thesis using t(4) unfolding mapped_def uo le by blast
  qed
  then have dt: "dir_at t dp (max n (k + 1))"
    using keptD(2) [OF t(3)] metaD(2) [OF keptD(4) [OF t(3)]] ty st mx by (simp add: dir_at_def)
  have "dent t dp i = (if i = k then de else dent s dp i)" if i: "i < max n (k + 1)" for i
  proof -
    have ir: "i * DIRENTSZ + x < MAXFILE * BSIZE" if "x < DIRENTSZ" for x
    proof -
      have "(i + 1) * DIRENTSZ \<le> max n (k + 1) * DIRENTSZ" using i by (intro mult_le_mono1) simp
      also have "\<dots> \<le> MAXFILE * BSIZE" by (rule mx)
      finally show ?thesis using that by simp
    qed
    have "map (content t dp) [i * DIRENTSZ..<i * DIRENTSZ + DIRENTSZ] =
        (if i = k then enc_dirent de else map (content s dp) [i * DIRENTSZ..<i * DIRENTSZ + DIRENTSZ])"
    proof (rule nth_equalityI)
      fix x assume "x < length (map (content t dp) [i * DIRENTSZ..<i * DIRENTSZ + DIRENTSZ])"
      then have x: "x < DIRENTSZ" by simp
      have "k * DIRENTSZ \<le> i * DIRENTSZ + x \<and> i * DIRENTSZ + x < k * DIRENTSZ + DIRENTSZ \<longleftrightarrow> i = k" using x by auto
      then show "map (content t dp) [i * DIRENTSZ..<i * DIRENTSZ + DIRENTSZ] ! x =
          (if i = k then enc_dirent de else map (content s dp) [i * DIRENTSZ..<i * DIRENTSZ + DIRENTSZ]) ! x"
        using t(6) ir [OF x] x by (simp add: overlay_def uo le)
    qed (simp add: le)
    then show ?thesis using dec_enc_dirent [of de] de by (simp add: dent_def)
  qed
  then show ?thesis using t(1,2,3) dt le by auto
qed

lemma dirlink_spec:
  fixes s :: "'z ist_scheme"
  assumes d: "dir_at s dp n" and nm: "\<And>k. k < n \<Longrightarrow> \<not> dmatch s dp name k" and mx: "(n + 1) * DIRENTSZ \<le> MAXFILE * BSIZE"
    and inum: "i_inum (icache s ! dp) < sb_ninodes (sb s)" and r: "jrun Map.empty (j + 7) s" and nf: "2 \<le> nfree (sb s) (blk s)"
  defines "k \<equiv> free_slot s dp n"
  shows "\<exists>t. dirlink dv dp name inum s = Ok 0 t \<and> jrun Map.empty j t \<and> dir_at t dp (max n (k + 1)) \<and>
     (\<forall>i < max n (k + 1). dent t dp i = (if i = k then new_dirent name inum else dent s dp i)) \<and>
     kept s dp {IBLOCK (i_inum (icache s ! dp)) (sb s)} t"
proof -
  have "List.find (dmatch s dp name) [0..<n] = None" using nm by (simp add: find_None_iff)
  then obtain u where u: "dirlookup dv dp name s = Ok None u" "quiet_read (j + 7) s u"
    using dirlookup_spec [OF d r, of name dv] nm by auto
  obtain x v where v: "search_each (dir_offs (n * DIRENTSZ)) (\<lambda>off.
           bnd (read_dirent dv ''dirlink read'' dp off) (\<lambda>de. ret (if de_inum de = 0 then Some off else None))) u = Ok x v"
      "quiet_read (j + 7) s v" "(case x of Some off \<Rightarrow> off | None \<Rightarrow> n * DIRENTSZ) = k * DIRENTSZ"
    using find_slot [OF d u(2), of dv] unfolding k_def by blast
  note q = quiet_readD [OF v(2)] and qu = quiet_readD [OF u(2)]
  have bv: "blk v = blk s" "jframe s v" using v(2) by (simp_all add: quiet_read_def)
  note fv = ist_frame [OF bv(2)]
  have kn: "k \<le> n" unfolding k_def by (rule free_slot_le)
  have len: "length (de_name (new_dirent name inum)) = DIRSIZ" by (simp add: new_dirent_def)
  have kx: "(k + 1) * DIRENTSZ \<le> MAXFILE * BSIZE" using kn mx by simp
  have uo: "unat (of_nat (k * DIRENTSZ) :: u32) = k * DIRENTSZ"
    using kx by (subst unat_of_nat) (simp add: take_bit_nat_eq_self)
  obtain t where t: "writei dv dp (enc_dirent (new_dirent name inum)) (of_nat (k * DIRENTSZ)) v = Ok (int DIRENTSZ) t"
      "jrun Map.empty j t" "dir_at t dp (max n (k + 1))"
      "\<forall>i < max n (k + 1). dent t dp i = (if i = k then new_dirent name inum else dent s dp i)"
      "kept v dp {IBLOCK (i_inum (icache s ! dp)) (sb s)} t"
    using dirent_write [of v dp n k "new_dirent name inum" j "of_nat (k * DIRENTSZ)" dv] d kn kx len inum nf q fv bv(1) uo
    by (auto simp del: of_nat_mult)
  have sz: "unat (i_size (icache s ! dp)) = n * DIRENTSZ" using d by (simp add: dir_at_def)
  have "dirlink dv dp name inum s = Ok 0 t"
    using u(1) v(1,3) t(1) sz qu(2) by (cases x) (simp_all add: dirlink_def ino_def slots_mult Let_def new_dirent_def del: of_nat_mult)
  moreover have "kept s dp {IBLOCK (i_inum (icache s ! dp)) (sb s)} t"
    using kept_trans [OF _ t(5)] kept_jframe [OF kept_refl bv(2,1)] d by (simp add: dir_at_def)
  ultimately show ?thesis using t by blast
qed

section \<open>Path elements\<close>

text \<open>The nonempty pieces of a path between slashes.\<close>

fun pieces :: "byte list \<Rightarrow> byte list \<Rightarrow> byte list list" where
  "pieces acc [] = (if acc = [] then [] else [acc])"
| "pieces acc (c # cs) = (if c = slash then (if acc = [] then [] else [acc]) @ pieces [] cs else pieces (acc @ [c]) cs)"

text \<open>The elements a loop over \<open>skipelem\<close> sees.\<close>

function elems :: "byte list \<Rightarrow> byte list list" where
  "elems path = (case skipelem path of None \<Rightarrow> [] | Some (name, rest) \<Rightarrow> name # elems rest)"
  by pat_completeness auto
termination by (relation "measure length") (auto simp: skipelem_shorter)

declare elems.simps [simp del]

lemma pieces_slashes: "pieces [] (dropWhile (\<lambda>c. c = slash) path) = pieces [] path"
  by (induction path) auto

lemma pieces_element:
  "acc @ takeWhile (\<lambda>c. c \<noteq> slash) path \<noteq> [] \<Longrightarrow>
   pieces acc path = (acc @ takeWhile (\<lambda>c. c \<noteq> slash) path) # pieces [] (dropWhile (\<lambda>c. c \<noteq> slash) path)"
  by (induction path arbitrary: acc) auto

lemma skipelem_pieces:
  "skipelem path = (case pieces [] path of [] \<Rightarrow> None
     | e # _ \<Rightarrow> Some (take DIRSIZ e, dropWhile (\<lambda>c. c = slash) (dropWhile (\<lambda>c. c \<noteq> slash) (dropWhile (\<lambda>c. c = slash) path))))"
  "skipelem path = Some (name, rest) \<Longrightarrow> pieces [] rest = tl (pieces [] path)"
proof -
  let ?p = "dropWhile (\<lambda>c. c = slash) path"
  have ne: "takeWhile (\<lambda>c. c \<noteq> slash) ?p \<noteq> []" if "?p \<noteq> []"
    using that hd_dropWhile [OF that] by (cases ?p) auto
  have s: "skipelem path = (if ?p = [] then None
      else Some (take DIRSIZ (takeWhile (\<lambda>c. c \<noteq> slash) ?p), dropWhile (\<lambda>c. c = slash) (dropWhile (\<lambda>c. c \<noteq> slash) ?p)))"
    by (simp add: skipelem_def Let_def)
  have pc: "pieces [] path = (if ?p = [] then []
      else takeWhile (\<lambda>c. c \<noteq> slash) ?p # pieces [] (dropWhile (\<lambda>c. c \<noteq> slash) ?p))"
    using pieces_slashes [of path] pieces_element [of "[]" ?p] ne
    by (cases "?p = []") (simp_all del: dropWhile_eq_Nil_conv takeWhile_eq_Nil_iff)
  show "skipelem path = (case pieces [] path of [] \<Rightarrow> None
     | e # _ \<Rightarrow> Some (take DIRSIZ e, dropWhile (\<lambda>c. c = slash) (dropWhile (\<lambda>c. c \<noteq> slash) ?p)))"
    unfolding s pc by simp
  show "pieces [] rest = tl (pieces [] path)" if "skipelem path = Some (name, rest)"
    using that unfolding s pc by (auto simp: pieces_slashes split: if_splits)
qed

section \<open>Properties\<close>

text \<open>
  C20: \<open>iget\<close> keeps one entry per inode: it returns the entry that is already cached,
  with one more reference and otherwise unchanged, or else takes a free entry, marked not
  yet read; afterwards no two referenced entries are the same inode. Without a free entry
  it panics.
\<close>
theorem iget_correct:
  fixes s :: "'z ist_scheme"
  assumes "held s = []" and "ic_ok (icache s)"
  shows "(iget_slot dev inum (icache s) \<noteq> None \<longrightarrow>
       (\<exists>ip t. iget dev inum s = Ok ip t \<and> ic_ok (icache t) \<and> held t = [] \<and>
          i_dev (icache t ! ip) = dev \<and> i_inum (icache t ! ip) = inum \<and> 0 < i_ref (icache t ! ip) \<and>
          (\<forall>x. x \<noteq> ip \<longrightarrow> icache t ! x = icache s ! x) \<and>
          (case cached_ino dev inum (icache s) of
             Some old \<Rightarrow> ip = old \<and> icache t ! ip = (icache s ! ip)\<lparr>i_ref := i_ref (icache s ! ip) + 1\<rparr>
           | None \<Rightarrow> i_ref (icache s ! ip) = 0 \<and> i_ref (icache t ! ip) = 1 \<and> \<not> i_valid (icache t ! ip)))) \<and>
     (cached_ino dev inum (icache s) = None \<and> (\<forall>a < length (icache s). i_ref (icache s ! a) \<noteq> 0) \<longrightarrow>
       (\<exists>t. iget dev inum s = Panic ''iget: no inodes'' t))"
proof (intro conjI impI)
  assume "iget_slot dev inum (icache s) \<noteq> None"
  then obtain ip where ip: "iget_slot dev inum (icache s) = Some ip" by auto
  note k = iget_keeps [OF assms(2) ip]
  have "case cached_ino dev inum (icache s) of
      Some old \<Rightarrow> ip = old \<and> 0 < i_ref (icache s ! ip) | None \<Rightarrow> i_ref (icache s ! ip) = 0"
  proof (cases "cached_ino dev inum (icache s)")
    case None
    then show ?thesis using ip by (auto simp: iget_slot_def find_index_Some)
  next
    case (Some old)
    then have "ip = old" "0 < i_ref (icache s ! old)"
      using ip by (simp_all add: iget_slot_def) (simp add: cached_ino_def find_index_Some)
    then show ?thesis using Some by simp
  qed
  then show "\<exists>ip t. iget dev inum s = Ok ip t \<and> ic_ok (icache t) \<and> held t = [] \<and>
          i_dev (icache t ! ip) = dev \<and> i_inum (icache t ! ip) = inum \<and> 0 < i_ref (icache t ! ip) \<and>
          (\<forall>x. x \<noteq> ip \<longrightarrow> icache t ! x = icache s ! x) \<and>
          (case cached_ino dev inum (icache s) of
             Some old \<Rightarrow> ip = old \<and> icache t ! ip = (icache s ! ip)\<lparr>i_ref := i_ref (icache s ! ip) + 1\<rparr>
           | None \<Rightarrow> i_ref (icache s ! ip) = 0 \<and> i_ref (icache t ! ip) = 1 \<and> \<not> i_valid (icache t ! ip))"
    using k ip assms(1) iget_run [OF assms(1), of dev inum]
    by (intro exI [of _ ip]) (auto simp: iget_entry_def split: option.splits)
next
  assume "cached_ino dev inum (icache s) = None \<and> (\<forall>a < length (icache s). i_ref (icache s ! a) \<noteq> 0)"
  then have "iget_slot dev inum (icache s) = None" by (auto simp: iget_slot_def find_index_None)
  then show "\<exists>t. iget dev inum s = Panic ''iget: no inodes'' t" using iget_run [OF assms(1)] by simp
qed

lemma demo_icache: "held (demo_fs ty) = []" "ic_ok (icache (demo_fs ty))" "cached_ino ROOTDEV 2 (icache (demo_fs ty)) = Some 0"
    "cached_ino ROOTDEV 3 (icache (demo_fs ty)) = None"
proof -
  show "held (demo_fs ty) = []" using binv_held demo_fs_run [of 0 ty] unfolding jrun_def by fastforce
  show "ic_ok (icache (demo_fs ty))" by (simp add: ic_ok_def) (simp add: demo_inode_def)
qed (simp_all add: cached_ino_def demo_inode_def)

theorem iget_correct_witness:
  "(\<exists>t. iget ROOTDEV 2 (demo_fs T_DIR) = Ok 0 t \<and> i_ref (icache t ! 0) = 2) \<and>
   (\<exists>t. iget ROOTDEV 3 (demo_fs T_DIR) = Panic ''iget: no inodes'' t)"
proof
  have "iget_slot ROOTDEV 2 (icache (demo_fs T_DIR)) \<noteq> None" by (simp add: iget_slot_def demo_icache del: demo_fs_fields)
  moreover have "i_ref (icache (demo_fs T_DIR) ! 0) = 1" by (simp add: demo_inode_def)
  ultimately show "\<exists>t. iget ROOTDEV 2 (demo_fs T_DIR) = Ok 0 t \<and> i_ref (icache t ! 0) = 2"
    using iget_correct [OF demo_icache(1,2) [of T_DIR], of ROOTDEV 2, THEN conjunct1] unfolding demo_icache(3) by auto
  have "\<forall>a < length (icache (demo_fs T_DIR)). i_ref (icache (demo_fs T_DIR) ! a) \<noteq> 0" by (simp add: demo_inode_def)
  then show "\<exists>t. iget ROOTDEV 3 (demo_fs T_DIR) = Panic ''iget: no inodes'' t"
    using iget_correct [OF demo_icache(1,2) [of T_DIR], of ROOTDEV 3, THEN conjunct2] unfolding demo_icache(4) by blast
qed

lemma dmatch_new:
  assumes "dent t dp k = new_dirent name inum" "inum mod 65536 \<noteq> 0"
  shows "dmatch t dp name k"
proof -
  have "0 \<notin> set (cstr DIRSIZ (of_list name))" by (auto simp: cstr_def dest: set_takeWhileD)
  moreover have "length (cstr DIRSIZ (of_list name)) \<le> DIRSIZ"
    using length_takeWhile_le [of "\<lambda>b. b \<noteq> 0" "map (of_list name) [0..<DIRSIZ]"] by (simp add: cstr_def)
  ultimately have "namecmp name (de_name (new_dirent name inum)) = 0"
    unfolding namecmp_def strncmp_zero by (simp add: new_dirent_def strncpy_pad cstr_padded)
  moreover have "de_inum (new_dirent name inum) \<noteq> 0"
    using assms(2) unfolding new_dirent_def by (simp add: word_of_nat_eq_0_iff dvd_eq_mod_eq_0)
  ultimately show ?thesis using assms(1) by (simp add: dmatch_def)
qed

text \<open>
  C19: \<open>dirlookup\<close> returns the first entry in use whose name is the one looked for,
  compared on at most \<open>DIRSIZ\<close> bytes, with its offset and a reference to its inode;
  it returns nothing exactly when there is no such entry, and changes no block.
\<close>
theorem dirlookup_correct:
  fixes s :: "'z ist_scheme"
  assumes "dir_at s dp n" and "jrun Map.empty j s" and "ic_ok (icache s)"
    and "\<forall>k<n. dmatch s dp name k \<longrightarrow> iget_slot ROOTDEV (unat (de_inum (dent s dp k))) (icache s) \<noteq> None"
  shows "((\<forall>k<n. \<not> dmatch s dp name k) \<longrightarrow> (\<exists>t. dirlookup dv dp name s = Ok None t \<and> blk t = blk s \<and> icache t = icache s)) \<and>
     (\<forall>k<n. dmatch s dp name k \<and> (\<forall>i<k. \<not> dmatch s dp name i) \<longrightarrow>
       (\<exists>ip t. dirlookup dv dp name s = Ok (Some (ip, k * DIRENTSZ)) t \<and> blk t = blk s \<and> ic_ok (icache t) \<and>
          i_inum (icache t ! ip) = unat (de_inum (dent s dp k)) \<and> 0 < i_ref (icache t ! ip)))"
proof (intro conjI allI impI)
  have slot: "\<And>k. k < n \<Longrightarrow> dmatch s dp name k \<Longrightarrow> iget_slot ROOTDEV (unat (de_inum (dent s dp k))) (icache s) \<noteq> None"
    using assms(4) by blast
  note L = dirlookup_spec [where dv = dv and name = name, OF assms(1,2) slot, simplified]
  show "\<exists>t. dirlookup dv dp name s = Ok None t \<and> blk t = blk s \<and> icache t = icache s" if "\<forall>k<n. \<not> dmatch s dp name k"
  proof -
    have "List.find (dmatch s dp name) [0..<n] = None" using that by (simp add: find_None_iff)
    then show ?thesis using L quiet_readD(2) by (fastforce simp: quiet_read_def)
  qed
  fix k assume k: "k < n" "dmatch s dp name k \<and> (\<forall>i<k. \<not> dmatch s dp name i)"
  then have "List.find (dmatch s dp name) [0..<n] = Some k" by (auto simp: find_Some_iff intro!: exI [of _ k])
  then obtain ip t where t: "dirlookup dv dp name s = Ok (Some (ip, k * DIRENTSZ)) t"
      "got j s (unat (de_inum (dent s dp k))) ip t" using L by auto
  then obtain u where u: "iget_slot ROOTDEV (unat (de_inum (dent s dp k))) (icache s) = Some ip" "blk u = blk s"
      "t = u\<lparr>icache := (icache s)[ip := iget_entry ROOTDEV (unat (de_inum (dent s dp k))) (icache s ! ip)]\<rparr>"
    by (auto simp: got_def quiet_read_def)
  have "blk t = blk s" using u(2,3) by simp
  then show "\<exists>ip t. dirlookup dv dp name s = Ok (Some (ip, k * DIRENTSZ)) t \<and> blk t = blk s \<and> ic_ok (icache t) \<and>
          i_inum (icache t ! ip) = unat (de_inum (dent s dp k)) \<and> 0 < i_ref (icache t ! ip)"
    using t(1) u(3) iget_keeps [OF assms(3) u(1)] by auto
qed

text \<open>An empty directory, and one to which an entry for itself was added.\<close>

lemma demo_dir: "dir_at (demo_fs T_DIR) 0 0"
  using demo_file [of T_DIR] by (simp add: dir_at_def fblocks_def) (simp add: demo_inode_def)

theorem dirlookup_correct_witness:
  "\<exists>t. dirlookup no_dev 0 [46] (demo_fs T_DIR) = Ok None t \<and> blk t = fs_disk"
  using dirlookup_correct [OF demo_dir demo_fs_run [of 2] demo_icache(2), of "[46]" no_dev] by auto

lemma kept_cached:
  assumes "kept s dp X t" "cached_ino dev inum (icache s) = Some ip"
  shows "cached_ino dev inum (icache t) = Some ip"
proof -
  note k = keptD [OF assms(1)]
  have "meta (icache t ! x) = meta (icache s ! x)" for x
    by (cases "x = dp") (use k(4) in simp, subst k(3), simp)
  then have "i_ref (icache t ! x) = i_ref (icache s ! x) \<and> i_dev (icache t ! x) = i_dev (icache s ! x) \<and>
      i_inum (icache t ! x) = i_inum (icache s ! x)" for x
    using metaD by blast
  then show ?thesis using assms(2) k(7) by (simp add: cached_ino_def find_index_Some)
qed

lemma free_slot_free: "free_slot s dp n < n \<Longrightarrow> de_inum (dent s dp (free_slot s dp n)) = 0"
  using find_upt_Some(2) by (fastforce simp: free_slot_def split: option.splits)

text \<open>
  C18: A name that \<open>dirlink\<close> added is found: linking a name that is not in the directory
  succeeds, uses the first free entry or extends the directory by one, changes no other
  entry, and \<open>dirlookup\<close> of the name then returns the inode that was linked.
\<close>
theorem dirlink_lookup:
  fixes s :: "'z ist_scheme"
  assumes "dir_at s dp n" and "\<forall>k<n. \<not> dmatch s dp name k" and "(n + 1) * DIRENTSZ \<le> MAXFILE * BSIZE"
    and "i_inum (icache s ! dp) < sb_ninodes (sb s)" and "jrun Map.empty (j + 7) s" and "2 \<le> nfree (sb s) (blk s)"
    and "0 < inum" "inum < 65536" and "ic_ok (icache s)" and "cached_ino ROOTDEV inum (icache s) = Some ip"
  shows "\<exists>t u k. dirlink dv dp name inum s = Ok 0 t \<and> k \<le> n \<and> dir_at t dp (max n (k + 1)) \<and>
     (k < n \<longrightarrow> de_inum (dent s dp k) = 0) \<and>
     (\<forall>i<n. i \<noteq> k \<longrightarrow> dent t dp i = dent s dp i) \<and> dirlookup dv dp name t = Ok (Some (ip, k * DIRENTSZ)) u"
proof -
  let ?k = "free_slot s dp n"
  obtain t where t: "dirlink dv dp name inum s = Ok 0 t" "jrun Map.empty j t" "dir_at t dp (max n (?k + 1))"
      "\<forall>i < max n (?k + 1). dent t dp i = (if i = ?k then new_dirent name inum else dent s dp i)"
      "kept s dp {IBLOCK (i_inum (icache s ! dp)) (sb s)} t"
    using dirlink_spec [OF assms(1) _ assms(3-6), of name dv inum] assms(2) by blast
  have iu: "unat (of_nat inum :: u16) = inum" using assms(8) by (simp add: unat_of_nat take_bit_nat_eq_self)
  have kd: "dent t dp ?k = new_dirent name inum" "de_inum (new_dirent name inum) = of_nat inum"
    using t(4) by (simp_all add: new_dirent_def)
  have mk: "dmatch t dp name ?k" using dmatch_new [OF kd(1)] assms(7,8) by simp
  have mo: "\<not> dmatch t dp name i" if "i < max n (?k + 1)" "i \<noteq> ?k" for i
  proof -
    have "i < n" using that free_slot_le [of s dp n] by (auto simp: less_max_iff_disj)
    then show ?thesis using that t(4) assms(2) by (simp add: dmatch_def)
  qed
  have fk: "List.find (dmatch t dp name) [0..<max n (?k + 1)] = Some ?k"
    using mk mo by (auto simp: find_Some_iff intro!: exI [of _ ?k])
  have c: "cached_ino ROOTDEV inum (icache t) = Some ip"
    using assms(10) kept_cached [OF t(5)] by simp
  then have sl: "iget_slot ROOTDEV (unat (de_inum (dent t dp ?k))) (icache t) = Some ip"
    using kd iu by (simp add: iget_slot_def)
  have "\<exists>x u. dirlookup dv dp name t = Ok (Some x) u \<and> snd x = ?k * DIRENTSZ \<and>
      got j t (unat (de_inum (dent t dp ?k))) (fst x) u"
  proof -
    have "iget_slot ROOTDEV (unat (de_inum (dent t dp i))) (icache t) \<noteq> None"
      if "i < max n (?k + 1)" "dmatch t dp name i" for i using mo [OF that(1)] that(2) sl by (cases "i = ?k") auto
    from dirlookup_spec [where dv = dv and name = name, OF t(3,2) this] show ?thesis unfolding fk by simp
  qed
  then obtain u where "dirlookup dv dp name t = Ok (Some (ip, ?k * DIRENTSZ)) u"
    using sl by (auto simp: got_def)
  then show ?thesis using t free_slot_le [of s dp n] free_slot_free [of s dp n] by (intro exI [of _ t] exI [of _ u] exI [of _ ?k]) auto
qed

theorem dirlink_lookup_witness:
  "\<exists>t u. dirlink no_dev 0 [46] 2 (demo_fs T_DIR) = Ok 0 t \<and> dirlookup no_dev 0 [46] t = Ok (Some (0, 0)) u"
  using dirlink_lookup [OF demo_dir _ _ _ demo_fs_run [of "2 + 7"], of "[46]" 2 0 no_dev] demo_icache demo_nfree
  by (fastforce simp: demo_inode_def demo_sb_def)

text \<open>
  C21: A path is split at its slashes: the elements that repeated calls of \<open>skipelem\<close>
  return are the nonempty pieces of the path, each cut to \<open>DIRSIZ\<close> bytes, in order,
  whatever the number of slashes before, between and after them.
\<close>
theorem skipelem_splits: "elems path = map (take DIRSIZ) (pieces [] path)"
proof (induction path rule: elems.induct)
  case (1 path)
  show ?case
  proof (cases "pieces [] path")
    case Nil
    then show ?thesis by (subst elems.simps) (simp add: skipelem_pieces(1))
  next
    case (Cons e es)
    then obtain rest where r: "skipelem path = Some (take DIRSIZ e, rest)" by (simp add: skipelem_pieces(1))
    show ?thesis
      using 1 [OF r refl] skipelem_pieces(2) [OF r] Cons by (subst elems.simps) (simp add: r)
  qed
qed

end
