(* ===== verification/Kalloc.thy ===== *)
theory Kalloc
  imports FsDir
begin

text \<open>
  \<open>kalloc.c\<close>: the physical page allocator, on a byte memory indexed by physical
  addresses. A kernel pointer is a 32-bit virtual address at or above \<open>KERNBASE\<close>; the
  free list is threaded through the free pages themselves, as in the code. The linker
  symbols \<open>end\<close> and \<open>data\<close> are fields of the state that no operation changes.
\<close>

section \<open>Address arithmetic\<close>

text \<open>\<open>memlayout.h\<close> and the paging constants of \<open>mmu.h\<close>.\<close>

abbreviation (input) EXTMEM :: u32 where "EXTMEM \<equiv> 0x100000"
abbreviation (input) PHYSTOP :: u32 where "PHYSTOP \<equiv> 0xE000000"
abbreviation (input) DEVSPACE :: u32 where "DEVSPACE \<equiv> 0xFE000000"
abbreviation (input) KERNBASE :: u32 where "KERNBASE \<equiv> 0x80000000"
abbreviation (input) KERNLINK :: u32 where "KERNLINK \<equiv> 0x80100000"
abbreviation (input) PGSIZE :: nat where "PGSIZE \<equiv> 4096"

definition V2P :: "u32 \<Rightarrow> u32" where "V2P a = a - KERNBASE"

definition P2V :: "u32 \<Rightarrow> u32" where "P2V a = a + KERNBASE"

definition PGROUNDUP :: "u32 \<Rightarrow> u32" where "PGROUNDUP sz = (sz + 0xFFF) AND NOT 0xFFF"

definition PGROUNDDOWN :: "u32 \<Rightarrow> u32" where "PGROUNDDOWN a = a AND NOT 0xFFF"

lemma V2P_P2V [simp]: "V2P (P2V a) = a" "P2V (V2P a) = a"
  by (simp_all add: V2P_def P2V_def)

section \<open>Memory\<close>

definition mread :: "nat \<Rightarrow> nat \<Rightarrow> memory \<Rightarrow> byte list" where
  "mread a n mem = map mem [a..<a + n]"

definition mwrite :: "nat \<Rightarrow> byte list \<Rightarrow> memory \<Rightarrow> memory" where
  "mwrite a bs mem = (\<lambda>x. if a \<le> x \<and> x < a + length bs then bs ! (x - a) else mem x)"

definition load32 :: "nat \<Rightarrow> memory \<Rightarrow> u32" where
  "load32 a mem = u32_of_bytes (mread a 4 mem)"

definition store32 :: "nat \<Rightarrow> u32 \<Rightarrow> memory \<Rightarrow> memory" where
  "store32 a w mem = mwrite a (bytes_of_u32 w) mem"

record mst = ist +
  pmem :: memory
  use_lock :: bool
  freelist :: u32
  kend :: u32
  kdata :: u32

text \<open>The physical address behind a kernel pointer, and access through one.\<close>

definition kaddr :: "u32 \<Rightarrow> nat" where
  "kaddr v = unat (V2P v)"

definition kload :: "u32 \<Rightarrow> ('z mst_scheme, u32) kop" where
  "kload v = getf (\<lambda>s. load32 (kaddr v) (pmem s))"

definition kstore :: "u32 \<Rightarrow> u32 \<Rightarrow> ('z mst_scheme, unit) kop" where
  "kstore v w = upd (\<lambda>s. s\<lparr>pmem := store32 (kaddr v) w (pmem s)\<rparr>)"

definition kmemset :: "u32 \<Rightarrow> u32 \<Rightarrow> nat \<Rightarrow> ('z mst_scheme, unit) kop" where
  "kmemset v c n = upd (\<lambda>s. s\<lparr>pmem := memset (kaddr v) c n (pmem s)\<rparr>)"

definition kmemmove :: "u32 \<Rightarrow> u32 \<Rightarrow> nat \<Rightarrow> ('z mst_scheme, unit) kop" where
  "kmemmove dst src n = upd (\<lambda>s. s\<lparr>pmem := memmove (kaddr dst) (kaddr src) n (pmem s)\<rparr>)"

text \<open>A copy whose source is a byte list of the model, not memory.\<close>

definition kput :: "u32 \<Rightarrow> byte list \<Rightarrow> ('z mst_scheme, unit) kop" where
  "kput v bs = upd (\<lambda>s. s\<lparr>pmem := mwrite (kaddr v) bs (pmem s)\<rparr>)"

section \<open>The allocator\<close>

definition kmem_lock :: "('z mst_scheme, unit) kop" where
  "kmem_lock = bnd (getf use_lock) (\<lambda>u. whenc u (lock LKmem))"

definition kmem_unlock :: "('z mst_scheme, unit) kop" where
  "kmem_unlock = bnd (getf use_lock) (\<lambda>u. whenc u (unlock LKmem))"

definition kfree :: "u32 \<Rightarrow> ('z mst_scheme, unit) kop" where
  "kfree v =
     bnd (getf kend) (\<lambda>e.
     seq (panic_if (unat v mod PGSIZE \<noteq> 0 \<or> v < e \<or> V2P v \<ge> PHYSTOP) ''kfree'')
    (seq (kmemset v 1 PGSIZE)
    (seq kmem_lock
    (bnd (getf freelist) (\<lambda>next.
     seq (kstore v next)
    (seq (upd (\<lambda>s. s\<lparr>freelist := v\<rparr>))
         kmem_unlock))))))"

definition kalloc :: "('z mst_scheme, u32) kop" where
  "kalloc =
     seq kmem_lock
    (bnd (getf freelist) (\<lambda>r.
     seq (whenc (r \<noteq> 0) (bnd (kload r) (\<lambda>next. upd (\<lambda>s. s\<lparr>freelist := next\<rparr>))))
    (seq kmem_unlock
         (ret r))))"

text \<open>
  The pages \<open>p, p + PGSIZE, ...\<close> that end at or before \<open>vend\<close>; pointer arithmetic in the
  kernel range does not wrap.
\<close>

definition range_pages :: "u32 \<Rightarrow> u32 \<Rightarrow> u32 list" where
  "range_pages vstart vend =
     (let p = PGROUNDUP vstart in
      map (\<lambda>k. p + of_nat (k * PGSIZE)) [0..<(unat vend - unat p) div PGSIZE])"

definition freerange :: "u32 \<Rightarrow> u32 \<Rightarrow> ('z mst_scheme, unit) kop" where
  "freerange vstart vend = for_each (range_pages vstart vend) kfree"

definition kinit1 :: "u32 \<Rightarrow> u32 \<Rightarrow> ('z mst_scheme, unit) kop" where
  "kinit1 vstart vend = seq (upd (\<lambda>s. s\<lparr>use_lock := False\<rparr>)) (freerange vstart vend)"

definition kinit2 :: "u32 \<Rightarrow> u32 \<Rightarrow> ('z mst_scheme, unit) kop" where
  "kinit2 vstart vend = seq (freerange vstart vend) (upd (\<lambda>s. s\<lparr>use_lock := True\<rparr>))"

section \<open>Facts about memory\<close>

lemma length_mread [simp]: "length (mread a n mem) = n"
  by (simp add: mread_def)

lemma mread_nth [simp]: "i < n \<Longrightarrow> mread a n mem ! i = mem (a + i)"
  by (simp add: mread_def)

lemma mread_mwrite [simp]: "length bs = n \<Longrightarrow> mread a n (mwrite a bs mem) = bs"
  by (rule nth_equalityI) (auto simp: mwrite_def)

lemma mread_cong: "(\<And>x. a \<le> x \<Longrightarrow> x < a + n \<Longrightarrow> mem x = mem' x) \<Longrightarrow> mread a n mem = mread a n mem'"
  by (simp add: mread_def)

lemma load_store [simp]: "load32 a (store32 a w mem) = w"
  by (simp add: load32_def store32_def cu32.enc_length cu32.dec_enc)

lemma load32_cong: "(\<And>x. a \<le> x \<Longrightarrow> x < a + 4 \<Longrightarrow> mem x = mem' x) \<Longrightarrow> load32 a mem = load32 a mem'"
  unfolding load32_def by (rule arg_cong [of _ _ u32_of_bytes], rule mread_cong) simp

lemma store32_outside: "x < a \<or> a + 4 \<le> x \<Longrightarrow> store32 a w mem x = mem x"
  by (auto simp: store32_def mwrite_def cu32.enc_length)

lemma load_store_other: "b + 4 \<le> a \<or> a + 4 \<le> b \<Longrightarrow> load32 b (store32 a w mem) = load32 b mem"
  by (rule load32_cong) (auto intro!: store32_outside)

lemma V2P_inject: "V2P a = V2P b \<longleftrightarrow> a = b"
  by (simp add: V2P_def)

lemma kaddr_inject: "kaddr a = kaddr b \<longleftrightarrow> a = b"
  by (simp add: kaddr_def V2P_inject flip: word_unat_eq_iff)

section \<open>The free list\<close>

definition page_ok :: "u32 \<Rightarrow> u32 \<Rightarrow> bool" where
  "page_ok e v \<longleftrightarrow> unat v mod PGSIZE = 0 \<and> e \<le> v \<and> V2P v < PHYSTOP"

primrec flist :: "memory \<Rightarrow> u32 \<Rightarrow> u32 list \<Rightarrow> bool" where
  "flist mem p [] \<longleftrightarrow> p = 0"
| "flist mem p (x # xs) \<longleftrightarrow> p = x \<and> x \<noteq> 0 \<and> flist mem (load32 (kaddr x) mem) xs"

text \<open>The allocator holds exactly the pages \<open>xs\<close>, each once.\<close>

definition kmem_ok :: "'z mst_scheme \<Rightarrow> u32 list \<Rightarrow> bool" where
  "kmem_ok s xs \<longleftrightarrow> flist (pmem s) (freelist s) xs \<and> distinct xs \<and> (\<forall>x\<in>set xs. page_ok (kend s) x) \<and>
     KERNBASE < kend s"

lemma take_bit_num_1 [simp]: "take_bit_num 1 num.One = Some num.One" "take_bit_num 1 (num.Bit0 m) = None"
    "take_bit_num 1 (num.Bit1 m) = Some num.One"
  by (simp_all add: One_nat_def)

lemma unat_KERNBASE: "unat KERNBASE = 2147483648"
  by simp

lemma page_aligned:
  assumes "page_ok e v" "KERNBASE < e"
  shows "kaddr v mod PGSIZE = 0" "v \<noteq> 0" "kaddr v = unat v - 2147483648" "KERNBASE \<le> v"
proof -
  show k: "KERNBASE \<le> v" using assms by (meson page_ok_def less_imp_le order_trans)
  have v: "unat v mod PGSIZE = 0" using assms by (simp add: page_ok_def)
  show e: "kaddr v = unat v - 2147483648" using unat_sub [OF k] by (simp add: kaddr_def V2P_def)
  have "kaddr v = unat v - 524288 * PGSIZE" using e by simp
  then show "kaddr v mod PGSIZE = 0" using v by (metis mod_eq_0_iff_dvd dvd_diff_nat dvd_triv_right)
  show "v \<noteq> 0" using k unat_KERNBASE by (auto simp: word_le_nat_alt)
qed

lemma aligned_apart:
  assumes "(a :: nat) mod PGSIZE = 0" "b mod PGSIZE = 0" "a \<noteq> b"
  shows "a + PGSIZE \<le> b \<or> b + PGSIZE \<le> a"
proof -
  obtain x y where "a = PGSIZE * x" "b = PGSIZE * y" using assms(1,2) by (auto simp: mod_eq_0_iff_dvd elim!: dvdE)
  then show ?thesis using assms(3) by auto
qed

lemma pages_apart:
  assumes "page_ok e v" "page_ok e w" "KERNBASE < e" "v \<noteq> w"
  shows "kaddr v + PGSIZE \<le> kaddr w \<or> kaddr w + PGSIZE \<le> kaddr v"
  using aligned_apart [OF page_aligned(1) [OF assms(1,3)] page_aligned(1) [OF assms(2,3)]] assms(4)
  by (simp add: kaddr_inject)

lemma flist_cong: "(\<And>x. x \<in> set xs \<Longrightarrow> load32 (kaddr x) mem = load32 (kaddr x) mem') \<Longrightarrow> flist mem p xs = flist mem' p xs"
  by (induction xs arbitrary: p) simp_all

text \<open>Changing memory outside the pages of the list keeps the list.\<close>

lemma flist_frame:
  assumes "flist mem p xs" "\<forall>x\<in>set xs. \<forall>a. kaddr x \<le> a \<and> a < kaddr x + PGSIZE \<longrightarrow> mem' a = mem a"
  shows "flist mem' p xs"
proof -
  have "load32 (kaddr x) mem' = load32 (kaddr x) mem" if "x \<in> set xs" for x
    by (rule load32_cong) (use assms(2) that in auto)
  then show ?thesis using assms(1) flist_cong [of xs mem' mem p] by simp
qed

definition junk :: "u32 \<Rightarrow> u32 \<Rightarrow> memory \<Rightarrow> memory" where
  "junk v next mem = store32 (kaddr v) next (memset (kaddr v) 1 PGSIZE mem)"

lemma junk_outside: "a < kaddr v \<or> kaddr v + PGSIZE \<le> a \<Longrightarrow> junk v next mem a = mem a"
  unfolding junk_def by (subst store32_outside) (auto simp: memset_fills)

lemma kalloc_run:
  assumes "LKmem \<notin> set (held s)"
  shows "kalloc s = Ok (freelist s) (if freelist s = 0 then s else s\<lparr>freelist := load32 (kaddr (freelist s)) (pmem s)\<rparr>)"
  using assms by (simp add: kalloc_def kmem_lock_def kmem_unlock_def kload_def)

lemma kfree_run:
  assumes "LKmem \<notin> set (held s)"
  shows "kfree v s = (if page_ok (kend s) v then Ok () (s\<lparr>pmem := junk v (freelist s) (pmem s), freelist := v\<rparr>)
     else Panic ''kfree'' s)"
  using assms by (auto simp: kfree_def kmem_lock_def kmem_unlock_def kstore_def kmemset_def junk_def page_ok_def not_less not_le)

lemma kalloc_ok:
  assumes "kmem_ok s (x # xs)" "LKmem \<notin> set (held s)"
  shows "\<exists>t. kalloc s = Ok x t \<and> kmem_ok t xs \<and> t = s\<lparr>freelist := freelist t\<rparr>"
  using assms kalloc_run [OF assms(2)] by (auto simp: kmem_ok_def)

lemma kalloc_empty:
  assumes "kmem_ok s []" "LKmem \<notin> set (held s)"
  shows "kalloc s = Ok 0 s"
  using assms kalloc_run [OF assms(2)] by (simp add: kmem_ok_def)

lemma kfree_ok:
  assumes "kmem_ok s xs" "LKmem \<notin> set (held s)" "page_ok (kend s) v" "v \<notin> set xs"
  shows "\<exists>t. kfree v s = Ok () t \<and> kmem_ok t (v # xs) \<and> t = s\<lparr>pmem := junk v (freelist s) (pmem s), freelist := v\<rparr>"
proof -
  let ?m = "junk v (freelist s) (pmem s)"
  have k: "flist (pmem s) (freelist s) xs" "\<forall>x\<in>set xs. page_ok (kend s) x" "KERNBASE < kend s" "distinct xs"
    using assms(1) by (simp_all add: kmem_ok_def)
  have "flist ?m (freelist s) xs"
  proof (rule flist_frame [OF k(1)], intro ballI allI impI)
    fix x a assume "x \<in> set xs" "kaddr x \<le> a \<and> a < kaddr x + PGSIZE"
    then show "?m a = pmem s a"
      using pages_apart [OF assms(3) _ k(3), of x] k(2) assms(4) by (intro junk_outside) force
  qed
  moreover have "load32 (kaddr v) ?m = freelist s" by (simp add: junk_def)
  ultimately show ?thesis
    using kfree_run [OF assms(2)] assms(3,4) k page_aligned(2) [OF assms(3) k(3)] by (simp add: kmem_ok_def)
qed

section \<open>Properties\<close>

text \<open>
  C22: The allocator is a stack of free pages. \<open>kalloc\<close> returns the page freed last and
  leaves memory alone, or a null pointer when no page is free; \<open>kfree\<close> of a page that is
  not free adds it, filled with junk, and writes to no other page; the pages of the list
  stay distinct, so no page is handed out twice. A pointer that is not a page of the
  managed range makes \<open>kfree\<close> panic.
\<close>
theorem kalloc_kfree_correct:
  fixes s :: "'z mst_scheme"
  assumes "kmem_ok s xs" and "LKmem \<notin> set (held s)"
  shows "(case xs of
       [] \<Rightarrow> kalloc s = Ok 0 s
     | x # ys \<Rightarrow> \<exists>t. kalloc s = Ok x t \<and> kmem_ok t ys \<and> x \<notin> set ys \<and> x \<noteq> 0 \<and> pmem t = pmem s) \<and>
   (page_ok (kend s) v \<and> v \<notin> set xs \<longrightarrow>
     (\<exists>t. kfree v s = Ok () t \<and> kmem_ok t (v # xs) \<and>
       (\<forall>a. a < kaddr v \<or> kaddr v + PGSIZE \<le> a \<longrightarrow> pmem t a = pmem s a) \<and>
       (\<forall>a. kaddr v + 4 \<le> a \<and> a < kaddr v + PGSIZE \<longrightarrow> pmem t a = 1) \<and>
       (\<exists>u. kalloc t = Ok v u \<and> kmem_ok u xs))) \<and>
   (\<not> page_ok (kend s) v \<longrightarrow> kfree v s = Panic ''kfree'' s)"
proof (intro conjI impI)
  show "case xs of [] \<Rightarrow> kalloc s = Ok 0 s
     | x # ys \<Rightarrow> \<exists>t. kalloc s = Ok x t \<and> kmem_ok t ys \<and> x \<notin> set ys \<and> x \<noteq> 0 \<and> pmem t = pmem s"
  proof (cases xs)
    case (Cons x ys)
    then show ?thesis using kalloc_run [OF assms(2)] assms(1) by (auto simp: kmem_ok_def)
  qed (use assms kalloc_empty in simp)
  show "kfree v s = Panic ''kfree'' s" if "\<not> page_ok (kend s) v" using kfree_run [OF assms(2)] that by simp
  assume v: "page_ok (kend s) v \<and> v \<notin> set xs"
  let ?t = "s\<lparr>pmem := junk v (freelist s) (pmem s), freelist := v\<rparr>"
  have t: "kfree v s = Ok () ?t" "kmem_ok ?t (v # xs)" using kfree_ok [OF assms] v by auto
  have in1: "pmem ?t a = 1" if "kaddr v + 4 \<le> a \<and> a < kaddr v + PGSIZE" for a
    using that by (simp add: junk_def store32_outside memset_fills)
  have "LKmem \<notin> set (held ?t)" using assms(2) by simp
  then obtain u where "kalloc ?t = Ok v u" "kmem_ok u xs" using kalloc_ok [OF t(2)] by blast
  then show "\<exists>t. kfree v s = Ok () t \<and> kmem_ok t (v # xs) \<and>
       (\<forall>a. a < kaddr v \<or> kaddr v + PGSIZE \<le> a \<longrightarrow> pmem t a = pmem s a) \<and>
       (\<forall>a. kaddr v + 4 \<le> a \<and> a < kaddr v + PGSIZE \<longrightarrow> pmem t a = 1) \<and>
       (\<exists>u. kalloc t = Ok v u \<and> kmem_ok u xs)"
    using t in1 junk_outside by (intro exI [of _ ?t]) auto
qed

text \<open>Memory with no free page, under the file system of \<open>FsSpec\<close>.\<close>

definition demo_mst :: mst where
  "demo_mst = ist.extend (demo_fs T_FILE) (mst.fields (\<lambda>_. 0) True 0 0x80120000 0x80108000)"

lemma demo_mst_fields [simp]: "pmem demo_mst = (\<lambda>_. 0)" "use_lock demo_mst" "freelist demo_mst = 0" "kend demo_mst = 0x80120000"
    "kdata demo_mst = 0x80108000" "held demo_mst = []"
  using demo_icache(1) [of T_FILE] by (simp_all add: demo_mst_def ist.extend_def mst.fields_def)

lemma demo_mst_ok: "kmem_ok demo_mst []"
  by (simp add: kmem_ok_def)

theorem kalloc_kfree_correct_witness:
  "kalloc demo_mst = Ok 0 demo_mst \<and> (\<exists>t u. kfree 0x80200000 demo_mst = Ok () t \<and> kalloc t = Ok 0x80200000 u) \<and>
   kfree 5 demo_mst = Panic ''kfree'' demo_mst"
proof -
  have p: "page_ok (kend demo_mst) 0x80200000" "\<not> page_ok (kend demo_mst) 5" by (simp_all add: page_ok_def V2P_def)
  have l: "LKmem \<notin> set (held demo_mst)" by simp
  show ?thesis
    using kalloc_kfree_correct [where v = "0x80200000", OF demo_mst_ok l] kalloc_kfree_correct [where v = 5, OF demo_mst_ok l] p by auto
qed

end
