(* ===== verification/Vm.thy ===== *)
theory Vm
  imports Kalloc
begin

text \<open>
  \<open>vm.c\<close>: page tables in the byte memory of \<open>Kalloc\<close>, walked and built word by word as
  the code does. Addresses that the loops step through are multiples of the page size
  below \<open>KERNBASE\<close>, so stepping does not wrap. Messages printed on the console are left
  out.
\<close>

section \<open>Page table entries\<close>

abbreviation (input) PTE_P :: u32 where "PTE_P \<equiv> 1"
abbreviation (input) PTE_W :: u32 where "PTE_W \<equiv> 2"
abbreviation (input) PTE_U :: u32 where "PTE_U \<equiv> 4"
abbreviation (input) NPDENTRIES :: nat where "NPDENTRIES \<equiv> 1024"

definition PDX :: "u32 \<Rightarrow> u32" where "PDX va = drop_bit 22 va AND 0x3FF"

definition PTX :: "u32 \<Rightarrow> u32" where "PTX va = drop_bit 12 va AND 0x3FF"

definition PGADDR :: "u32 \<Rightarrow> u32 \<Rightarrow> u32 \<Rightarrow> u32" where
  "PGADDR d t o' = push_bit 22 d OR push_bit 12 t OR o'"

definition PTE_ADDR :: "u32 \<Rightarrow> u32" where "PTE_ADDR pte = pte AND NOT 0xFFF"

definition PTE_FLAGS :: "u32 \<Rightarrow> u32" where "PTE_FLAGS pte = pte AND 0xFFF"

section \<open>Segments\<close>

record segdesc =
  sg_lim :: "20 word"
  sg_base :: u32
  sg_type :: nat
  sg_s :: bool
  sg_dpl :: nat
  sg_p :: bool
  sg_db :: bool
  sg_g :: bool

text \<open>The macros \<open>SEG\<close> and \<open>SEG16\<close>; the limit and the base stand for their split fields.\<close>

definition SEG :: "nat \<Rightarrow> u32 \<Rightarrow> u32 \<Rightarrow> nat \<Rightarrow> segdesc" where
  "SEG ty base lim dpl = \<lparr>sg_lim = ucast (drop_bit 12 lim), sg_base = base, sg_type = ty, sg_s = True,
     sg_dpl = dpl, sg_p = True, sg_db = True, sg_g = True\<rparr>"

definition SEG16 :: "nat \<Rightarrow> u32 \<Rightarrow> u32 \<Rightarrow> nat \<Rightarrow> segdesc" where
  "SEG16 ty base lim dpl = \<lparr>sg_lim = ucast lim, sg_base = base, sg_type = ty, sg_s = True,
     sg_dpl = dpl, sg_p = True, sg_db = True, sg_g = False\<rparr>"

abbreviation (input) SEG_KCODE :: nat where "SEG_KCODE \<equiv> 1"
abbreviation (input) SEG_KDATA :: nat where "SEG_KDATA \<equiv> 2"
abbreviation (input) SEG_UCODE :: nat where "SEG_UCODE \<equiv> 3"
abbreviation (input) SEG_UDATA :: nat where "SEG_UDATA \<equiv> 4"
abbreviation (input) SEG_TSS :: nat where "SEG_TSS \<equiv> 5"
abbreviation (input) DPL_USER :: nat where "DPL_USER \<equiv> 3"
abbreviation (input) STA_X :: nat where "STA_X \<equiv> 8"
abbreviation (input) STA_W :: nat where "STA_W \<equiv> 2"
abbreviation (input) STA_R :: nat where "STA_R \<equiv> 2"
abbreviation (input) STS_T32A :: nat where "STS_T32A \<equiv> 9"
abbreviation (input) FL_IF :: u32 where "FL_IF \<equiv> 0x200"

text \<open>The fields of \<open>struct taskstate\<close> that the kernel sets.\<close>

record taskstate =
  ts_esp0 :: u32
  ts_ss0 :: u16
  ts_iomb :: u16

text \<open>The state of paging and segmentation; \<open>ts_at\<close> is the address of \<open>mycpu()->ts\<close>, \<open>tr\<close> the task register.\<close>

record vst = mst +
  kpgdir :: u32
  cr3 :: u32
  gdt :: "segdesc option list"
  ts :: taskstate
  ts_at :: u32
  tr :: u16

definition seginit :: "('z vst_scheme, unit) kop" where
  "seginit = upd (\<lambda>s. s\<lparr>gdt := (gdt s)
     [SEG_KCODE := Some (SEG (STA_X + STA_R) 0 0xFFFFFFFF 0),
      SEG_KDATA := Some (SEG STA_W 0 0xFFFFFFFF 0),
      SEG_UCODE := Some (SEG (STA_X + STA_R) 0 0xFFFFFFFF DPL_USER),
      SEG_UDATA := Some (SEG STA_W 0 0xFFFFFFFF DPL_USER)]\<rparr>)"

section \<open>Page tables\<close>

definition walkpgdir :: "u32 \<Rightarrow> u32 \<Rightarrow> bool \<Rightarrow> ('z mst_scheme, u32 option) kop" where
  "walkpgdir pgdir va alloc =
     (let pde = pgdir + 4 * PDX va in
      bnd (kload pde) (\<lambda>e.
      if e AND PTE_P \<noteq> 0 then ret (Some (P2V (PTE_ADDR e) + 4 * PTX va))
      else if \<not> alloc then ret None
      else
        bnd kalloc (\<lambda>pgtab.
        if pgtab = 0 then ret None
        else
          seq (kmemset pgtab 0 PGSIZE)
         (seq (kstore pde (V2P pgtab OR PTE_P OR PTE_W OR PTE_U))
              (ret (Some (pgtab + 4 * PTX va)))))))"

text \<open>
  The loop of \<open>mappages\<close> when \<open>k\<close> pages are left after this one: \<open>a\<close> and \<open>last\<close> are
  page-aligned, so the test \<open>a == last\<close> holds exactly when \<open>k\<close> is zero.
\<close>

fun mappages_loop :: "u32 \<Rightarrow> u32 \<Rightarrow> nat \<Rightarrow> u32 \<Rightarrow> u32 \<Rightarrow> ('z mst_scheme, int) kop" where
  "mappages_loop pgdir perm k a pa =
     bnd (walkpgdir pgdir a True) (\<lambda>r.
     case r of
       None \<Rightarrow> ret (-1)
     | Some pte \<Rightarrow>
         bnd (kload pte) (\<lambda>e.
         seq (panic_if (e AND PTE_P \<noteq> 0) ''remap'')
        (seq (kstore pte (pa OR perm OR PTE_P))
             (case k of 0 \<Rightarrow> ret 0 | Suc k \<Rightarrow> mappages_loop pgdir perm k (a + 0x1000) (pa + 0x1000)))))"

declare mappages_loop.simps [simp del]

definition mappages :: "u32 \<Rightarrow> u32 \<Rightarrow> u32 \<Rightarrow> u32 \<Rightarrow> u32 \<Rightarrow> ('z mst_scheme, int) kop" where
  "mappages pgdir va sz pa perm =
     (let a = PGROUNDDOWN va; last = PGROUNDDOWN (va + sz - 1) in
      mappages_loop pgdir perm (unat (last - a) div PGSIZE) a pa)"

text \<open>The table \<open>kmap\<close>: virtual start, physical start, physical end, permissions.\<close>

definition kmap :: "u32 \<Rightarrow> (u32 \<times> u32 \<times> u32 \<times> u32) list" where
  "kmap d =
     [(KERNBASE, 0, EXTMEM, PTE_W),
      (KERNLINK, V2P KERNLINK, V2P d, 0),
      (d, V2P d, PHYSTOP, PTE_W),
      (DEVSPACE, DEVSPACE, 0, PTE_W)]"

text \<open>The addresses \<open>a, a + PGSIZE, ...\<close> below \<open>hi\<close>.\<close>

definition uvm_pages :: "u32 \<Rightarrow> u32 \<Rightarrow> u32 list" where
  "uvm_pages a hi = map (\<lambda>k. a + of_nat (k * PGSIZE)) [0..<(unat hi - unat a + 4095) div PGSIZE]"

text \<open>
  The loop of \<open>deallocuvm\<close>. Addresses are natural numbers: no caller passes a size above
  \<open>KERNBASE\<close>, so the step to the next directory entry stays below \<open>2 ^ 32\<close>.
\<close>

function dealloc_loop :: "u32 \<Rightarrow> nat \<Rightarrow> nat \<Rightarrow> ('z mst_scheme, unit) kop" where
  "dealloc_loop pgdir a oldsz =
     (if a < oldsz then
        bnd (walkpgdir pgdir (of_nat a) False) (\<lambda>r.
        case r of
          None \<Rightarrow> dealloc_loop pgdir ((a div 2 ^ 22 + 1) * 2 ^ 22) oldsz
        | Some pte \<Rightarrow>
            bnd (kload pte) (\<lambda>e.
            seq (whenc (e AND PTE_P \<noteq> 0)
                  (let pa = PTE_ADDR e in
                   seq (panic_if (pa = 0) ''kfree'')
                  (seq (kfree (P2V pa))
                       (kstore pte 0))))
                (dealloc_loop pgdir (a + PGSIZE) oldsz)))
      else ret ())"
  by pat_completeness auto
termination
proof (relation "measure (\<lambda>(pgdir, a, oldsz). oldsz - a)")
  fix a oldsz :: nat and pgdir :: u32
  assume "a < oldsz"
  moreover have "a < (a div 2 ^ 22 + 1) * 2 ^ 22" using div_mult_mod_eq [of a "2 ^ 22"] mod_less_divisor [of "2 ^ 22" a] by simp
  ultimately show "((pgdir, (a div 2 ^ 22 + 1) * 2 ^ 22, oldsz), (pgdir, a, oldsz)) \<in> measure (\<lambda>(pgdir, a, oldsz). oldsz - a)"
    by simp
qed simp_all

declare dealloc_loop.simps [simp del]

definition deallocuvm :: "u32 \<Rightarrow> u32 \<Rightarrow> u32 \<Rightarrow> ('z mst_scheme, u32) kop" where
  "deallocuvm pgdir oldsz newsz =
     (if newsz \<ge> oldsz then ret oldsz
      else seq (dealloc_loop pgdir (unat (PGROUNDUP newsz)) (unat oldsz)) (ret newsz))"

definition freevm :: "u32 \<Rightarrow> ('z mst_scheme, unit) kop" where
  "freevm pgdir =
     seq (panic_if (pgdir = 0) ''freevm: no pgdir'')
    (seq (deallocuvm pgdir KERNBASE 0)
    (seq (for_each [0..<NPDENTRIES] (\<lambda>i.
            bnd (kload (pgdir + of_nat (4 * i))) (\<lambda>e.
            whenc (e AND PTE_P \<noteq> 0) (kfree (P2V (PTE_ADDR e))))))
         (kfree pgdir)))"

definition setupkvm :: "('z mst_scheme, u32) kop" where
  "setupkvm =
     bnd kalloc (\<lambda>pgdir.
     if pgdir = 0 then ret 0
     else
       seq (kmemset pgdir 0 PGSIZE)
      (seq (panic_if (P2V PHYSTOP > DEVSPACE) ''PHYSTOP too high'')
      (bnd (getf kdata) (\<lambda>d.
       bnd (search_each (kmap d) (\<lambda>(virt, phys_start, phys_end, perm).
         bnd (mappages pgdir virt (phys_end - phys_start) phys_start perm) (\<lambda>r.
         if r < 0 then seq (freevm pgdir) (ret (Some 0)) else ret None))) (\<lambda>r.
       ret (case r of Some z \<Rightarrow> z | None \<Rightarrow> pgdir))))))"

definition switchkvm :: "('z vst_scheme, unit) kop" where
  "switchkvm = upd (\<lambda>s. s\<lparr>cr3 := V2P (kpgdir s)\<rparr>)"

definition kvmalloc :: "('z vst_scheme, unit) kop" where
  "kvmalloc = seq (bnd setupkvm (\<lambda>d. upd (\<lambda>s. s\<lparr>kpgdir := d\<rparr>))) switchkvm"

text \<open>
  \<open>switchuvm\<close>. Interrupts are off between \<open>pushcli\<close> and \<open>popcli\<close>, which leaves them as
  they were; see \<open>Spinlock\<close>.
\<close>

definition switchuvm :: "nat option \<Rightarrow> ('z vst_scheme, unit) kop" where
  "switchuvm q =
     (case q of
        None \<Rightarrow> panic ''switchuvm: no process''
      | Some i \<Rightarrow>
          bnd (getf (\<lambda>s. ptable s ! i)) (\<lambda>p.
          seq (panic_if (p_kstack p = 0) ''switchuvm: no kstack'')
         (seq (panic_if (p_pgdir p = 0) ''switchuvm: no pgdir'')
         (upd (\<lambda>s. s\<lparr>gdt := (gdt s)[SEG_TSS := Some ((SEG16 STS_T32A (ts_at s) 103 0)\<lparr>sg_s := False\<rparr>)],
                     ts := \<lparr>ts_esp0 = p_kstack p + of_nat KSTACKSIZE, ts_ss0 = of_nat (SEG_KDATA * 8), ts_iomb = 0xFFFF\<rparr>,
                     tr := of_nat (SEG_TSS * 8),
                     cr3 := V2P (p_pgdir p)\<rparr>)))))"

text \<open>\<open>inituvm\<close> does not test the result of \<open>kalloc\<close>; a null pointer there is a wild write.\<close>

definition inituvm :: "u32 \<Rightarrow> byte list \<Rightarrow> ('z mst_scheme, unit) kop" where
  "inituvm pgdir init =
     seq (panic_if (length init \<ge> PGSIZE) ''inituvm: more than a page'')
    (bnd kalloc (\<lambda>mem.
     if mem = 0 then fault ''inituvm: null page''
     else
       seq (kmemset mem 0 PGSIZE)
      (seq (mappages pgdir 0 0x1000 (V2P mem) (PTE_W OR PTE_U))
           (kput mem init))))"

definition loaduvm :: "'z mst_scheme devsw \<Rightarrow> u32 \<Rightarrow> u32 \<Rightarrow> nat \<Rightarrow> u32 \<Rightarrow> u32 \<Rightarrow> ('z mst_scheme, int) kop" where
  "loaduvm dv pgdir addr ip offset sz =
     seq (panic_if (unat addr mod PGSIZE \<noteq> 0) ''loaduvm: addr must be page aligned'')
    (bnd (search_each (uvm_pages 0 sz) (\<lambda>i.
       bnd (walkpgdir pgdir (addr + i) False) (\<lambda>r.
       case r of
         None \<Rightarrow> panic ''loaduvm: address should exist''
       | Some pte \<Rightarrow>
           bnd (kload pte) (\<lambda>e.
           let pa = PTE_ADDR e; n = (if sz - i < 0x1000 then sz - i else 0x1000) in
           bnd (readi dv ip (offset + i) n) (\<lambda>d.
           case d of
             None \<Rightarrow> ret (Some (-1))
           | Some bs \<Rightarrow> seq (kput (P2V pa) bs) (ret (if length bs \<noteq> unat n then Some (-1) else None))))))) (\<lambda>r.
     ret (case r of Some x \<Rightarrow> x | None \<Rightarrow> 0)))"

text \<open>One turn of the loop of \<open>allocuvm\<close>; \<open>Some\<close> is its early return.\<close>

definition allocuvm_page :: "u32 \<Rightarrow> u32 \<Rightarrow> u32 \<Rightarrow> u32 \<Rightarrow> ('z mst_scheme, u32 option) kop" where
  "allocuvm_page pgdir oldsz newsz a =
     bnd kalloc (\<lambda>mem.
     if mem = 0 then seq (deallocuvm pgdir newsz oldsz) (ret (Some 0))
     else
       seq (kmemset mem 0 PGSIZE)
      (bnd (mappages pgdir a 0x1000 (V2P mem) (PTE_W OR PTE_U)) (\<lambda>r.
       if r < 0 then seq (deallocuvm pgdir newsz oldsz) (seq (kfree mem) (ret (Some 0)))
       else ret None)))"

definition allocuvm :: "u32 \<Rightarrow> u32 \<Rightarrow> u32 \<Rightarrow> ('z mst_scheme, u32) kop" where
  "allocuvm pgdir oldsz newsz =
     (if newsz \<ge> KERNBASE then ret 0
      else if newsz < oldsz then ret oldsz
      else
        bnd (search_each (uvm_pages (PGROUNDUP oldsz) newsz) (allocuvm_page pgdir oldsz newsz)) (\<lambda>r.
        ret (case r of Some x \<Rightarrow> x | None \<Rightarrow> newsz)))"

definition clearpteu :: "u32 \<Rightarrow> u32 \<Rightarrow> ('z mst_scheme, unit) kop" where
  "clearpteu pgdir uva =
     bnd (walkpgdir pgdir uva False) (\<lambda>r.
     case r of
       None \<Rightarrow> panic ''clearpteu''
     | Some pte \<Rightarrow> bnd (kload pte) (\<lambda>e. kstore pte (e AND NOT PTE_U)))"

definition copyuvm :: "u32 \<Rightarrow> u32 \<Rightarrow> ('z mst_scheme, u32) kop" where
  "copyuvm pgdir sz =
     bnd setupkvm (\<lambda>d.
     if d = 0 then ret 0
     else
       bnd (search_each (uvm_pages 0 sz) (\<lambda>i.
         bnd (walkpgdir pgdir i False) (\<lambda>r.
         case r of
           None \<Rightarrow> panic ''copyuvm: pte should exist''
         | Some pte \<Rightarrow>
             bnd (kload pte) (\<lambda>e.
             seq (panic_if (e AND PTE_P = 0) ''copyuvm: page not present'')
            (bnd kalloc (\<lambda>mem.
             if mem = 0 then ret (Some ())
             else
               seq (kmemmove mem (P2V (PTE_ADDR e)) PGSIZE)
              (bnd (mappages d i 0x1000 (V2P mem) (PTE_FLAGS e)) (\<lambda>r.
               if r < 0 then seq (kfree mem) (ret (Some ())) else ret None))))))))  (\<lambda>bad.
       case bad of Some _ \<Rightarrow> seq (freevm d) (ret 0) | None \<Rightarrow> ret d))"

text \<open>\<open>uva2ka\<close> reads through the result of \<open>walkpgdir\<close> without testing it.\<close>

definition uva2ka :: "u32 \<Rightarrow> u32 \<Rightarrow> ('z mst_scheme, u32) kop" where
  "uva2ka pgdir uva =
     bnd (walkpgdir pgdir uva False) (\<lambda>r.
     case r of
       None \<Rightarrow> fault ''uva2ka: null pte''
     | Some pte \<Rightarrow>
         bnd (kload pte) (\<lambda>e.
         ret (if e AND PTE_P = 0 then 0 else if e AND PTE_U = 0 then 0 else P2V (PTE_ADDR e))))"

lemma page_offset: "va - PGROUNDDOWN va = va AND 0xFFF" "unat (va - PGROUNDDOWN va) < PGSIZE"
proof -
  have "va = (va AND NOT 0xFFF) OR (va AND 0xFFF)" by (rule bit_word_eqI) (auto simp: bit_simps)
  also have "\<dots> = (va AND NOT 0xFFF) + (va AND 0xFFF)" by (rule disjunctive_add_eq_or [symmetric]) (rule bit_word_eqI, simp add: bit_simps)
  finally show e: "va - PGROUNDDOWN va = va AND 0xFFF" by (simp add: PGROUNDDOWN_def algebra_simps)
  have "va AND 0xFFF = take_bit 12 va" by (simp add: take_bit_eq_mask mask_eq_exp_minus_1)
  then show "unat (va - PGROUNDDOWN va) < PGSIZE" unfolding e using take_bit_nat_less_exp [of 12 "unat va"] by (simp add: unsigned_take_bit_eq)
qed

function copyout_loop :: "u32 \<Rightarrow> u32 \<Rightarrow> byte list \<Rightarrow> ('z mst_scheme, int) kop" where
  "copyout_loop pgdir va buf =
     (if buf = [] then ret 0
      else
        let va0 = PGROUNDDOWN va; n = min (PGSIZE - unat (va - va0)) (length buf) in
        bnd (uva2ka pgdir va0) (\<lambda>pa0.
        if pa0 = 0 then ret (-1)
        else
          seq (kput (pa0 + (va - va0)) (take n buf))
              (copyout_loop pgdir (va0 + 0x1000) (drop n buf))))"
  by pat_completeness auto
termination
proof (relation "measure (\<lambda>(pgdir, va, buf). length buf)")
  fix va va0 :: u32 and n :: nat and buf :: "byte list" and pgdir :: u32
  assume "buf \<noteq> []" "va0 = PGROUNDDOWN va" "n = min (PGSIZE - unat (va - va0)) (length buf)"
  then have "0 < n" using page_offset(2) [of va] by simp
  then show "((pgdir, va0 + 0x1000, drop n buf), (pgdir, va, buf)) \<in> measure (\<lambda>(pgdir, va, buf). length buf)"
    using \<open>buf \<noteq> []\<close> by simp
qed simp

declare copyout_loop.simps [simp del]

definition copyout :: "u32 \<Rightarrow> u32 \<Rightarrow> byte list \<Rightarrow> ('z mst_scheme, int) kop" where
  "copyout pgdir va p = copyout_loop pgdir va p"

end
