(* ===== verification/Ring.thy ===== *)
theory Ring
  imports Prelude
begin

text \<open>
  Ring buffers with free-running 32-bit counters, as the pipes and the console input use
  them: slot \<open>c % N\<close> for counter \<open>c\<close>, and \<open>w - r\<close> bytes between the counters, also
  after the counters have wrapped around. The contract of a bounded byte queue is the
  locale \<open>fifo\<close>, which \<open>Pipe\<close> interprets; \<open>Console\<close> adds line editing to the same buffer.
\<close>

section \<open>The buffer\<close>

definition ring_get :: "nat \<Rightarrow> byte list \<Rightarrow> u32 \<Rightarrow> byte" where
  "ring_get N buf c = buf ! (unat c mod N)"

definition ring_put :: "nat \<Rightarrow> byte list \<Rightarrow> u32 \<Rightarrow> byte \<Rightarrow> byte list" where
  "ring_put N buf c b = buf[unat c mod N := b]"

text \<open>The bytes from counter \<open>r\<close> up to counter \<open>w\<close>.\<close>

definition ring_view :: "nat \<Rightarrow> byte list \<Rightarrow> u32 \<Rightarrow> u32 \<Rightarrow> byte list" where
  "ring_view N buf r w = map (\<lambda>i. ring_get N buf (r + of_nat i)) [0..<unat (w - r)]"

lemma length_ring_view [simp]: "length (ring_view N buf r w) = unat (w - r)"
  by (simp add: ring_view_def)

lemma ring_view_refl [simp]: "ring_view N buf r r = []"
  by (simp add: ring_view_def)

lemma length_ring_put [simp]: "length (ring_put N buf c b) = length buf"
  by (simp add: ring_put_def)

lemma unat_succ_diff: "unat ((w :: u32) - r) < 2 ^ 32 - 1 \<Longrightarrow> unat (w + 1 - r) = unat (w - r) + 1"
proof -
  assume "unat (w - r) < 2 ^ 32 - 1"
  then have "unat ((w - r) + 1) = unat (w - r) + 1" by (subst unat_word_ariths) simp
  then show ?thesis by (simp add: algebra_simps)
qed

lemma unat_pred_diff: "w \<noteq> r \<Longrightarrow> unat ((w :: u32) - r) = Suc (unat (w - (r + 1)))"
proof -
  assume "w \<noteq> r"
  then have d: "w - r \<noteq> 0" by simp
  then have "0 < unat (w - r)" by (simp add: unat_gt_0)
  moreover have e: "w - (r + 1) = (w - r) - 1" by simp
  ultimately show ?thesis unfolding e using unat_minus_one [OF d] by linarith
qed

text \<open>The slot of a counter is the same whether or not it has wrapped.\<close>

lemma slot_add:
  assumes "N dvd 2 ^ 32"
  shows "unat ((r :: u32) + of_nat i) mod N = (unat r + i) mod N"
proof -
  have "unat (r + of_nat i) = (unat r + i) mod 2 ^ 32"
    by (simp add: unat_word_ariths unat_of_nat take_bit_eq_mod mod_simps)
  then show ?thesis using assms by (simp add: mod_mod_cancel)
qed

lemma ring_slot: "N dvd 2 ^ 32 \<Longrightarrow> ring_get N buf (r + of_nat i) = buf ! ((unat r + i) mod N)"
  by (simp add: ring_get_def slot_add)

lemma counter_add: "(w :: u32) = r + of_nat (unat (w - r))"
  by simp

lemma slots_differ: "i < d \<Longrightarrow> d < i + N \<Longrightarrow> ((a :: nat) + i) mod N \<noteq> (a + d) mod N"
proof (rule notI)
  assume a: "i < d" "d < i + N" "(a + i) mod N = (a + d) mod N"
  then have "N dvd (a + d) - (a + i)" using mod_eq_dvd_iff_nat [of "a + i" "a + d" N] by simp
  then show False using a(1,2) by (auto dest: dvd_imp_le)
qed

text \<open>A ring size is a divisor of \<open>2 ^ 32\<close>, so that counters can wrap.\<close>

definition ring_size :: "nat \<Rightarrow> bool" where
  "ring_size N \<longleftrightarrow> N dvd 2 ^ 32 \<and> 0 < N \<and> N < 2 ^ 32"

lemma ring_put_view:
  assumes N: "ring_size N" and len: "length buf = N" and room: "unat (w - r) < N"
  shows "ring_view N (ring_put N buf w b) r (w + 1) = ring_view N buf r w @ [b]"
proof (rule nth_equalityI)
  have n: "N dvd 2 ^ 32" "0 < N" "N < 2 ^ 32" using N by (simp_all add: ring_size_def)
  have ln: "unat (w + 1 - r) = unat (w - r) + 1" using room n(3) by (intro unat_succ_diff) simp
  then show "length (ring_view N (ring_put N buf w b) r (w + 1)) = length (ring_view N buf r w @ [b])" by simp
  have sw: "unat w mod N = (unat r + unat (w - r)) mod N" using slot_add [OF n(1), of r "unat (w - r)"] by simp
  fix i assume i: "i < length (ring_view N (ring_put N buf w b) r (w + 1))"
  show "ring_view N (ring_put N buf w b) r (w + 1) ! i = (ring_view N buf r w @ [b]) ! i"
  proof (cases "i < unat (w - r)")
    case True
    then have "(unat r + i) mod N \<noteq> unat w mod N" unfolding sw using room by (intro slots_differ) simp_all
    then show ?thesis using True ln by (simp add: ring_view_def nth_append ring_slot [OF n(1)] ring_put_def)
  next
    case False
    then have e: "i = unat (w - r)" using i ln by simp
    have "unat w mod N < length buf" using len n(2) by simp
    then show ?thesis using e ln sw by (simp add: ring_view_def nth_append ring_slot [OF n(1)] ring_put_def)
  qed
qed

lemma ring_get_view:
  assumes "w \<noteq> r"
  shows "ring_view N buf r w = ring_get N buf r # ring_view N buf (r + 1) w"
  using unat_pred_diff [OF assms]
  by (simp add: ring_view_def upt_conv_Cons map_Suc_upt [symmetric] del: upt_Suc) (simp add: algebra_simps)

lemma ring_drop_view:
  assumes "w \<noteq> r"
  shows "ring_view N buf r (w - 1) = butlast (ring_view N buf r w)" "ring_get N buf (w - 1) = last (ring_view N buf r w)"
proof -
  have d: "unat (w - r) = Suc (unat (w - 1 - r))" using unat_pred_diff [OF assms] by (simp add: algebra_simps)
  then show "ring_view N buf r (w - 1) = butlast (ring_view N buf r w)" by (simp add: ring_view_def)
  have "r + of_nat (unat (w - 1 - r)) = w - 1" by simp
  then show "ring_get N buf (w - 1) = last (ring_view N buf r w)" using d by (simp add: ring_view_def)
qed

lemma ring_view_split:
  assumes "unat (w - r) \<le> unat (e - r)"
  shows "ring_view N buf r e = ring_view N buf r w @ ring_view N buf w e"
proof -
  have "e - r = (w - r) + (e - w)" by simp
  have l: "unat (e - r) = unat (w - r) + unat (e - w)"
  proof -
    have "e - w = (e - r) - (w - r)" by simp
    then have "unat (e - w) = unat (e - r) - unat (w - r)"
      using assms by (simp only: unat_sub [of "w - r" "e - r"] word_le_nat_alt)
    then show ?thesis using assms by simp
  qed
  show ?thesis
  proof (rule nth_equalityI)
    fix i assume i: "i < length (ring_view N buf r e)"
    have "r + of_nat i = w + of_nat (i - unat (w - r)) \<and> i - unat (w - r) < unat (e - w)" if "\<not> i < unat (w - r)"
      using that i l by (simp add: of_nat_diff less_diff_conv2)
    then show "ring_view N buf r e ! i = (ring_view N buf r w @ ring_view N buf w e) ! i"
      using i l by (simp add: ring_view_def nth_append add.commute)
  qed (use l in simp)
qed

section \<open>Bounded queues\<close>

text \<open>
  What a user of a bounded byte queue relies on: the queue \<open>q\<close> stands for the list
  \<open>abs q\<close>; a byte put into a queue that is not full goes to its end, and the byte taken
  from a queue that is not empty is its first.
\<close>

locale fifo =
  fixes ok :: "'q \<Rightarrow> bool" and abs :: "'q \<Rightarrow> byte list" and cap :: nat
    and is_full :: "'q \<Rightarrow> bool" and is_empty :: "'q \<Rightarrow> bool"
    and put :: "byte \<Rightarrow> 'q \<Rightarrow> 'q" and get :: "'q \<Rightarrow> byte \<times> 'q"
  assumes bound: "ok q \<Longrightarrow> length (abs q) \<le> cap"
    and full: "ok q \<Longrightarrow> is_full q \<longleftrightarrow> length (abs q) = cap"
    and empty: "ok q \<Longrightarrow> is_empty q \<longleftrightarrow> abs q = []"
    and put_ok: "ok q \<Longrightarrow> length (abs q) < cap \<Longrightarrow> ok (put b q) \<and> abs (put b q) = abs q @ [b]"
    and get_ok: "ok q \<Longrightarrow> abs q = b # bs \<Longrightarrow> fst (get q) = b \<and> ok (snd (get q)) \<and> abs (snd (get q)) = bs"
begin

text \<open>Putting bytes while there is room, and taking up to \<open>n\<close> bytes.\<close>

primrec puts :: "byte list \<Rightarrow> 'q \<Rightarrow> 'q \<times> byte list" where
  "puts [] q = (q, [])"
| "puts (b # bs) q = (if is_full q then (q, b # bs) else puts bs (put b q))"

primrec gets :: "nat \<Rightarrow> 'q \<Rightarrow> byte list \<times> 'q" where
  "gets 0 q = ([], q)"
| "gets (Suc n) q = (if is_empty q then ([], q) else let (b, q) = get q; (bs, q) = gets n q in (b # bs, q))"

lemma puts_spec:
  "ok q \<Longrightarrow> ok (fst (puts bs q)) \<and> abs (fst (puts bs q)) = abs q @ take (cap - length (abs q)) bs \<and>
     snd (puts bs q) = drop (cap - length (abs q)) bs"
proof (induction bs arbitrary: q)
  case (Cons b bs)
  show ?case
  proof (cases "is_full q")
    case True
    then show ?thesis using full [OF Cons.prems] Cons.prems by simp
  next
    case False
    then have l: "length (abs q) < cap" using full [OF Cons.prems] bound [OF Cons.prems] by simp
    have p: "ok (put b q)" "abs (put b q) = abs q @ [b]" using put_ok [OF Cons.prems l] by simp_all
    have "cap - length (abs q) = Suc (cap - length (abs (put b q)))" using l p by simp
    then show ?thesis using Cons.IH [OF p(1)] p(2) False by simp
  qed
qed simp

lemma gets_spec:
  "ok q \<Longrightarrow> fst (gets n q) = take n (abs q) \<and> ok (snd (gets n q)) \<and> abs (snd (gets n q)) = drop n (abs q)"
proof (induction n arbitrary: q)
  case (Suc n)
  show ?case
  proof (cases "abs q")
    case Nil
    then show ?thesis using empty [OF Suc.prems] Suc.prems by simp
  next
    case (Cons b bs)
    then have "\<not> is_empty q" using empty [OF Suc.prems] by simp
    then show ?thesis using get_ok [OF Suc.prems Cons] Suc.IH [of "snd (get q)"] Cons by (simp add: case_prod_beta Let_def)
  qed
qed simp

text \<open>What is put into an empty queue comes out in the same order.\<close>

lemma puts_gets:
  assumes "ok q" "abs q = []" "length bs \<le> cap"
  shows "fst (gets (length bs) (fst (puts bs q))) = bs" "snd (puts bs q) = []"
  using puts_spec [OF assms(1), of bs] gets_spec [of "fst (puts bs q)" "length bs"] assms by simp_all

end

end
