(* ===== verification/Console.thy ===== *)
theory Console
  imports Vm Ring
begin

text \<open>
  \<open>console.c\<close> and \<open>uart.c\<close>: formatted output to the screen and the serial line, and
  the line editor behind console input. Characters that reach the serial line are
  collected in \<open>uart_out\<close>; the screen is the array of character cells with the cursor
  position that the display controller holds. Waiting for the transmitter is left out.
\<close>

section \<open>State\<close>

record conbuf =
  in_buf :: "byte list"
  in_r :: u32
  in_w :: u32
  in_e :: u32

record cst = vst +
  panicked :: bool
  cons_locking :: bool
  uart :: bool
  uart_out :: "byte list"
  cga_pos :: int
  crt :: "u16 list"
  input :: conbuf

abbreviation (input) INPUT_BUF :: nat where "INPUT_BUF \<equiv> 128"
abbreviation (input) BACKSPACE :: int where "BACKSPACE \<equiv> 0x100"

section \<open>Output\<close>

definition uartputc :: "int \<Rightarrow> ('z cst_scheme, unit) kop" where
  "uartputc c = bnd (getf uart) (\<lambda>u. whenc u (upd (\<lambda>s. s\<lparr>uart_out := uart_out s @ [of_int c]\<rparr>)))"

text \<open>\<open>memmove(crt, crt+80, ...)\<close> and the clearing of the last line.\<close>

definition scroll :: "nat \<Rightarrow> u16 list \<Rightarrow> u16 list" where
  "scroll pos cells =
     (let up = take (23 * 80) (drop 80 cells) @ drop (23 * 80) cells in
      take pos up @ replicate (24 * 80 - pos) 0 @ drop (24 * 80) up)"

text \<open>The cursor position after a character, before scrolling.\<close>

definition cga_next :: "int \<Rightarrow> int \<Rightarrow> int" where
  "cga_next c pos =
     (if c = 10 then pos + (80 - pos mod 80)
      else if c = BACKSPACE then (if pos > 0 then pos - 1 else pos)
      else pos + 1)"

definition cgaputc :: "int \<Rightarrow> ('z cst_scheme, unit) kop" where
  "cgaputc c =
     bnd (getf cga_pos) (\<lambda>pos.
     seq (whenc (c \<noteq> 10 \<and> c \<noteq> BACKSPACE)
           (upd (\<lambda>s. s\<lparr>crt := (crt s)[nat pos := of_int (c mod 256) OR 0x0700]\<rparr>)))
    (let pos = cga_next c pos in
     seq (panic_if (pos < 0 \<or> pos > 25 * 80) ''pos under/overflow'')
    (seq (whenc (pos div 80 \<ge> 24) (upd (\<lambda>s. s\<lparr>crt := scroll (nat (pos - 80)) (crt s)\<rparr>)))
    (let pos = (if pos div 80 \<ge> 24 then pos - 80 else pos) in
     upd (\<lambda>s. s\<lparr>cga_pos := pos, crt := (crt s)[nat pos := 0x0720]\<rparr>)))))"

text \<open>After a panic on another processor \<open>consputc\<close> spins for ever.\<close>

definition consputc :: "int \<Rightarrow> ('z cst_scheme, unit) kop" where
  "consputc c =
     bnd (getf panicked) (\<lambda>p.
     if p then block ''panicked''
     else
       seq (if c = BACKSPACE then seq (uartputc 8) (seq (uartputc 32) (uartputc 8)) else uartputc c)
           (cgaputc c))"

text \<open>\<open>printint\<close>: the characters in the order they are printed.\<close>

definition hexdigit :: "nat \<Rightarrow> byte" where
  "hexdigit d = (if d < 10 then of_nat (48 + d) else of_nat (87 + d))"

function rev_digits :: "nat \<Rightarrow> nat \<Rightarrow> byte list" where
  "rev_digits base x =
     hexdigit (x mod base) # (if x div base = 0 \<or> base \<le> 1 then [] else rev_digits base (x div base))"
  by pat_completeness auto
termination
  by (relation "measure snd") (auto simp: div_eq_0_iff)

declare rev_digits.simps [simp del]

definition int_chars :: "u32 \<Rightarrow> nat \<Rightarrow> bool \<Rightarrow> byte list" where
  "int_chars xx base sign =
     (let sign = (sign \<and> sint xx < 0); x = (if sign then - xx else xx) in
      rev (rev_digits base (unat x) @ (if sign then [45] else [])))"

definition putchars :: "byte list \<Rightarrow> ('z cst_scheme, unit) kop" where
  "putchars cs = for_each cs (\<lambda>c. consputc (uint c))"

definition printint :: "u32 \<Rightarrow> nat \<Rightarrow> bool \<Rightarrow> ('z cst_scheme, unit) kop" where
  "printint xx base sign = putchars (int_chars xx base sign)"

text \<open>The arguments of \<open>cprintf\<close>: a word, or a string (a null pointer is \<open>None\<close>).\<close>

datatype carg = CNum u32 | CStr "byte list option"

fun cprintf_body :: "byte list \<Rightarrow> carg list \<Rightarrow> ('z cst_scheme, unit) kop" where
  "cprintf_body [] args = ret ()"
| "cprintf_body [c] args = (if c \<noteq> 37 then consputc (uint c) else ret ())"
| "cprintf_body (c # d # fmt) args =
     (if c \<noteq> 37 then seq (consputc (uint c)) (cprintf_body (d # fmt) args)
      else if d = 100 then
        (case args of CNum x # args \<Rightarrow> seq (printint x 10 True) (cprintf_body fmt args)
         | _ \<Rightarrow> fault ''cprintf: argument'')
      else if d = 120 \<or> d = 112 then
        (case args of CNum x # args \<Rightarrow> seq (printint x 16 False) (cprintf_body fmt args)
         | _ \<Rightarrow> fault ''cprintf: argument'')
      else if d = 115 then
        (case args of
           CStr s # args \<Rightarrow>
             seq (putchars (case s of None \<Rightarrow> [40, 110, 117, 108, 108, 41] | Some cs \<Rightarrow> cs)) (cprintf_body fmt args)
         | _ \<Rightarrow> fault ''cprintf: argument'')
      else if d = 37 then seq (consputc 37) (cprintf_body fmt args)
      else seq (consputc 37) (seq (consputc (uint d)) (cprintf_body fmt args)))"

definition cprintf :: "byte list \<Rightarrow> carg list \<Rightarrow> ('z cst_scheme, unit) kop" where
  "cprintf fmt args =
     bnd (getf cons_locking) (\<lambda>locking.
     seq (whenc locking (lock LCons))
    (seq (cprintf_body fmt args)
         (whenc locking (unlock LCons))))"

section \<open>Input\<close>

text \<open>One character from the keyboard or the serial line; the result asks for a process listing.\<close>

definition set_input :: "(conbuf \<Rightarrow> conbuf) \<Rightarrow> ('z cst_scheme, unit) kop" where
  "set_input f = upd (\<lambda>s. s\<lparr>input := f (input s)\<rparr>)"

text \<open>How many characters \<open>C('U')\<close> removes: back to the start of the line or the last newline.\<close>

function kill_count :: "conbuf \<Rightarrow> nat" where
  "kill_count q =
     (if in_e q \<noteq> in_w q \<and> ring_get INPUT_BUF (in_buf q) (in_e q - 1) \<noteq> 10
      then Suc (kill_count (q\<lparr>in_e := in_e q - 1\<rparr>)) else 0)"
  by pat_completeness auto
termination
proof (relation "measure (\<lambda>q. unat (in_e q - in_w q))")
  fix q :: conbuf
  assume "in_e q \<noteq> in_w q \<and> ring_get INPUT_BUF (in_buf q) (in_e q - 1) \<noteq> 10"
  then have "in_e q - in_w q \<noteq> 0" by simp
  then have "unat (in_e q - in_w q - 1) < unat (in_e q - in_w q)" by (rule measure_unat)
  then show "(q\<lparr>in_e := in_e q - 1\<rparr>, q) \<in> measure (\<lambda>q. unat (in_e q - in_w q))" by (simp add: algebra_simps)
qed simp

declare kill_count.simps [simp del]

definition con_erase :: "('z cst_scheme, unit) kop" where
  "con_erase = seq (set_input (\<lambda>q. q\<lparr>in_e := in_e q - 1\<rparr>)) (consputc BACKSPACE)"

definition consoleintr_char :: "int \<Rightarrow> ('z cst_scheme, bool) kop" where
  "consoleintr_char c =
     bnd (getf input) (\<lambda>q.
     if c = 16 then ret True
     else if c = 21 then seq (for_each [0..<kill_count q] (\<lambda>_. con_erase)) (ret False)
     else if c = 8 \<or> c = 127 then seq (whenc (in_e q \<noteq> in_w q) con_erase) (ret False)
     else if c \<noteq> 0 \<and> unat (in_e q - in_r q) < INPUT_BUF then
       let c = (if c = 13 then 10 else c) in
       seq (set_input (\<lambda>q. q\<lparr>in_buf := ring_put INPUT_BUF (in_buf q) (in_e q) (of_int c), in_e := in_e q + 1\<rparr>))
      (seq (consputc c)
      (bnd (getf input) (\<lambda>q.
       seq (whenc (c = 10 \<or> c = 4 \<or> in_e q = in_r q + of_nat INPUT_BUF)
             (seq (set_input (\<lambda>q. q\<lparr>in_w := in_e q\<rparr>)) (wakeup ChInput)))
           (ret False))))
     else ret False)"

primrec consoleintr_loop :: "int list \<Rightarrow> bool \<Rightarrow> ('z cst_scheme, bool) kop" where
  "consoleintr_loop [] dump = ret dump"
| "consoleintr_loop (c # cs) dump =
     (if c < 0 then ret dump else bnd (consoleintr_char c) (\<lambda>d. consoleintr_loop cs (dump \<or> d)))"

text \<open>
  \<open>consoleintr\<close> on the values that \<open>getc\<close> returns, up to the first negative one; the
  listing is printed after the lock is released.
\<close>

definition consoleintr :: "('z cst_scheme, unit) kop \<Rightarrow> int list \<Rightarrow> ('z cst_scheme, unit) kop" where
  "consoleintr procdump cs =
     seq (lock LCons)
    (bnd (consoleintr_loop cs False) (\<lambda>dump.
     seq (unlock LCons)
         (whenc dump procdump)))"

text \<open>
  The loop of \<open>consoleread\<close>: \<open>n\<close> bytes are still wanted, \<open>acc\<close> were read. When there is
  no input the process sleeps; after it has been woken the loop runs again.
\<close>

primrec consoleread_loop :: "nat \<Rightarrow> nat \<Rightarrow> nat \<Rightarrow> byte list \<Rightarrow> ('z cst_scheme, byte list option) kop" where
  "consoleread_loop ip target 0 acc = ret (Some acc)"
| "consoleread_loop ip target (Suc n) acc =
     bnd (getf input) (\<lambda>q.
     if in_r q = in_w q then
       bnd (getf curkilled) (\<lambda>k.
       if k then ret None else seq (sleep ChInput LCons) (block ''consoleread''))
     else
       let c = ring_get INPUT_BUF (in_buf q) (in_r q) in
       if c = 4 then
         seq (whenc (Suc n \<ge> target) (set_input (\<lambda>q. q\<lparr>in_r := in_r q + 1\<rparr>))) (ret (Some acc))
       else
         seq (set_input (\<lambda>q. q\<lparr>in_r := in_r q + 1\<rparr>))
             (if c = 10 then ret (Some (acc @ [c])) else consoleread_loop ip target n (acc @ [c])))"

definition consoleread :: "nat \<Rightarrow> nat \<Rightarrow> ('z cst_scheme, byte list option) kop" where
  "consoleread ip n =
     seq (iunlock ip)
    (seq (lock LCons)
    (bnd (consoleread_loop ip n n []) (\<lambda>r.
     seq (unlock LCons)
    (seq (ilock ip)
         (ret r)))))"

definition consolewrite :: "nat \<Rightarrow> byte list \<Rightarrow> ('z cst_scheme, int) kop" where
  "consolewrite ip buf =
     seq (iunlock ip)
    (seq (lock LCons)
    (seq (putchars buf)
    (seq (unlock LCons)
    (seq (ilock ip)
         (ret (int (length buf)))))))"

abbreviation (input) CONSOLE :: nat where "CONSOLE \<equiv> 1"

text \<open>\<open>consoleinit\<close> enters the console in the device table.\<close>

definition console_devsw :: "'z cst_scheme devsw" where
  "console_devsw =
     \<lparr>dv_read = (\<lambda>mj. if mj = CONSOLE then Some consoleread else None),
      dv_write = (\<lambda>mj. if mj = CONSOLE then Some consolewrite else None)\<rparr>"

definition consoleinit :: "('z cst_scheme, unit) kop" where
  "consoleinit = upd (\<lambda>s. s\<lparr>cons_locking := True\<rparr>)"

section \<open>The screen\<close>

definition screen_ok :: "'z cst_scheme \<Rightarrow> bool" where
  "screen_ok s \<longleftrightarrow> \<not> panicked s \<and> 0 \<le> cga_pos s \<and> cga_pos s < 24 * 80 \<and> 25 * 80 \<le> length (crt s)"

text \<open>What printing leaves alone: everything but the serial output and the screen.\<close>

definition pframe :: "'z cst_scheme \<Rightarrow> 'z cst_scheme \<Rightarrow> bool" where
  "pframe s t \<longleftrightarrow> t = s\<lparr>uart_out := uart_out t, cga_pos := cga_pos t, crt := crt t\<rparr>"

lemma pframe_refl [simp]: "pframe s s"
  by (simp add: pframe_def)

lemma pframe_trans:
  assumes "pframe s t" "pframe t u"
  shows "pframe s u"
proof -
  have "u = t\<lparr>uart_out := uart_out u, cga_pos := cga_pos u, crt := crt u\<rparr>" using assms(2) by (simp add: pframe_def)
  also have "\<dots> = s\<lparr>uart_out := uart_out u, cga_pos := cga_pos u, crt := crt u\<rparr>"
    by (subst assms(1) [unfolded pframe_def]) simp
  finally show ?thesis by (simp add: pframe_def)
qed

lemma pframeD:
  assumes "pframe s t"
  shows "input t = input s" "held t = held s" "ptable t = ptable s" "panicked t = panicked s" "cur t = cur s" "uart t = uart s"
    "icache t = icache s"
  by (subst assms [unfolded pframe_def], simp)+

lemma length_scroll: "pos < 24 * 80 \<Longrightarrow> 25 * 80 \<le> length cells \<Longrightarrow> length (scroll pos cells) = length cells"
  by (simp add: scroll_def Let_def)

lemma cgaputc_ok:
  assumes "screen_ok s"
  shows "\<exists>t. cgaputc c s = Ok () t \<and> screen_ok t \<and> pframe s t"
proof -
  have s: "0 \<le> cga_pos s" "cga_pos s < 1920" "2000 \<le> length (crt s)" "\<not> panicked s" using assms by (simp_all add: screen_ok_def)
  have p: "0 \<le> cga_next c (cga_pos s)" "cga_next c (cga_pos s) \<le> 1920"
  proof -
    have "cga_pos s mod 80 \<ge> 0" "cga_pos s mod 80 < 80" "cga_pos s + (80 - cga_pos s mod 80) \<le> 1920" using s by presburger+
    then show "0 \<le> cga_next c (cga_pos s)" "cga_next c (cga_pos s) \<le> 1920" using s by (auto simp: cga_next_def)
  qed
  have "24 \<le> cga_next c (cga_pos s) div 80 \<longleftrightarrow> cga_next c (cga_pos s) = 1920" using p by linarith
  then show ?thesis
    using s p unfolding cgaputc_def by (auto simp: Let_def screen_ok_def pframe_def length_scroll)
qed

lemma uartputc_ok: "\<exists>t. uartputc c s = Ok () t \<and> (screen_ok s \<longrightarrow> screen_ok t) \<and> pframe s t"
  by (simp add: uartputc_def screen_ok_def pframe_def)

lemma consputc_ok:
  assumes "screen_ok s"
  shows "\<exists>t. consputc c s = Ok () t \<and> screen_ok t \<and> pframe s t"
proof -
  have u: "\<exists>t. (if c = BACKSPACE then seq (uartputc 8) (seq (uartputc 32) (uartputc 8)) else uartputc c) s = Ok () t \<and>
      screen_ok t \<and> pframe s t"
    using assms by (auto simp: uartputc_def screen_ok_def pframe_def)
  then obtain t where t: "(if c = BACKSPACE then seq (uartputc 8) (seq (uartputc 32) (uartputc 8)) else uartputc c) s = Ok () t"
    "screen_ok t" "pframe s t" by blast
  obtain v where v: "cgaputc c t = Ok () v" "screen_ok v" "pframe t v" using cgaputc_ok [OF t(2)] by blast
  have "consputc c s = Ok () v"
    using t(1) v(1) assms by (simp add: consputc_def screen_ok_def split: if_splits)
  then show ?thesis using v(2) pframe_trans [OF t(3) v(3)] by blast
qed

lemma putchars_ok:
  assumes "screen_ok s"
  shows "\<exists>t. putchars cs s = Ok () t \<and> screen_ok t \<and> pframe s t"
  using assms
proof (induction cs arbitrary: s)
  case (Cons c cs)
  obtain t where t: "consputc (uint c) s = Ok () t" "screen_ok t" "pframe s t" using consputc_ok [OF Cons.prems] by blast
  obtain u where "putchars cs t = Ok () u" "screen_ok u" "pframe t u" using Cons.IH [OF t(2)] by blast
  then show ?case using t pframe_trans by (auto simp: putchars_def)
qed (simp add: putchars_def)

section \<open>The line editor\<close>

text \<open>
  The input as the lines that can be read and the line being typed, and what a character
  does to them.
\<close>

definition con_ok :: "conbuf \<Rightarrow> bool" where
  "con_ok q \<longleftrightarrow> length (in_buf q) = INPUT_BUF \<and> unat (in_w q - in_r q) \<le> unat (in_e q - in_r q) \<and> unat (in_e q - in_r q) \<le> INPUT_BUF"

definition con_view :: "conbuf \<Rightarrow> byte list \<times> byte list" where
  "con_view q = (ring_view INPUT_BUF (in_buf q) (in_r q) (in_w q), ring_view INPUT_BUF (in_buf q) (in_w q) (in_e q))"

definition kill_line :: "byte list \<Rightarrow> byte list" where
  "kill_line cs = rev (dropWhile (\<lambda>c. c \<noteq> 10) (rev cs))"

definition edit_char :: "int \<Rightarrow> byte list \<times> byte list \<Rightarrow> byte list \<times> byte list" where
  "edit_char c = (\<lambda>(ready, line).
     if c = 16 then (ready, line)
     else if c = 21 then (ready, kill_line line)
     else if c = 8 \<or> c = 127 then (ready, butlast line)
     else if c \<noteq> 0 \<and> length ready + length line < INPUT_BUF then
       let c = (if c = 13 then 10 else c); line = line @ [of_int c] in
       if c = 10 \<or> c = 4 \<or> length ready + length line = INPUT_BUF then (ready @ line, []) else (ready, line)
     else (ready, line))"

lemma ring_size_128: "ring_size INPUT_BUF"
  by (simp add: ring_size_def)

lemma con_okD:
  assumes "con_ok q"
  shows "length (in_buf q) = INPUT_BUF" "unat (in_e q - in_r q) = unat (in_w q - in_r q) + unat (in_e q - in_w q)"
    "unat (in_e q - in_r q) \<le> INPUT_BUF"
    "ring_view INPUT_BUF (in_buf q) (in_r q) (in_e q) =
       ring_view INPUT_BUF (in_buf q) (in_r q) (in_w q) @ ring_view INPUT_BUF (in_buf q) (in_w q) (in_e q)"
proof -
  show "length (in_buf q) = INPUT_BUF" "unat (in_e q - in_r q) \<le> INPUT_BUF" using assms by (simp_all add: con_ok_def)
  have le: "unat (in_w q - in_r q) \<le> unat (in_e q - in_r q)" using assms by (simp add: con_ok_def)
  show v: "ring_view INPUT_BUF (in_buf q) (in_r q) (in_e q) =
       ring_view INPUT_BUF (in_buf q) (in_r q) (in_w q) @ ring_view INPUT_BUF (in_buf q) (in_w q) (in_e q)"
    by (rule ring_view_split [OF le])
  from arg_cong [OF v, of length] show "unat (in_e q - in_r q) = unat (in_w q - in_r q) + unat (in_e q - in_w q)" by simp
qed

lemma length_con_view: "length (fst (con_view q)) = unat (in_w q - in_r q)" "length (snd (con_view q)) = unat (in_e q - in_w q)"
  by (simp_all add: con_view_def)

lemma erase_view:
  assumes "con_ok q" "in_e q \<noteq> in_w q"
  shows "con_ok (q\<lparr>in_e := in_e q - 1\<rparr>)" "con_view (q\<lparr>in_e := in_e q - 1\<rparr>) = (fst (con_view q), butlast (snd (con_view q)))"
    "snd (con_view q) \<noteq> []" "ring_get INPUT_BUF (in_buf q) (in_e q - 1) = last (snd (con_view q))"
proof -
  note d = con_okD [OF assms(1)] and v = ring_drop_view [OF assms(2)]
  show "con_view (q\<lparr>in_e := in_e q - 1\<rparr>) = (fst (con_view q), butlast (snd (con_view q)))" using v(1) by (simp add: con_view_def)
  show "ring_get INPUT_BUF (in_buf q) (in_e q - 1) = last (snd (con_view q))" using v(2) by (simp add: con_view_def)
  have "0 < unat (in_e q - in_w q)" using assms(2) by (simp add: unat_gt_0)
  then show "snd (con_view q) \<noteq> []" using length_con_view(2) [of q] by auto
  have "in_e q - in_r q \<noteq> 0" using d(2) \<open>0 < unat (in_e q - in_w q)\<close> by auto
  then have "unat (in_e q - 1 - in_r q) = unat (in_e q - in_r q) - 1" using unat_minus_one [of "in_e q - in_r q"] by (simp add: algebra_simps)
  then show "con_ok (q\<lparr>in_e := in_e q - 1\<rparr>)" using assms(1) d(2) \<open>0 < unat (in_e q - in_w q)\<close>
    unfolding con_ok_def by (simp, linarith)
qed

lemma kill_line_snoc: "kill_line (xs @ [x]) = (if x = 10 then xs @ [x] else kill_line xs)"
  by (simp add: kill_line_def)

lemma kill_count_view:
  assumes "con_ok q"
  shows "kill_count q \<le> length (snd (con_view q)) \<and>
     take (length (snd (con_view q)) - kill_count q) (snd (con_view q)) = kill_line (snd (con_view q))"
  using assms
proof (induction q rule: kill_count.induct)
  case (1 q)
  show ?case
  proof (cases "in_e q \<noteq> in_w q \<and> ring_get INPUT_BUF (in_buf q) (in_e q - 1) \<noteq> 10")
    case True
    note e = erase_view [OF 1(2)]
    let ?q = "q\<lparr>in_e := in_e q - 1\<rparr>" and ?l = "snd (con_view q)"
    have IH: "kill_count ?q \<le> length (butlast ?l)" "take (length (butlast ?l) - kill_count ?q) (butlast ?l) = kill_line (butlast ?l)"
      using 1(1) [OF True] e(1,2) True by simp_all
    have l: "?l = butlast ?l @ [last ?l]" "last ?l \<noteq> 10" using e(3,4) True by simp_all
    have kl: "kill_line ?l = kill_line (butlast ?l)" using kill_line_snoc [of "butlast ?l" "last ?l"] l by simp
    have ne: "0 < length ?l" using e(3) True by simp
    have kc: "kill_count q = Suc (kill_count ?q)" using True by (subst kill_count.simps) simp
    have "take (length ?l - kill_count q) ?l = take (length (butlast ?l) - kill_count ?q) (butlast ?l)"
      using ne unfolding kc by (simp add: take_butlast One_nat_def)
    moreover have "kill_count q \<le> length ?l" using IH(1) ne unfolding kc length_butlast by linarith
    ultimately show ?thesis using IH(2) kl by simp
  next
    case False
    then have k: "kill_count q = 0" by (subst kill_count.simps) simp
    have "kill_line (snd (con_view q)) = snd (con_view q)"
    proof (cases "in_e q = in_w q")
      case True
      then show ?thesis by (simp add: con_view_def kill_line_def)
    next
      case ne: False
      then have "last (snd (con_view q)) = 10" using False erase_view(4) [OF 1(2)] by simp
      moreover have "snd (con_view q) = butlast (snd (con_view q)) @ [last (snd (con_view q))]"
        using erase_view(3) [OF 1(2) ne] by simp
      ultimately show ?thesis using kill_line_snoc [of "butlast (snd (con_view q))" 10] by simp
    qed
    then show ?thesis using k by simp
  qed
qed

lemma con_erase_ok:
  assumes "screen_ok s"
  shows "\<exists>t. con_erase s = Ok () t \<and> screen_ok t \<and> input t = (input s)\<lparr>in_e := in_e (input s) - 1\<rparr> \<and>
     held t = held s \<and> ptable t = ptable s"
proof -
  let ?s = "s\<lparr>input := (input s)\<lparr>in_e := in_e (input s) - 1\<rparr>\<rparr>"
  have "screen_ok ?s" using assms by (simp add: screen_ok_def)
  then obtain t where "consputc BACKSPACE ?s = Ok () t" "screen_ok t" "pframe ?s t" using consputc_ok by blast
  then show ?thesis using pframeD(1-3) [of ?s t] by (auto simp: con_erase_def set_input_def)
qed

text \<open>The state reached from \<open>s\<close> where the input is \<open>v\<close>.\<close>

definition edited :: "'z cst_scheme \<Rightarrow> byte list \<times> byte list \<Rightarrow> 'z cst_scheme \<Rightarrow> bool" where
  "edited s v t \<longleftrightarrow> screen_ok t \<and> con_ok (input t) \<and> con_view (input t) = v \<and> held t = held s"

lemma erase_loop:
  assumes "screen_ok s" "con_ok (input s)" "n \<le> length (snd (con_view (input s)))"
  shows "\<exists>t. for_each [0..<n] (\<lambda>_. con_erase) s = Ok () t \<and>
     edited s (fst (con_view (input s)), take (length (snd (con_view (input s))) - n) (snd (con_view (input s)))) t"
proof -
  let ?l = "snd (con_view (input s))"
  have "\<exists>t. for_each [0..<n] (\<lambda>_. con_erase) s = Ok () t \<and> edited s (fst (con_view (input s)), take (length ?l - n) ?l) t"
  proof (rule for_upto [where J = "\<lambda>k t. edited s (fst (con_view (input s)), take (length ?l - k) ?l) t"])
    show "edited s (fst (con_view (input s)), take (length ?l - 0) ?l) s" using assms by (simp add: edited_def)
    fix k t assume k: "k < n" and t: "edited s (fst (con_view (input s)), take (length ?l - k) ?l) t"
    have l: "snd (con_view (input t)) = take (length ?l - k) ?l" "con_ok (input t)" using t by (simp_all add: edited_def)
    then have "unat (in_e (input t) - in_w (input t)) = length ?l - k"
      using arg_cong [OF l(1), of length] length_con_view(2) [of "input t"] by simp
    then have ne: "in_e (input t) \<noteq> in_w (input t)" using k assms(3) by auto
    obtain u where u: "con_erase t = Ok () u" "screen_ok u" "input u = (input t)\<lparr>in_e := in_e (input t) - 1\<rparr>" "held u = held t"
      using con_erase_ok t unfolding edited_def by blast
    have "butlast (take (length ?l - k) ?l) = take (length ?l - Suc k) ?l" using k assms(3) by (simp add: butlast_take Suc_eq_plus1 del: add_Suc_right)
    then show "\<exists>u. con_erase t = Ok () u \<and> edited s (fst (con_view (input s)), take (length ?l - Suc k) ?l) u"
      using u t erase_view(1,2) [OF l(2) ne] by (simp add: edited_def)
  qed
  then show ?thesis .
qed

lemma type_view:
  fixes b :: byte
  assumes "con_ok q" "unat (in_e q - in_r q) < INPUT_BUF"
  defines "q' \<equiv> q\<lparr>in_buf := ring_put INPUT_BUF (in_buf q) (in_e q) b, in_e := in_e q + 1\<rparr>"
  shows "con_ok q'" "con_view q' = (fst (con_view q), snd (con_view q) @ [b])"
    "con_ok (q'\<lparr>in_w := in_e q'\<rparr>)" "con_view (q'\<lparr>in_w := in_e q'\<rparr>) = (fst (con_view q) @ snd (con_view q) @ [b], [])"
    "unat (in_e q' - in_r q') = unat (in_e q - in_r q) + 1"
proof -
  note d = con_okD [OF assms(1)]
  have el: "unat (in_e q + 1 - in_r q) = unat (in_e q - in_r q) + 1" using assms(2) by (intro unat_succ_diff) simp
  have ew: "unat (in_e q + 1 - in_w q) = unat (in_e q - in_w q) + 1" using assms(2) d(2) by (intro unat_succ_diff) simp
  have ol: "unat (in_w q - in_r q) \<le> unat (in_e q + 1 - in_r q)" using el d(2) by simp
  show ok: "con_ok q'" using assms(1,2) el d(2) by (simp add: con_ok_def q'_def)
  have all: "ring_view INPUT_BUF (in_buf q') (in_r q) (in_e q + 1) = ring_view INPUT_BUF (in_buf q) (in_r q) (in_e q) @ [b]"
    unfolding q'_def using ring_put_view [OF ring_size_128 d(1) assms(2)] by simp
  have sp: "ring_view INPUT_BUF (in_buf q') (in_r q) (in_e q + 1) =
      ring_view INPUT_BUF (in_buf q') (in_r q) (in_w q) @ ring_view INPUT_BUF (in_buf q') (in_w q) (in_e q + 1)"
    by (rule ring_view_split [OF ol])
  have "ring_view INPUT_BUF (in_buf q') (in_r q) (in_w q) = ring_view INPUT_BUF (in_buf q) (in_r q) (in_w q) \<and>
      ring_view INPUT_BUF (in_buf q') (in_w q) (in_e q + 1) = ring_view INPUT_BUF (in_buf q) (in_w q) (in_e q) @ [b]"
    using sp unfolding all d(4) by (simp add: append_eq_append_conv)
  then show "con_view q' = (fst (con_view q), snd (con_view q) @ [b])" by (simp add: con_view_def q'_def)
  show "con_ok (q'\<lparr>in_w := in_e q'\<rparr>)" using ok by (simp add: con_ok_def)
  show "con_view (q'\<lparr>in_w := in_e q'\<rparr>) = (fst (con_view q) @ snd (con_view q) @ [b], [])"
    using all d(4) by (simp add: con_view_def q'_def)
  show "unat (in_e q' - in_r q') = unat (in_e q - in_r q) + 1" using el by (simp add: q'_def)
qed

lemma char_kill:
  assumes "screen_ok s" "con_ok (input s)"
  shows "\<exists>t. consoleintr_char 21 s = Ok False t \<and> edited s (edit_char 21 (con_view (input s))) t"
proof -
  obtain t where "for_each [0..<kill_count (input s)] (\<lambda>_. con_erase) s = Ok () t"
      "edited s (fst (con_view (input s)), kill_line (snd (con_view (input s)))) t"
    using erase_loop [OF assms, of "kill_count (input s)"] kill_count_view [OF assms(2)] by auto
  then show ?thesis by (simp add: consoleintr_char_def edit_char_def case_prod_beta)
qed

lemma char_erase:
  assumes "screen_ok s" "con_ok (input s)" "c = 8 \<or> c = 127"
  shows "\<exists>t. consoleintr_char c s = Ok False t \<and> edited s (edit_char c (con_view (input s))) t"
proof -
  let ?q = "input s"
  have e: "edit_char c (con_view ?q) = (fst (con_view ?q), butlast (snd (con_view ?q)))"
    using assms(3) by (auto simp: edit_char_def case_prod_beta)
  have r: "consoleintr_char c s = (if in_e ?q = in_w ?q then Ok False s else seq con_erase (ret False) s)"
    using assms(3) by (auto simp: consoleintr_char_def)
  show ?thesis
  proof (cases "in_e ?q = in_w ?q")
    case True
    then have "snd (con_view ?q) = []" using length_con_view(2) [of ?q] by simp
    then have "con_view ?q = (fst (con_view ?q), butlast (snd (con_view ?q)))" by (simp add: prod_eq_iff)
    then show ?thesis unfolding e r using True assms(1,2) by (simp add: edited_def)
  next
    case False
    obtain t where "con_erase s = Ok () t" "screen_ok t" "input t = ?q\<lparr>in_e := in_e ?q - 1\<rparr>" "held t = held s"
      using con_erase_ok [OF assms(1)] by blast
    then show ?thesis unfolding e r using False erase_view(1,2) [OF assms(2) False] by (simp add: edited_def)
  qed
qed

lemma ring_full: "in_e q = in_r q + of_nat INPUT_BUF \<longleftrightarrow> unat (in_e q - in_r q) = INPUT_BUF"
proof -
  have "in_e q = in_r q + of_nat INPUT_BUF \<longleftrightarrow> in_e q - in_r q = of_nat INPUT_BUF" by (auto simp: algebra_simps)
  also have "\<dots> \<longleftrightarrow> unat (in_e q - in_r q) = unat (of_nat INPUT_BUF :: u32)" by (rule word_unat_eq_iff)
  finally show ?thesis by simp
qed

lemma char_type:
  assumes s: "screen_ok s" "con_ok (input s)" "LPtable \<notin> set (held s)"
    and c: "c \<notin> {16, 21, 8, 127}" "c \<noteq> 0" and room: "unat (in_e (input s) - in_r (input s)) < INPUT_BUF"
  shows "\<exists>t. consoleintr_char c s = Ok False t \<and> edited s (edit_char c (con_view (input s))) t"
proof -
  let ?q = "input s"
  define c' where "c' = (if c = 13 then 10 else c)"
  define q' where "q' = ?q\<lparr>in_buf := ring_put INPUT_BUF (in_buf ?q) (in_e ?q) (of_int c'), in_e := in_e ?q + 1\<rparr>"
  note tv = type_view [OF s(2) room, of "of_int c'", folded q'_def]
  have "screen_ok (s\<lparr>input := q'\<rparr>)" using s(1) by (simp add: screen_ok_def)
  then obtain t where t: "consputc c' (s\<lparr>input := q'\<rparr>) = Ok () t" "screen_ok t" "pframe (s\<lparr>input := q'\<rparr>) t"
    using consputc_ok by blast
  note f = pframeD(1,2,3) [OF t(3)]
  let ?w = "c' = 10 \<or> c' = 4 \<or> unat (in_e q' - in_r q') = INPUT_BUF"
  have run: "consoleintr_char c s = (if ?w then Ok False (t\<lparr>input := q'\<lparr>in_w := in_e q'\<rparr>, ptable := map (wake_proc ChInput) (ptable t)\<rparr>) else Ok False t)"
    using c room t(1) f s(3)
    by (simp add: consoleintr_char_def set_input_def c'_def [symmetric] q'_def [symmetric] Let_def ring_full [unfolded of_nat_numeral])
  have g: "length (fst (con_view ?q)) + length (snd (con_view ?q)) = unat (in_e ?q - in_r ?q)"
    using length_con_view [of ?q] con_okD(2) [OF s(2)] by simp
  have e: "edit_char c (con_view ?q) = (if ?w then (fst (con_view ?q) @ snd (con_view ?q) @ [of_int c'], [])
      else (fst (con_view ?q), snd (con_view ?q) @ [of_int c']))"
    using c room g tv(5) by (simp add: edit_char_def case_prod_beta Let_def c'_def [symmetric])
  show ?thesis
    unfolding run e using tv(1-4) t(2) f by (cases ?w) (simp_all add: edited_def screen_ok_def)
qed

lemma consoleintr_char_ok:
  assumes s: "screen_ok s" "con_ok (input s)" "LPtable \<notin> set (held s)"
  shows "\<exists>t. consoleintr_char c s = Ok (c = 16) t \<and> edited s (edit_char c (con_view (input s))) t"
proof -
  let ?q = "input s"
  have g: "length (fst (con_view ?q)) + length (snd (con_view ?q)) = unat (in_e ?q - in_r ?q)"
    using length_con_view [of ?q] con_okD(2) [OF s(2)] by simp
  consider "c = 16" | "c = 21" | "c = 8 \<or> c = 127" | "c \<notin> {16, 21, 8, 127}" "c = 0 \<or> \<not> unat (in_e ?q - in_r ?q) < INPUT_BUF"
    | "c \<notin> {16, 21, 8, 127}" "c \<noteq> 0" "unat (in_e ?q - in_r ?q) < INPUT_BUF" by blast
  then show ?thesis
  proof cases
    case 1
    then show ?thesis using s by (simp add: consoleintr_char_def edit_char_def edited_def case_prod_beta)
  next
    case 2
    then show ?thesis using char_kill [OF s(1,2)] by simp
  next
    case 3
    then show ?thesis using char_erase [OF s(1,2), of c] by auto
  next
    case 4
    then have "edit_char c (con_view ?q) = con_view ?q"
      using g by (elim disjE) (simp_all add: edit_char_def case_prod_beta)
    moreover have "consoleintr_char c s = Ok False s" using 4 by (elim disjE) (simp_all add: consoleintr_char_def)
    ultimately show ?thesis using 4 s by (simp add: edited_def)
  next
    case 5
    then show ?thesis using char_type [OF s, of c] by simp
  qed
qed

lemma consoleintr_loop_ok:
  assumes "screen_ok s" "con_ok (input s)" "LPtable \<notin> set (held s)" "\<forall>c\<in>set cs. 0 \<le> c \<and> c \<noteq> 16"
  shows "\<exists>t. consoleintr_loop cs False s = Ok False t \<and> edited s (fold edit_char cs (con_view (input s))) t"
  using assms
proof (induction cs arbitrary: s)
  case (Cons c cs)
  obtain t where t: "consoleintr_char c s = Ok False t" "edited s (edit_char c (con_view (input s))) t"
    using consoleintr_char_ok [OF Cons.prems(1-3), of c] Cons.prems(4) by auto
  then have "\<exists>u. consoleintr_loop cs False t = Ok False u \<and> edited t (fold edit_char cs (con_view (input t))) u"
    using Cons.IH [of t] Cons.prems(3,4) by (simp add: edited_def)
  then show ?case using t Cons.prems(4) by (auto simp: edited_def)
qed (simp add: edited_def)

lemma read_view:
  assumes "con_ok q" "con_view q = (c # cs, typed)"
  shows "in_r q \<noteq> in_w q" "ring_get INPUT_BUF (in_buf q) (in_r q) = c" "con_ok (q\<lparr>in_r := in_r q + 1\<rparr>)"
    "con_view (q\<lparr>in_r := in_r q + 1\<rparr>) = (cs, typed)"
proof -
  have v: "ring_view INPUT_BUF (in_buf q) (in_r q) (in_w q) = c # cs" "ring_view INPUT_BUF (in_buf q) (in_w q) (in_e q) = typed"
    using assms(2) by (simp_all add: con_view_def)
  show ne: "in_r q \<noteq> in_w q" using v(1) by auto
  note g = ring_get_view [OF ne [symmetric], of INPUT_BUF "in_buf q"]
  show "ring_get INPUT_BUF (in_buf q) (in_r q) = c" using g v by simp
  show "con_view (q\<lparr>in_r := in_r q + 1\<rparr>) = (cs, typed)" using g v by (simp add: con_view_def)
  have "unat (in_w q - in_r q) = Suc (unat (in_w q - (in_r q + 1)))" using unat_pred_diff [OF ne [symmetric]] .
  moreover have "in_e q \<noteq> in_r q" using con_okD(2) [OF assms(1)] calculation by auto
  then have "unat (in_e q - in_r q) = Suc (unat (in_e q - (in_r q + 1)))" by (rule unat_pred_diff)
  ultimately show "con_ok (q\<lparr>in_r := in_r q + 1\<rparr>)" using assms(1) by (simp add: con_ok_def)
qed

lemma consoleread_loop_line:
  assumes "con_ok (input s)" "con_view (input s) = (line @ 10 # rest, typed)" "10 \<notin> set line" "4 \<notin> set line" "length line < n"
  shows "\<exists>t. consoleread_loop ip target n acc s = Ok (Some (acc @ line @ [10])) t \<and> con_ok (input t) \<and> con_view (input t) = (rest, typed)"
  using assms
proof (induction line arbitrary: n acc s)
  case Nil
  then obtain k where k: "n = Suc k" by (cases n) auto
  note r = read_view [OF Nil.prems(1), of 10 rest typed]
  show ?case using r Nil.prems(2) k by (simp add: set_input_def Let_def)
next
  case (Cons c line)
  then obtain k where k: "n = Suc k" "length line < k" by (cases n) auto
  note r = read_view [OF Cons.prems(1), of c "line @ 10 # rest" typed]
  let ?s = "s\<lparr>input := (input s)\<lparr>in_r := in_r (input s) + 1\<rparr>\<rparr>"
  have "\<exists>t. consoleread_loop ip target k (acc @ [c]) ?s = Ok (Some ((acc @ [c]) @ line @ [10])) t \<and> con_ok (input t) \<and> con_view (input t) = (rest, typed)"
    using Cons.IH [of ?s k "acc @ [c]"] r Cons.prems k(2) by simp
  moreover have "c \<noteq> 10" "c \<noteq> 4" using Cons.prems(3,4) by auto
  ultimately show ?case using r Cons.prems(2) k(1) by (simp add: set_input_def Let_def)
qed

section \<open>Numbers\<close>

definition digits_val :: "nat \<Rightarrow> byte list \<Rightarrow> nat" where
  "digits_val base ds = foldl (\<lambda>v d. v * base + (if d < 58 then unat d - 48 else unat d - 87)) 0 ds"

lemma digit_val: "d < 16 \<Longrightarrow> (if hexdigit d < 58 then unat (hexdigit d) - 48 else unat (hexdigit d) - 87) = d"
proof -
  assume "d < 16"
  then have "unat (of_nat (48 + d) :: byte) = 48 + d" "unat (of_nat (87 + d) :: byte) = 87 + d"
    by (subst unat_of_nat, simp add: take_bit_nat_eq_self)+
  then show ?thesis by (auto simp: hexdigit_def word_less_nat_alt)
qed

lemma rev_digits_val:
  assumes "1 < base" "base \<le> 16"
  shows "digits_val base (rev (rev_digits base x)) = x"
proof (induction x rule: less_induct)
  case (less x)
  have d: "x mod base < 16" using assms mod_less_divisor [of base x] by linarith
  have app: "digits_val base (ds @ [hexdigit (x mod base)]) = digits_val base ds * base + x mod base" for ds
    using digit_val [OF d] by (simp add: digits_val_def)
  show ?case
  proof (cases "x div base = 0")
    case True
    then show ?thesis using app [of "[]"] assms by (subst rev_digits.simps) (simp add: digits_val_def div_eq_0_iff)
  next
    case False
    then have "x div base < x" using assms by (auto simp: div_eq_0_iff)
    from less [OF this] show ?thesis using app False assms by (subst rev_digits.simps) simp
  qed
qed

lemma sint_u32: "sint (x :: u32) = (if uint x < 2 ^ 31 then uint x else uint x - 2 ^ 32)"
proof -
  have r: "0 \<le> uint x" "uint x < 2 ^ 32" using uint_lt2p [of x] by simp_all
  have s: "sint x = (uint x + 2 ^ 31) mod 2 ^ 32 - 2 ^ 31" using int_word_sint [of "uint x", where 'a = 32] by simp
  show ?thesis
  proof (cases "uint x < 2 ^ 31")
    case True
    then show ?thesis using s r by simp
  next
    case False
    then have "(uint x + 2 ^ 31) mod 2 ^ 32 = uint x + 2 ^ 31 - 2 ^ 32"
      using r by (subst minus_mod_self2 [symmetric]) (simp add: mod_pos_pos_trivial)
    then show ?thesis using s False by simp
  qed
qed

lemma neg_u32: "sint (x :: u32) < 0 \<Longrightarrow> int (unat (- x)) = - sint x"
proof -
  assume "sint x < 0"
  then have n: "\<not> uint x < 2 ^ 31" using sint_u32 [of x] by (auto split: if_splits)
  have "uint x < 2 ^ 32" using uint_lt2p [of x] by simp
  then have "(- uint x) mod 2 ^ 32 = 2 ^ 32 - uint x" using n zmod_zminus1_eq_if [of "uint x" "2 ^ 32"] by simp
  then show ?thesis using n sint_u32 [of x] by (simp add: uint_word_ariths)
qed

section \<open>Properties\<close>

text \<open>
  C23: The console driver is a line editor: for the characters of an interrupt, the lines
  that can be read and the line being typed change as the editing functions say (erase,
  kill line, end of line, full buffer), also when the counters of the ring buffer wrap
  around, and the cursor never leaves the screen, so that printing cannot panic.
\<close>
theorem console_line_editor:
  fixes s :: "'z cst_scheme"
  assumes "screen_ok s" and "con_ok (input s)" and "held s = []" and "\<forall>c\<in>set cs. 0 \<le> c \<and> c \<noteq> 16"
  shows "\<exists>t. consoleintr dump cs s = Ok () t \<and> screen_ok t \<and> con_ok (input t) \<and> held t = [] \<and>
     con_view (input t) = fold edit_char cs (con_view (input s))"
proof -
  let ?s = "s\<lparr>held := [LCons]\<rparr>"
  have "screen_ok ?s" "con_ok (input ?s)" "LPtable \<notin> set (held ?s)" using assms(1,2) by (simp_all add: screen_ok_def)
  from consoleintr_loop_ok [OF this assms(4)]
  obtain t where "consoleintr_loop cs False ?s = Ok False t" "edited ?s (fold edit_char cs (con_view (input s))) t" by auto
  then show ?thesis using assms(3) by (simp add: consoleintr_def edited_def screen_ok_def)
qed

text \<open>A console with an empty screen.\<close>

definition demo_vst :: vst where
  "demo_vst = mst.extend demo_mst (vst.fields 0 0 (replicate 6 None) \<lparr>ts_esp0 = 0, ts_ss0 = 0, ts_iomb = 0\<rparr> 0 0)"

definition demo_cst :: cst where
  "demo_cst = vst.extend demo_vst (cst.fields False True True [] 0 (replicate 2000 0)
     \<lparr>in_buf = replicate INPUT_BUF 0, in_r = 0, in_w = 0, in_e = 0\<rparr>)"

lemma demo_cst_ok: "screen_ok demo_cst" "con_ok (input demo_cst)" "held demo_cst = []" "con_view (input demo_cst) = ([], [])"
  using demo_mst_fields(6)
  by (simp_all add: demo_cst_def demo_vst_def vst.extend_def cst.fields_def screen_ok_def con_ok_def con_view_def mst.extend_def vst.fields_def)

theorem console_line_editor_witness:
  "\<exists>t. consoleintr (ret ()) [97, 98, 8, 99, 13, 100] demo_cst = Ok () t \<and> con_view (input t) = ([97, 99, 10], [100])"
  using console_line_editor [OF demo_cst_ok(1-3), of "[97, 98, 8, 99, 13, 100]" "ret ()"]
  by (auto simp: demo_cst_ok edit_char_def)

text \<open>
  C24: \<open>consoleread\<close> takes one line: if the input that can be read starts with a line that
  fits, the loop returns that line with its newline and leaves the rest for the next call.
\<close>
theorem consoleread_line:
  fixes s :: "'z cst_scheme"
  assumes "con_ok (input s)" and "con_view (input s) = (line @ 10 # rest, typed)"
    and "10 \<notin> set line" and "4 \<notin> set line" and "length line < n"
  shows "\<exists>t. consoleread_loop ip n n [] s = Ok (Some (line @ [10])) t \<and> con_ok (input t) \<and> con_view (input t) = (rest, typed)"
proof -
  from consoleread_loop_line [OF assms, of ip n "[]"] show ?thesis by simp
qed

definition demo_typed :: cst where
  "demo_typed = demo_cst\<lparr>input := \<lparr>in_buf = [104, 105, 10, 120] @ replicate 124 0, in_r = 0, in_w = 4, in_e = 4\<rparr>\<rparr>"

theorem consoleread_line_witness:
  "\<exists>t. consoleread_loop 0 80 80 [] demo_typed = Ok (Some [104, 105, 10]) t \<and> con_view (input t) = ([120], [])"
proof -
  have i: "con_ok (input demo_typed)" by (simp add: demo_typed_def con_ok_def)
  have v: "con_view (input demo_typed) = ([104, 105] @ 10 # [120], [])"
    by (simp add: demo_typed_def con_view_def ring_view_def upt_rec ring_get_def)
  show ?thesis using consoleread_line [OF i v, of 80 0] by auto
qed

text \<open>
  C25: \<open>printint\<close> prints the number it is given: in base 10 with a sign, the digits read
  back are the value of the argument as a signed integer (also for the smallest one), and
  in base 16 its value as an unsigned integer.
\<close>
theorem printint_value:
  "(sint x < 0 \<longrightarrow> (\<exists>ds. int_chars x 10 True = 45 # ds \<and> int (digits_val 10 ds) = - sint x)) \<and>
   (0 \<le> sint x \<longrightarrow> int (digits_val 10 (int_chars x 10 True)) = sint x) \<and>
   digits_val 16 (int_chars x 16 False) = unat x"
proof (intro conjI impI)
  show "\<exists>ds. int_chars x 10 True = 45 # ds \<and> int (digits_val 10 ds) = - sint x" if "sint x < 0"
    using that neg_u32 [OF that] rev_digits_val [of 10 "unat (- x)"] by (simp add: int_chars_def)
  show "int (digits_val 10 (int_chars x 10 True)) = sint x" if "0 \<le> sint x"
    using that sint_u32 [of x] uint_lt2p [of x] rev_digits_val [of 10 "unat x"] by (auto simp: int_chars_def split: if_splits)
  show "digits_val 16 (int_chars x 16 False) = unat x" using rev_digits_val [of 16 "unat x"] by (simp add: int_chars_def)
qed

theorem printint_value_witness:
  "(\<exists>ds. int_chars (- 25) 10 True = 45 # ds \<and> int (digits_val 10 ds) = 25) \<and> int (digits_val 10 (int_chars 77 10 True)) = 77"
  using printint_value [of "- 25"] printint_value [of 77] by simp

end
