(* ===== verification/Pipe.thy ===== *)
theory Pipe
  imports Console
begin

text \<open>
  \<open>pipe.c\<close>: reading, writing and closing a pipe. A pipe lives in a page of its own; the
  record at the page's address stands for its bytes. What is written comes from a byte
  list and what is read is returned as one. \<open>pipealloc\<close>, which also allocates files, is
  in \<open>File\<close>.
\<close>

section \<open>State\<close>

abbreviation (input) PIPESIZE :: nat where "PIPESIZE \<equiv> 512"

record pipe =
  pi_data :: "byte list"
  pi_nread :: u32
  pi_nwrite :: u32
  pi_readopen :: bool
  pi_writeopen :: bool

text \<open>\<open>struct file\<close> (\<open>file.h\<close>) and the file table.\<close>

datatype ftype = FD_NONE | FD_PIPE | FD_INODE

record fileobj =
  f_type :: ftype
  f_ref :: int
  f_readable :: bool
  f_writable :: bool
  f_pipe :: u32
  f_ip :: nat
  f_off :: u32

record fls = cst +
  ftable :: "fileobj list"
  pipes :: "u32 \<Rightarrow> pipe"

definition set_pipe :: "u32 \<Rightarrow> (pipe \<Rightarrow> pipe) \<Rightarrow> ('z fls_scheme, unit) kop" where
  "set_pipe p f = upd (\<lambda>s. s\<lparr>pipes := (pipes s)(p := f (pipes s p))\<rparr>)"

definition get_pipe :: "u32 \<Rightarrow> ('z fls_scheme, pipe) kop" where
  "get_pipe p = getf (\<lambda>s. pipes s p)"

section \<open>Operations\<close>

definition pipeclose :: "u32 \<Rightarrow> bool \<Rightarrow> ('z fls_scheme, unit) kop" where
  "pipeclose p writable =
     seq (lock (LPipe (unat p)))
    (seq (if writable
          then seq (set_pipe p (\<lambda>q. q\<lparr>pi_writeopen := False\<rparr>)) (wakeup (ChPipeR (unat p)))
          else seq (set_pipe p (\<lambda>q. q\<lparr>pi_readopen := False\<rparr>)) (wakeup (ChPipeW (unat p))))
    (bnd (get_pipe p) (\<lambda>q.
     if \<not> pi_readopen q \<and> \<not> pi_writeopen q
     then seq (unlock (LPipe (unat p))) (kfree p)
     else unlock (LPipe (unat p)))))"

definition pipe_full :: "pipe \<Rightarrow> bool" where
  "pipe_full q \<longleftrightarrow> pi_nwrite q = pi_nread q + of_nat PIPESIZE"

definition pipe_empty :: "pipe \<Rightarrow> bool" where
  "pipe_empty q \<longleftrightarrow> pi_nread q = pi_nwrite q"

definition pipe_put :: "byte \<Rightarrow> pipe \<Rightarrow> pipe" where
  "pipe_put b q = q\<lparr>pi_data := ring_put PIPESIZE (pi_data q) (pi_nwrite q) b, pi_nwrite := pi_nwrite q + 1\<rparr>"

definition pipe_get :: "pipe \<Rightarrow> byte \<times> pipe" where
  "pipe_get q = (ring_get PIPESIZE (pi_data q) (pi_nread q), q\<lparr>pi_nread := pi_nread q + 1\<rparr>)"

text \<open>
  The loop of \<open>pipewrite\<close> on the bytes that are left. A full pipe puts the writer to
  sleep; once woken it goes on with the same bytes.
\<close>

primrec pipewrite_loop :: "u32 \<Rightarrow> byte list \<Rightarrow> ('z fls_scheme, bool) kop" where
  "pipewrite_loop p [] = ret True"
| "pipewrite_loop p (b # bs) =
     bnd (get_pipe p) (\<lambda>q.
     if pipe_full q then
       bnd (getf curkilled) (\<lambda>k.
       if \<not> pi_readopen q \<or> k then ret False
       else
         seq (wakeup (ChPipeR (unat p)))
        (seq (sleep (ChPipeW (unat p)) (LPipe (unat p)))
             (block ''pipewrite'')))
     else seq (set_pipe p (pipe_put b)) (pipewrite_loop p bs))"

definition pipewrite :: "u32 \<Rightarrow> byte list \<Rightarrow> ('z fls_scheme, int) kop" where
  "pipewrite p addr =
     seq (lock (LPipe (unat p)))
    (bnd (pipewrite_loop p addr) (\<lambda>ok.
     if ok then
       seq (wakeup (ChPipeR (unat p)))
      (seq (unlock (LPipe (unat p)))
           (ret (int (length addr))))
     else seq (unlock (LPipe (unat p))) (ret (-1))))"

primrec piperead_loop :: "u32 \<Rightarrow> nat \<Rightarrow> ('z fls_scheme, byte list) kop" where
  "piperead_loop p 0 = ret []"
| "piperead_loop p (Suc n) =
     bnd (get_pipe p) (\<lambda>q.
     if pipe_empty q then ret []
     else
       let (b, q) = pipe_get q in
       seq (set_pipe p (\<lambda>_. q))
      (bnd (piperead_loop p n) (\<lambda>bs. ret (b # bs))))"

definition piperead :: "u32 \<Rightarrow> nat \<Rightarrow> ('z fls_scheme, byte list option) kop" where
  "piperead p n =
     seq (lock (LPipe (unat p)))
    (bnd (get_pipe p) (\<lambda>q.
     if pipe_empty q \<and> pi_writeopen q then
       bnd (getf curkilled) (\<lambda>k.
       if k then seq (unlock (LPipe (unat p))) (ret None)
       else seq (sleep (ChPipeR (unat p)) (LPipe (unat p))) (block ''piperead''))
     else
       bnd (piperead_loop p n) (\<lambda>bs.
       seq (wakeup (ChPipeW (unat p)))
      (seq (unlock (LPipe (unat p)))
           (ret (Some bs))))))"

section \<open>A pipe is a bounded queue\<close>

definition pipe_ok :: "pipe \<Rightarrow> bool" where
  "pipe_ok q \<longleftrightarrow> length (pi_data q) = PIPESIZE \<and> unat (pi_nwrite q - pi_nread q) \<le> PIPESIZE"

definition pipe_abs :: "pipe \<Rightarrow> byte list" where
  "pipe_abs q = ring_view PIPESIZE (pi_data q) (pi_nread q) (pi_nwrite q)"

lemma length_pipe_abs: "length (pipe_abs q) = unat (pi_nwrite q - pi_nread q)"
  by (simp add: pipe_abs_def)

lemma pipe_full_iff: "pipe_full q \<longleftrightarrow> length (pipe_abs q) = PIPESIZE"
proof -
  have "pipe_full q \<longleftrightarrow> pi_nwrite q - pi_nread q = of_nat PIPESIZE" by (auto simp: pipe_full_def algebra_simps)
  also have "\<dots> \<longleftrightarrow> unat (pi_nwrite q - pi_nread q) = unat (of_nat PIPESIZE :: u32)" by (rule word_unat_eq_iff)
  finally show ?thesis by (simp add: length_pipe_abs)
qed

lemma pipe_empty_iff: "pipe_empty q \<longleftrightarrow> pipe_abs q = []"
proof -
  have "pipe_empty q \<longleftrightarrow> length (pipe_abs q) = 0" by (auto simp: pipe_empty_def length_pipe_abs unat_eq_0)
  then show ?thesis by simp
qed

interpretation pq: fifo pipe_ok pipe_abs PIPESIZE pipe_full pipe_empty pipe_put pipe_get
proof unfold_locales
  fix q :: pipe and b :: byte and bs :: "byte list"
  assume ok: "pipe_ok q"
  show "length (pipe_abs q) \<le> PIPESIZE" using ok by (simp add: pipe_ok_def length_pipe_abs)
  show "pipe_full q \<longleftrightarrow> length (pipe_abs q) = PIPESIZE" by (rule pipe_full_iff)
  show "pipe_empty q \<longleftrightarrow> pipe_abs q = []" by (rule pipe_empty_iff)
  show "pipe_ok (pipe_put b q) \<and> pipe_abs (pipe_put b q) = pipe_abs q @ [b]" if "length (pipe_abs q) < PIPESIZE"
  proof
    have room: "unat (pi_nwrite q - pi_nread q) < PIPESIZE" "length (pi_data q) = PIPESIZE"
      using that ok by (simp_all add: length_pipe_abs pipe_ok_def)
    show "pipe_abs (pipe_put b q) = pipe_abs q @ [b]"
      using ring_put_view [of PIPESIZE "pi_data q" "pi_nwrite q" "pi_nread q" b] room by (simp add: pipe_abs_def pipe_put_def ring_size_def)
    have "unat (pi_nwrite q + 1 - pi_nread q) = unat (pi_nwrite q - pi_nread q) + 1" using room(1) by (intro unat_succ_diff) simp
    then show "pipe_ok (pipe_put b q)" using room by (simp add: pipe_ok_def pipe_put_def)
  qed
  show "fst (pipe_get q) = b \<and> pipe_ok (snd (pipe_get q)) \<and> pipe_abs (snd (pipe_get q)) = bs" if "pipe_abs q = b # bs"
  proof -
    have ne: "pi_nwrite q \<noteq> pi_nread q" using that by (auto simp: pipe_abs_def)
    have "unat (pi_nwrite q - pi_nread q) = Suc (unat (pi_nwrite q - (pi_nread q + 1)))" by (rule unat_pred_diff [OF ne])
    then show ?thesis
      using ring_get_view [OF ne, of PIPESIZE "pi_data q"] that ok by (simp add: pipe_get_def pipe_ok_def pipe_abs_def)
  qed
qed

section \<open>Running the operations\<close>

definition put_pipe :: "u32 \<Rightarrow> pipe \<Rightarrow> 'z fls_scheme \<Rightarrow> 'z fls_scheme" where
  "put_pipe p q s = s\<lparr>pipes := (pipes s)(p := q)\<rparr>"

lemma put_pipe_fields [simp]: "pipes (put_pipe p q s) p = q" "held (put_pipe p q s) = held s" "cur (put_pipe p q s) = cur s"
    "ptable (put_pipe p q s) = ptable s" "curkilled (put_pipe p q s) = curkilled s"
  by (simp_all add: put_pipe_def curkilled_def split: option.split)

lemma put_pipe_same [simp]: "put_pipe p (pipes s p) s = s"
proof -
  have "(pipes s)(p := pipes s p) = pipes s" by simp
  then show ?thesis unfolding put_pipe_def by (simp only:) simp
qed

lemma put_pipe_twice [simp]: "put_pipe p q (put_pipe p r s) = put_pipe p q s"
proof -
  have "pipes (put_pipe p r s) = (pipes s)(p := r)" by (simp add: put_pipe_def)
  then have "(pipes (put_pipe p r s))(p := q) = (pipes s)(p := q)" by simp
  then show ?thesis unfolding put_pipe_def [of p q] by (simp only:) (simp add: put_pipe_def)
qed

lemma put_pipe_held [simp]: "put_pipe p q (s\<lparr>held := h\<rparr>) = (put_pipe p q s)\<lparr>held := h\<rparr>" "pipes (s\<lparr>held := h\<rparr>) = pipes s"
  by (simp_all add: put_pipe_def)

lemma set_pipe_run [simp]: "set_pipe p f s = Ok () (put_pipe p (f (pipes s p)) s)"
  by (simp add: set_pipe_def put_pipe_def)

lemma get_pipe_run [simp]: "get_pipe p s = Ok (pipes s p) s"
  by (simp add: get_pipe_def)

lemma curkilled_frame [simp]: "curkilled (s\<lparr>held := h\<rparr>) = curkilled s"
  by (simp_all add: curkilled_def split: option.split)

lemma pipe_put_open [simp]: "pi_readopen (pipe_put b q) = pi_readopen q" "pi_writeopen (pipe_put b q) = pi_writeopen q"
    "pi_nread (pipe_put b q) = pi_nread q"
  by (simp_all add: pipe_put_def)

lemma puts_open [simp]: "pi_readopen (fst (pq.puts bs q)) = pi_readopen q" "pi_writeopen (fst (pq.puts bs q)) = pi_writeopen q"
  by (induction bs arbitrary: q) simp_all

lemma gets_open [simp]: "pi_readopen (snd (pq.gets n q)) = pi_readopen q" "pi_writeopen (snd (pq.gets n q)) = pi_writeopen q"
  by (induction n arbitrary: q) (simp_all add: pipe_get_def Let_def case_prod_beta)

text \<open>The state in which process \<open>i\<close> has gone to sleep, with \<open>ptable.lock\<close> handed to the scheduler.\<close>

definition asleep :: "nat \<Rightarrow> chan \<Rightarrow> 'z kst_scheme \<Rightarrow> 'z kst_scheme" where
  "asleep i c s = s\<lparr>held := [LPtable], ptable := (ptable s)[i := (ptable s ! i)\<lparr>p_chan := Some c, p_state := SLEEPING\<rparr>]\<rparr>"

lemma sleep_run:
  assumes "cur s = Some i" "i < length (ptable s)" "held s = [lk]" "lk \<noteq> LPtable"
  shows "sleep c lk s = Block ''sched'' (asleep i c s)"
  using assms
  by (simp add: sleep_def sleep_enter_def sched_def sched_checks_def myproc_def set_proc_def asleep_def)

lemma pipewrite_loop_run:
  fixes s :: "'z fls_scheme"
  shows "pipewrite_loop p bs s =
     (let q = fst (pq.puts bs (pipes s p)); t = put_pipe p q s in
      if snd (pq.puts bs (pipes s p)) = [] then Ok True t
      else if \<not> pi_readopen q \<or> curkilled s then Ok False t
      else seq (wakeup (ChPipeR (unat p))) (seq (sleep (ChPipeW (unat p)) (LPipe (unat p))) (block ''pipewrite'')) t)"
proof (induction bs arbitrary: s)
  case (Cons b bs)
  show ?case
  proof (cases "pipe_full (pipes s p)")
    case True
    then show ?thesis by (simp add: Let_def)
  next
    case False
    then show ?thesis using Cons.IH [of "put_pipe p (pipe_put b (pipes s p)) s"] by (simp add: Let_def)
  qed
qed (simp add: Let_def)

lemma piperead_loop_run:
  fixes s :: "'z fls_scheme"
  shows "piperead_loop p n s = Ok (fst (pq.gets n (pipes s p))) (put_pipe p (snd (pq.gets n (pipes s p))) s)"
proof (induction n arbitrary: s)
  case (Suc n)
  show ?case
  proof (cases "pipe_empty (pipes s p)")
    case False
    then show ?thesis
      using Suc.IH [of "put_pipe p (snd (pipe_get (pipes s p))) s"] by (simp add: Let_def case_prod_beta)
  qed simp
qed simp

definition woken :: "chan \<Rightarrow> 'z kst_scheme \<Rightarrow> 'z kst_scheme" where
  "woken c s = s\<lparr>ptable := map (wake_proc c) (ptable s)\<rparr>"

lemma pipewrite_run:
  fixes s :: "'z fls_scheme"
  assumes "held s = []" "cur s = Some i" "i < length (ptable s)"
    and q: "pq.puts bs (pipes s p) = (q, rest)"
  shows "pipewrite p bs s =
     (let t = put_pipe p q s in
      if rest = [] then Ok (int (length bs)) (woken (ChPipeR (unat p)) t)
      else if \<not> pi_readopen (pipes s p) \<or> curkilled s then Ok (-1) t
      else Block ''sched'' (asleep i (ChPipeW (unat p)) (woken (ChPipeR (unat p)) t)))"
proof -
  let ?t = "(put_pipe p q s)\<lparr>held := [LPipe (unat p)]\<rparr>"
  have sl: "sleep (ChPipeW (unat p)) (LPipe (unat p)) (woken (ChPipeR (unat p)) ?t) =
      Block ''sched'' (asleep i (ChPipeW (unat p)) (woken (ChPipeR (unat p)) ?t))"
    by (rule sleep_run) (use assms(2,3) in \<open>simp_all add: woken_def\<close>)
  have e: "asleep i c (woken d ?t) = asleep i c (woken d (put_pipe p q s))" for c d
    by (simp add: asleep_def woken_def)
  have "pi_readopen q = pi_readopen (pipes s p)" using puts_open(1) [of bs "pipes s p"] q by simp
  then show ?thesis
    using assms(1) sl [unfolded e] e
    by (simp add: pipewrite_def pipewrite_loop_run Let_def q woken_def)
qed

lemma piperead_run:
  fixes s :: "'z fls_scheme"
  assumes "held s = []" "cur s = Some i" "i < length (ptable s)"
  shows "piperead p n s =
     (let q = pipes s p; t = put_pipe p (snd (pq.gets n q)) s in
      if pipe_empty q \<and> pi_writeopen q then
        (if curkilled s then Ok None s else Block ''sched'' (asleep i (ChPipeR (unat p)) s))
      else Ok (Some (fst (pq.gets n q))) (woken (ChPipeW (unat p)) t))"
proof -
  let ?t = "s\<lparr>held := [LPipe (unat p)]\<rparr>"
  have sl: "sleep (ChPipeR (unat p)) (LPipe (unat p)) ?t = Block ''sched'' (asleep i (ChPipeR (unat p)) ?t)"
    by (rule sleep_run) (use assms(2,3) in simp_all)
  have e: "asleep i c ?t = asleep i c s" for c by (simp add: asleep_def)
  show ?thesis
    using assms(1) sl [unfolded e] by (simp add: piperead_def piperead_loop_run Let_def woken_def)
qed

section \<open>Readers and writers interleaved\<close>

text \<open>
  Processes that write to and read from one pipe, scheduled in any order. A process that
  is not asleep is dispatched and runs one call up to its return or to the \<open>sleep\<close>
  inside it; a writer that slept goes on with the bytes it has left. The histories are all
  bytes that writers put into the pipe and all bytes that readers got out of it.
\<close>

definition dispatch :: "nat \<Rightarrow> 'z kst_scheme \<Rightarrow> 'z kst_scheme" where
  "dispatch i s = s\<lparr>cur := Some i, ptable := (ptable s)[i := (ptable s ! i)\<lparr>p_state := RUNNING, p_chan := None\<rparr>]\<rparr>"

definition settle :: "('a, 'z kst_scheme) outcome \<Rightarrow> 'z kst_scheme" where
  "settle oc = (case oc of Ok _ t \<Rightarrow> t\<lparr>held := []\<rparr> | Panic _ t \<Rightarrow> t | Block _ t \<Rightarrow> t\<lparr>held := []\<rparr> | Fault _ t \<Rightarrow> t)"

type_synonym pconf = "u32 \<times> fls \<times> byte list \<times> byte list"

inductive pstep :: "pconf \<Rightarrow> pconf \<Rightarrow> bool" where
  pwrite: "i < length (ptable s) \<Longrightarrow> p_state (ptable s ! i) \<noteq> SLEEPING \<Longrightarrow>
     t = settle (pipewrite p bs (dispatch i s)) \<Longrightarrow>
     pstep (p, s, sent, rcvd) (p, t, sent @ take (unat (pi_nwrite (pipes t p) - pi_nwrite (pipes s p))) bs, rcvd)"
| pread: "i < length (ptable s) \<Longrightarrow> p_state (ptable s ! i) \<noteq> SLEEPING \<Longrightarrow>
     piperead p n (dispatch i s) = Ok (Some bs) t \<Longrightarrow>
     pstep (p, s, sent, rcvd) (p, settle (Ok () t), sent, rcvd @ bs)"
| pwait: "i < length (ptable s) \<Longrightarrow> p_state (ptable s ! i) \<noteq> SLEEPING \<Longrightarrow>
     piperead p n (dispatch i s) = Block e t \<Longrightarrow>
     pstep (p, s, sent, rcvd) (p, settle (Block e t :: (unit, fls) outcome), sent, rcvd)"

inductive_cases pstepE: "pstep c c'"

definition waits :: "'z kst_scheme \<Rightarrow> nat \<Rightarrow> chan \<Rightarrow> bool" where
  "waits s i c \<longleftrightarrow> i < length (ptable s) \<and> p_state (ptable s ! i) = SLEEPING \<and> p_chan (ptable s ! i) = Some c"

definition pipe_live :: "u32 \<Rightarrow> fls \<Rightarrow> bool" where
  "pipe_live p s \<longleftrightarrow> held s = [] \<and> pipe_ok (pipes s p) \<and> pi_readopen (pipes s p) \<and> (\<forall>x\<in>set (ptable s). \<not> p_killed x)"

definition pinv :: "pconf \<Rightarrow> bool" where
  "pinv = (\<lambda>(p, s, sent, rcvd). pipe_live p s \<and> sent = rcvd @ pipe_abs (pipes s p) \<and>
     (\<forall>i. waits s i (ChPipeW (unat p)) \<longrightarrow> pipe_full (pipes s p)) \<and>
     (\<forall>i. waits s i (ChPipeR (unat p)) \<longrightarrow> pipe_empty (pipes s p) \<and> pi_writeopen (pipes s p)))"

definition pstart :: "pconf \<Rightarrow> bool" where
  "pstart = (\<lambda>(p, s, sent, rcvd). pipe_live p s \<and> pipe_empty (pipes s p) \<and> sent = [] \<and> rcvd = [] \<and>
     (\<forall>i. \<not> waits s i (ChPipeW (unat p)) \<and> \<not> waits s i (ChPipeR (unat p))))"

lemma waits_dispatch: "waits (dispatch i s) j c \<longleftrightarrow> j \<noteq> i \<and> waits s j c"
  by (cases "j = i") (auto simp: waits_def dispatch_def)

lemma waits_woken: "waits (woken c s) j d \<longleftrightarrow> d \<noteq> c \<and> waits s j d"
  by (auto simp: waits_def woken_def wake_proc_def split: if_splits)

lemma waits_asleep: "i < length (ptable s) \<Longrightarrow> waits (asleep i c s) j d \<longleftrightarrow> (if j = i then d = c else waits s j d)"
  by (auto simp: waits_def asleep_def)

lemma held_woken [simp]: "held (woken c s) = held s"
  by (simp add: woken_def)

lemma waits_frame [simp]: "waits (s\<lparr>held := h\<rparr>) j d = waits s j d" "waits (put_pipe p q s) j d = waits s j d"
  by (simp_all add: waits_def)

lemma killed_wake [simp]: "p_killed (wake_proc c x) = p_killed x"
  by (simp add: wake_proc_def)

lemma pipes_frame [simp]: "pipes (dispatch i s) = pipes s" "pipes (woken c s) = pipes s" "pipes (asleep i c s) = pipes s"
  by (simp_all add: dispatch_def woken_def asleep_def)

lemma dispatch_fields [simp]: "cur (dispatch i s) = Some i" "held (dispatch i s) = held s" "length (ptable (dispatch i s)) = length (ptable s)"
  by (simp_all add: dispatch_def)

lemma curkilled_dispatch: "i < length (ptable s) \<Longrightarrow> \<forall>x\<in>set (ptable s). \<not> p_killed x \<Longrightarrow> \<not> curkilled (dispatch i s)"
  by (simp add: curkilled_def dispatch_def)

lemma killed_frames:
  assumes "\<forall>x\<in>set (ptable s). \<not> p_killed x" "i < length (ptable s)"
  shows "\<forall>x\<in>set (ptable (dispatch i s)). \<not> p_killed x" "\<forall>x\<in>set (ptable (woken c s)). \<not> p_killed x"
    "\<forall>x\<in>set (ptable (asleep i c s)). \<not> p_killed x"
  using assms set_update_subset_insert by (fastforce simp: dispatch_def woken_def asleep_def)+

text \<open>The pipe after \<open>bs\<close> was put into it, as far as there was room.\<close>

lemma puts_full:
  assumes "pipe_ok q" "pq.puts bs q = (q', rest)"
  shows "pipe_ok q'" "pipe_abs q' = pipe_abs q @ take (unat (pi_nwrite q' - pi_nwrite q)) bs"
    "rest \<noteq> [] \<Longrightarrow> pipe_full q'" "pipe_full q \<Longrightarrow> pipe_full q'" "pi_writeopen q' = pi_writeopen q" "pi_readopen q' = pi_readopen q"
proof -
  note s = pq.puts_spec [OF assms(1), of bs, unfolded assms(2) fst_conv snd_conv]
  show "pipe_ok q'" using s by blast
  show "pi_writeopen q' = pi_writeopen q" "pi_readopen q' = pi_readopen q" using puts_open [of bs q] assms(2) by simp_all
  have b: "length (pipe_abs q) \<le> PIPESIZE" by (rule pq.bound [OF assms(1)])
  have r: "pi_nread q' = pi_nread q"
  proof -
    have "pi_nread (fst (pq.puts bs q)) = pi_nread q" by (induction bs arbitrary: q) simp_all
    then show ?thesis using assms(2) by simp
  qed
  have len: "length (pipe_abs q') = length (pipe_abs q) + min (length bs) (PIPESIZE - length (pipe_abs q))" using s by simp
  have "pi_nwrite q' - pi_nwrite q = (pi_nwrite q' - pi_nread q') - (pi_nwrite q - pi_nread q)" using r by simp
  then have "unat (pi_nwrite q' - pi_nwrite q) = length (pipe_abs q') - length (pipe_abs q)"
    using len by (simp only: length_pipe_abs) (subst unat_sub, simp_all add: word_le_nat_alt)
  then have "take (unat (pi_nwrite q' - pi_nwrite q)) bs = take (PIPESIZE - length (pipe_abs q)) bs" using len by (simp add: min_def)
  then show "pipe_abs q' = pipe_abs q @ take (unat (pi_nwrite q' - pi_nwrite q)) bs" using s by simp
  show "pipe_full q'" if "rest \<noteq> []" using that s b unfolding pipe_full_iff by auto
  show "pipe_full q'" if "pipe_full q" using that s unfolding pipe_full_iff by simp
qed

lemma pinv_write:
  fixes bs :: "byte list"
  assumes inv: "pinv (p, s, sent, rcvd)" and i: "i < length (ptable s)"
  defines "t \<equiv> settle (pipewrite p bs (dispatch i s))"
  shows "pinv (p, t, sent @ take (unat (pi_nwrite (pipes t p) - pi_nwrite (pipes s p))) bs, rcvd)"
proof -
  let ?d = "dispatch i s" and ?W = "ChPipeW (unat p)" and ?R = "ChPipeR (unat p)"
  have live: "held s = []" "pipe_ok (pipes s p)" "pi_readopen (pipes s p)" "\<forall>x\<in>set (ptable s). \<not> p_killed x"
    and h: "sent = rcvd @ pipe_abs (pipes s p)" and w: "\<And>j. waits s j ?W \<Longrightarrow> pipe_full (pipes s p)"
    and r: "\<And>j. waits s j ?R \<Longrightarrow> pipe_empty (pipes s p) \<and> pi_writeopen (pipes s p)"
    using inv by (auto simp: pinv_def pipe_live_def)
  obtain q rest where q: "pq.puts bs (pipes s p) = (q, rest)" by fastforce
  note f = puts_full [OF live(2) q]
  have k: "\<not> curkilled ?d" by (rule curkilled_dispatch [OF i live(4)])
  note kf = killed_frames [OF live(4) i]
  let ?t = "put_pipe p q ?d"
  have run: "pipewrite p bs ?d = (if rest = [] then Ok (int (length bs)) (woken ?R ?t)
      else Block ''sched'' (asleep i ?W (woken ?R ?t)))"
    using pipewrite_run [of ?d i bs p q rest] live i q k by (simp add: Let_def)
  show ?thesis
  proof (cases "rest = []")
    case True
    then have t: "t = (woken ?R ?t)\<lparr>held := []\<rparr>" unfolding t_def run settle_def by simp
    have "\<forall>j. waits t j ?W \<longrightarrow> pipe_full q" using w f(4) by (auto simp: t waits_woken waits_dispatch)
    moreover have "\<forall>j. \<not> waits t j ?R" by (simp add: t waits_woken)
    moreover have "\<forall>x\<in>set (ptable t). \<not> p_killed x" using kf(1) by (auto simp: t woken_def)
    moreover have "pipes t p = q" "held t = []" by (simp_all add: t)
    ultimately show ?thesis using f(1,2,6) live(3) h by (simp add: pinv_def pipe_live_def)
  next
    case False
    then have t: "t = (asleep i ?W (woken ?R ?t))\<lparr>held := []\<rparr>" unfolding t_def run settle_def by simp
    have il: "i < length (ptable (woken ?R ?t))" using i by (simp add: woken_def)
    have "\<not> waits t j ?R" for j by (simp add: t waits_asleep [OF il] waits_woken)
    moreover have "\<forall>x\<in>set (ptable (woken ?R ?t)). \<not> p_killed x" using kf(1) by (auto simp: woken_def)
    then have "\<forall>x\<in>set (ptable t). \<not> p_killed x" using killed_frames(3) [OF _ il, of ?W] by (simp add: t)
    ultimately show ?thesis using f False live h by (simp add: pinv_def pipe_live_def t)
  qed
qed

lemma pinv_read:
  assumes inv: "pinv (p, s, sent, rcvd)" and i: "i < length (ptable s)"
  shows "piperead p n (dispatch i s) = Ok (Some bs) t \<Longrightarrow> pinv (p, settle (Ok () t), sent, rcvd @ bs)"
    "piperead p n (dispatch i s) = Block e t \<Longrightarrow> pinv (p, settle (Block e t :: (unit, fls) outcome), sent, rcvd)"
proof -
  let ?d = "dispatch i s" and ?W = "ChPipeW (unat p)" and ?R = "ChPipeR (unat p)" and ?q = "pipes s p"
  have live: "held s = []" "pipe_ok ?q" "pi_readopen ?q" "\<forall>x\<in>set (ptable s). \<not> p_killed x"
    and h: "sent = rcvd @ pipe_abs ?q" and w: "\<And>j. waits s j ?W \<Longrightarrow> pipe_full ?q"
    and r: "\<And>j. waits s j ?R \<Longrightarrow> pipe_empty ?q \<and> pi_writeopen ?q"
    using inv by (auto simp: pinv_def pipe_live_def)
  have k: "\<not> curkilled ?d" by (rule curkilled_dispatch [OF i live(4)])
  note kf = killed_frames [OF live(4) i]
  let ?g = "pq.gets n ?q"
  have g: "fst ?g = take n (pipe_abs ?q)" "pipe_ok (snd ?g)" "pipe_abs (snd ?g) = drop n (pipe_abs ?q)"
    using pq.gets_spec [OF live(2)] by simp_all
  have run: "piperead p n ?d = (if pipe_empty ?q \<and> pi_writeopen ?q then Block ''sched'' (asleep i ?R ?d)
      else Ok (Some (fst ?g)) (woken ?W (put_pipe p (snd ?g) ?d)))"
    using piperead_run [of ?d i p n] live i k by (simp add: Let_def)
  show "pinv (p, settle (Ok () t), sent, rcvd @ bs)" if "piperead p n ?d = Ok (Some bs) t"
  proof -
    have ne: "\<not> (pipe_empty ?q \<and> pi_writeopen ?q)" and t: "t = woken ?W (put_pipe p (snd ?g) ?d)" and b: "bs = fst ?g"
      using that run by (auto split: if_splits)
    have nr: "\<not> waits s j ?R" for j using r ne by blast
    have "\<forall>x\<in>set (ptable t). \<not> p_killed x" using kf(1) by (auto simp: t woken_def)
    then show ?thesis
      using g live h nr by (simp add: pinv_def pipe_live_def settle_def t b waits_woken waits_dispatch)
  qed
  show "pinv (p, settle (Block e t :: (unit, fls) outcome), sent, rcvd)" if "piperead p n ?d = Block e t"
  proof -
    have em: "pipe_empty ?q \<and> pi_writeopen ?q" and t: "t = asleep i ?R ?d" using that run by (auto split: if_splits)
    have il: "i < length (ptable ?d)" using i by simp
    have "\<not> pipe_full ?q" using em pipe_full_iff [of ?q] pipe_empty_iff [of ?q] by simp
    then have nw: "\<not> waits s j ?W" for j using w by blast
    have "\<forall>x\<in>set (ptable t). \<not> p_killed x" using killed_frames(3) [OF kf(1) il] by (simp add: t)
    then show ?thesis
      using live h em nw by (simp add: pinv_def pipe_live_def settle_def t waits_asleep [OF il] waits_dispatch)
  qed
qed

interpretation pipes_run: machine pstart pstep pinv
proof unfold_locales
  fix c assume "pstart c"
  then show "pinv c" by (auto simp: pstart_def pinv_def pipe_empty_iff)
next
  fix c c' assume "pinv c" "pstep c c'"
  then show "pinv c'" by (elim pstepE) (auto dest: pinv_write pinv_read)
qed

section \<open>Properties\<close>

text \<open>
  C8: Whatever the interleaving of readers and writers, a pipe delivers the bytes that were
  written, in order and without loss: what was put in is what was read followed by what is
  in the pipe, never more than \<open>PIPESIZE\<close> bytes. No wake-up is lost: a writer sleeps only
  while the pipe is full and a reader only while it is empty, so they never wait for each
  other. The read end is open and no process is being killed.
\<close>
theorem pipe_protocol:
  assumes "reach pstart pstep (p, s, sent, rcvd)"
  shows "sent = rcvd @ pipe_abs (pipes s p) \<and> length (pipe_abs (pipes s p)) \<le> PIPESIZE \<and>
     (waits s i (ChPipeW (unat p)) \<longrightarrow> length (pipe_abs (pipes s p)) = PIPESIZE) \<and>
     (waits s j (ChPipeR (unat p)) \<longrightarrow> pipe_abs (pipes s p) = []) \<and>
     \<not> (waits s i (ChPipeW (unat p)) \<and> waits s j (ChPipeR (unat p)))"
proof -
  have "pinv (p, s, sent, rcvd)" using pipes_run.reach_inv [OF assms] .
  then have "sent = rcvd @ pipe_abs (pipes s p)" "pipe_ok (pipes s p)"
      "waits s i (ChPipeW (unat p)) \<Longrightarrow> length (pipe_abs (pipes s p)) = PIPESIZE"
      "waits s j (ChPipeR (unat p)) \<Longrightarrow> pipe_abs (pipes s p) = []"
    by (auto simp: pinv_def pipe_live_def pipe_full_iff pipe_empty_iff)
  then show ?thesis using pq.bound [of "pipes s p"] by fastforce
qed

definition new_pipe :: pipe where
  "new_pipe = \<lparr>pi_data = replicate PIPESIZE 0, pi_nread = 0, pi_nwrite = 0, pi_readopen = True, pi_writeopen = True\<rparr>"

text \<open>Two processes and an empty pipe.\<close>

definition demo_fls :: fls where
  "demo_fls = (cst.extend demo_cst (fls.fields [] (\<lambda>_. new_pipe)))\<lparr>ptable := replicate 2 (zero_proc\<lparr>p_state := RUNNABLE\<rparr>)\<rparr>"

lemma demo_fls_fields [simp]: "held demo_fls = []" "ptable demo_fls = replicate 2 (zero_proc\<lparr>p_state := RUNNABLE\<rparr>)"
    "pipes demo_fls = (\<lambda>_. new_pipe)" "ftable demo_fls = []"
  using demo_cst_ok(3) by (simp_all add: demo_fls_def cst.extend_def fls.fields_def)

lemma new_pipe_ok [simp]: "pipe_ok new_pipe" "pi_readopen new_pipe" "pi_writeopen new_pipe" "pipe_empty new_pipe" "pipe_abs new_pipe = []"
    "pi_nwrite new_pipe = 0" "pi_nread new_pipe = 0"
  by (simp_all add: new_pipe_def pipe_ok_def pipe_empty_def pipe_abs_def)

lemma demo_fls_start: "pstart (p, demo_fls, [], [])"
proof -
  have "\<not> waits demo_fls i c" for i c by (cases "i < 2") (simp_all add: waits_def)
  then show ?thesis by (simp add: pstart_def pipe_live_def zero_proc_def)
qed

theorem pipe_protocol_witness:
  "\<exists>s. reach pstart pstep (0x80200000, s, [], []) \<and> waits s 1 (ChPipeR (unat (0x80200000 :: u32))) \<and>
     \<not> waits s 0 (ChPipeW (unat (0x80200000 :: u32))) \<and> pipe_abs (pipes s 0x80200000) = []"
proof -
  let ?p = "0x80200000 :: u32" and ?d = "dispatch 1 demo_fls"
  have k: "\<not> curkilled ?d" by (rule curkilled_dispatch) (simp_all add: zero_proc_def)
  have r: "piperead ?p 3 ?d = Block ''sched'' (asleep 1 (ChPipeR (unat ?p)) ?d)"
    using piperead_run [of ?d 1 ?p 3] k by (simp add: Let_def)
  let ?s = "settle (Block ''sched'' (asleep 1 (ChPipeR (unat ?p)) ?d) :: (unit, fls) outcome)"
  have st: "reach pstart pstep (?p, ?s, [], [])"
    by (rule reach_step, rule reach_start, rule demo_fls_start, rule pwait [OF _ _ r]) (simp_all add: zero_proc_def)
  have w: "waits ?s 1 (ChPipeR (unat ?p))" by (simp add: settle_def waits_asleep)
  show ?thesis using pipe_protocol [OF st, where i = 0 and j = 1] st w by blast
qed

text \<open>
  C26: A writer that is killed while it waits for room leaves without waking the readers:
  the bytes it has put into the pipe are there, and a reader that found the pipe empty
  still sleeps, although there is something to read.
\<close>
theorem pipewrite_lost_wakeup:
  fixes s :: "'z fls_scheme"
  assumes "held s = []" and "cur s = Some i" and "i < length (ptable s)" and "pipe_ok (pipes s p)" and "pipe_empty (pipes s p)"
    and "curkilled s" and "waits s j (ChPipeR (unat p))" and "PIPESIZE < length bs"
  shows "\<exists>t. pipewrite p bs s = Ok (-1) t \<and> waits t j (ChPipeR (unat p)) \<and> pipe_abs (pipes t p) = take PIPESIZE bs"
proof -
  obtain q rest where q: "pq.puts bs (pipes s p) = (q, rest)" by fastforce
  have "pipe_abs q = take PIPESIZE bs" "rest \<noteq> []"
    using pq.puts_spec [OF assms(4), of bs] assms(5,8) unfolding q pipe_empty_iff by simp_all
  then show ?thesis using pipewrite_run [OF assms(1-3) q] assms(6,7) by (simp add: Let_def)
qed

theorem pipewrite_lost_wakeup_witness:
  "\<exists>s t :: fls. pipewrite 0x80200000 (replicate 600 7) s = Ok (-1) t \<and> waits t 1 (ChPipeR (unat (0x80200000 :: u32))) \<and>
     pipe_abs (pipes t 0x80200000) \<noteq> []"
proof -
  let ?p = "0x80200000 :: u32"
  let ?s = "demo_fls\<lparr>cur := Some 0, ptable := [zero_proc\<lparr>p_killed := True\<rparr>,
      zero_proc\<lparr>p_state := SLEEPING, p_chan := Some (ChPipeR (unat ?p))\<rparr>]\<rparr>"
  have w: "waits ?s 1 (ChPipeR (unat ?p))" by (simp add: waits_def One_nat_def)
  have k: "curkilled ?s" by (simp add: curkilled_def)
  have "\<exists>t. pipewrite ?p (replicate 600 7) ?s = Ok (-1) t \<and> waits t 1 (ChPipeR (unat ?p)) \<and>
      pipe_abs (pipes t ?p) = take PIPESIZE (replicate 600 7)"
    by (rule pipewrite_lost_wakeup [where i = 0, OF _ _ _ _ _ k w]) simp_all
  then show ?thesis by force
qed

end
