(* ===== verification/File.thy ===== *)
theory File
  imports Pipe
begin

text \<open>
  \<open>file.c\<close> and \<open>pipealloc\<close> of \<open>pipe.c\<close>: the table of open files. A file pointer is an
  index of the table, \<open>None\<close> the null pointer. The device table holds the console, as
  \<open>consoleinit\<close> sets it up.
\<close>

section \<open>The file table\<close>

definition fobj :: "nat \<Rightarrow> ('z fls_scheme, fileobj) kop" where
  "fobj f = getf (\<lambda>s. ftable s ! f)"

definition set_fobj :: "nat \<Rightarrow> (fileobj \<Rightarrow> fileobj) \<Rightarrow> ('z fls_scheme, unit) kop" where
  "set_fobj f g = upd (\<lambda>s. s\<lparr>ftable := (ftable s)[f := g (ftable s ! f)]\<rparr>)"

definition filealloc :: "('z fls_scheme, nat option) kop" where
  "filealloc =
     seq (lock LFtable)
    (bnd (getf ftable) (\<lambda>ft.
     case find_index (\<lambda>f. f_ref f = 0) ft of
       Some f \<Rightarrow>
         seq (set_fobj f (\<lambda>o'. o'\<lparr>f_ref := 1\<rparr>))
        (seq (unlock LFtable)
             (ret (Some f)))
     | None \<Rightarrow> seq (unlock LFtable) (ret None)))"

definition filedup :: "nat \<Rightarrow> ('z fls_scheme, nat) kop" where
  "filedup f =
     seq (lock LFtable)
    (bnd (fobj f) (\<lambda>o'.
     seq (panic_if (f_ref o' < 1) ''filedup'')
    (seq (set_fobj f (\<lambda>o'. o'\<lparr>f_ref := f_ref o' + 1\<rparr>))
    (seq (unlock LFtable)
         (ret f)))))"

definition fileclose :: "nat \<Rightarrow> ('z fls_scheme, unit) kop" where
  "fileclose f =
     seq (lock LFtable)
    (bnd (fobj f) (\<lambda>o'.
     seq (panic_if (f_ref o' < 1) ''fileclose'')
    (seq (set_fobj f (\<lambda>o'. o'\<lparr>f_ref := f_ref o' - 1\<rparr>))
    (bnd (fobj f) (\<lambda>ff.
     if f_ref ff > 0 then unlock LFtable
     else
       seq (set_fobj f (\<lambda>o'. o'\<lparr>f_ref := 0, f_type := FD_NONE\<rparr>))
      (seq (unlock LFtable)
           (if f_type ff = FD_PIPE then pipeclose (f_pipe ff) (f_writable ff)
            else whenc (f_type ff = FD_INODE) (seq begin_op (seq (iput (f_ip ff)) end_op)))))))))"

definition filestat :: "nat \<Rightarrow> ('z fls_scheme, fstat option) kop" where
  "filestat f =
     bnd (fobj f) (\<lambda>o'.
     if f_type o' = FD_INODE then
       seq (ilock (f_ip o'))
      (bnd (stati (f_ip o')) (\<lambda>st.
       seq (iunlock (f_ip o'))
           (ret (Some st))))
     else ret None)"

definition fileread :: "nat \<Rightarrow> nat \<Rightarrow> ('z fls_scheme, byte list option) kop" where
  "fileread f n =
     bnd (fobj f) (\<lambda>o'.
     if \<not> f_readable o' then ret None
     else if f_type o' = FD_PIPE then piperead (f_pipe o') n
     else if f_type o' = FD_INODE then
       seq (ilock (f_ip o'))
      (bnd (readi console_devsw (f_ip o') (f_off o') (of_nat n)) (\<lambda>r.
       seq (case r of Some (b # bs) \<Rightarrow> set_fobj f (\<lambda>o'. o'\<lparr>f_off := f_off o' + of_nat (length (b # bs))\<rparr>) | _ \<Rightarrow> ret ())
      (seq (iunlock (f_ip o'))
           (ret r))))
     else panic ''fileread'')"

text \<open>\<open>((MAXOPBLOCKS-1-1-2) / 2) * 512\<close>: the bytes of one transaction.\<close>

abbreviation (input) WRITEMAX :: nat where "WRITEMAX \<equiv> (MAXOPBLOCKS - 1 - 1 - 2) div 2 * 512"

text \<open>The loop of \<open>filewrite\<close> on the bytes that are left; the result says whether all were written.\<close>

function filewrite_loop :: "nat \<Rightarrow> nat \<Rightarrow> byte list \<Rightarrow> ('z fls_scheme, bool) kop" where
  "filewrite_loop f ip bs =
     (if bs = [] then ret True
      else
        let n1 = min (length bs) WRITEMAX in
        seq begin_op
       (seq (ilock ip)
       (bnd (fobj f) (\<lambda>o'.
        bnd (writei console_devsw ip (take n1 bs) (f_off o')) (\<lambda>r.
        seq (whenc (r > 0) (set_fobj f (\<lambda>o'. o'\<lparr>f_off := f_off o' + of_int r\<rparr>)))
       (seq (iunlock ip)
       (seq end_op
            (if r < 0 then ret False
             else seq (panic_if (r \<noteq> int n1) ''short filewrite'') (filewrite_loop f ip (drop n1 bs))))))))))"
  by pat_completeness auto
termination by (relation "measure (\<lambda>(f, ip, bs). length bs)") (auto simp: min_def)

declare filewrite_loop.simps [simp del]

definition filewrite :: "nat \<Rightarrow> byte list \<Rightarrow> ('z fls_scheme, int) kop" where
  "filewrite f bs =
     bnd (fobj f) (\<lambda>o'.
     if \<not> f_writable o' then ret (-1)
     else if f_type o' = FD_PIPE then pipewrite (f_pipe o') bs
     else if f_type o' = FD_INODE then
       bnd (filewrite_loop f (f_ip o') bs) (\<lambda>ok. ret (if ok then int (length bs) else -1))
     else panic ''filewrite'')"

definition pipealloc :: "('z fls_scheme, (nat \<times> nat) option) kop" where
  "pipealloc =
     bnd filealloc (\<lambda>f0.
     case f0 of
       None \<Rightarrow> ret None
     | Some f0 \<Rightarrow>
         bnd filealloc (\<lambda>f1.
         case f1 of
           None \<Rightarrow> seq (fileclose f0) (ret None)
         | Some f1 \<Rightarrow>
             bnd kalloc (\<lambda>p.
             if p = 0 then seq (fileclose f0) (seq (fileclose f1) (ret None))
             else
               seq (set_pipe p (\<lambda>q. q\<lparr>pi_readopen := True, pi_writeopen := True, pi_nwrite := 0, pi_nread := 0\<rparr>))
              (seq (set_fobj f0 (\<lambda>o'. o'\<lparr>f_type := FD_PIPE, f_readable := True, f_writable := False, f_pipe := p\<rparr>))
              (seq (set_fobj f1 (\<lambda>o'. o'\<lparr>f_type := FD_PIPE, f_readable := False, f_writable := True, f_pipe := p\<rparr>))
                   (ret (Some (f0, f1))))))))"

end
