(* ===== verification/Spinlock.thy ===== *)
theory Spinlock
  imports Kernel
begin

text \<open>
  \<open>spinlock.c\<close> and the part of \<open>proc.c\<close> it uses (\<open>mycpu\<close>): locks shared by all
  processors, the per-processor count of disabled-interrupt sections and the interrupt
  flag. The main result is that \<open>acquire\<close> and \<open>release\<close> refine the operations
  \<open>lock\<close> and \<open>unlock\<close> of \<open>Kernel\<close>.
\<close>

section \<open>State\<close>

record spin =
  lk_locked :: bool
  lk_cpu :: "nat option"
  lk_pcs :: "u32 list"

text \<open>The fields of \<open>struct cpu\<close> the locks use.\<close>

record cpu =
  c_apicid :: nat
  c_ncli :: int
  c_intena :: bool

text \<open>
  \<open>lapicid\<close> is the id of the processor executing the operation, \<open>eflags_if\<close> the
  interrupt flag of each processor by id, \<open>stackmem\<close> the words of kernel memory that
  \<open>getcallerpcs\<close> walks.
\<close>

record spst =
  cpus :: "cpu list"
  lapicid :: nat
  eflags_if :: "nat \<Rightarrow> bool"
  locks :: "lid \<Rightarrow> spin"
  stackmem :: "u32 \<Rightarrow> u32"

abbreviation (input) KERNBASE :: u32 where "KERNBASE \<equiv> 0x80000000"

section \<open>Operations\<close>

definition initlock :: "lid \<Rightarrow> (spst, unit) kop" where
  "initlock l = upd (\<lambda>s. s\<lparr>locks := (locks s)(l := (locks s l)\<lparr>lk_locked := False, lk_cpu := None\<rparr>)\<rparr>)"

definition readeflags_if :: "(spst, bool) kop" where
  "readeflags_if = getf (\<lambda>s. eflags_if s (lapicid s))"

definition cli :: "(spst, unit) kop" where
  "cli = upd (\<lambda>s. s\<lparr>eflags_if := (eflags_if s)(lapicid s := False)\<rparr>)"

definition sti :: "(spst, unit) kop" where
  "sti = upd (\<lambda>s. s\<lparr>eflags_if := (eflags_if s)(lapicid s := True)\<rparr>)"

definition mycpu :: "(spst, nat) kop" where
  "mycpu =
     bnd readeflags_if (\<lambda>f.
     seq (panic_if f ''mycpu called with interrupts enabled'')
    (bnd (getf (\<lambda>s. find_index (\<lambda>c. c_apicid c = lapicid s) (cpus s))) (\<lambda>r.
     case r of Some i \<Rightarrow> ret i | None \<Rightarrow> panic ''unknown apicid'')))"

definition set_cpu :: "nat \<Rightarrow> (cpu \<Rightarrow> cpu) \<Rightarrow> (spst, unit) kop" where
  "set_cpu i f = upd (\<lambda>s. s\<lparr>cpus := (cpus s)[i := f (cpus s ! i)]\<rparr>)"

definition pushcli :: "(spst, unit) kop" where
  "pushcli =
     bnd readeflags_if (\<lambda>eflags.
     seq cli
    (bnd mycpu (\<lambda>c.
     bnd (getf (\<lambda>s. c_ncli (cpus s ! c))) (\<lambda>ncli.
     seq (whenc (ncli = 0) (set_cpu c (\<lambda>r. r\<lparr>c_intena := eflags\<rparr>)))
         (set_cpu c (\<lambda>r. r\<lparr>c_ncli := c_ncli r + 1\<rparr>))))))"

definition popcli :: "(spst, unit) kop" where
  "popcli =
     bnd readeflags_if (\<lambda>f.
     seq (panic_if f ''popcli - interruptible'')
    (bnd mycpu (\<lambda>c.
     seq (set_cpu c (\<lambda>r. r\<lparr>c_ncli := c_ncli r - 1\<rparr>))
    (bnd (getf (\<lambda>s. cpus s ! c)) (\<lambda>r.
     seq (panic_if (c_ncli r < 0) ''popcli'')
         (whenc (c_ncli r = 0 \<and> c_intena r) sti))))))"

definition holding :: "lid \<Rightarrow> (spst, bool) kop" where
  "holding l =
     seq pushcli
    (bnd mycpu (\<lambda>c.
     bnd (getf (\<lambda>s. lk_locked (locks s l) \<and> lk_cpu (locks s l) = Some c)) (\<lambda>r.
     seq popcli (ret r))))"

text \<open>
  \<open>getcallerpcs\<close>: follow the saved frame pointers. \<open>v\<close> is the address of the caller's
  first argument; the loop stops at a null or user-space frame pointer and fills the rest
  of the ten entries with zero.
\<close>

fun walk_frames :: "(u32 \<Rightarrow> u32) \<Rightarrow> nat \<Rightarrow> u32 \<Rightarrow> u32 list" where
  "walk_frames mem 0 ebp = []"
| "walk_frames mem (Suc k) ebp =
     (if ebp = 0 \<or> ebp < KERNBASE \<or> ebp = 0xffffffff then replicate (Suc k) 0
      else mem (ebp + 4) # walk_frames mem k (mem ebp))"

definition getcallerpcs :: "(u32 \<Rightarrow> u32) \<Rightarrow> u32 \<Rightarrow> u32 list" where
  "getcallerpcs mem v = walk_frames mem 10 (v - 8)"

definition set_lock :: "lid \<Rightarrow> (spin \<Rightarrow> spin) \<Rightarrow> (spst, unit) kop" where
  "set_lock l f = upd (\<lambda>s. s\<lparr>locks := (locks s)(l := f (locks s l))\<rparr>)"

text \<open>
  \<open>acquire\<close>: when another processor owns the lock the \<open>xchg\<close> loop spins, which is the
  outcome \<open>Block\<close> of this run; \<open>v\<close> is the stack address \<open>&lk\<close>.
\<close>

definition acquire :: "u32 \<Rightarrow> lid \<Rightarrow> (spst, unit) kop" where
  "acquire v l =
     seq pushcli
    (bnd (holding l) (\<lambda>h.
     seq (panic_if h ''acquire'')
    (bnd (getf (\<lambda>s. lk_locked (locks s l))) (\<lambda>busy.
     if busy then block ''spin'' else
     seq (set_lock l (\<lambda>k. k\<lparr>lk_locked := True\<rparr>))
    (bnd mycpu (\<lambda>c.
     seq (set_lock l (\<lambda>k. k\<lparr>lk_cpu := Some c\<rparr>))
    (bnd (getf stackmem) (\<lambda>m.
     set_lock l (\<lambda>k. k\<lparr>lk_pcs := getcallerpcs m v\<rparr>)))))))))"

definition release :: "lid \<Rightarrow> (spst, unit) kop" where
  "release l =
     bnd (holding l) (\<lambda>h.
     seq (panic_if (\<not> h) ''release'')
    (seq (set_lock l (\<lambda>k. k\<lparr>lk_pcs := (lk_pcs k)[0 := 0], lk_cpu := None\<rparr>))
    (seq (set_lock l (\<lambda>k. k\<lparr>lk_locked := False\<rparr>))
         popcli)))"

section \<open>Nesting of interrupt-disabled sections\<close>

text \<open>The processor that runs the operation is known, and its index is \<open>c\<close>.\<close>

definition on_cpu :: "nat \<Rightarrow> spst \<Rightarrow> bool" where
  "on_cpu c s \<longleftrightarrow> find_index (\<lambda>r. c_apicid r = lapicid s) (cpus s) = Some c"

lemma on_cpu_bound: "on_cpu c s \<Longrightarrow> c < length (cpus s)"
  by (simp add: on_cpu_def find_index_Some)

lemma find_index_map: "find_index (\<lambda>r. P (f r)) xs = find_index P (map f xs)"
  by (induction xs) auto

lemma on_cpu_alt: "on_cpu c s \<longleftrightarrow> find_index (\<lambda>a. a = lapicid s) (map c_apicid (cpus s)) = Some c"
  by (simp add: on_cpu_def find_index_map [of "\<lambda>a. a = lapicid s" c_apicid])

lemma map_apicid_update [simp]:
  "c_apicid x = c_apicid (xs ! i) \<Longrightarrow> map c_apicid (xs[i := x]) = map c_apicid xs"
  by (cases "i < length xs") (simp_all add: map_update list_update_beyond list_update_same_conv)

lemma on_cpu_eflags [simp]: "on_cpu c (s\<lparr>eflags_if := e\<rparr>) = on_cpu c s"
  by (simp add: on_cpu_def)

lemma on_cpu_locks [simp]: "on_cpu c (s\<lparr>locks := e\<rparr>) = on_cpu c s"
  by (simp add: on_cpu_def)

lemma mycpu_Ok [simp]:
  "on_cpu c s \<Longrightarrow> \<not> eflags_if s (lapicid s) \<Longrightarrow> mycpu s = Ok c s"
  by (simp add: mycpu_def readeflags_if_def on_cpu_def)

text \<open>The effect of \<open>pushcli\<close> and \<open>popcli\<close> on the state, as functions.\<close>

definition pushed :: "nat \<Rightarrow> spst \<Rightarrow> spst" where
  "pushed c s = s\<lparr>eflags_if := (eflags_if s)(lapicid s := False),
     cpus := (cpus s)[c := (cpus s ! c)\<lparr>
        c_intena := (if c_ncli (cpus s ! c) = 0 then eflags_if s (lapicid s) else c_intena (cpus s ! c)),
        c_ncli := c_ncli (cpus s ! c) + 1\<rparr>]\<rparr>"

definition popped :: "nat \<Rightarrow> spst \<Rightarrow> spst" where
  "popped c s =
     (let r = cpus s ! c; s' = s\<lparr>cpus := (cpus s)[c := r\<lparr>c_ncli := c_ncli r - 1\<rparr>]\<rparr>
      in if c_ncli r = 1 \<and> c_intena r then s'\<lparr>eflags_if := (eflags_if s)(lapicid s := True)\<rparr> else s')"

lemma pushcli_Ok: "on_cpu c s \<Longrightarrow> pushcli s = Ok () (pushed c s)"
  by (frule on_cpu_bound)
    (simp add: pushcli_def readeflags_if_def cli_def set_cpu_def pushed_def)

lemma popcli_Ok:
  assumes "on_cpu c s" and "\<not> eflags_if s (lapicid s)" and "1 \<le> c_ncli (cpus s ! c)"
  shows "popcli s = Ok () (popped c s)"
  using assms on_cpu_bound [OF assms(1)]
  by (simp add: popcli_def readeflags_if_def set_cpu_def sti_def popped_def Let_def)

lemma on_cpu_pushed [simp]: "on_cpu c (pushed d s) = on_cpu c s"
  by (simp add: pushed_def on_cpu_alt)

lemma on_cpu_popped [simp]: "on_cpu c (popped d s) = on_cpu c s"
  by (simp add: popped_def on_cpu_alt Let_def)


lemma popped_pushed:
  assumes "on_cpu c s" and "\<not> eflags_if s (lapicid s) \<or> c_ncli (cpus s ! c) = 0"
    and "0 \<le> c_ncli (cpus s ! c)"
  shows "popped c (pushed c s) =
    s\<lparr>cpus := (cpus s)[c := (cpus s ! c)\<lparr>c_intena :=
       (if c_ncli (cpus s ! c) = 0 then eflags_if s (lapicid s) else c_intena (cpus s ! c))\<rparr>]\<rparr>"
  using assms on_cpu_bound [OF assms(1)]
  by (cases "cpus s ! c") (auto simp: popped_def pushed_def Let_def fun_upd_idem)

section \<open>Refinement of the one-processor view\<close>

text \<open>
  The locks a processor holds, in the order \<open>h\<close>, agree with the shared lock table and
  with the nesting depth of that processor; interrupts are off while any lock is held.
\<close>

definition refines :: "nat \<Rightarrow> spst \<Rightarrow> lid list \<Rightarrow> bool" where
  "refines c s h \<longleftrightarrow> on_cpu c s \<and> distinct h \<and>
     (\<forall>l. l \<in> set h \<longleftrightarrow> lk_locked (locks s l) \<and> lk_cpu (locks s l) = Some c) \<and>
     c_ncli (cpus s ! c) = int (length h) \<and> (h \<noteq> [] \<longrightarrow> \<not> eflags_if s (lapicid s))"

lemma refinesD:
  assumes "refines c s h"
  shows "on_cpu c s" "distinct h" "c_ncli (cpus s ! c) = int (length h)"
    "h \<noteq> [] \<Longrightarrow> \<not> eflags_if s (lapicid s)" "c < length (cpus s)"
    "l \<in> set h \<longleftrightarrow> lk_locked (locks s l) \<and> lk_cpu (locks s l) = Some c"
  using assms on_cpu_bound by (auto simp: refines_def)

lemma holding_Ok:
  assumes "refines c s h"
  shows "holding l s = Ok (l \<in> set h) (popped c (pushed c s))"
proof -
  note r = refinesD [OF assms]
  have "pushcli s = Ok () (pushed c s)" using r(1) by (rule pushcli_Ok)
  moreover have off: "\<not> eflags_if (pushed c s) (lapicid (pushed c s))"
    by (simp add: pushed_def)
  moreover have "popcli (pushed c s) = Ok () (popped c (pushed c s))"
    using r off by (intro popcli_Ok) (simp, simp, simp add: pushed_def)
  ultimately show ?thesis
    using r(1) r(6) [of l] by (simp add: holding_def) (simp add: pushed_def)
qed

lemma refines_popped_pushed:
  assumes "refines c s h"
  shows "refines c (popped c (pushed c s)) h" "locks (popped c (pushed c s)) = locks s"
    "lapicid (popped c (pushed c s)) = lapicid s" "eflags_if (popped c (pushed c s)) = eflags_if s"
proof -
  note r = refinesD [OF assms]
  have eq: "popped c (pushed c s) = s\<lparr>cpus := (cpus s)[c := (cpus s ! c)\<lparr>c_intena :=
       (if c_ncli (cpus s ! c) = 0 then eflags_if s (lapicid s) else c_intena (cpus s ! c))\<rparr>]\<rparr>"
    using r by (intro popped_pushed) auto
  show "refines c (popped c (pushed c s)) h"
    unfolding eq using assms r(5) by (auto simp: refines_def on_cpu_alt)
  show "locks (popped c (pushed c s)) = locks s" "lapicid (popped c (pushed c s)) = lapicid s"
    "eflags_if (popped c (pushed c s)) = eflags_if s"
    unfolding eq by simp_all
qed


lemma locks_pushed [simp]: "locks (pushed c s) = locks s" "locks (popped c s) = locks s"
  "lapicid (pushed c s) = lapicid s" "stackmem (pushed c s) = stackmem s"
  "lapicid (popped c s) = lapicid s" "stackmem (popped c s) = stackmem s"
  "eflags_if (pushed c s) (lapicid s) = False"
  by (simp_all add: pushed_def popped_def Let_def)

lemma ncli_pushed [simp]:
  "c < length (cpus s) \<Longrightarrow> c_ncli (cpus (pushed c s) ! c) = c_ncli (cpus s ! c) + 1"
  "length (cpus (pushed c s)) = length (cpus s)"
  by (simp_all add: pushed_def)

text \<open>
  Between \<open>pushcli\<close> and the update of the lock, the processor holds the same locks at one
  more level of nesting.
\<close>

lemma holding_after_push:
  assumes "refines c s h"
  shows "holding l (pushed c s) = Ok (l \<in> set h) (pushed c s)"
proof -
  note r = refinesD [OF assms]
  let ?t = "pushed c s"
  have off: "\<not> eflags_if ?t (lapicid ?t)" and n: "c_ncli (cpus ?t ! c) = int (length h) + 1"
    using r by simp_all
  have pp: "popped c (pushed c ?t) = ?t"
    using r n off by (subst popped_pushed) (auto simp: list_update_same_conv)
  have "popcli (pushed c ?t) = Ok () (popped c (pushed c ?t))"
  proof (rule popcli_Ok)
    show "on_cpu c (pushed c ?t)" using r(1) by simp
    show "\<not> eflags_if (pushed c ?t) (lapicid (pushed c ?t))"
      using locks_pushed(3,7) [of c ?t] by simp
    show "1 \<le> c_ncli (cpus (pushed c ?t) ! c)" using r(5) n by simp
  qed
  moreover have "\<not> eflags_if (pushed c ?t) (lapicid (pushed c ?t))"
    using locks_pushed(3,7) [of c ?t] by simp
  ultimately show ?thesis
    using r(1) r(6) [of l] pushcli_Ok [of c ?t] by (simp add: holding_def pp)
qed

lemma acquire_held:
  assumes "refines c s h" and "l \<in> set h"
  shows "\<exists>t. acquire v l s = Panic ''acquire'' t"
  using assms refinesD(1) [OF assms(1)]
  by (simp add: acquire_def pushcli_Ok holding_after_push seq_apply bnd_apply)

lemma acquire_contended:
  assumes "refines c s h" and "l \<notin> set h" and "lk_locked (locks s l)"
  shows "acquire v l s = Block ''spin'' (pushed c s)"
  using assms refinesD(1) [OF assms(1)]
  by (simp add: acquire_def pushcli_Ok holding_after_push)

lemma acquire_free:
  assumes "refines c s h" and "\<not> lk_locked (locks s l)"
  shows "\<exists>t. acquire v l s = Ok () t \<and> refines c t (l # h) \<and>
     c_intena (cpus t ! c) = (if h = [] then eflags_if s (lapicid s) else c_intena (cpus s ! c))"
proof -
  note r = refinesD [OF assms(1)]
  have nin: "l \<notin> set h" using r(6) assms(2) by blast
  let ?k = "(locks s l)\<lparr>lk_locked := True, lk_cpu := Some c, lk_pcs := getcallerpcs (stackmem s) v\<rparr>"
  let ?t = "(pushed c s)\<lparr>locks := (locks s)(l := ?k)\<rparr>"
  have "acquire v l s = Ok () ?t"
    using assms r(1) nin
    by (simp add: acquire_def pushcli_Ok holding_after_push set_lock_def)
  moreover have "refines c ?t (l # h)"
    using assms(1) nin r(5) by (auto simp: refines_def)
  moreover have "c_intena (cpus ?t ! c) = (if h = [] then eflags_if s (lapicid s) else c_intena (cpus s ! c))"
    using r by (simp add: pushed_def)
  ultimately show ?thesis by blast
qed

lemma release_free:
  assumes "refines c s h" and "l \<notin> set h"
  shows "\<exists>t. release l s = Panic ''release'' t"
  using assms by (simp add: release_def holding_Ok seq_apply bnd_apply)

lemma release_Ok:
  assumes "refines c s h" and "l \<in> set h"
  shows "\<exists>t. release l s = Ok () t \<and> refines c t (remove1 l h) \<and>
     (length h = 1 \<longrightarrow> eflags_if t (lapicid s) = c_intena (cpus s ! c))"
proof -
  note r = refinesD [OF assms(1)]
  let ?u = "popped c (pushed c s)"
  have ne: "h \<noteq> []" using assms(2) by auto
  have one: "remove1 l h = []" if "length h = Suc 0" using that assms(2) by (cases h) auto
  have u: "refines c ?u h" and lu: "locks ?u = locks s" and eu: "eflags_if ?u = eflags_if s"
    using refines_popped_pushed [OF assms(1)] by simp_all
  note ru = refinesD [OF u]
  have cu: "c_intena (cpus ?u ! c) = c_intena (cpus s ! c)"
    using r ne by (simp add: popped_pushed)
  let ?k = "(locks s l)\<lparr>lk_pcs := (lk_pcs (locks s l))[0 := 0], lk_cpu := None, lk_locked := False\<rparr>"
  let ?w = "?u\<lparr>locks := (locks s)(l := ?k)\<rparr>"
  have "popcli ?w = Ok () (popped c ?w)"
    using ru ne assms(2) by (intro popcli_Ok) (simp_all add: Suc_le_eq One_nat_def flip: of_nat_Suc)
  then have "release l s = Ok () (popped c ?w)"
    using assms(2) by (simp add: release_def holding_Ok [OF assms(1)] set_lock_def lu)
  moreover have "refines c (popped c ?w) (remove1 l h)"
    using u assms(2) ru(5) ne lu one
    by (auto simp: refines_def popped_def Let_def on_cpu_alt length_remove1 of_nat_diff Suc_le_eq One_nat_def)
  moreover have "length h = 1 \<longrightarrow> eflags_if (popped c ?w) (lapicid s) = c_intena (cpus s ! c)"
    using ru ne cu by (auto simp: popped_def Let_def)
  ultimately show ?thesis by blast
qed

end
