(* ===== verification/Proc.thy ===== *)
theory Proc
  imports File Spinlock
begin

text \<open>
  \<open>proc.c\<close>: creation, exit and reaping of processes, and the scheduler. A process is an
  index of the process table. The trap frame and the context, which the code keeps on the
  kernel stack, are fields of the process record. The addresses of the assembly labels
  \<open>trapret\<close> and of \<open>forkret\<close>, and the embedded binary \<open>initcode\<close>, are fields of the
  state that nothing changes. A context switch away from a process is the outcome
  \<open>Block\<close>.
\<close>

section \<open>State\<close>

record pst = fls +
  ticks :: u32
  first_proc :: bool
  a_forkret :: u32
  a_trapret :: u32
  initcode :: "byte list"

definition getp :: "nat \<Rightarrow> ('z kst_scheme, proc) kop" where
  "getp i = getf (\<lambda>s. ptable s ! i)"

text \<open>The running process; a null pointer there is an access the code does not guard.\<close>

definition curproc :: "('z kst_scheme, nat) kop" where
  "curproc = bnd myproc (\<lambda>p. case p of Some i \<Rightarrow> ret i | None \<Rightarrow> fault ''no current process'')"

section \<open>Creation\<close>

abbreviation (input) TFSIZE :: nat where "TFSIZE \<equiv> 76"

definition allocproc :: "('z pst_scheme, nat option) kop" where
  "allocproc =
     seq (lock LPtable)
    (bnd (getf ptable) (\<lambda>pt.
     case find_index (\<lambda>p. p_state p = UNUSED) pt of
       None \<Rightarrow> seq (unlock LPtable) (ret None)
     | Some i \<Rightarrow>
         bnd (getf nextpid) (\<lambda>pid.
         seq (set_proc i (\<lambda>p. p\<lparr>p_state := EMBRYO, p_pid := pid\<rparr>))
        (seq (upd (\<lambda>s. s\<lparr>nextpid := pid + 1\<rparr>))
        (seq (unlock LPtable)
        (bnd kalloc (\<lambda>k.
         seq (set_proc i (\<lambda>p. p\<lparr>p_kstack := k\<rparr>))
             (if k = 0 then seq (set_proc i (\<lambda>p. p\<lparr>p_state := UNUSED\<rparr>)) (ret None)
              else
                bnd (getf a_trapret) (\<lambda>tr.
                seq (kstore (k + of_nat KSTACKSIZE - of_nat TFSIZE - 4) tr)
               (bnd (getf a_forkret) (\<lambda>fr.
                seq (set_proc i (\<lambda>p. p\<lparr>p_context := zero_cx\<lparr>cx_eip := fr\<rparr>\<rparr>))
                    (ret (Some i)))))))))))))"

text \<open>\<open>safestrcpy\<close> into the name of a process, an array of 16 bytes.\<close>

definition set_name :: "byte list \<Rightarrow> proc \<Rightarrow> proc" where
  "set_name nm p = p\<lparr>p_name := bsplice 0 (safestrcpy (of_list nm) 16) (p_name p)\<rparr>"

definition user_tf :: trapframe where
  "user_tf = zero_tf\<lparr>tf_cs := of_nat (SEG_UCODE * 8) OR of_nat DPL_USER, tf_ds := of_nat (SEG_UDATA * 8) OR of_nat DPL_USER,
     tf_es := of_nat (SEG_UDATA * 8) OR of_nat DPL_USER, tf_ss := of_nat (SEG_UDATA * 8) OR of_nat DPL_USER,
     tf_eflags := FL_IF, tf_esp := of_nat PGSIZE, tf_eip := 0\<rparr>"

definition userinit :: "('z pst_scheme, unit) kop" where
  "userinit =
     bnd allocproc (\<lambda>r.
     case r of
       None \<Rightarrow> fault ''userinit: no process''
     | Some i \<Rightarrow>
         seq (upd (\<lambda>s. s\<lparr>initproc := Some i\<rparr>))
        (bnd setupkvm (\<lambda>d.
         seq (set_proc i (\<lambda>p. p\<lparr>p_pgdir := d\<rparr>))
        (seq (panic_if (d = 0) ''userinit: out of memory?'')
        (bnd (getf initcode) (\<lambda>code.
         seq (inituvm d code)
        (seq (set_proc i (\<lambda>p. set_name [105, 110, 105, 116, 99, 111, 100, 101] (p\<lparr>p_sz := of_nat PGSIZE, p_tf := user_tf\<rparr>)))
        (bnd (namei console_devsw [slash]) (\<lambda>c.
         seq (set_proc i (\<lambda>p. p\<lparr>p_cwd := c\<rparr>))
        (seq (lock LPtable)
        (seq (set_proc i (\<lambda>p. p\<lparr>p_state := RUNNABLE\<rparr>))
             (unlock LPtable))))))))))))"

definition growproc :: "int \<Rightarrow> ('z pst_scheme, int) kop" where
  "growproc n =
     bnd curproc (\<lambda>c.
     bnd (getp c) (\<lambda>p.
     bnd (if n > 0 then allocuvm (p_pgdir p) (p_sz p) (p_sz p + of_int n)
          else if n < 0 then deallocuvm (p_pgdir p) (p_sz p) (p_sz p + of_int n)
          else ret (p_sz p)) (\<lambda>sz.
     if n \<noteq> 0 \<and> sz = 0 then ret (-1)
     else
       seq (set_proc c (\<lambda>p. p\<lparr>p_sz := sz\<rparr>))
      (seq (switchuvm (Some c))
           (ret 0)))))"

definition fork :: "('z pst_scheme, int) kop" where
  "fork =
     bnd curproc (\<lambda>c.
     bnd allocproc (\<lambda>r.
     case r of
       None \<Rightarrow> ret (-1)
     | Some np \<Rightarrow>
         bnd (getp c) (\<lambda>p.
         bnd (copyuvm (p_pgdir p) (p_sz p)) (\<lambda>d.
         seq (set_proc np (\<lambda>q. q\<lparr>p_pgdir := d\<rparr>))
             (if d = 0 then
                bnd (getp np) (\<lambda>q.
                seq (kfree (p_kstack q))
               (seq (set_proc np (\<lambda>q. q\<lparr>p_kstack := 0, p_state := UNUSED\<rparr>))
                    (ret (-1))))
              else
                seq (set_proc np (\<lambda>q. q\<lparr>p_sz := p_sz p, p_parent := Some c, p_tf := (p_tf p)\<lparr>tf_eax := 0\<rparr>\<rparr>))
               (seq (for_each [0..<NOFILE] (\<lambda>k.
                       case p_ofile p ! k of
                         None \<Rightarrow> ret ()
                       | Some f \<Rightarrow> bnd (filedup f) (\<lambda>f. set_proc np (\<lambda>q. q\<lparr>p_ofile := (p_ofile q)[k := Some f]\<rparr>))))
               (bnd (case p_cwd p of None \<Rightarrow> fault ''fork: no cwd'' | Some ip \<Rightarrow> idup ip) (\<lambda>ip.
                seq (set_proc np (\<lambda>q. set_name (takeWhile (\<lambda>b. b \<noteq> 0) (p_name p)) (q\<lparr>p_cwd := Some ip\<rparr>)))
               (bnd (getp np) (\<lambda>q.
                seq (lock LPtable)
               (seq (set_proc np (\<lambda>q. q\<lparr>p_state := RUNNABLE\<rparr>))
               (seq (unlock LPtable)
                    (ret (p_pid q))))))))))))))"

section \<open>Exit and wait\<close>

definition wake_parent :: "nat option \<Rightarrow> ('z kst_scheme, unit) kop" where
  "wake_parent q = (case q of None \<Rightarrow> ret () | Some i \<Rightarrow> wakeup1 (ChProc i))"

text \<open>
  \<open>exit\<close>, which ends in the switch to the scheduler; \<open>exit_zombie\<close> is the part under
  \<open>ptable.lock\<close>, \<open>adopt\<close> one turn of its loop over the table.
\<close>

definition adopt :: "nat \<Rightarrow> nat option \<Rightarrow> nat \<Rightarrow> ('z kst_scheme, unit) kop" where
  "adopt c init i =
     bnd (getp i) (\<lambda>q.
     whenc (p_parent q = Some c)
      (seq (set_proc i (\<lambda>q. q\<lparr>p_parent := init\<rparr>))
           (whenc (p_state q = ZOMBIE) (wake_parent init))))"

definition exit_zombie :: "nat \<Rightarrow> nat option \<Rightarrow> ('z kst_scheme, unit) kop" where
  "exit_zombie c init =
     seq (lock LPtable)
    (bnd (getp c) (\<lambda>p.
     seq (wake_parent (p_parent p))
    (bnd (getf (\<lambda>s. length (ptable s))) (\<lambda>n.
     seq (for_each [0..<n] (adopt c init))
    (seq (set_proc c (\<lambda>p. p\<lparr>p_state := ZOMBIE\<rparr>))
    (seq sched
         (panic ''zombie exit'')))))))"

definition exit :: "('z pst_scheme, unit) kop" where
  "exit =
     bnd curproc (\<lambda>c.
     bnd (getf initproc) (\<lambda>init.
     seq (panic_if (init = Some c) ''init exiting'')
    (seq (for_each [0..<NOFILE] (\<lambda>fd.
            bnd (getp c) (\<lambda>p.
            case p_ofile p ! fd of
              None \<Rightarrow> ret ()
            | Some f \<Rightarrow> seq (fileclose f) (set_proc c (\<lambda>p. p\<lparr>p_ofile := (p_ofile p)[fd := None]\<rparr>)))))
    (seq begin_op
    (bnd (getp c) (\<lambda>p.
     seq (case p_cwd p of None \<Rightarrow> fault ''exit: no cwd'' | Some ip \<Rightarrow> iput ip)
    (seq end_op
    (seq (set_proc c (\<lambda>p. p\<lparr>p_cwd := None\<rparr>))
         (exit_zombie c init)))))))))"

text \<open>
  \<open>wait\<close>: one scan of the table. A zombie child is reaped; with children but no zombie
  the process sleeps, and scans again when it is woken.
\<close>

definition wait :: "('z pst_scheme, int) kop" where
  "wait =
     bnd curproc (\<lambda>c.
     seq (lock LPtable)
    (bnd (getf ptable) (\<lambda>pt.
     case find_index (\<lambda>p. p_parent p = Some c \<and> p_state p = ZOMBIE) pt of
       Some i \<Rightarrow>
         bnd (getp i) (\<lambda>p.
         seq (kfree (p_kstack p))
        (seq (set_proc i (\<lambda>p. p\<lparr>p_kstack := 0\<rparr>))
        (seq (freevm (p_pgdir p))
        (seq (set_proc i (\<lambda>p. p\<lparr>p_pid := 0, p_parent := None, p_name := (p_name p)[0 := 0], p_killed := False,
                                p_state := UNUSED\<rparr>))
        (seq (unlock LPtable)
             (ret (p_pid p)))))))
     | None \<Rightarrow>
         bnd (getf curkilled) (\<lambda>k.
         if \<not> (\<exists>p\<in>set pt. p_parent p = Some c) \<or> k then seq (unlock LPtable) (ret (-1))
         else seq (sleep (ChProc c) LPtable) (block ''wait'')))))"

section \<open>Scheduling\<close>

text \<open>
  The loop of \<open>scheduler\<close> from table index \<open>k\<close> on: the next runnable process is made the
  running one; \<open>None\<close> when the pass over the table is finished. The switch to the process
  and back follows; \<open>scheduler_back\<close> is what runs when it comes back.
\<close>

definition next_runnable :: "nat \<Rightarrow> proc list \<Rightarrow> nat option" where
  "next_runnable k pt = List.find (\<lambda>i. p_state (pt ! i) = RUNNABLE) [k..<length pt]"

definition scheduler_pick :: "nat \<Rightarrow> ('z pst_scheme, nat option) kop" where
  "scheduler_pick k =
     bnd (getf ptable) (\<lambda>pt.
     case next_runnable k pt of
       None \<Rightarrow> ret None
     | Some i \<Rightarrow>
         seq (upd (\<lambda>s. s\<lparr>cur := Some i\<rparr>))
        (seq (switchuvm (Some i))
        (seq (set_proc i (\<lambda>p. p\<lparr>p_state := RUNNING\<rparr>))
             (ret (Some i)))))"

definition scheduler_back :: "('z pst_scheme, unit) kop" where
  "scheduler_back = seq switchkvm (upd (\<lambda>s. s\<lparr>cur := None\<rparr>))"

text \<open>The end of one pass and the start of the next.\<close>

definition scheduler_turn :: "('z pst_scheme, unit) kop" where
  "scheduler_turn = seq (unlock LPtable) (lock LPtable)"

definition yield :: "('z pst_scheme, unit) kop" where
  "yield =
     seq (lock LPtable)
    (bnd curproc (\<lambda>c.
     seq (set_proc c (\<lambda>p. p\<lparr>p_state := RUNNABLE\<rparr>))
    (seq sched
         (unlock LPtable))))"

definition forkret :: "('z pst_scheme, unit) kop" where
  "forkret =
     seq (unlock LPtable)
    (bnd (getf first_proc) (\<lambda>f.
     whenc f
      (seq (upd (\<lambda>s. s\<lparr>first_proc := False\<rparr>))
      (seq (iinit ROOTDEV)
           (initlog ROOTDEV)))))"

definition kill :: "int \<Rightarrow> ('z pst_scheme, int) kop" where
  "kill pid =
     seq (lock LPtable)
    (bnd (getf ptable) (\<lambda>pt.
     case find_index (\<lambda>p. p_pid p = pid) pt of
       Some i \<Rightarrow>
         seq (set_proc i (\<lambda>p. p\<lparr>p_killed := True, p_state := (if p_state p = SLEEPING then RUNNABLE else p_state p)\<rparr>))
        (seq (unlock LPtable)
             (ret 0))
     | None \<Rightarrow> seq (unlock LPtable) (ret (-1))))"

section \<open>The process listing\<close>

definition state_name :: "procstate \<Rightarrow> byte list" where
  "state_name st = (case st of
       UNUSED \<Rightarrow> [117, 110, 117, 115, 101, 100] | EMBRYO \<Rightarrow> [101, 109, 98, 114, 121, 111]
     | SLEEPING \<Rightarrow> [115, 108, 101, 101, 112, 32] | RUNNABLE \<Rightarrow> [114, 117, 110, 98, 108, 101]
     | RUNNING \<Rightarrow> [114, 117, 110, 32, 32, 32] | ZOMBIE \<Rightarrow> [122, 111, 109, 98, 105, 101])"

definition procdump_one :: "proc \<Rightarrow> ('z pst_scheme, unit) kop" where
  "procdump_one p =
     whenc (p_state p \<noteq> UNUSED)
      (seq (cprintf [37, 100, 32, 37, 115, 32, 37, 115]
             [CNum (of_int (p_pid p)), CStr (Some (state_name (p_state p))), CStr (Some (takeWhile (\<lambda>b. b \<noteq> 0) (p_name p)))])
      (seq (bnd (getf pmem) (\<lambda>mem.
            whenc (p_state p = SLEEPING)
             (for_each (takeWhile (\<lambda>pc. pc \<noteq> 0) (getcallerpcs (\<lambda>a. load32 (kaddr a) mem) (cx_ebp (p_context p) + 8)))
               (\<lambda>pc. cprintf [32, 37, 112] [CNum pc]))))
           (cprintf [10] [])))"

definition procdump :: "('z pst_scheme, unit) kop" where
  "procdump = bnd (getf ptable) (\<lambda>pt. for_each pt procdump_one)"

end
