(* ===== verification/VmSpec.thy ===== *)
theory VmSpec
  imports Vm "HOL-Library.Sublist"
begin

text \<open>
  What the page table routines of \<open>vm.c\<close> do to the address space that the processor
  sees: \<open>mmu\<close> is the two-level walk of the hardware, \<open>vmap\<close> the page table entry it
  ends at. A page directory owns the page of the directory and the pages of its tables;
  \<open>space_ok\<close> says that these are distinct from each other and from the free pages.
\<close>

section \<open>The walk of the processor\<close>

text \<open>The two-level walk of the processor.\<close>

definition mmu :: "memory \<Rightarrow> u32 \<Rightarrow> u32 \<Rightarrow> nat option" where
  "mmu mem pd va =
     (let pde = load32 (unat pd + 4 * unat (PDX va)) mem in
      if pde AND PTE_P = 0 then None
      else
        let pte = load32 (unat (PTE_ADDR pde) + 4 * unat (PTX va)) mem in
        if pte AND PTE_P = 0 then None
        else Some (unat (PTE_ADDR pte) + unat (va AND 0xFFF)))"

text \<open>The page table behind an entry of the directory, and the entry of a page.\<close>

definition ptab :: "memory \<Rightarrow> u32 \<Rightarrow> nat \<Rightarrow> u32 option" where
  "ptab mem pd i = (let e = load32 (kaddr pd + 4 * i) mem in if e AND PTE_P = 0 then None else Some (P2V (PTE_ADDR e)))"

definition vmap :: "memory \<Rightarrow> u32 \<Rightarrow> u32 \<Rightarrow> u32 option" where
  "vmap mem pd va =
     (case ptab mem pd (unat (PDX va)) of
        None \<Rightarrow> None
      | Some q \<Rightarrow>
          let e = load32 (kaddr q + 4 * unat (PTX va)) mem in
          if e AND PTE_P = 0 then None else Some e)"

lemma kaddr_P2V [simp]: "kaddr (P2V a) = unat a"
  by (simp add: kaddr_def)

lemma mmu_vmap: "mmu mem (V2P pd) va = map_option (\<lambda>e. unat (PTE_ADDR e) + unat (va AND 0xFFF)) (vmap mem pd va)"
  by (simp add: mmu_def vmap_def ptab_def Let_def kaddr_def)

section \<open>Indices\<close>

lemma and_3FF: "unat ((w :: u32) AND 0x3FF) = unat w mod 1024"
proof -
  have "w AND 0x3FF = take_bit 10 w" by (simp add: take_bit_eq_mask mask_eq_exp_minus_1)
  then show ?thesis by (simp add: take_bit_eq_mod unat_mod_distrib)
qed

lemma and_FFF: "unat ((w :: u32) AND 0xFFF) = unat w mod PGSIZE"
proof -
  have "w AND 0xFFF = take_bit 12 w" by (simp add: take_bit_eq_mask mask_eq_exp_minus_1)
  then show ?thesis by (simp add: take_bit_eq_mod unat_mod_distrib)
qed

lemma unat_PTX: "unat (PTX va) = unat va div PGSIZE mod 1024"
  by (simp add: PTX_def and_3FF drop_bit_eq_div unat_div_distrib)

lemma unat_PDX: "unat (PDX va) = unat va div 2 ^ 22"
proof -
  have "unat va < 2 ^ 32" using unsigned_less [of va] by simp
  then have "unat va div 2 ^ 22 < 1024" by (simp add: less_mult_imp_div_less)
  then show ?thesis by (simp add: PDX_def and_3FF drop_bit_eq_div unat_div_distrib)
qed

lemma index_less: "unat (PDX va) < 1024" "unat (PTX va) < 1024"
  by (simp_all add: PTX_def PDX_def and_3FF)

lemma same_page: "PDX v = PDX w \<and> PTX v = PTX w \<longleftrightarrow> unat v div PGSIZE = unat w div PGSIZE"
proof -
  have e: "unat x div PGSIZE div 1024 = unat (PDX x)" for x :: u32 by (simp add: unat_PDX div_mult2_eq [symmetric])
  have "unat x div PGSIZE = unat (PDX x) * 1024 + unat (PTX x)" for x :: u32
    using div_mult_mod_eq [of "unat x div PGSIZE" 1024] by (simp only: e unat_PTX)
  then show ?thesis using e unat_PTX by (metis word_unat_eq_iff)
qed

lemma vmap_page: "unat v div PGSIZE = unat w div PGSIZE \<Longrightarrow> vmap mem pd v = vmap mem pd w"
  using same_page [of v w] by (simp add: vmap_def Let_def split: option.splits)

lemma unat_PTE_ADDR: "unat (PTE_ADDR e) = unat e div PGSIZE * PGSIZE"
proof -
  have "PTE_ADDR e = PGROUNDDOWN e" by (simp add: PTE_ADDR_def PGROUNDDOWN_def)
  then have "PTE_ADDR e = e - (e AND 0xFFF)" using page_offset(1) [of e] by (simp add: algebra_simps)
  moreover have "(e AND 0xFFF) \<le> e" by (simp add: word_le_nat_alt and_FFF)
  ultimately have "unat (PTE_ADDR e) = unat e - unat e mod PGSIZE" using unat_sub and_FFF by metis
  then show ?thesis by (simp add: minus_mod_eq_div_mult)
qed

text \<open>Adding a small offset to an aligned kernel pointer does not wrap.\<close>

lemma kaddr_add:
  assumes "kaddr q mod PGSIZE = 0" "n < PGSIZE"
  shows "kaddr (q + of_nat n) = kaddr q + n"
proof -
  have "kaddr q < 2 ^ 32" using unsigned_less [of "V2P q"] by (simp add: kaddr_def)
  moreover have "kaddr q + n < kaddr q + PGSIZE" using assms(2) by simp
  moreover obtain k where k: "kaddr q = PGSIZE * k" using assms(1) by auto
  ultimately have "k < 2 ^ 20" by simp
  then have b: "kaddr q + n < 2 ^ 32" using k assms(2) by simp
  have "V2P (q + of_nat n) = V2P q + of_nat n" by (simp add: V2P_def)
  then show ?thesis using b by (simp add: kaddr_def unat_word_ariths unat_of_nat)
qed

section \<open>Address spaces\<close>

definition in_page :: "u32 \<Rightarrow> nat \<Rightarrow> bool" where
  "in_page q a \<longleftrightarrow> kaddr q \<le> a \<and> a < kaddr q + PGSIZE"

definition space_ok :: "'z mst_scheme \<Rightarrow> u32 \<Rightarrow> u32 list \<Rightarrow> bool" where
  "space_ok s pd xs \<longleftrightarrow> kmem_ok s xs \<and> page_ok (kend s) pd \<and> pd \<notin> set xs \<and>
     (\<forall>i<1024. \<forall>q. ptab (pmem s) pd i = Some q \<longrightarrow> page_ok (kend s) q \<and> q \<noteq> pd \<and> q \<notin> set xs) \<and>
     (\<forall>i<1024. \<forall>j<1024. \<forall>q. ptab (pmem s) pd i = Some q \<and> ptab (pmem s) pd j = Some q \<longrightarrow> i = j)"

text \<open>The pages of the directory, its tables and the free list.\<close>

definition pages :: "memory \<Rightarrow> u32 \<Rightarrow> u32 list \<Rightarrow> u32 set" where
  "pages mem pd xs = {pd} \<union> set xs \<union> {q. \<exists>i<1024. ptab mem pd i = Some q}"

lemma space_pages:
  assumes "space_ok s pd xs" "q \<in> pages (pmem s) pd xs"
  shows "page_ok (kend s) q"
  using assms by (auto simp: space_ok_def pages_def kmem_ok_def)

lemma space_kend: "space_ok s pd xs \<Longrightarrow> KERNBASE < kend s"
  by (simp add: space_ok_def kmem_ok_def)

lemma in_two_pages:
  assumes "space_ok s pd xs" "q \<in> pages (pmem s) pd xs" "r \<in> pages (pmem s) pd xs" "in_page q a" "in_page r a"
  shows "q = r"
  using pages_apart [OF space_pages [OF assms(1,2)] space_pages [OF assms(1,3)] space_kend [OF assms(1)]] assms(4,5)
  by (fastforce simp: in_page_def)

lemma load_page:
  assumes "\<forall>a. in_page q a \<longrightarrow> mem' a = mem a" "n + 4 \<le> PGSIZE"
  shows "load32 (kaddr q + n) mem' = load32 (kaddr q + n) mem"
  by (rule load32_cong) (use assms in \<open>auto simp: in_page_def\<close>)

lemma ptab_frame:
  assumes "\<forall>a. in_page pd a \<longrightarrow> mem' a = mem a" "i < 1024"
  shows "ptab mem' pd i = ptab mem pd i"
  using load_page [OF assms(1), of "4 * i"] assms(2) by (simp add: ptab_def)

lemma vmap_frame:
  assumes "\<forall>a. in_page pd a \<longrightarrow> mem' a = mem a" "\<forall>q i a. i < 1024 \<and> ptab mem pd i = Some q \<and> in_page q a \<longrightarrow> mem' a = mem a"
  shows "vmap mem' pd va = vmap mem pd va"
proof (cases "ptab mem pd (unat (PDX va))")
  case (Some q)
  then have "\<forall>a. in_page q a \<longrightarrow> mem' a = mem a" using assms(2) index_less(1) by blast
  from load_page [OF this, of "4 * unat (PTX va)"] show ?thesis
    using ptab_frame [OF assms(1) index_less(1)] Some index_less(2) [of va] by (simp add: vmap_def)
qed (use ptab_frame [OF assms(1) index_less(1)] in \<open>simp add: vmap_def\<close>)

lemma store_in_page:
  assumes "n + 4 \<le> PGSIZE" "\<not> in_page q a"
  shows "store32 (kaddr q + n) w mem a = mem a"
  by (rule store32_outside) (use assms in \<open>auto simp: in_page_def\<close>)

lemma load_slot: "load32 (p + 4 * i) (store32 (p + 4 * j) w mem) = (if i = j then w else load32 (p + 4 * i) mem)"
  using load_store_other [of "p + 4 * i" "p + 4 * j"] by (cases i j rule: linorder_cases) simp_all

text \<open>A store into a page that is neither free nor the directory nor another table.\<close>

lemma free_frame:
  assumes "kmem_ok s xs" "\<forall>x\<in>set xs. \<forall>a. in_page x a \<longrightarrow> mem' a = pmem s a"
  shows "kmem_ok (s\<lparr>pmem := mem'\<rparr>) xs"
proof -
  have "flist mem' (freelist s) xs"
    by (rule flist_frame) (use assms in \<open>auto simp: kmem_ok_def in_page_def\<close>)
  then show ?thesis using assms(1) by (simp add: kmem_ok_def)
qed

lemma ptab_pages: "i < 1024 \<Longrightarrow> ptab mem pd i = Some q \<Longrightarrow> q \<in> pages mem pd xs"
  by (auto simp: pages_def)

lemma set_pages: "pd \<in> pages mem pd xs" "x \<in> set xs \<Longrightarrow> x \<in> pages mem pd xs"
  by (auto simp: pages_def)

lemma store_pte:
  assumes sp: "space_ok s pd xs" and q: "ptab (pmem s) pd (unat (PDX va)) = Some q"
    and m: "mem' = store32 (kaddr q + 4 * unat (PTX va)) w (pmem s)"
  shows "\<forall>i<1024. ptab mem' pd i = ptab (pmem s) pd i"
    and "space_ok (s\<lparr>pmem := mem'\<rparr>) pd xs" and "pages mem' pd xs = pages (pmem s) pd xs"
    and "vmap mem' pd v = (if unat v div PGSIZE = unat va div PGSIZE then (if w AND PTE_P = 0 then None else Some w) else vmap (pmem s) pd v)"
    and "\<forall>a. \<not> in_page q a \<longrightarrow> mem' a = pmem s a"
proof -
  have qp: "q \<in> pages (pmem s) pd xs" "q \<noteq> pd" "q \<notin> set xs" using sp q index_less(1) [of va] by (auto simp: space_ok_def intro: ptab_pages)
  show out: "\<forall>a. \<not> in_page q a \<longrightarrow> mem' a = pmem s a" unfolding m using index_less(2) [of va] by (auto intro!: store_in_page)
  have fr: "\<forall>a. in_page r a \<longrightarrow> mem' a = pmem s a" if "r \<in> pages (pmem s) pd xs" "r \<noteq> q" for r
    using out in_two_pages [OF sp that(1) qp(1)] that(2) by blast
  show pt: "\<forall>i<1024. ptab mem' pd i = ptab (pmem s) pd i"
    using ptab_frame [OF fr [OF set_pages(1)]] qp(2) by blast
  then show "pages mem' pd xs = pages (pmem s) pd xs" by (auto simp: pages_def)
  have "kmem_ok (s\<lparr>pmem := mem'\<rparr>) xs"
    by (rule free_frame) (use sp fr [OF set_pages(2)] qp(3) in \<open>auto simp: space_ok_def\<close>)
  then show "space_ok (s\<lparr>pmem := mem'\<rparr>) pd xs" using sp pt by (simp add: space_ok_def)
  show "vmap mem' pd v = (if unat v div PGSIZE = unat va div PGSIZE then (if w AND PTE_P = 0 then None else Some w) else vmap (pmem s) pd v)"
  proof (cases "ptab (pmem s) pd (unat (PDX v))")
    case (Some r)
    show ?thesis
    proof (cases "PDX v = PDX va")
      case True
      then have "r = q" using Some q by simp
      have "load32 (kaddr q + 4 * unat (PTX v)) mem' = (if PTX v = PTX va then w else load32 (kaddr q + 4 * unat (PTX v)) (pmem s))"
        by (simp add: m load_slot word_unat_eq_iff [of "PTX v"])
      then show ?thesis using Some q pt index_less(1) [of v] True same_page [of v va] \<open>r = q\<close> by (auto simp: vmap_def Let_def)
    next
      case False
      then have "unat (PDX v) \<noteq> unat (PDX va)" by (simp add: word_unat_eq_iff)
      then have "r \<noteq> q" using sp q Some index_less(1) unfolding space_ok_def by blast
      then have "load32 (kaddr r + 4 * unat (PTX v)) mem' = load32 (kaddr r + 4 * unat (PTX v)) (pmem s)"
        using fr [OF ptab_pages [OF index_less(1) Some]] index_less(2) [of v] by (intro load_page) auto
      then show ?thesis using Some pt index_less(1) [of v] False same_page [of v va] by (auto simp: vmap_def)
    qed
  next
    case None
    then show ?thesis using q pt index_less(1) [of v] same_page [of v va] by (auto simp: vmap_def)
  qed
qed

text \<open>An entry that points to a page with some flags.\<close>

lemma pte_of_page:
  assumes "unat p mod PGSIZE = 0" "f AND NOT 0xFFF = (0 :: u32)"
  shows "PTE_ADDR (p OR f) = p"
proof -
  have "unat (PTE_ADDR p) = unat p" using assms(1) div_mult_mod_eq [of "unat p" PGSIZE] by (simp add: unat_PTE_ADDR)
  then have "p AND NOT 0xFFF = p" by (simp add: PTE_ADDR_def word_unat_eq_iff)
  then show ?thesis using assms(2) by (simp add: PTE_ADDR_def bit.conj_disj_distrib2)
qed

lemma or_present: "(w OR PTE_P) AND PTE_P = (1 :: u32)"
  by (rule bit_word_eqI) (auto simp: bit_simps)

lemma zero_page_load:
  assumes "\<forall>a. in_page q a \<longrightarrow> mem a = 0" "n + 4 \<le> PGSIZE"
  shows "load32 (kaddr q + n) mem = 0"
proof -
  have "mread (kaddr q + n) 4 mem ! i = 0" if "i < 4" for i
    using assms that by (simp add: in_page_def)
  from this [of 0] this [of 1] this [of 2] this [of 3] show ?thesis by (simp add: load32_def u32_of_bytes_def)
qed

lemma ex_entry:
  assumes "k < (n :: nat)" "f k = None"
  shows "(\<exists>i<n. (if i = k then Some x else f i) = Some q) \<longleftrightarrow> q = x \<or> (\<exists>i<n. f i = Some q)"
proof
  assume "q = x \<or> (\<exists>i<n. f i = Some q)"
  then consider "q = x" | i where "i < n" "f i = Some q" by blast
  then show "\<exists>i<n. (if i = k then Some x else f i) = Some q"
  proof cases
    case 1
    then show ?thesis using assms(1) by (intro exI [of _ k]) simp
  next
    case 2
    then show ?thesis using assms(2) by (intro exI [of _ i]) auto
  qed
qed (auto split: if_splits)

text \<open>Linking a cleared free page into the directory.\<close>

lemma new_table:
  assumes sp: "space_ok s pd (x # ys)" and none: "ptab (pmem s) pd (unat (PDX va)) = None"
    and m: "mem' = store32 (kaddr pd + 4 * unat (PDX va)) (V2P x OR 7) (memset (kaddr x) 0 PGSIZE (pmem s))"
    and f: "fl = load32 (kaddr x) (pmem s)"
  shows "i < 1024 \<Longrightarrow> ptab mem' pd i = (if i = unat (PDX va) then Some x else ptab (pmem s) pd i)"
    and "space_ok (s\<lparr>freelist := fl, pmem := mem'\<rparr>) pd ys" and "pages mem' pd ys = pages (pmem s) pd (x # ys)"
    and "vmap mem' pd v = vmap (pmem s) pd v"
    and "\<forall>a. \<not> in_page pd a \<and> \<not> in_page x a \<longrightarrow> mem' a = pmem s a"
proof -
  let ?z = "memset (kaddr x) 0 PGSIZE (pmem s)"
  have x: "x \<in> pages (pmem s) pd (x # ys)" "x \<noteq> pd" "x \<notin> set ys" "page_ok (kend s) x"
    using sp by (auto simp: space_ok_def pages_def kmem_ok_def)
  have z: "?z a = (if in_page x a then 0 else pmem s a)" for a by (simp add: memset_fills in_page_def)
  have o: "\<forall>a. \<not> in_page pd a \<longrightarrow> mem' a = ?z a" unfolding m using index_less(1) [of va] by (auto intro!: store_in_page)
  show out: "\<forall>a. \<not> in_page pd a \<and> \<not> in_page x a \<longrightarrow> mem' a = pmem s a" using o z by simp
  have fr: "\<forall>a. in_page r a \<longrightarrow> mem' a = pmem s a" if "r \<in> pages (pmem s) pd (x # ys)" "r \<noteq> pd" "r \<noteq> x" for r
    using out in_two_pages [OF sp that(1) x(1)] in_two_pages [OF sp that(1) set_pages(1)] that(2,3) by blast
  have zp: "\<forall>a. in_page pd a \<longrightarrow> ?z a = pmem s a" using z in_two_pages [OF sp set_pages(1) x(1)] x(2) by auto
  have zx: "\<forall>a. in_page x a \<longrightarrow> mem' a = 0" using o z in_two_pages [OF sp set_pages(1) x(1)] x(2) by metis
  have ax: "unat (V2P x) mod PGSIZE = 0" using page_aligned(1) [OF x(4) space_kend [OF sp]] by (simp add: kaddr_def)
  have e: "PTE_ADDR (V2P x OR 7) = V2P x" by (rule pte_of_page [OF ax]) simp
  have p: "(V2P x OR 7) AND 1 = 1" using or_present [of "V2P x OR 6"] by (simp add: or.assoc)
  show pt: "ptab mem' pd i = (if i = unat (PDX va) then Some x else ptab (pmem s) pd i)" if "i < 1024" for i
    using load_page [OF zp, of "4 * i"] that e p unfolding ptab_def m by (simp add: load_slot)
  have "(\<exists>i<1024. ptab mem' pd i = Some q) \<longleftrightarrow> q = x \<or> (\<exists>i<1024. ptab (pmem s) pd i = Some q)" for q
    using ex_entry [OF index_less(1), where f = "ptab (pmem s) pd", OF none, where x = x and q = q] pt by (simp cong: conj_cong)
  then show pg: "pages mem' pd ys = pages (pmem s) pd (x # ys)" by (auto simp: pages_def)
  have "kmem_ok (s\<lparr>freelist := fl\<rparr>) ys" using sp by (auto simp: space_ok_def kmem_ok_def f)
  from free_frame [OF this] have "kmem_ok (s\<lparr>freelist := fl, pmem := mem'\<rparr>) ys"
    using fr [OF set_pages(2)] x(3) sp by (auto simp: space_ok_def)
  then show "space_ok (s\<lparr>freelist := fl, pmem := mem'\<rparr>) pd ys"
    using sp pt x unfolding space_ok_def by (auto split: if_splits)
  show "vmap mem' pd v = vmap (pmem s) pd v"
  proof (cases "ptab (pmem s) pd (unat (PDX v))")
    case None
    have "load32 (kaddr x + 4 * unat (PTX v)) mem' = 0" by (rule zero_page_load [OF zx]) (use index_less(2) [of v] in simp)
    then show ?thesis using None pt [OF index_less(1)] by (simp add: vmap_def)
  next
    case (Some r)
    then have r: "r \<in> pages (pmem s) pd (x # ys)" "r \<noteq> pd" "r \<noteq> x" using sp index_less(1) [of v] by (auto simp: space_ok_def intro: ptab_pages)
    from load_page [OF fr [OF this], of "4 * unat (PTX v)"] show ?thesis
      using Some none pt [OF index_less(1)] index_less(2) [of v] by (auto simp: vmap_def)
  qed
qed

section \<open>The walk of the kernel\<close>

text \<open>
  A step that only moves pages from the free list into the tables: memory changes inside
  these pages only.
\<close>

definition vm_step :: "u32 \<Rightarrow> 'z mst_scheme \<Rightarrow> u32 list \<Rightarrow> 'z mst_scheme \<Rightarrow> u32 list \<Rightarrow> bool" where
  "vm_step pd s xs t ys \<longleftrightarrow> space_ok t pd ys \<and> pages (pmem t) pd ys = pages (pmem s) pd xs \<and>
     (\<exists>m f. t = s\<lparr>pmem := m, freelist := f\<rparr>) \<and> suffix ys xs \<and>
     (\<forall>a. (\<forall>q\<in>pages (pmem s) pd xs. \<not> in_page q a) \<longrightarrow> pmem t a = pmem s a)"

lemma same_rest_refl: "\<exists>m f. s = s\<lparr>pmem := m, freelist := f\<rparr>"
  by (rule exI [of _ "pmem s"], rule exI [of _ "freelist s"]) simp

lemma vm_step_refl: "space_ok s pd xs \<Longrightarrow> vm_step pd s xs s xs"
  using same_rest_refl [of s] by (simp add: vm_step_def)

lemma vm_stepI:
  assumes "t = s\<lparr>freelist := f, pmem := m\<rparr>" "space_ok t pd ys" "pages m pd ys = pages (pmem s) pd xs"
    "suffix ys xs" "\<forall>a. (\<forall>q\<in>pages (pmem s) pd xs. \<not> in_page q a) \<longrightarrow> m a = pmem s a"
  shows "vm_step pd s xs t ys"
proof -
  have "t = s\<lparr>pmem := m, freelist := f\<rparr>" by (simp add: assms(1))
  then have "\<exists>m f. t = s\<lparr>pmem := m, freelist := f\<rparr>" by blast
  then show ?thesis using assms by (simp add: vm_step_def)
qed

lemma vm_step_trans:
  assumes "vm_step pd s xs t ys" "vm_step pd t ys u zs"
  shows "vm_step pd s xs u zs"
proof -
  obtain m f where t: "t = s\<lparr>pmem := m, freelist := f\<rparr>" using assms(1) by (auto simp: vm_step_def)
  obtain m' f' where u: "u = t\<lparr>pmem := m', freelist := f'\<rparr>" using assms(2) by (auto simp: vm_step_def)
  have "u = s\<lparr>pmem := m', freelist := f'\<rparr>" by (simp add: t u)
  then have "\<exists>m f. u = s\<lparr>pmem := m, freelist := f\<rparr>" by blast
  moreover have "suffix zs xs" using assms by (auto simp: vm_step_def elim: suffix_order.trans)
  ultimately show ?thesis using assms by (simp add: vm_step_def)
qed

lemma vm_step_held: "vm_step pd s xs t ys \<Longrightarrow> held t = held s \<and> kend t = kend s"
  by (auto simp: vm_step_def)

lemma kaddr_slot:
  assumes "page_ok e q" "KERNBASE < e" "unat i < 1024"
  shows "kaddr (q + 4 * i) = kaddr q + 4 * unat i"
  using kaddr_add [OF page_aligned(1) [OF assms(1,2)], of "4 * unat i"] assms(3) by simp

lemma walkpgdir_run:
  assumes sp: "space_ok s pd xs" and "LKmem \<notin> set (held s)"
  shows "walkpgdir pd va al s =
     (case ptab (pmem s) pd (unat (PDX va)) of
        Some q \<Rightarrow> Ok (Some (q + 4 * PTX va)) s
      | None \<Rightarrow>
          if \<not> al \<or> xs = [] then Ok None s
          else Ok (Some (hd xs + 4 * PTX va))
            (s\<lparr>freelist := load32 (kaddr (hd xs)) (pmem s),
               pmem := store32 (kaddr pd + 4 * unat (PDX va)) (V2P (hd xs) OR 7) (memset (kaddr (hd xs)) 0 PGSIZE (pmem s))\<rparr>))"
proof -
  have "kaddr (pd + 4 * PDX va) = kaddr pd + 4 * unat (PDX va)"
    using kaddr_slot [OF _ space_kend [OF sp] index_less(1)] sp by (simp add: space_ok_def)
  moreover have "freelist s = (if xs = [] then 0 else hd xs)" "xs \<noteq> [] \<Longrightarrow> hd xs \<noteq> 0"
    using sp by (cases xs; simp add: space_ok_def kmem_ok_def)+
  ultimately show ?thesis
    using kalloc_run [OF assms(2)] by (simp add: walkpgdir_def kload_def kstore_def kmemset_def ptab_def Let_def or.assoc)
qed

lemma walk_alloc:
  assumes sp: "space_ok s pd xs" and l: "LKmem \<notin> set (held s)"
  shows "\<exists>r t ys. walkpgdir pd va True s = Ok r t \<and> vm_step pd s xs t ys \<and> vmap (pmem t) pd = vmap (pmem s) pd \<and>
     length xs \<le> length ys + 1 \<and>
     (case r of None \<Rightarrow> t = s \<and> ys = [] \<and> xs = [] | Some pte \<Rightarrow> \<exists>q. ptab (pmem t) pd (unat (PDX va)) = Some q \<and> kaddr pte = kaddr q + 4 * unat (PTX va))"
proof (cases "ptab (pmem s) pd (unat (PDX va))")
  case (Some q)
  then have "kaddr (q + 4 * PTX va) = kaddr q + 4 * unat (PTX va)"
    using kaddr_slot [OF _ space_kend [OF sp] index_less(2)] sp index_less(1) [of va] by (auto simp: space_ok_def)
  then show ?thesis using walkpgdir_run [OF assms] Some vm_step_refl [OF sp] by (intro exI conjI) auto
next
  case None
  show ?thesis
  proof (cases xs)
    case Nil
    then show ?thesis using walkpgdir_run [OF assms] None vm_step_refl [OF sp] by (intro exI conjI) auto
  next
    case (Cons x ys)
    let ?m = "store32 (kaddr pd + 4 * unat (PDX va)) (V2P x OR 7) (memset (kaddr x) 0 PGSIZE (pmem s))"
    let ?t = "s\<lparr>freelist := load32 (kaddr x) (pmem s), pmem := ?m\<rparr>"
    note n = new_table [OF sp [unfolded Cons] None refl refl]
    have "page_ok (kend s) x" using sp Cons by (auto simp: space_ok_def kmem_ok_def)
    then have "kaddr (x + 4 * PTX va) = kaddr x + 4 * unat (PTX va)"
      by (rule kaddr_slot [OF _ space_kend [OF sp] index_less(2)])
    moreover have "vm_step pd s xs ?t ys"
    proof (rule vm_stepI [OF refl n(2)])
      show "pages ?m pd ys = pages (pmem s) pd xs" using n(3) Cons by simp
      show "suffix ys xs" by (simp add: Cons suffix_Cons)
      show "\<forall>a. (\<forall>q\<in>pages (pmem s) pd xs. \<not> in_page q a) \<longrightarrow> ?m a = pmem s a"
        using n(5) set_pages(1) [of pd "pmem s" xs] set_pages(2) [of x xs "pmem s" pd] Cons by simp
    qed
    moreover have "ptab ?m pd (unat (PDX va)) = Some x" using n(1) [OF index_less(1)] by simp
    moreover have "vmap ?m pd = vmap (pmem s) pd" using n(4) by blast
    moreover have "walkpgdir pd va True s = Ok (Some (x + 4 * PTX va)) ?t"
      using walkpgdir_run [OF assms, of va True] None Cons by simp
    ultimately show ?thesis using Cons by (intro exI [of _ "Some (x + 4 * PTX va)"] exI [of _ ?t] exI [of _ ys]) auto
  qed
qed

section \<open>Mapping pages\<close>

text \<open>The entry that \<open>mappages\<close> writes for the page \<open>i\<close> of its range.\<close>

definition pte_for :: "u32 \<Rightarrow> u32 \<Rightarrow> nat \<Rightarrow> u32" where
  "pte_for pa perm i = (pa + of_nat (i * PGSIZE)) OR perm OR PTE_P"

definition remap :: "u32 \<Rightarrow> nat \<Rightarrow> u32 \<Rightarrow> u32 \<Rightarrow> (u32 \<Rightarrow> u32 option) \<Rightarrow> u32 \<Rightarrow> u32 option" where
  "remap a n pa perm M v =
     (let i = unat v div PGSIZE - unat a div PGSIZE in
      if unat a div PGSIZE \<le> unat v div PGSIZE \<and> i < n then Some (pte_for pa perm i) else M v)"

lemma pte_for_present: "pte_for pa perm i AND PTE_P = 1"
  by (simp add: pte_for_def or_present flip: or.assoc)

lemma remap_0 [simp]: "remap a 0 pa perm M = M"
  by (auto simp: remap_def)

text \<open>Mapping one page, then \<open>n\<close> more.\<close>

lemma remap_Suc:
  assumes "unat a mod PGSIZE = 0" "unat a + PGSIZE < 2 ^ 32"
  shows "remap (a + 0x1000) n (pa + 0x1000) perm (remap a 1 pa perm M) = remap a (Suc n) pa perm M"
proof
  fix v
  have "unat (a + 0x1000) = unat a + PGSIZE" using assms(2) by (simp add: unat_word_ariths)
  then have "unat (a + 0x1000) div PGSIZE = unat a div PGSIZE + 1" by simp
  moreover have "pte_for (pa + 0x1000) perm i = pte_for pa perm (Suc i)" for i
    by (simp add: pte_for_def algebra_simps)
  ultimately show "remap (a + 0x1000) n (pa + 0x1000) perm (remap a 1 pa perm M) v = remap a (Suc n) pa perm M v"
    by (auto simp: remap_def Let_def Suc_diff_Suc One_nat_def)
qed

text \<open>One turn of the loop of \<open>mappages\<close>.\<close>

lemma map_one:
  assumes sp: "space_ok s pd xs" and l: "LKmem \<notin> set (held s)" and u: "vmap (pmem s) pd a = None"
  shows "(mappages_loop pd perm k a pa s = Ok (-1) s \<and> xs = []) \<or>
    (\<exists>t ys. mappages_loop pd perm k a pa s = (case k of 0 \<Rightarrow> ret 0 | Suc k \<Rightarrow> mappages_loop pd perm k (a + 0x1000) (pa + 0x1000)) t \<and>
       vm_step pd s xs t ys \<and> vmap (pmem t) pd = remap a 1 pa perm (vmap (pmem s) pd) \<and> length xs \<le> length ys + 1)"
proof -
  obtain r t ys where w: "walkpgdir pd a True s = Ok r t" "vm_step pd s xs t ys" "vmap (pmem t) pd = vmap (pmem s) pd"
    "length xs \<le> length ys + 1"
    and c: "case r of None \<Rightarrow> t = s \<and> ys = [] \<and> xs = [] | Some pte \<Rightarrow> \<exists>q. ptab (pmem t) pd (unat (PDX a)) = Some q \<and> kaddr pte = kaddr q + 4 * unat (PTX a)"
    using walk_alloc [OF sp l] by blast
  have st: "space_ok t pd ys" using w(2) by (simp add: vm_step_def)
  show ?thesis
  proof (cases r)
    case None
    then show ?thesis using w c by (simp add: mappages_loop.simps [of pd perm k])
  next
    case (Some pte)
    then obtain q where q: "ptab (pmem t) pd (unat (PDX a)) = Some q" "kaddr pte = kaddr q + 4 * unat (PTX a)" using c by auto
    let ?w = "pa OR perm OR 1"
    let ?m = "store32 (kaddr q + 4 * unat (PTX a)) ?w (pmem t)"
    note sl = store_pte [OF st q(1) refl]
    have "vmap (pmem t) pd a = None" using u w(3) by simp
    then have pr: "load32 (kaddr pte) (pmem t) AND 1 = 0" using q by (simp add: vmap_def Let_def split: if_splits)
    have "vm_step pd t ys (t\<lparr>pmem := ?m\<rparr>) ys"
    proof (rule vm_stepI [where f = "freelist t"])
      show "\<forall>b. (\<forall>r\<in>pages (pmem t) pd ys. \<not> in_page r b) \<longrightarrow> ?m b = pmem t b"
        using sl(5) ptab_pages [OF index_less(1) q(1)] by blast
    qed (use sl in simp_all)
    then have "vm_step pd s xs (t\<lparr>pmem := ?m\<rparr>) ys" by (rule vm_step_trans [OF w(2)])
    moreover have "vmap ?m pd = remap a 1 pa perm (vmap (pmem s) pd)"
      using sl(4) [of ?w] w(3) pte_for_present [of pa perm 0] by (auto simp: remap_def Let_def pte_for_def)
    moreover have "mappages_loop pd perm k a pa s = (case k of 0 \<Rightarrow> ret 0 | Suc k \<Rightarrow> mappages_loop pd perm k (a + 0x1000) (pa + 0x1000)) (t\<lparr>pmem := ?m\<rparr>)"
      using w(1) Some pr q(2) by (simp add: mappages_loop.simps [of pd perm k] kload_def kstore_def)
    ultimately show ?thesis using w(4) by (intro disjI2 exI [of _ "t\<lparr>pmem := ?m\<rparr>"] exI [of _ ys]) simp
  qed
qed

lemma unat_page: "unat (a :: u32) + i * PGSIZE < 2 ^ 32 \<Longrightarrow> unat (a + of_nat (i * PGSIZE)) = unat a + i * PGSIZE"
  by (simp add: unat_word_ariths unat_of_nat del: of_nat_mult)

lemma mappages_loop_run:
  assumes "space_ok s pd xs" "LKmem \<notin> set (held s)" "unat a mod PGSIZE = 0" "unat a + k * PGSIZE < 2 ^ 32"
    "\<forall>i\<le>k. vmap (pmem s) pd (a + of_nat (i * PGSIZE)) = None"
  shows "\<exists>t ys j. mappages_loop pd perm k a pa s = Ok (if j = k + 1 then 0 else -1) t \<and> vm_step pd s xs t ys \<and> j \<le> k + 1 \<and>
     vmap (pmem t) pd = remap a j pa perm (vmap (pmem s) pd) \<and> length xs \<le> length ys + j \<and> (j \<le> k \<longrightarrow> ys = [])"
  using assms
proof (induction k arbitrary: s xs a pa)
  case (0 s xs a pa)
  from map_one [OF 0(1,2), of a perm 0 pa] 0(5) consider "mappages_loop pd perm 0 a pa s = Ok (-1) s" "xs = []"
    | t ys where "mappages_loop pd perm 0 a pa s = Ok 0 t" "vm_step pd s xs t ys" "vmap (pmem t) pd = remap a 1 pa perm (vmap (pmem s) pd)"
        "length xs \<le> length ys + 1" by auto
  then show ?case
  proof cases
    case 1
    then show ?thesis using vm_step_refl [OF 0(1)] by (intro exI [of _ s] exI [of _ xs] exI [of _ 0]) simp
  next
    case 2
    then show ?thesis by (intro exI [of _ t] exI [of _ ys] exI [of _ 1]) simp
  qed
next
  case (Suc k s xs a pa)
  have u: "vmap (pmem s) pd a = None" using Suc.prems(5) spec [of _ 0] by fastforce
  have b: "unat a + PGSIZE < 2 ^ 32" using Suc.prems(4) by simp
  have a: "unat (a + 0x1000) = unat a + PGSIZE" using b by (simp add: unat_word_ariths)
  from map_one [OF Suc.prems(1,2) u, of perm "Suc k" pa] consider "mappages_loop pd perm (Suc k) a pa s = Ok (-1) s" "xs = []"
    | t ys where "mappages_loop pd perm (Suc k) a pa s = mappages_loop pd perm k (a + 0x1000) (pa + 0x1000) t" "vm_step pd s xs t ys"
        "vmap (pmem t) pd = remap a 1 pa perm (vmap (pmem s) pd)" "length xs \<le> length ys + 1" by auto
  then show ?case
  proof cases
    case 1
    then show ?thesis using vm_step_refl [OF Suc.prems(1)] by (intro exI [of _ s] exI [of _ xs] exI [of _ 0]) simp
  next
    case 2
    have fresh: "vmap (pmem t) pd (a + 0x1000 + of_nat (i * PGSIZE)) = None" if "i \<le> k" for i
    proof -
      have e: "a + 0x1000 + of_nat (i * PGSIZE) = a + of_nat (Suc i * PGSIZE)" by (simp add: algebra_simps)
      have "unat a + Suc i * PGSIZE < 2 ^ 32" using Suc.prems(4) that by (meson add_le_mono le_refl le_less_trans mult_le_mono1 Suc_le_mono)
      from unat_page [OF this] have "unat (a + of_nat (Suc i * PGSIZE)) div PGSIZE = unat a div PGSIZE + Suc i" by simp
      moreover have "vmap (pmem s) pd (a + of_nat (Suc i * PGSIZE)) = None" using Suc.prems(5) that Suc_le_mono by blast
      ultimately show ?thesis unfolding e using 2(3) by (simp add: remap_def del: mult_Suc of_nat_mult)
    qed
    have st: "space_ok t pd ys" "LKmem \<notin> set (held t)" using 2(2) Suc.prems(2) vm_step_held [OF 2(2)] by (simp_all add: vm_step_def)
    obtain u zs j where ih: "mappages_loop pd perm k (a + 0x1000) (pa + 0x1000) t = Ok (if j = k + 1 then 0 else -1) u" "vm_step pd t ys u zs"
      "j \<le> k + 1" "vmap (pmem u) pd = remap (a + 0x1000) j (pa + 0x1000) perm (vmap (pmem t) pd)" "length ys \<le> length zs + j" "j \<le> k \<longrightarrow> zs = []"
      using Suc.IH [OF st, of "a + 0x1000" "pa + 0x1000"] Suc.prems(3,4) a fresh by auto
    have "vmap (pmem u) pd = remap a (Suc j) pa perm (vmap (pmem s) pd)"
      using ih(4) 2(3) remap_Suc [OF Suc.prems(3) b, of j pa perm] by simp
    then show ?thesis using 2 ih vm_step_trans [OF 2(2) ih(2)] by (intro exI [of _ u] exI [of _ zs] exI [of _ "Suc j"]) auto
  qed
qed

text \<open>The number of pages that \<open>sz\<close> bytes at \<open>va\<close> touch.\<close>

definition npages :: "u32 \<Rightarrow> u32 \<Rightarrow> nat" where
  "npages va sz = (unat va + unat sz - 1) div PGSIZE - unat va div PGSIZE + 1"

lemma unat_PGROUNDDOWN: "unat (PGROUNDDOWN v) = unat v div PGSIZE * PGSIZE"
  using unat_PTE_ADDR [of v] by (simp add: PGROUNDDOWN_def PTE_ADDR_def)

lemma mappages_eq:
  assumes "0 < sz" "unat va + unat sz \<le> 2 ^ 32"
  shows "mappages pd va sz pa perm = mappages_loop pd perm (npages va sz - 1) (PGROUNDDOWN va) pa"
    and "unat (PGROUNDDOWN va) + (npages va sz - 1) * PGSIZE < 2 ^ 32"
proof -
  let ?e = "va + sz - 1"
  have "0 < unat sz" using assms(1) by (simp add: word_less_nat_alt)
  then have b: "unat va + (unat sz - 1) < 2 ^ 32" using assms(2) by simp
  have w: "unat (sz - 1) = unat sz - 1" using assms(1) by (simp add: unat_minus_one)
  have "unat (va + w) = unat va + unat w" if "unat va + unat w < 2 ^ 32" for w :: u32 using that by (simp add: unat_word_ariths)
  from this [of "sz - 1"] have e: "unat ?e = unat va + unat sz - 1" using b w \<open>0 < unat sz\<close> by (simp add: algebra_simps)
  let ?i = "unat va div PGSIZE" and ?j = "unat ?e div PGSIZE"
  have ij: "?i \<le> ?j" using e \<open>0 < unat sz\<close> by (intro div_le_mono) simp
  then have "PGROUNDDOWN va \<le> PGROUNDDOWN ?e" by (simp add: word_le_nat_alt unat_PGROUNDDOWN)
  then have "unat (PGROUNDDOWN ?e - PGROUNDDOWN va) = (?j - ?i) * PGSIZE"
    by (simp add: unat_sub unat_PGROUNDDOWN diff_mult_distrib)
  then show "mappages pd va sz pa perm = mappages_loop pd perm (npages va sz - 1) (PGROUNDDOWN va) pa"
    by (simp add: mappages_def npages_def e)
  have "?i * PGSIZE + (?j - ?i) * PGSIZE = ?j * PGSIZE" using ij by (simp add: diff_mult_distrib)
  also have "\<dots> \<le> unat ?e" by (rule div_times_less_eq_dividend)
  also have "\<dots> < 2 ^ 32" using unsigned_less [of ?e] by simp
  finally show "unat (PGROUNDDOWN va) + (npages va sz - 1) * PGSIZE < 2 ^ 32"
    by (simp add: unat_PGROUNDDOWN npages_def e)
qed

lemma remap_PGROUNDDOWN: "remap (PGROUNDDOWN va) = remap va"
  by (intro ext) (simp add: remap_def unat_PGROUNDDOWN)

lemma mappages_run:
  assumes "space_ok s pd xs" "LKmem \<notin> set (held s)" "0 < sz" "unat va + unat sz \<le> 2 ^ 32"
    "\<forall>v. unat va div PGSIZE \<le> unat v div PGSIZE \<and> unat v div PGSIZE < unat va div PGSIZE + npages va sz \<longrightarrow> vmap (pmem s) pd v = None"
  shows "\<exists>t ys j. mappages pd va sz pa perm s = Ok (if j = npages va sz then 0 else -1) t \<and> vm_step pd s xs t ys \<and> j \<le> npages va sz \<and>
     vmap (pmem t) pd = remap va j pa perm (vmap (pmem s) pd) \<and> length xs \<le> length ys + j \<and> (j < npages va sz \<longrightarrow> ys = [])"
proof -
  let ?a = "PGROUNDDOWN va" and ?k = "npages va sz - 1"
  note e = mappages_eq [OF assms(3,4)]
  have k: "?k + 1 = npages va sz" by (simp add: npages_def)
  have al: "unat ?a mod PGSIZE = 0" by (simp add: unat_PGROUNDDOWN)
  have "vmap (pmem s) pd (?a + of_nat (i * PGSIZE)) = None" if "i \<le> ?k" for i
  proof -
    have "unat ?a + i * PGSIZE < 2 ^ 32" using e(2) that by (meson add_le_mono le_refl le_less_trans mult_le_mono1)
    from unat_page [OF this] have "unat (?a + of_nat (i * PGSIZE)) div PGSIZE = unat va div PGSIZE + i" by (simp add: unat_PGROUNDDOWN)
    then show ?thesis using assms(5) that k by (simp del: of_nat_mult)
  qed
  then obtain t ys j where "mappages_loop pd perm ?k ?a pa s = Ok (if j = ?k + 1 then 0 else -1) t" "vm_step pd s xs t ys" "j \<le> ?k + 1"
    "vmap (pmem t) pd = remap ?a j pa perm (vmap (pmem s) pd)" "length xs \<le> length ys + j" "j \<le> ?k \<longrightarrow> ys = []"
    using mappages_loop_run [OF assms(1,2) al e(2), of perm pa] by blast
  then show ?thesis unfolding e(1) k remap_PGROUNDDOWN by (intro exI [of _ t] exI [of _ ys] exI [of _ j]) auto
qed

text \<open>A page that is mapped already.\<close>

lemma mappages_remap:
  assumes sp: "space_ok s pd xs" and l: "LKmem \<notin> set (held s)" and "0 < sz" "unat va + unat sz \<le> 2 ^ 32" and u: "vmap (pmem s) pd va \<noteq> None"
  shows "mappages pd va sz pa perm s = Panic ''remap'' s"
proof -
  let ?a = "PGROUNDDOWN va"
  have i: "PDX ?a = PDX va \<and> PTX ?a = PTX va" unfolding same_page by (simp add: unat_PGROUNDDOWN)
  obtain q where q: "ptab (pmem s) pd (unat (PDX va)) = Some q" and p: "load32 (kaddr q + 4 * unat (PTX va)) (pmem s) AND 1 \<noteq> 0"
    using u by (auto simp: vmap_def Let_def split: option.splits if_splits)
  have "kaddr (q + 4 * PTX va) = kaddr q + 4 * unat (PTX va)"
    using kaddr_slot [OF _ space_kend [OF sp] index_less(2)] sp q index_less(1) [of va] by (auto simp: space_ok_def)
  then show ?thesis unfolding mappages_eq(1) [OF assms(3,4)]
    using walkpgdir_run [OF sp l, of ?a True] i q p by (simp add: mappages_loop.simps [of pd perm] kload_def)
qed

lemma PTE_ADDR_pte_for:
  assumes "unat pa mod PGSIZE = 0" "perm AND NOT 0xFFF = 0"
  shows "PTE_ADDR (pte_for pa perm i) = pa + of_nat (i * PGSIZE)"
proof -
  have "unat (pa + of_nat (i * PGSIZE)) = (unat pa + i * PGSIZE) mod 2 ^ 32" by (simp add: unat_word_ariths unat_of_nat mod_simps del: of_nat_mult)
  then have "unat (pa + of_nat (i * PGSIZE)) mod PGSIZE = (unat pa + i * PGSIZE) mod PGSIZE" by (simp add: mod_mod_cancel del: of_nat_mult)
  then have "unat (pa + of_nat (i * PGSIZE)) mod PGSIZE = 0" using assms(1) by (simp del: of_nat_mult)
  moreover have "(perm OR PTE_P) AND NOT 0xFFF = 0" using assms(2) by (simp add: bit.conj_disj_distrib2)
  ultimately show ?thesis unfolding pte_for_def or.assoc by (rule pte_of_page)
qed

lemma mmu_remap:
  assumes "vmap mem' pd = remap va j pa perm (vmap mem pd)" "unat pa mod PGSIZE = 0" "perm AND NOT 0xFFF = 0"
  shows "mmu mem' (V2P pd) v =
    (if unat va div PGSIZE \<le> unat v div PGSIZE \<and> unat v div PGSIZE < unat va div PGSIZE + j
     then Some (unat (pa + of_nat ((unat v div PGSIZE - unat va div PGSIZE) * PGSIZE)) + unat v mod PGSIZE)
     else mmu mem (V2P pd) v)"
  unfolding mmu_vmap assms(1) by (auto simp: remap_def Let_def PTE_ADDR_pte_for [OF assms(2,3)] and_FFF simp del: of_nat_mult)

section \<open>User pages\<close>

text \<open>A write into a page that is neither free nor part of the tables.\<close>

lemma frame_write:
  assumes sp: "space_ok s pd xs" and f: "page_ok (kend s) f" "f \<notin> pages (pmem s) pd xs"
    and m: "\<forall>a. \<not> in_page f a \<longrightarrow> mem' a = pmem s a"
  shows "\<forall>i<1024. ptab mem' pd i = ptab (pmem s) pd i" "vmap mem' pd = vmap (pmem s) pd"
    "space_ok (s\<lparr>pmem := mem'\<rparr>) pd xs" "pages mem' pd xs = pages (pmem s) pd xs"
proof -
  have fr: "\<forall>a. in_page q a \<longrightarrow> mem' a = pmem s a" if "q \<in> pages (pmem s) pd xs" for q
  proof (intro allI impI)
    fix a assume "in_page q a"
    moreover have "q \<noteq> f" using that f(2) by blast
    ultimately show "mem' a = pmem s a"
      using pages_apart [OF space_pages [OF sp that] f(1) space_kend [OF sp]] m by (auto simp: in_page_def)
  qed
  show pt: "\<forall>i<1024. ptab mem' pd i = ptab (pmem s) pd i" using ptab_frame [OF fr [OF set_pages(1)]] by blast
  show "vmap mem' pd = vmap (pmem s) pd"
    by (rule ext, rule vmap_frame) (use fr set_pages(1) ptab_pages in blast)+
  show "pages mem' pd xs = pages (pmem s) pd xs" using pt by (auto simp: pages_def)
  have "kmem_ok (s\<lparr>pmem := mem'\<rparr>) xs" by (rule free_frame) (use sp fr [OF set_pages(2)] in \<open>auto simp: space_ok_def\<close>)
  then show "space_ok (s\<lparr>pmem := mem'\<rparr>) pd xs" using sp pt by (simp add: space_ok_def)
qed

lemma uva2ka_run:
  assumes sp: "space_ok s pd xs" and l: "LKmem \<notin> set (held s)"
  shows "uva2ka pd va s = (if ptab (pmem s) pd (unat (PDX va)) = None then Fault ''uva2ka: null pte'' s
     else Ok (case vmap (pmem s) pd va of None \<Rightarrow> 0 | Some e \<Rightarrow> if e AND PTE_U = 0 then 0 else P2V (PTE_ADDR e)) s)"
proof (cases "ptab (pmem s) pd (unat (PDX va))")
  case (Some q)
  then have "kaddr (q + 4 * PTX va) = kaddr q + 4 * unat (PTX va)"
    using kaddr_slot [OF _ space_kend [OF sp] index_less(2)] sp index_less(1) [of va] by (auto simp: space_ok_def)
  then show ?thesis using walkpgdir_run [OF assms, of va False] Some by (simp add: uva2ka_def kload_def vmap_def Let_def)
qed (use walkpgdir_run [OF assms, of va False] in \<open>simp add: uva2ka_def\<close>)

text \<open>
  The user pages of a range of addresses: mapped for the user, each address space page to
  its own physical page, outside the page tables and the free list.
\<close>

definition user_range :: "'z mst_scheme \<Rightarrow> u32 \<Rightarrow> u32 list \<Rightarrow> u32 \<Rightarrow> nat \<Rightarrow> bool" where
  "user_range s pd xs va n \<longleftrightarrow>
     (\<forall>v. unat va \<le> unat v \<and> unat v < unat va + n \<longrightarrow>
        (\<exists>e. vmap (pmem s) pd v = Some e \<and> e AND PTE_U \<noteq> 0 \<and> page_ok (kend s) (P2V (PTE_ADDR e)) \<and>
           P2V (PTE_ADDR e) \<notin> pages (pmem s) pd xs)) \<and>
     (\<forall>v w e e'. unat va \<le> unat v \<and> unat v < unat va + n \<and> unat va \<le> unat w \<and> unat w < unat va + n \<and>
        vmap (pmem s) pd v = Some e \<and> vmap (pmem s) pd w = Some e' \<and> PTE_ADDR e = PTE_ADDR e' \<longrightarrow> unat v div PGSIZE = unat w div PGSIZE)"

lemma user_rangeD:
  assumes "user_range s pd xs va n" "unat va \<le> unat v" "unat v < unat va + n"
  shows "\<exists>e. vmap (pmem s) pd v = Some e \<and> e AND PTE_U \<noteq> 0 \<and> page_ok (kend s) (P2V (PTE_ADDR e)) \<and> P2V (PTE_ADDR e) \<notin> pages (pmem s) pd xs"
  using assms unfolding user_range_def by blast

lemma mwrite_outside: "a < p \<or> p + length bs \<le> a \<Longrightarrow> mwrite p bs mem a = mem a"
  by (auto simp: mwrite_def)

lemma user_range_part:
  assumes "user_range s pd xs va n" "unat va \<le> unat va'" "unat va' + n' \<le> unat va + n"
  shows "user_range s pd xs va' n'"
  using assms unfolding user_range_def by (meson le_trans less_le_trans)

lemma user_range_same:
  assumes "user_range s pd xs va n" "vmap (pmem t) pd = vmap (pmem s) pd" "pages (pmem t) pd xs = pages (pmem s) pd xs" "kend t = kend s"
  shows "user_range t pd xs va n"
  using assms unfolding user_range_def by simp

text \<open>The physical addresses of two bytes of the range are equal only if the bytes are the same.\<close>

lemma user_range_inj:
  assumes "user_range s pd xs va n" "unat va \<le> unat v" "unat v < unat va + n" "unat va \<le> unat w" "unat w < unat va + n"
    "mmu (pmem s) (V2P pd) v = Some a" "mmu (pmem s) (V2P pd) w = Some a"
  shows "v = w"
proof -
  obtain e e' where e: "vmap (pmem s) pd v = Some e" "vmap (pmem s) pd w = Some e'"
    and a: "unat e div PGSIZE * PGSIZE + unat v mod PGSIZE = a" "unat e' div PGSIZE * PGSIZE + unat w mod PGSIZE = a"
    using assms(6,7) by (auto simp: mmu_vmap and_FFF unat_PTE_ADDR)
  have "a div PGSIZE = unat e div PGSIZE" "a mod PGSIZE = unat v mod PGSIZE" by (simp_all flip: a(1))
  moreover have "a div PGSIZE = unat e' div PGSIZE" "a mod PGSIZE = unat w mod PGSIZE" by (simp_all flip: a(2))
  ultimately have "PTE_ADDR e = PTE_ADDR e'" "unat v mod PGSIZE = unat w mod PGSIZE" by (simp_all add: word_unat_eq_iff unat_PTE_ADDR)
  moreover from this(1) have "unat v div PGSIZE = unat w div PGSIZE" using assms(1-5) e unfolding user_range_def by blast
  ultimately show ?thesis by (metis div_mult_mod_eq word_unat_eq_iff)
qed

lemma add_in_page:
  assumes "i < k - (n :: nat) mod k"
  shows "(n + i) div k = n div k" "(n + i) mod k = n mod k + i"
proof -
  have l: "n mod k + i < k" using assms by simp
  have g: "(q * k + r) div k = q \<and> (q * k + r) mod k = r" if "r < k" for q r using that by simp
  have e: "n div k * k + (n mod k + i) = n + i" by simp
  from g [OF l, of "n div k", unfolded e] show "(n + i) div k = n div k" "(n + i) mod k = n mod k + i" by blast+
qed

lemma page_bound:
  assumes "m div PGSIZE = unat (va :: u32) div PGSIZE"
  shows "m < 2 ^ 32"
proof -
  have "unat va < 2 ^ 32" using unsigned_less [of va] by simp
  then have "unat va < 2 ^ 20 * PGSIZE" by simp
  then have "unat va div PGSIZE < 2 ^ 20" by (rule less_mult_imp_div_less)
  then have "m div PGSIZE * PGSIZE + m mod PGSIZE < 2 ^ 20 * PGSIZE" using assms mod_less_divisor [of PGSIZE m] by simp
  then show ?thesis by simp
qed

text \<open>One page of \<open>copyout\<close>.\<close>

lemma copyout_page:
  assumes sp: "space_ok s pd xs" and l: "LKmem \<notin> set (held s)" and u: "user_range s pd xs va (length buf)" and b: "buf \<noteq> []"
    and n: "n = min (PGSIZE - unat va mod PGSIZE) (length buf)"
  shows "\<exists>p. (\<forall>i<n. mmu (pmem s) (V2P pd) (va + of_nat i) = Some (p + i)) \<and>
     copyout_loop pd va buf s = copyout_loop pd (PGROUNDDOWN va + 0x1000) (drop n buf) (s\<lparr>pmem := mwrite p (take n buf) (pmem s)\<rparr>) \<and>
     space_ok (s\<lparr>pmem := mwrite p (take n buf) (pmem s)\<rparr>) pd xs \<and> vmap (mwrite p (take n buf) (pmem s)) pd = vmap (pmem s) pd \<and>
     pages (mwrite p (take n buf) (pmem s)) pd xs = pages (pmem s) pd xs"
proof -
  let ?va0 = "PGROUNDDOWN va" and ?off = "unat va mod PGSIZE"
  have uo: "unat (va - ?va0) = ?off" using page_offset(1) [of va] and_FFF [of va] by simp
  then have va: "va - ?va0 = of_nat ?off" by (metis of_nat_unat ucast_id)
  obtain e where e: "vmap (pmem s) pd va = Some e" "e AND PTE_U \<noteq> 0" "page_ok (kend s) (P2V (PTE_ADDR e))" "P2V (PTE_ADDR e) \<notin> pages (pmem s) pd xs"
    using user_rangeD [OF u order_refl] b by auto
  let ?f = "P2V (PTE_ADDR e)" and ?p = "unat (PTE_ADDR e) + ?off"
  let ?m = "mwrite ?p (take n buf) (pmem s)"
  note pa = page_aligned [OF e(3) space_kend [OF sp]]
  have k: "kaddr (?f + (va - ?va0)) = ?p" unfolding va using kaddr_add [OF pa(1), of ?off] by simp
  have pg: "unat ?va0 div PGSIZE = unat va div PGSIZE" by (simp add: unat_PGROUNDDOWN)
  have "vmap (pmem s) pd ?va0 = Some e" using vmap_page [OF pg] e(1) by simp
  moreover from this have "ptab (pmem s) pd (unat (PDX ?va0)) \<noteq> None" by (auto simp: vmap_def split: option.splits)
  ultimately have ka: "uva2ka pd ?va0 s = Ok ?f s" using uva2ka_run [OF sp l, of ?va0] e(2) by simp
  have step: "copyout_loop pd va buf s = copyout_loop pd (?va0 + 0x1000) (drop n buf) (s\<lparr>pmem := ?m\<rparr>)"
    using b ka k pa(2) n by (simp add: copyout_loop.simps [of pd va] kput_def Let_def uo)
  have "?off + length (take n buf) \<le> PGSIZE" using n mod_less_divisor [of PGSIZE "unat va"] by simp
  then have "?m a = pmem s a" if "\<not> in_page ?f a" for a
    using that by (intro mwrite_outside) (auto simp: in_page_def)
  then have fw: "\<forall>a. \<not> in_page ?f a \<longrightarrow> ?m a = pmem s a" by blast
  have "mmu (pmem s) (V2P pd) (va + of_nat i) = Some (?p + i)" if "i < n" for i
  proof -
    have "i < PGSIZE - ?off" using that n by simp
    then have i: "(unat va + i) div PGSIZE = unat va div PGSIZE" "(unat va + i) mod PGSIZE = ?off + i" using add_in_page [of i PGSIZE "unat va"] by simp_all
    have "unat va + i < 2 ^ 32" using page_bound [OF i(1)] .
    then have "unat (va + of_nat i) = unat va + i" by (simp add: unat_word_ariths unat_of_nat)
    then show ?thesis using vmap_page [of "va + of_nat i" va] i e(1) by (simp add: mmu_vmap and_FFF)
  qed
  then show ?thesis using step frame_write(2-4) [OF sp e(3,4) fw] by (intro exI [of _ ?p]) simp
qed

text \<open>The bytes \<open>buf\<close> are at the user addresses from \<open>va\<close> on, and the rest of memory is unchanged.\<close>

definition put_user :: "u32 \<Rightarrow> u32 \<Rightarrow> byte list \<Rightarrow> memory \<Rightarrow> memory \<Rightarrow> bool" where
  "put_user pd va buf mem mem' \<longleftrightarrow>
     (\<forall>i<length buf. \<exists>a. mmu mem (V2P pd) (va + of_nat i) = Some a \<and> mem' a = buf ! i) \<and>
     (\<forall>a. (\<forall>i<length buf. mmu mem (V2P pd) (va + of_nat i) \<noteq> Some a) \<longrightarrow> mem' a = mem a)"

lemma next_page:
  assumes "n = min (PGSIZE - unat va mod PGSIZE) (length buf)" "n < length buf"
  shows "PGROUNDDOWN va + 0x1000 = va + of_nat n"
proof -
  have n: "n = PGSIZE - unat va mod PGSIZE" using assms by simp
  have "unat (va - PGROUNDDOWN va) = unat va mod PGSIZE" using page_offset(1) [of va] and_FFF [of va] by simp
  then have "va - PGROUNDDOWN va = of_nat (unat va mod PGSIZE)" by (metis of_nat_unat ucast_id)
  then have "va + of_nat n = PGROUNDDOWN va + of_nat (unat va mod PGSIZE + n)" by (simp add: algebra_simps)
  also have "unat va mod PGSIZE + n = PGSIZE" using n mod_less_divisor [of PGSIZE "unat va"] by simp
  finally show ?thesis by simp
qed

lemma put_user_append:
  assumes "user_range s pd xs va (length bs + length cs)" "unat va + (length bs + length cs) < 2 ^ 32"
    and p: "\<forall>i<length bs. mmu (pmem s) (V2P pd) (va + of_nat i) = Some (p + i)"
    and m: "mmu mem' (V2P pd) = mmu (pmem s) (V2P pd)" "mem' = mwrite p bs (pmem s)"
    and r: "put_user pd (va + of_nat (length bs)) cs mem' mem''"
  shows "put_user pd va (bs @ cs) (pmem s) mem''"
  unfolding put_user_def
proof (intro conjI allI impI)
  let ?n = "length bs"
  have later: "mmu (pmem s) (V2P pd) (va + of_nat ?n + of_nat j) = mmu (pmem s) (V2P pd) (va + of_nat (?n + j))" for j
    by (simp add: algebra_simps)
  have un: "unat (va + of_nat i) = unat va + i" if "i < ?n + length cs" for i
    using that assms(2) by (simp add: unat_word_ariths unat_of_nat)
  fix i assume i: "i < length (bs @ cs)"
  show "\<exists>a. mmu (pmem s) (V2P pd) (va + of_nat i) = Some a \<and> mem'' a = (bs @ cs) ! i"
  proof (cases "i < ?n")
    case True
    have "mmu mem' (V2P pd) (va + of_nat ?n + of_nat j) \<noteq> Some (p + i)" if "j < length cs" for j
    proof
      assume "mmu mem' (V2P pd) (va + of_nat ?n + of_nat j) = Some (p + i)"
      then have "mmu (pmem s) (V2P pd) (va + of_nat (?n + j)) = Some (p + i)" unfolding m(1) later .
      then have "va + of_nat (?n + j) = va + of_nat i"
        using user_range_inj [OF assms(1), of "va + of_nat (?n + j)" "va + of_nat i" "p + i"] p True that un [of "?n + j"] un [of i] by simp
      then show False using un [of "?n + j"] un [of i] that True by simp
    qed
    then have "mem'' (p + i) = mem' (p + i)" using r unfolding put_user_def by blast
    then show ?thesis using p True m(2) by (simp add: mwrite_def nth_append)
  next
    case False
    then obtain j where j: "i = ?n + j" "j < length cs" using i by (metis add_diff_inverse_nat length_append nat_add_left_cancel_less)
    then obtain a where "mmu (pmem s) (V2P pd) (va + of_nat ?n + of_nat j) = Some a" "mem'' a = cs ! j"
      using r unfolding put_user_def m(1) by blast
    then show ?thesis unfolding later j(1) by (intro exI [of _ a]) (simp add: nth_append)
  qed
next
  let ?n = "length bs"
  fix a assume h: "\<forall>i<length (bs @ cs). mmu (pmem s) (V2P pd) (va + of_nat i) \<noteq> Some a"
  have "\<not> (p \<le> a \<and> a < p + ?n)"
  proof
    assume "p \<le> a \<and> a < p + ?n"
    then obtain i where "a = p + i" "i < ?n" by (metis add_diff_inverse_nat nat_add_left_cancel_less not_le)
    then show False using p h [rule_format, of i] by simp
  qed
  then have "mem' a = pmem s a" by (auto simp: m(2) mwrite_def)
  moreover have "mmu mem' (V2P pd) (va + of_nat ?n + of_nat j) \<noteq> Some a" if "j < length cs" for j
    using h [rule_format, of "?n + j"] that unfolding m(1) by (simp add: algebra_simps)
  ultimately show "mem'' a = pmem s a" using r unfolding put_user_def by auto
qed

lemma copyout_loop_nil: "copyout_loop pd va [] = ret 0"
  by (simp add: copyout_loop.simps [of pd va "[]"])

lemma copyout_loop_run:
  assumes "space_ok s pd xs" "LKmem \<notin> set (held s)" "user_range s pd xs va (length buf)" "unat va + length buf < 2 ^ 32"
  shows "\<exists>m. copyout_loop pd va buf s = Ok 0 (s\<lparr>pmem := m\<rparr>) \<and> space_ok (s\<lparr>pmem := m\<rparr>) pd xs \<and> vmap m pd = vmap (pmem s) pd \<and>
     put_user pd va buf (pmem s) m"
  using assms
proof (induction buf arbitrary: va s rule: length_induct)
  case (1 buf va s)
  note sp = 1(2) and l = 1(3) and u = 1(4) and b = 1(5)
  show ?case
  proof (cases "buf = []")
    case True
    then show ?thesis using sp by (intro exI [of _ "pmem s"]) (simp add: copyout_loop_nil put_user_def)
  next
    case False
    define n where n: "n = min (PGSIZE - unat va mod PGSIZE) (length buf)"
    let ?v = "PGROUNDDOWN va + 0x1000"
    obtain p where p: "\<forall>i<n. mmu (pmem s) (V2P pd) (va + of_nat i) = Some (p + i)"
      and st: "copyout_loop pd va buf s = copyout_loop pd ?v (drop n buf) (s\<lparr>pmem := mwrite p (take n buf) (pmem s)\<rparr>)"
      and inv: "space_ok (s\<lparr>pmem := mwrite p (take n buf) (pmem s)\<rparr>) pd xs" "vmap (mwrite p (take n buf) (pmem s)) pd = vmap (pmem s) pd"
        "pages (mwrite p (take n buf) (pmem s)) pd xs = pages (pmem s) pd xs"
      using copyout_page [OF sp l u False n] by blast
    let ?m = "mwrite p (take n buf) (pmem s)"
    let ?s = "s\<lparr>pmem := ?m\<rparr>"
    have n0: "0 < n" "n \<le> length buf" using n False by simp_all
    have v: "unat (va + of_nat n) = unat va + n" if "n < length buf" using that b by (simp add: unat_word_ariths unat_of_nat)
    have mm: "mmu ?m (V2P pd) = mmu (pmem s) (V2P pd)" by (rule ext) (simp add: mmu_vmap inv(2))
    have "\<exists>m. copyout_loop pd ?v (drop n buf) ?s = Ok 0 (?s\<lparr>pmem := m\<rparr>) \<and> space_ok (?s\<lparr>pmem := m\<rparr>) pd xs \<and> vmap m pd = vmap ?m pd \<and>
        put_user pd (va + of_nat n) (drop n buf) ?m m"
    proof (cases "n < length buf")
      case True
      have "user_range s pd xs ?v (length (drop n buf))"
        unfolding next_page [OF n True] by (rule user_range_part [OF u]) (use v [OF True] n0 in simp_all)
      then have ur: "user_range ?s pd xs ?v (length (drop n buf))" by (rule user_range_same) (use inv(2,3) in simp_all)
      have lt: "length (drop n buf) < length buf" using n0 True by simp
      have nv: "unat ?v + length (drop n buf) < 2 ^ 32" unfolding next_page [OF n True] using v [OF True] b True by simp
      have hl: "LKmem \<notin> set (held ?s)" using l by simp
      from 1(1) [rule_format, OF lt inv(1) hl ur nv] show ?thesis unfolding next_page [OF n True] by simp
    next
      case False
      then show ?thesis using inv(1) by (intro exI [of _ ?m]) (simp add: copyout_loop_nil put_user_def)
    qed
    then obtain m where m: "copyout_loop pd ?v (drop n buf) ?s = Ok 0 (?s\<lparr>pmem := m\<rparr>)" "space_ok (?s\<lparr>pmem := m\<rparr>) pd xs" "vmap m pd = vmap ?m pd"
      "put_user pd (va + of_nat n) (drop n buf) ?m m" by blast
    have "put_user pd va (take n buf @ drop n buf) (pmem s) m"
      by (rule put_user_append [where p = p and mem' = ?m and s = s and xs = xs]) (use u b p mm m(4) n0 in simp_all)
    then show ?thesis using st m inv(2) by (intro exI [of _ m]) simp
  qed
qed

section \<open>Growing a process\<close>

lemma space_alloc:
  assumes sp: "space_ok s pd (x # ys)" and f: "f = load32 (kaddr x) (pmem s)"
  shows "space_ok (s\<lparr>freelist := f\<rparr>) pd ys" "x \<notin> pages (pmem s) pd ys" "page_ok (kend s) x"
    "insert x (pages (pmem s) pd ys) = pages (pmem s) pd (x # ys)" "x \<noteq> 0" "freelist s = x"
proof -
  have k: "kmem_ok s (x # ys)" using sp by (simp add: space_ok_def)
  then show "x \<noteq> 0" "freelist s = x" by (simp_all add: kmem_ok_def)
  have "kmem_ok (s\<lparr>freelist := f\<rparr>) ys" using k by (simp add: kmem_ok_def f)
  then show "space_ok (s\<lparr>freelist := f\<rparr>) pd ys" using sp by (simp add: space_ok_def)
  show "page_ok (kend s) x" using k by (simp add: kmem_ok_def)
  show "x \<notin> pages (pmem s) pd ys" using sp k by (auto simp: space_ok_def pages_def kmem_ok_def)
  show "insert x (pages (pmem s) pd ys) = pages (pmem s) pd (x # ys)" by (auto simp: pages_def)
qed

text \<open>What one turn of \<open>allocuvm\<close> does with two free pages at hand.\<close>

definition grown :: "u32 \<Rightarrow> u32 \<Rightarrow> 'z mst_scheme \<Rightarrow> u32 list \<Rightarrow> u32 \<Rightarrow> 'z mst_scheme \<Rightarrow> u32 list \<Rightarrow> bool" where
  "grown pd a s xs x t ys \<longleftrightarrow> space_ok t pd ys \<and> (\<exists>m f. t = s\<lparr>pmem := m, freelist := f\<rparr>) \<and> length xs \<le> length ys + 2 \<and>
     x \<notin> pages (pmem t) pd ys \<and> insert x (pages (pmem t) pd ys) = pages (pmem s) pd xs \<and> page_ok (kend s) x \<and>
     vmap (pmem t) pd = remap a 1 (V2P x) 6 (vmap (pmem s) pd) \<and> (\<forall>b. in_page x b \<longrightarrow> pmem t b = 0) \<and>
     (\<forall>b. (\<forall>q\<in>pages (pmem s) pd xs. \<not> in_page q b) \<longrightarrow> pmem t b = pmem s b)"

lemma allocuvm_page_run:
  assumes sp: "space_ok s pd xs" and l: "LKmem \<notin> set (held s)" and n: "2 \<le> length xs"
    and a: "unat a mod PGSIZE = 0" "unat a + PGSIZE \<le> 2 ^ 32" "vmap (pmem s) pd a = None"
  shows "\<exists>x t ys. allocuvm_page pd osz nsz a s = Ok None t \<and> grown pd a s xs x t ys"
proof -
  obtain x zs where xs: "xs = x # zs" "1 \<le> length zs" using n by (cases xs) simp_all
  let ?f = "load32 (kaddr x) (pmem s)" and ?z = "memset (kaddr x) 0 PGSIZE (pmem s)"
  let ?s1 = "s\<lparr>freelist := ?f\<rparr>" and ?s2 = "s\<lparr>freelist := ?f, pmem := ?z\<rparr>"
  note al = space_alloc [OF sp [unfolded xs(1)] refl]
  have z: "?z b = (if in_page x b then 0 else pmem s b)" for b by (simp add: memset_fills in_page_def)
  have "page_ok (kend ?s1) x" "x \<notin> pages (pmem ?s1) pd zs" "\<forall>b. \<not> in_page x b \<longrightarrow> ?z b = pmem ?s1 b" using al(2,3) z by simp_all
  note fw = frame_write [OF al(1) this]
  have s2: "space_ok ?s2 pd zs" "vmap ?z pd = vmap (pmem s) pd" "pages ?z pd zs = pages (pmem s) pd zs" using fw by simp_all
  have np: "npages a 0x1000 = 1"
  proof -
    have "(unat a + 4095) div PGSIZE = unat a div PGSIZE" using add_in_page(1) [of 4095 PGSIZE "unat a"] a(1) by simp
    then show ?thesis by (simp add: npages_def)
  qed
  have l2: "LKmem \<notin> set (held ?s2)" using l by simp
  have un: "\<forall>v. unat a div PGSIZE \<le> unat v div PGSIZE \<and> unat v div PGSIZE < unat a div PGSIZE + npages a 0x1000 \<longrightarrow> vmap (pmem ?s2) pd v = None"
  proof (intro allI impI)
    fix v :: u32 assume "unat a div PGSIZE \<le> unat v div PGSIZE \<and> unat v div PGSIZE < unat a div PGSIZE + npages a 0x1000"
    then have "unat v div PGSIZE = unat a div PGSIZE" by (simp add: np)
    from vmap_page [OF this] show "vmap (pmem ?s2) pd v = None" using a(3) s2(2) by simp
  qed
  have sz: "(0 :: u32) < 0x1000" "unat a + unat (0x1000 :: u32) \<le> 2 ^ 32" using a(2) by simp_all
  obtain t ys j where t: "mappages pd a 0x1000 (V2P x) 6 ?s2 = Ok (if j = 1 then 0 else -1) t" "vm_step pd ?s2 zs t ys" "j \<le> 1"
    "vmap (pmem t) pd = remap a j (V2P x) 6 (vmap ?z pd)" "length zs \<le> length ys + j" "j < 1 \<longrightarrow> ys = []"
    using mappages_run [OF s2(1) l2 sz un, of "V2P x" 6] by (auto simp: np)
  have j: "j = 1" using t(3,5,6) xs(2) by (cases "j < 1") auto
  have run: "allocuvm_page pd osz nsz a s = Ok None t"
    using kalloc_run [OF l] al(5,6) t(1) j by (simp add: allocuvm_page_def kmemset_def)
  obtain m f where "t = ?s2\<lparr>pmem := m, freelist := f\<rparr>" using t(2) by (auto simp: vm_step_def)
  then have "t = s\<lparr>pmem := m, freelist := f\<rparr>" by simp
  then have tr: "\<exists>m f. t = s\<lparr>pmem := m, freelist := f\<rparr>" by blast
  have pt: "pages (pmem t) pd ys = pages (pmem s) pd zs" using t(2) s2(3) by (simp add: vm_step_def)
  have out: "\<forall>b. (\<forall>q\<in>pages (pmem s) pd zs. \<not> in_page q b) \<longrightarrow> pmem t b = ?z b" using t(2) s2(3) by (simp add: vm_step_def)
  have "\<not> in_page q b" if "in_page x b" "q \<in> pages (pmem s) pd zs" for q b
    using in_two_pages [OF sp [unfolded xs(1)], of q x b] al(2,4) that by auto
  then have "\<forall>b. in_page x b \<longrightarrow> pmem t b = 0" using out z by simp
  moreover have "\<forall>b. (\<forall>q\<in>pages (pmem s) pd xs. \<not> in_page q b) \<longrightarrow> pmem t b = pmem s b"
    using out z unfolding xs(1) al(4) [symmetric] by simp
  ultimately have "grown pd a s xs x t ys"
    unfolding grown_def using tr pt al(2,3,4) t(2,4,5) s2(2) j xs by (simp add: vm_step_def)
  then show ?thesis using run by blast
qed

text \<open>
  The pages \<open>as\<close> of the address space are new: each has its own page \<open>F a\<close> from the free
  list, cleared, writable and accessible to the user.
\<close>

definition fresh_pages :: "u32 \<Rightarrow> u32 list \<Rightarrow> 'z mst_scheme \<Rightarrow> u32 list \<Rightarrow> 'z mst_scheme \<Rightarrow> u32 list \<Rightarrow> (u32 \<Rightarrow> u32) \<Rightarrow> bool" where
  "fresh_pages pd as s xs t ys F \<longleftrightarrow> space_ok t pd ys \<and> (\<exists>m f. t = s\<lparr>pmem := m, freelist := f\<rparr>) \<and>
     pages (pmem t) pd ys \<subseteq> pages (pmem s) pd xs \<and>
     (\<forall>b. (\<forall>q\<in>pages (pmem s) pd xs. \<not> in_page q b) \<longrightarrow> pmem t b = pmem s b) \<and>
     (\<forall>v. (\<forall>a\<in>set as. unat v div PGSIZE \<noteq> unat a div PGSIZE) \<longrightarrow> vmap (pmem t) pd v = vmap (pmem s) pd v) \<and>
     inj_on F (set as) \<and>
     (\<forall>a\<in>set as. F a \<in> pages (pmem s) pd xs - pages (pmem t) pd ys \<and> vmap (pmem t) pd a = Some (V2P (F a) OR 7) \<and>
        (\<forall>b. in_page (F a) b \<longrightarrow> pmem t b = 0))"

lemma pte_for_user: "pte_for pa 6 0 = pa OR 7"
  by (simp add: pte_for_def or.assoc)

lemma fresh_pages_Cons:
  assumes sp: "space_ok s pd xs" and g: "grown pd a s xs x u zs" and f: "fresh_pages pd as u zs t ys F"
    and d: "\<forall>b\<in>set as. unat b div PGSIZE \<noteq> unat a div PGSIZE"
  shows "fresh_pages pd (a # as) s xs t ys (F(a := x))"
proof -
  have gp: "x \<notin> pages (pmem u) pd zs" "insert x (pages (pmem u) pd zs) = pages (pmem s) pd xs" using g by (simp_all add: grown_def)
  have fp: "pages (pmem t) pd ys \<subseteq> pages (pmem u) pd zs" "inj_on F (set as)" "\<forall>b\<in>set as. F b \<in> pages (pmem u) pd zs - pages (pmem t) pd ys"
    using f by (simp_all add: fresh_pages_def)
  have na: "a \<notin> set as" using d by blast
  have in2: "\<not> in_page q b" if "in_page x b" "q \<in> pages (pmem u) pd zs" for q b
    using in_two_pages [OF sp, of q x b] gp that by blast
  have zx: "pmem t b = 0" if "in_page x b" for b
    using f g in2 [OF that] that by (simp add: fresh_pages_def grown_def)
  have fv: "\<forall>v. (\<forall>b\<in>set as. unat v div PGSIZE \<noteq> unat b div PGSIZE) \<longrightarrow> vmap (pmem t) pd v = vmap (pmem u) pd v"
    and fo: "\<forall>b. (\<forall>q\<in>pages (pmem u) pd zs. \<not> in_page q b) \<longrightarrow> pmem t b = pmem u b" using f unfolding fresh_pages_def by blast+
  have gv: "vmap (pmem u) pd = remap a 1 (V2P x) 6 (vmap (pmem s) pd)"
    and go: "\<forall>b. (\<forall>q\<in>pages (pmem s) pd xs. \<not> in_page q b) \<longrightarrow> pmem u b = pmem s b" using g by (simp_all add: grown_def)
  have "vmap (pmem t) pd a = vmap (pmem u) pd a" using fv d by metis
  then have va: "vmap (pmem t) pd a = Some (V2P x OR 7)" by (simp add: gv remap_def pte_for_user)
  have vo: "vmap (pmem t) pd v = vmap (pmem s) pd v" if "\<forall>b\<in>set (a # as). unat v div PGSIZE \<noteq> unat b div PGSIZE" for v
    using fv that by (auto simp: gv remap_def)
  obtain m1 f1 where u: "u = s\<lparr>pmem := m1, freelist := f1\<rparr>" using g by (auto simp: grown_def)
  obtain m2 f2 where t: "t = u\<lparr>pmem := m2, freelist := f2\<rparr>" using f by (auto simp: fresh_pages_def)
  have "t = s\<lparr>pmem := m2, freelist := f2\<rparr>" by (simp add: t u)
  then have tr: "\<exists>m f. t = s\<lparr>pmem := m, freelist := f\<rparr>" by blast
  have out: "pmem t b = pmem s b" if "\<forall>q\<in>pages (pmem s) pd xs. \<not> in_page q b" for b
    using fo go that gp(2) by (metis insertCI)
  have inj: "inj_on (F(a := x)) (set (a # as))" using fp gp(1) na by (auto simp: inj_on_def)
  have "(F(a := x)) b \<in> pages (pmem s) pd xs - pages (pmem t) pd ys \<and> vmap (pmem t) pd b = Some (V2P ((F(a := x)) b) OR 7) \<and>
      (\<forall>c. in_page ((F(a := x)) b) c \<longrightarrow> pmem t c = 0)" if "b \<in> set (a # as)" for b
    using that f fp(1) gp va zx na by (auto simp: fresh_pages_def)
  moreover have "space_ok t pd ys" using f by (simp add: fresh_pages_def)
  moreover have "pages (pmem t) pd ys \<subseteq> pages (pmem s) pd xs" using fp(1) gp(2) by blast
  ultimately show ?thesis unfolding fresh_pages_def using tr vo out inj by blast
qed

lemma aligned_page: "unat a mod PGSIZE = 0 \<Longrightarrow> unat b mod PGSIZE = 0 \<Longrightarrow> unat a div PGSIZE = unat b div PGSIZE \<Longrightarrow> (a :: u32) = b"
  by (metis div_mult_mod_eq word_unat_eq_iff)

lemma allocuvm_loop_run:
  assumes "space_ok s pd xs" "LKmem \<notin> set (held s)" "2 * length as \<le> length xs" "distinct as"
    "\<forall>a\<in>set as. unat a mod PGSIZE = 0 \<and> unat a + PGSIZE \<le> 2 ^ 32 \<and> vmap (pmem s) pd a = None"
  shows "\<exists>t ys F. search_each as (allocuvm_page pd osz nsz) s = Ok None t \<and> fresh_pages pd as s xs t ys F"
  using assms
proof (induction as arbitrary: s xs)
  case Nil
  have "fresh_pages pd [] s xs s xs id" unfolding fresh_pages_def using Nil.prems(1) same_rest_refl [of s] by simp
  moreover have "search_each [] (allocuvm_page pd osz nsz) s = Ok None s" by simp
  ultimately show ?case by blast
next
  case (Cons a as)
  have a: "unat a mod PGSIZE = 0" "unat a + PGSIZE \<le> 2 ^ 32" "vmap (pmem s) pd a = None" using Cons.prems(5) by simp_all
  have "2 \<le> length xs" using Cons.prems(3) by simp
  then obtain x u zs where r: "allocuvm_page pd osz nsz a s = Ok None u" "grown pd a s xs x u zs"
    using allocuvm_page_run [OF Cons.prems(1,2) _ a] by blast
  have d: "unat b div PGSIZE \<noteq> unat a div PGSIZE" if "b \<in> set as" for b
    using aligned_page [of b a] Cons.prems(4,5) that a(1) by auto
  have "vmap (pmem u) pd b = None" if "b \<in> set as" for b
  proof -
    have "vmap (pmem u) pd = remap a 1 (V2P x) 6 (vmap (pmem s) pd)" using r(2) by (simp add: grown_def)
    moreover have "vmap (pmem s) pd b = None" using Cons.prems(5) that by simp
    ultimately show ?thesis using d [OF that] by (auto simp: remap_def)
  qed
  then have v: "\<forall>b\<in>set as. unat b mod PGSIZE = 0 \<and> unat b + PGSIZE \<le> 2 ^ 32 \<and> vmap (pmem u) pd b = None" using Cons.prems(5) by simp
  have "space_ok u pd zs" "LKmem \<notin> set (held u)" "2 * length as \<le> length zs" "distinct as"
    using r(2) Cons.prems(2-4) by (auto simp: grown_def)
  then obtain t ys F where t: "search_each as (allocuvm_page pd osz nsz) u = Ok None t" "fresh_pages pd as u zs t ys F"
    using Cons.IH [OF _ _ _ _ v] by blast
  have "fresh_pages pd (a # as) s xs t ys (F(a := x))" by (rule fresh_pages_Cons [OF Cons.prems(1) r(2) t(2)]) (use d in blast)
  moreover have "search_each (a # as) (allocuvm_page pd osz nsz) s = Ok None t" using r(1) t(1) by simp
  ultimately show ?case by blast
qed

text \<open>The pages that \<open>allocuvm\<close> adds.\<close>

lemma unat_PGROUNDUP:
  assumes "unat sz < 2147483648"
  shows "unat (PGROUNDUP sz) = (unat sz + 4095) div PGSIZE * PGSIZE"
proof -
  have "unat (sz + 0xFFF) = unat sz + 4095" using assms by (simp add: unat_word_ariths)
  moreover have "PGROUNDUP sz = PGROUNDDOWN (sz + 0xFFF)" by (simp add: PGROUNDUP_def PGROUNDDOWN_def)
  ultimately show ?thesis by (simp add: unat_PGROUNDDOWN)
qed

lemma roundup_bounds: "(n :: nat) \<le> (n + 4095) div PGSIZE * PGSIZE" "(n + 4095) div PGSIZE * PGSIZE \<le> n + 4095"
  "(m + 4095) div PGSIZE \<le> m div PGSIZE + 1"
  by linarith+

lemma uvm_pages_set:
  assumes "unat osz < 2147483648" "unat nsz < 2147483648"
  shows "set (uvm_pages (PGROUNDUP osz) nsz) = {a. unat a mod PGSIZE = 0 \<and> osz \<le> a \<and> a < nsz}" (is "?L = ?R")
    and "distinct (uvm_pages (PGROUNDUP osz) nsz)" and "length (uvm_pages (PGROUNDUP osz) nsz) \<le> (unat nsz - unat osz) div PGSIZE + 1"
proof -
  let ?a = "PGROUNDUP osz"
  let ?n = "(unat nsz - unat ?a + 4095) div PGSIZE"
  have a: "unat ?a = (unat osz + 4095) div PGSIZE * PGSIZE" by (rule unat_PGROUNDUP [OF assms(1)])
  have ab: "unat osz \<le> unat ?a" "unat ?a \<le> unat osz + 4095" unfolding a by (rule roundup_bounds)+
  have un: "unat (?a + of_nat (k * PGSIZE)) = unat ?a + k * PGSIZE" and lt: "unat ?a + k * PGSIZE < unat nsz" if "k < ?n" for k
  proof -
    have "Suc k * PGSIZE \<le> ?n * PGSIZE" using that by (intro mult_le_mono1) simp
    also have "\<dots> \<le> unat nsz - unat ?a + 4095" by (rule roundup_bounds(2))
    finally have k: "k * PGSIZE < unat nsz - unat ?a" by simp
    then show "unat ?a + k * PGSIZE < unat nsz" by simp
    then show "unat (?a + of_nat (k * PGSIZE)) = unat ?a + k * PGSIZE" using assms(2) by (intro unat_page) simp
  qed
  have img: "?L = (\<lambda>k. ?a + of_nat (k * PGSIZE)) ` {..<?n}" unfolding uvm_pages_def set_map set_upt atLeast0LessThan ..
  show "?L = ?R"
  proof (intro equalityI subsetI)
    fix v assume "v \<in> ?L"
    then obtain k where k: "k < ?n" "v = ?a + of_nat (k * PGSIZE)" unfolding img by blast
    from un [OF k(1)] lt [OF k(1)] show "v \<in> ?R" using k(2) ab(1) a by (simp add: word_le_nat_alt word_less_nat_alt)
  next
    fix v assume "v \<in> ?R"
    then have v: "unat v mod PGSIZE = 0" "unat osz \<le> unat v" "unat v < unat nsz" by (simp_all add: word_le_nat_alt word_less_nat_alt)
    have vd: "unat v = unat v div PGSIZE * PGSIZE" using v(1) by (metis add.right_neutral div_mult_mod_eq)
    define k where "k = unat v div PGSIZE - (unat osz + 4095) div PGSIZE"
    have "unat osz + 4095 < (unat v div PGSIZE + 1) * PGSIZE" using vd v(2) by simp
    then have "(unat osz + 4095) div PGSIZE < unat v div PGSIZE + 1" by (rule less_mult_imp_div_less)
    then have "(unat osz + 4095) div PGSIZE \<le> unat v div PGSIZE" by simp
    then have kv: "unat v = unat ?a + k * PGSIZE" using vd unfolding a k_def by (simp add: diff_mult_distrib)
    then have "k < ?n" using v(3) by linarith
    moreover have "v = ?a + of_nat (k * PGSIZE)" using un [OF \<open>k < ?n\<close>] kv by (simp add: word_unat_eq_iff)
    ultimately show "v \<in> ?L" unfolding img by blast
  qed
  have "inj_on (\<lambda>k. ?a + of_nat (k * PGSIZE)) (set [0..<?n])"
  proof (rule inj_onI)
    fix k j assume "k \<in> set [0..<?n]" "j \<in> set [0..<?n]" "?a + of_nat (k * PGSIZE) = ?a + of_nat (j * PGSIZE)"
    then show "k = j" using un [of k] un [of j] by simp
  qed
  then show "distinct (uvm_pages ?a nsz)" by (simp add: uvm_pages_def distinct_map)
  have "?n \<le> (unat nsz - unat ?a) div PGSIZE + 1" by (rule roundup_bounds(3))
  also have "(unat nsz - unat ?a) div PGSIZE \<le> (unat nsz - unat osz) div PGSIZE" using ab(1) by (intro div_le_mono) simp
  finally show "length (uvm_pages ?a nsz) \<le> (unat nsz - unat osz) div PGSIZE + 1" by (simp add: uvm_pages_def)
qed

section \<open>Properties\<close>

text \<open>
  C27: \<open>mappages\<close> on a range of unmapped pages installs translations that the processor
  follows. It maps the first \<open>j\<close> pages of the range, each to its own physical page with
  the permissions given, and changes the translation of no other address; \<open>j\<close> is the
  whole range and the result 0 unless the free list runs empty, which needs fewer free
  pages than pages to map. Pages move only from the free list into the tables, the
  directory, its tables and the free pages stay distinct, and no other memory is
  written. If the first page is already mapped the kernel panics.
\<close>
theorem mappages_correct:
  fixes s :: "'z mst_scheme"
  assumes "space_ok s pd xs" and "LKmem \<notin> set (held s)" and "0 < sz" and "unat va + unat sz \<le> 2 ^ 32"
    and "unat pa mod PGSIZE = 0" and "perm AND NOT 0xFFF = 0"
  shows "((\<forall>v. unat va div PGSIZE \<le> unat v div PGSIZE \<and> unat v div PGSIZE < unat va div PGSIZE + npages va sz \<longrightarrow> vmap (pmem s) pd v = None) \<longrightarrow>
     (\<exists>t ys j. mappages pd va sz pa perm s = Ok (if j = npages va sz then 0 else -1) t \<and> j \<le> npages va sz \<and>
       (j < npages va sz \<longrightarrow> ys = []) \<and> (npages va sz \<le> length xs \<longrightarrow> j = npages va sz) \<and>
       (\<forall>v. mmu (pmem t) (V2P pd) v =
         (if unat va div PGSIZE \<le> unat v div PGSIZE \<and> unat v div PGSIZE < unat va div PGSIZE + j
          then Some (unat (pa + of_nat ((unat v div PGSIZE - unat va div PGSIZE) * PGSIZE)) + unat v mod PGSIZE)
          else mmu (pmem s) (V2P pd) v)) \<and>
       vmap (pmem t) pd = remap va j pa perm (vmap (pmem s) pd) \<and>
       space_ok t pd ys \<and> pages (pmem t) pd ys = pages (pmem s) pd xs \<and> suffix ys xs \<and>
       (\<forall>a. (\<forall>q\<in>pages (pmem s) pd xs. \<not> in_page q a) \<longrightarrow> pmem t a = pmem s a))) \<and>
   (vmap (pmem s) pd va \<noteq> None \<longrightarrow> mappages pd va sz pa perm s = Panic ''remap'' s)"
proof (intro conjI impI)
  assume "\<forall>v. unat va div PGSIZE \<le> unat v div PGSIZE \<and> unat v div PGSIZE < unat va div PGSIZE + npages va sz \<longrightarrow> vmap (pmem s) pd v = None"
  then obtain t ys j where r: "mappages pd va sz pa perm s = Ok (if j = npages va sz then 0 else -1) t" "vm_step pd s xs t ys"
    "j \<le> npages va sz" "vmap (pmem t) pd = remap va j pa perm (vmap (pmem s) pd)" "length xs \<le> length ys + j" "j < npages va sz \<longrightarrow> ys = []"
    using mappages_run [OF assms(1-4)] by blast
  have "npages va sz \<le> length xs \<longrightarrow> j = npages va sz" using r(3,5,6) by (cases "j < npages va sz") auto
  then show "\<exists>t ys j. mappages pd va sz pa perm s = Ok (if j = npages va sz then 0 else -1) t \<and> j \<le> npages va sz \<and>
       (j < npages va sz \<longrightarrow> ys = []) \<and> (npages va sz \<le> length xs \<longrightarrow> j = npages va sz) \<and>
       (\<forall>v. mmu (pmem t) (V2P pd) v =
         (if unat va div PGSIZE \<le> unat v div PGSIZE \<and> unat v div PGSIZE < unat va div PGSIZE + j
          then Some (unat (pa + of_nat ((unat v div PGSIZE - unat va div PGSIZE) * PGSIZE)) + unat v mod PGSIZE)
          else mmu (pmem s) (V2P pd) v)) \<and>
       vmap (pmem t) pd = remap va j pa perm (vmap (pmem s) pd) \<and>
       space_ok t pd ys \<and> pages (pmem t) pd ys = pages (pmem s) pd xs \<and> suffix ys xs \<and>
       (\<forall>a. (\<forall>q\<in>pages (pmem s) pd xs. \<not> in_page q a) \<longrightarrow> pmem t a = pmem s a)"
    using r mmu_remap [OF r(4) assms(5,6)] unfolding vm_step_def by (intro exI [of _ t] exI [of _ ys] exI [of _ j]) auto
next
  show "mappages pd va sz pa perm s = Panic ''remap'' s" if "vmap (pmem s) pd va \<noteq> None"
    by (rule mappages_remap [OF assms(1-4)]) (use that in simp)
qed

text \<open>
  C28: \<open>allocuvm\<close> with enough free pages grows a process from \<open>oldsz\<close> to \<open>newsz\<close>: every
  page of the new part is backed by a page of its own, taken from the free list, filled
  with zeros, and mapped writable for the user; every other translation, the page tables'
  discipline and all memory outside the pages taken stay as they were. A size at or above
  \<open>KERNBASE\<close> is refused, and shrinking changes nothing.
\<close>
theorem allocuvm_correct:
  fixes s :: "'z mst_scheme"
  assumes "space_ok s pd xs" and "LKmem \<notin> set (held s)"
  shows "(KERNBASE \<le> nsz \<longrightarrow> allocuvm pd osz nsz s = Ok 0 s) \<and>
   (nsz < KERNBASE \<and> nsz < osz \<longrightarrow> allocuvm pd osz nsz s = Ok osz s) \<and>
   (nsz < KERNBASE \<and> osz \<le> nsz \<and> 2 * ((unat nsz - unat osz) div PGSIZE + 1) \<le> length xs \<and>
      (\<forall>a. unat a mod PGSIZE = 0 \<and> osz \<le> a \<and> a < nsz \<longrightarrow> vmap (pmem s) pd a = None) \<longrightarrow>
    (\<exists>t ys as F. allocuvm pd osz nsz s = Ok nsz t \<and> set as = {a. unat a mod PGSIZE = 0 \<and> osz \<le> a \<and> a < nsz} \<and>
       fresh_pages pd as s xs t ys F))"
proof (intro conjI impI)
  assume a: "nsz < KERNBASE \<and> osz \<le> nsz \<and> 2 * ((unat nsz - unat osz) div PGSIZE + 1) \<le> length xs \<and>
      (\<forall>a. unat a mod PGSIZE = 0 \<and> osz \<le> a \<and> a < nsz \<longrightarrow> vmap (pmem s) pd a = None)"
  let ?as = "uvm_pages (PGROUNDUP osz) nsz"
  have n: "unat nsz < 2147483648" using a by (simp add: word_less_nat_alt)
  moreover have "unat osz \<le> unat nsz" using a by (simp add: word_le_nat_alt)
  ultimately have o: "unat osz < 2147483648" by simp
  note pg = uvm_pages_set [OF o n]
  have l: "2 * length ?as \<le> length xs" using pg(3) a by simp
  have p: "\<forall>a\<in>set ?as. unat a mod PGSIZE = 0 \<and> unat a + PGSIZE \<le> 2 ^ 32 \<and> vmap (pmem s) pd a = None"
    unfolding pg(1) using a n by (simp add: word_less_nat_alt)
  obtain t ys F where "search_each ?as (allocuvm_page pd osz nsz) s = Ok None t" "fresh_pages pd ?as s xs t ys F"
    using allocuvm_loop_run [OF assms l pg(2) p] by blast
  moreover from this(1) have "allocuvm pd osz nsz s = Ok nsz t" using a by (auto simp: allocuvm_def not_le not_less)
  ultimately show "\<exists>t ys as F. allocuvm pd osz nsz s = Ok nsz t \<and> set as = {a. unat a mod PGSIZE = 0 \<and> osz \<le> a \<and> a < nsz} \<and>
       fresh_pages pd as s xs t ys F" using pg(1) by blast
qed (auto simp: allocuvm_def)

text \<open>An empty directory and one free page.\<close>

definition demo_pg :: mst where
  "demo_pg = demo_mst\<lparr>pmem := junk 0x80300000 0 (\<lambda>_. 0), freelist := 0x80300000\<rparr>"

lemma demo_pg_zero: "\<forall>a. in_page 0x80200000 a \<longrightarrow> pmem demo_pg a = 0"
  by (auto simp: demo_pg_def in_page_def kaddr_def V2P_def intro!: junk_outside [THEN trans])

lemma demo_pg_space: "space_ok demo_pg 0x80200000 [0x80300000]"
proof -
  have "ptab (pmem demo_pg) 0x80200000 i = None" if "i < 1024" for i
    using zero_page_load [OF demo_pg_zero, of "4 * i"] that by (simp add: ptab_def)
  moreover have "page_ok (kend demo_mst) 0x80300000" "page_ok (kend demo_mst) 0x80200000" by (simp_all add: page_ok_def V2P_def)
  moreover from this have "kmem_ok demo_pg [0x80300000]" using kfree_ok [OF demo_mst_ok] by (simp add: demo_pg_def)
  ultimately show ?thesis by (simp add: space_ok_def) (simp add: demo_pg_def)
qed

lemma demo_pg_unmapped: "vmap (pmem demo_pg) 0x80200000 v = None"
  using zero_page_load [OF demo_pg_zero, of "4 * unat (PDX v)"] index_less(1) [of v] by (simp add: vmap_def ptab_def)

theorem mappages_correct_witness:
  "\<exists>t. mappages 0x80200000 0x5000 0x1000 0x400000 6 demo_pg = Ok 0 t \<and> mmu (pmem t) 0x200000 0x5123 = Some 0x400123 \<and>
     mmu (pmem t) 0x200000 0x6123 = None"
proof -
  have n: "npages 0x5000 0x1000 = 1" by (simp add: npages_def)
  have l: "LKmem \<notin> set (held demo_pg)" by (simp add: demo_pg_def)
  have "mmu (pmem demo_pg) (V2P 0x80200000) 0x6123 = None" by (simp add: mmu_vmap demo_pg_unmapped)
  then show ?thesis
    using mappages_correct [OF demo_pg_space l, where va = "0x5000" and sz = "0x1000" and pa = "0x400000" and perm = 6] demo_pg_unmapped
    by (auto simp: n V2P_def)
qed

text \<open>
  C29: \<open>copyout\<close> into memory that the user may access stores each byte where the processor
  would store it for the user, leaves every other byte of memory and every translation
  alone, and returns 0, also when the range crosses page borders. A page that is not
  present or not the user's is refused with -1 and nothing is written. An address whose
  page directory entry is empty makes the kernel read through a null pointer.
\<close>
theorem copyout_correct:
  fixes s :: "'z mst_scheme"
  assumes "space_ok s pd xs" and "LKmem \<notin> set (held s)"
  shows "(user_range s pd xs va (length buf) \<and> unat va + length buf \<le> unat KERNBASE \<longrightarrow>
     (\<exists>m. copyout pd va buf s = Ok 0 (s\<lparr>pmem := m\<rparr>) \<and> space_ok (s\<lparr>pmem := m\<rparr>) pd xs \<and>
       mmu m (V2P pd) = mmu (pmem s) (V2P pd) \<and>
       (\<forall>i<length buf. \<exists>a. mmu m (V2P pd) (va + of_nat i) = Some a \<and> m a = buf ! i) \<and>
       (\<forall>a. (\<forall>i<length buf. mmu m (V2P pd) (va + of_nat i) \<noteq> Some a) \<longrightarrow> m a = pmem s a))) \<and>
   (buf \<noteq> [] \<and> ptab (pmem s) pd (unat (PDX va)) \<noteq> None \<and> (\<forall>e. vmap (pmem s) pd va = Some e \<longrightarrow> e AND PTE_U = 0) \<longrightarrow>
     copyout pd va buf s = Ok (-1) s) \<and>
   (buf \<noteq> [] \<and> ptab (pmem s) pd (unat (PDX va)) = None \<longrightarrow> copyout pd va buf s = Fault ''uva2ka: null pte'' s)"
proof (intro conjI impI)
  assume "user_range s pd xs va (length buf) \<and> unat va + length buf \<le> unat KERNBASE"
  then have u: "user_range s pd xs va (length buf)" "unat va + length buf < 2 ^ 32" by simp_all
  obtain m where m: "copyout_loop pd va buf s = Ok 0 (s\<lparr>pmem := m\<rparr>)" "space_ok (s\<lparr>pmem := m\<rparr>) pd xs" "vmap m pd = vmap (pmem s) pd"
    "put_user pd va buf (pmem s) m" using copyout_loop_run [OF assms u] by blast
  have "mmu m (V2P pd) = mmu (pmem s) (V2P pd)" by (rule ext) (simp add: mmu_vmap m(3))
  then show "\<exists>m. copyout pd va buf s = Ok 0 (s\<lparr>pmem := m\<rparr>) \<and> space_ok (s\<lparr>pmem := m\<rparr>) pd xs \<and>
       mmu m (V2P pd) = mmu (pmem s) (V2P pd) \<and>
       (\<forall>i<length buf. \<exists>a. mmu m (V2P pd) (va + of_nat i) = Some a \<and> m a = buf ! i) \<and>
       (\<forall>a. (\<forall>i<length buf. mmu m (V2P pd) (va + of_nat i) \<noteq> Some a) \<longrightarrow> m a = pmem s a)"
    using m(1,2,4) unfolding put_user_def copyout_def by (intro exI [of _ m]) simp
next
  have i: "PDX (PGROUNDDOWN va) = PDX va" using same_page [of "PGROUNDDOWN va" va] by (simp add: unat_PGROUNDDOWN)
  note k = uva2ka_run [OF assms, of "PGROUNDDOWN va", unfolded i]
  show "copyout pd va buf s = Fault ''uva2ka: null pte'' s" if "buf \<noteq> [] \<and> ptab (pmem s) pd (unat (PDX va)) = None"
    using that k by (simp add: copyout_def copyout_loop.simps [of pd va] Let_def)
  have v: "vmap (pmem s) pd (PGROUNDDOWN va) = vmap (pmem s) pd va" by (rule vmap_page) (simp add: unat_PGROUNDDOWN)
  show "copyout pd va buf s = Ok (-1) s"
    if "buf \<noteq> [] \<and> ptab (pmem s) pd (unat (PDX va)) \<noteq> None \<and> (\<forall>e. vmap (pmem s) pd va = Some e \<longrightarrow> e AND PTE_U = 0)"
  proof -
    have "uva2ka pd (PGROUNDDOWN va) s = Ok 0 s" using that k unfolding v by (auto split: option.splits)
    then show ?thesis using that by (simp add: copyout_def copyout_loop.simps [of pd va] Let_def)
  qed
qed

text \<open>The state of \<open>mappages_correct_witness\<close>, with its user page.\<close>

lemma demo_user:
  obtains t ys where "mappages 0x80200000 0x5000 0x1000 0x400000 6 demo_pg = Ok 0 t" "space_ok t 0x80200000 ys" "held t = []"
    "user_range t 0x80200000 ys 0x5010 3" "mmu (pmem t) (V2P 0x80200000) 0x5011 = Some 0x400011"
proof -
  have n: "npages 0x5000 0x1000 = 1" by (simp add: npages_def)
  have l: "LKmem \<notin> set (held demo_pg)" by (simp add: demo_pg_def)
  obtain t ys j where r: "mappages 0x80200000 0x5000 0x1000 0x400000 6 demo_pg = Ok (if j = 1 then 0 else -1) t" "vm_step 0x80200000 demo_pg [0x80300000] t ys"
    "j \<le> 1" "vmap (pmem t) 0x80200000 = remap 0x5000 j 0x400000 6 (vmap (pmem demo_pg) 0x80200000)" "1 \<le> length ys + j" "j < 1 \<longrightarrow> ys = []"
    using mappages_run [OF demo_pg_space l, of "0x1000" "0x5000" "0x400000" 6] demo_pg_unmapped by (auto simp: n)
  have j: "j = 1" using r(3,5,6) by (cases "j < 1") auto
  have e: "pte_for 0x400000 6 0 = 0x400007" by (simp add: pte_for_def)
  have d: "unat v div PGSIZE = 5" if "0x5010 \<le> unat v" "unat v < 0x5013" for v :: u32 using that by (intro div_nat_eqI) simp_all
  have v: "vmap (pmem t) 0x80200000 v = Some 0x400007" if "0x5010 \<le> unat v" "unat v < 0x5013" for v
    using d [OF that] r(4) j e by (simp add: remap_def)
  have k: "kend t = 0x80120000" "held t = []" using vm_step_held [OF r(2)] by (simp_all add: demo_pg_def)
  have "ptab (pmem demo_pg) 0x80200000 i = None" if "i < 1024" for i
    using zero_page_load [OF demo_pg_zero, of "4 * i"] that by (simp add: ptab_def)
  then have "pages (pmem demo_pg) 0x80200000 [0x80300000] = {0x80200000, 0x80300000}" by (auto simp: pages_def)
  then have g: "pages (pmem t) 0x80200000 ys = {0x80200000, 0x80300000}" "space_ok t 0x80200000 ys" using r(2) by (simp_all add: vm_step_def)
  have "page_ok 0x80120000 (P2V (PTE_ADDR 0x400007))" "P2V (PTE_ADDR 0x400007) \<notin> {0x80200000, 0x80300000}" "(0x400007 :: u32) AND PTE_U \<noteq> 0"
    by (simp_all add: page_ok_def P2V_def PTE_ADDR_def V2P_def)
  then have "user_range t 0x80200000 ys 0x5010 3"
    unfolding user_range_def g(1) k(1) by (intro conjI allI impI exI [of _ "0x400007"], simp_all add: v d)
  moreover have "mmu (pmem t) (V2P 0x80200000) 0x5011 = Some 0x400011" using v [of "0x5011"] by (simp add: mmu_vmap PTE_ADDR_def)
  ultimately show ?thesis using that r(1) j g(2) k(2) by auto
qed

theorem copyout_correct_witness:
  "\<exists>t m. mappages 0x80200000 0x5000 0x1000 0x400000 6 demo_pg = Ok 0 t \<and> copyout 0x80200000 0x5010 [7, 8, 9] t = Ok 0 (t\<lparr>pmem := m\<rparr>) \<and>
     mmu m (V2P 0x80200000) 0x5011 = Some 0x400011 \<and> m 0x400011 = 8"
proof -
  obtain t ys where t: "mappages 0x80200000 0x5000 0x1000 0x400000 6 demo_pg = Ok 0 t" "space_ok t 0x80200000 ys" "held t = []"
    "user_range t 0x80200000 ys 0x5010 3" "mmu (pmem t) (V2P 0x80200000) 0x5011 = Some 0x400011" by (rule demo_user)
  have u: "user_range t 0x80200000 ys 0x5010 (length [7, 8, 9 :: byte]) \<and> unat (0x5010 :: u32) + length [7, 8, 9 :: byte] \<le> unat KERNBASE" using t(4) by (simp add: numeral_3_eq_3)
  have l: "LKmem \<notin> set (held t)" using t(3) by simp
  obtain m where m: "copyout 0x80200000 0x5010 [7, 8, 9] t = Ok 0 (t\<lparr>pmem := m\<rparr>)" "mmu m (V2P 0x80200000) = mmu (pmem t) (V2P 0x80200000)"
    "\<forall>i<length [7, 8, 9 :: byte]. \<exists>a. mmu m (V2P 0x80200000) (0x5010 + of_nat i) = Some a \<and> m a = [7, 8, 9] ! i"
    using mp [OF conjunct1 [OF copyout_correct [OF t(2) l, of "0x5010" "[7, 8, 9]"]] u] by blast
  from m(3) [rule_format, of 1] have "m 0x400011 = 8" using m(2) t(5) by simp
  then show ?thesis using t(1,5) m(1,2) by (intro exI [of _ t] exI [of _ m]) simp
qed

text \<open>An empty directory and two free pages.\<close>

definition demo_two :: mst where
  "demo_two = demo_pg\<lparr>pmem := junk 0x80301000 0x80300000 (pmem demo_pg), freelist := 0x80301000\<rparr>"

lemma demo_two_space: "space_ok demo_two 0x80200000 [0x80301000, 0x80300000]"
proof -
  have z: "\<forall>a. in_page 0x80200000 a \<longrightarrow> pmem demo_two a = 0"
    using demo_pg_zero by (auto simp: demo_two_def in_page_def kaddr_def V2P_def intro!: junk_outside [THEN trans])
  have "ptab (pmem demo_two) 0x80200000 i = None" if "i < 1024" for i
    using zero_page_load [OF z, of "4 * i"] that by (simp add: ptab_def)
  moreover have "page_ok (kend demo_pg) 0x80301000" "page_ok (kend demo_two) 0x80200000" by (simp_all add: demo_two_def demo_pg_def page_ok_def V2P_def)
  moreover have "kmem_ok demo_pg [0x80300000]" using demo_pg_space by (simp add: space_ok_def)
  from kfree_ok [OF this, of "0x80301000"] calculation(2) have "kmem_ok demo_two [0x80301000, 0x80300000]"
    by (simp add: demo_two_def) (simp add: demo_pg_def)
  ultimately show ?thesis by (simp add: space_ok_def)
qed

theorem allocuvm_correct_witness:
  "allocuvm 0x80200000 0 0x80000000 demo_two = Ok 0 demo_two \<and> (\<exists>t. allocuvm 0x80200000 0 0x234 demo_two = Ok 0x234 t)"
proof -
  have z: "\<forall>a. in_page 0x80200000 a \<longrightarrow> pmem demo_two a = 0"
    using demo_pg_zero by (auto simp: demo_two_def in_page_def kaddr_def V2P_def intro!: junk_outside [THEN trans])
  have v: "vmap (pmem demo_two) 0x80200000 a = None" for a
    using zero_page_load [OF z, of "4 * unat (PDX a)"] index_less(1) [of a] by (simp add: vmap_def ptab_def)
  have l: "LKmem \<notin> set (held demo_two)" by (simp add: demo_two_def demo_pg_def)
  show ?thesis
    using allocuvm_correct [OF demo_two_space l, where nsz = "0x80000000" and osz = 0] allocuvm_correct [OF demo_two_space l, where nsz = "0x234" and osz = 0] v by auto
qed

end
