(* ===== verification/Syscall.thy ===== *)
theory Syscall
  imports Proc VmSpec
begin

text \<open>
  \<open>syscall.c\<close> and \<open>sysproc.c\<close>: fetching the arguments of a system call from the memory
  of the process, and the calls about processes, time and the journal. The kernel reads
  and writes user memory through the page table in \<open>cr3\<close>, as the processor does in
  supervisor mode; a page that is not mapped is a page fault in the kernel. A pointer into
  user memory is its address; \<open>None\<close> is a failed call.
\<close>

section \<open>User memory\<close>

definition uload :: "u32 \<Rightarrow> ('z vst_scheme, byte) kop" where
  "uload va = (\<lambda>s. case mmu (pmem s) (cr3 s) va of
       None \<Rightarrow> Fault ''page fault'' s | Some a \<Rightarrow> Ok (pmem s a) s)"

definition ustore :: "u32 \<Rightarrow> byte \<Rightarrow> ('z vst_scheme, unit) kop" where
  "ustore va b = (\<lambda>s. case mmu (pmem s) (cr3 s) va of
       None \<Rightarrow> Fault ''page fault'' s | Some a \<Rightarrow> Ok () (s\<lparr>pmem := (pmem s)(a := b)\<rparr>))"

primrec uread :: "u32 \<Rightarrow> nat \<Rightarrow> ('z vst_scheme, byte list) kop" where
  "uread va 0 = ret []"
| "uread va (Suc n) = bnd (uload va) (\<lambda>b. bnd (uread (va + 1) n) (\<lambda>bs. ret (b # bs)))"

primrec uwrite :: "u32 \<Rightarrow> byte list \<Rightarrow> ('z vst_scheme, unit) kop" where
  "uwrite va [] = ret ()"
| "uwrite va (b # bs) = seq (ustore va b) (uwrite (va + 1) bs)"

section \<open>Arguments\<close>

definition fetchint :: "u32 \<Rightarrow> ('z pst_scheme, u32 option) kop" where
  "fetchint addr =
     bnd curproc (\<lambda>c.
     bnd (getp c) (\<lambda>p.
     if addr \<ge> p_sz p \<or> addr + 4 > p_sz p then ret None
     else bnd (uread addr 4) (\<lambda>bs. ret (Some (u32_of_bytes bs)))))"

text \<open>The scan of \<open>fetchstr\<close> over the \<open>n\<close> bytes below the end of memory; the result is the string found.\<close>

primrec scan_str :: "u32 \<Rightarrow> nat \<Rightarrow> ('z vst_scheme, byte list option) kop" where
  "scan_str s 0 = ret None"
| "scan_str s (Suc n) =
     bnd (uload s) (\<lambda>b.
     if b = 0 then ret (Some []) else bnd (scan_str (s + 1) n) (\<lambda>r. ret (map_option (\<lambda>bs. b # bs) r)))"

definition fetchstr :: "u32 \<Rightarrow> ('z pst_scheme, byte list option) kop" where
  "fetchstr addr =
     bnd curproc (\<lambda>c.
     bnd (getp c) (\<lambda>p.
     if addr \<ge> p_sz p then ret None
     else scan_str addr (unat (p_sz p) - unat addr)))"

definition argint :: "nat \<Rightarrow> ('z pst_scheme, u32 option) kop" where
  "argint n = bnd curproc (\<lambda>c. bnd (getp c) (\<lambda>p. fetchint (tf_esp (p_tf p) + 4 + 4 * of_nat n)))"

definition argptr :: "nat \<Rightarrow> int \<Rightarrow> ('z pst_scheme, u32 option) kop" where
  "argptr n sz =
     bnd curproc (\<lambda>c.
     bnd (argint n) (\<lambda>r.
     case r of
       None \<Rightarrow> ret None
     | Some i \<Rightarrow>
         bnd (getp c) (\<lambda>p.
         if sz < 0 \<or> i \<ge> p_sz p \<or> i + of_int sz > p_sz p then ret None else ret (Some i))))"

definition argstr :: "nat \<Rightarrow> ('z pst_scheme, byte list option) kop" where
  "argstr n = bnd (argint n) (\<lambda>r. case r of None \<Rightarrow> ret None | Some addr \<Rightarrow> fetchstr addr)"

section \<open>Calls about processes\<close>

definition sys_fork :: "('z pst_scheme, int) kop" where
  "sys_fork = fork"

definition sys_exit :: "('z pst_scheme, int) kop" where
  "sys_exit = seq exit (ret 0)"

definition sys_wait :: "('z pst_scheme, int) kop" where
  "sys_wait = wait"

definition sys_kill :: "('z pst_scheme, int) kop" where
  "sys_kill = bnd (argint 0) (\<lambda>r. case r of None \<Rightarrow> ret (-1) | Some pid \<Rightarrow> kill (sint pid))"

definition sys_getpid :: "('z pst_scheme, int) kop" where
  "sys_getpid = bnd curproc (\<lambda>c. bnd (getp c) (\<lambda>p. ret (p_pid p)))"

definition sys_sbrk :: "('z pst_scheme, int) kop" where
  "sys_sbrk =
     bnd (argint 0) (\<lambda>r.
     case r of
       None \<Rightarrow> ret (-1)
     | Some n \<Rightarrow>
         bnd curproc (\<lambda>c.
         bnd (getp c) (\<lambda>p.
         bnd (growproc (sint n)) (\<lambda>g.
         ret (if g < 0 then -1 else sint (p_sz p))))))"

text \<open>
  \<open>sys_sleep\<close> up to the first sleep; \<open>ticks - ticks0 < n\<close> compares unsigned words. A
  process that is woken tests again with the same \<open>ticks0\<close>.
\<close>

definition sleep_until :: "u32 \<Rightarrow> u32 \<Rightarrow> ('z pst_scheme, int) kop" where
  "sleep_until ticks0 n =
     bnd (getf ticks) (\<lambda>t.
     if t - ticks0 < n then
       bnd (getf curkilled) (\<lambda>k.
       if k then seq (unlock LTicks) (ret (-1))
       else seq (sleep ChTicks LTicks) (block ''sleep''))
     else seq (unlock LTicks) (ret 0))"

definition sys_sleep :: "('z pst_scheme, int) kop" where
  "sys_sleep =
     bnd (argint 0) (\<lambda>r.
     case r of
       None \<Rightarrow> ret (-1)
     | Some n \<Rightarrow> seq (lock LTicks) (bnd (getf ticks) (\<lambda>ticks0. sleep_until ticks0 n)))"

definition sys_uptime :: "('z pst_scheme, int) kop" where
  "sys_uptime = seq (lock LTicks) (bnd (getf ticks) (\<lambda>t. seq (unlock LTicks) (ret (sint t))))"

section \<open>Calls about the journal\<close>

text \<open>\<open>struct journal_stats\<close> in user memory: ten integers.\<close>

definition enc_stats :: "journal_stats \<Rightarrow> byte list" where
  "enc_stats j = concat (map (\<lambda>x. bytes_of_u32 (of_int x))
     [total_commits j, total_recoveries j, checksum_errors j, blocks_written j, blocks_installed j,
      bytes_logged j, group_commit_batches j, flush_barriers j, max_batch_size j, total_ops_batched j])"

definition sys_journalstat :: "('z pst_scheme, int) kop" where
  "sys_journalstat =
     bnd (argptr 0 40) (\<lambda>r.
     case r of
       None \<Rightarrow> ret (-1)
     | Some js \<Rightarrow> bnd get_journal_stats (\<lambda>j. seq (uwrite js (enc_stats j)) (ret 0)))"

definition sys_crash :: "('z pst_scheme, int) kop" where
  "sys_crash =
     bnd (argint 0) (\<lambda>r.
     case r of
       None \<Rightarrow> ret (-1)
     | Some phase \<Rightarrow> seq (upd (\<lambda>s. s\<lparr>crash_at_phase := sint phase\<rparr>)) (ret 0))"

end
