(* ===== verification/Exec.thy ===== *)
theory Exec
  imports Syscall
begin

text \<open>
  \<open>exec.c\<close> with the executable format of \<open>elf.h\<close>: load a program from a file into a new
  page table, push its arguments on the new stack and switch to it; on any failure the new
  page table is freed and the process goes on with the old one.
\<close>

section \<open>Executable files\<close>

abbreviation (input) ELF_MAGIC :: u32 where "ELF_MAGIC \<equiv> 0x464C457F"
abbreviation (input) ELF_PROG_LOAD :: u32 where "ELF_PROG_LOAD \<equiv> 1"
abbreviation (input) ELFHDRSZ :: nat where "ELFHDRSZ \<equiv> 52"
abbreviation (input) PROGHDRSZ :: nat where "PROGHDRSZ \<equiv> 32"

text \<open>The fields of the headers that \<open>exec\<close> uses.\<close>

record elfhdr =
  elf_magic :: u32
  elf_entry :: u32
  elf_phoff :: u32
  elf_phnum :: u16

record proghdr =
  ph_type :: u32
  ph_off :: u32
  ph_vaddr :: u32
  ph_filesz :: u32
  ph_memsz :: u32

definition dec_elfhdr :: "byte list \<Rightarrow> elfhdr" where
  "dec_elfhdr bs = \<lparr>elf_magic = get32 bs 0, elf_entry = get32 bs 24, elf_phoff = get32 bs 28, elf_phnum = get16 bs 44\<rparr>"

definition dec_proghdr :: "byte list \<Rightarrow> proghdr" where
  "dec_proghdr bs = \<lparr>ph_type = get32 bs 0, ph_off = get32 bs 4, ph_vaddr = get32 bs 8, ph_filesz = get32 bs 16, ph_memsz = get32 bs 20\<rparr>"

section \<open>Loading\<close>

text \<open>The label \<open>bad\<close>: free the page table, if there is one, and let go of the file, if it is still held.\<close>

definition exec_bad :: "u32 \<Rightarrow> nat option \<Rightarrow> ('z pst_scheme, int) kop" where
  "exec_bad pgdir ip =
     seq (whenc (pgdir \<noteq> 0) (freevm pgdir))
    (seq (case ip of None \<Rightarrow> ret () | Some ip \<Rightarrow> seq (iunlockput ip) end_op)
         (ret (-1)))"

text \<open>One program header; \<open>None\<close> is \<open>goto bad\<close>, otherwise the new size.\<close>

definition load_segment :: "u32 \<Rightarrow> nat \<Rightarrow> u32 \<Rightarrow> u32 \<Rightarrow> ('z pst_scheme, u32 option) kop" where
  "load_segment pgdir ip off sz =
     bnd (readi console_devsw ip off (of_nat PROGHDRSZ)) (\<lambda>r.
     case r of
       None \<Rightarrow> ret None
     | Some d \<Rightarrow>
         if length d \<noteq> PROGHDRSZ then ret None
         else
           let ph = dec_proghdr d in
           if ph_type ph \<noteq> ELF_PROG_LOAD then ret (Some sz)
           else if ph_memsz ph < ph_filesz ph then ret None
           else if ph_vaddr ph + ph_memsz ph < ph_vaddr ph then ret None
           else
             bnd (allocuvm pgdir sz (ph_vaddr ph + ph_memsz ph)) (\<lambda>sz.
             if sz = 0 then ret None
             else if unat (ph_vaddr ph) mod PGSIZE \<noteq> 0 then ret None
             else
               bnd (loaduvm console_devsw pgdir (ph_vaddr ph) ip (ph_off ph) (ph_filesz ph)) (\<lambda>r.
               ret (if r < 0 then None else Some sz))))"

primrec load_segments :: "u32 \<Rightarrow> nat \<Rightarrow> nat \<Rightarrow> u32 \<Rightarrow> u32 \<Rightarrow> ('z pst_scheme, u32 option) kop" where
  "load_segments pgdir ip 0 off sz = ret (Some sz)"
| "load_segments pgdir ip (Suc n) off sz =
     bnd (load_segment pgdir ip off sz) (\<lambda>r.
     case r of None \<Rightarrow> ret None | Some sz \<Rightarrow> load_segments pgdir ip n (off + of_nat PROGHDRSZ) sz)"

text \<open>
  The argument strings, pushed from the top of the stack down; the result is the stack
  pointer and the addresses of the strings.
\<close>

fun push_args :: "u32 \<Rightarrow> byte list list \<Rightarrow> nat \<Rightarrow> u32 \<Rightarrow> u32 list \<Rightarrow> ('z pst_scheme, (u32 \<times> u32 list) option) kop" where
  "push_args pgdir [] argc sp us = ret (Some (sp, us))"
| "push_args pgdir (a # as) argc sp us =
     (if argc \<ge> MAXARG then ret None
      else
        let sp = (sp - of_nat (length a + 1)) AND NOT 3 in
        bnd (copyout pgdir sp (a @ [0])) (\<lambda>r.
        if r < 0 then ret None else push_args pgdir as (argc + 1) sp (us @ [sp])))"

text \<open>\<open>ustack\<close>: fake return address, \<open>argc\<close>, \<open>argv\<close>, the argument pointers and a null pointer.\<close>

definition ustack :: "u32 \<Rightarrow> u32 list \<Rightarrow> u32 list" where
  "ustack sp us = [0xFFFFFFFF, of_nat (length us), sp - of_nat ((length us + 1) * 4)] @ us @ [0]"

text \<open>The last element of a path, for the name of the process.\<close>

definition last_elem :: "byte list \<Rightarrow> byte list" where
  "last_elem path = rev (takeWhile (\<lambda>c. c \<noteq> slash) (rev path))"

text \<open>The second half of \<open>exec\<close>: the stack, the arguments and the switch to the new image.\<close>

definition exec_image :: "byte list \<Rightarrow> byte list list \<Rightarrow> u32 \<Rightarrow> u32 \<Rightarrow> u32 \<Rightarrow> ('z pst_scheme, int) kop" where
  "exec_image path argv entry pgdir sz =
     (let sz = PGROUNDUP sz in
      bnd (allocuvm pgdir sz (sz + of_nat (2 * PGSIZE))) (\<lambda>sz.
      if sz = 0 then exec_bad pgdir None
      else
        seq (clearpteu pgdir (sz - of_nat (2 * PGSIZE)))
       (bnd (push_args pgdir argv 0 sz []) (\<lambda>r.
        case r of
          None \<Rightarrow> exec_bad pgdir None
        | Some (sp, us) \<Rightarrow>
            let st = ustack sp us; sp = sp - of_nat (4 * length st) in
            bnd (copyout pgdir sp (concat (map bytes_of_u32 st))) (\<lambda>r.
            if r < 0 then exec_bad pgdir None
            else
              bnd curproc (\<lambda>c.
              bnd (getp c) (\<lambda>p.
              seq (set_proc c (\<lambda>p. set_name (last_elem path)
                     (p\<lparr>p_pgdir := pgdir, p_sz := sz, p_tf := (p_tf p)\<lparr>tf_eip := entry, tf_esp := sp\<rparr>\<rparr>)))
             (seq (switchuvm (Some c))
             (seq (freevm (p_pgdir p))
                  (ret 0))))))))))"

definition exec_fail :: "byte list" where
  "exec_fail = [101, 120, 101, 99, 58, 32, 102, 97, 105, 108, 10]"

definition exec :: "byte list \<Rightarrow> byte list list \<Rightarrow> ('z pst_scheme, int) kop" where
  "exec path argv =
     seq begin_op
    (bnd (namei console_devsw path) (\<lambda>r.
     case r of
       None \<Rightarrow> seq end_op (seq (cprintf exec_fail []) (ret (-1)))
     | Some ip \<Rightarrow>
         seq (ilock ip)
        (bnd (readi console_devsw ip 0 (of_nat ELFHDRSZ)) (\<lambda>h.
         case h of
           None \<Rightarrow> exec_bad 0 (Some ip)
         | Some d \<Rightarrow>
             let elf = dec_elfhdr d in
             if length d \<noteq> ELFHDRSZ \<or> elf_magic elf \<noteq> ELF_MAGIC then exec_bad 0 (Some ip)
             else
               bnd setupkvm (\<lambda>pgdir.
               if pgdir = 0 then exec_bad 0 (Some ip)
               else
                 bnd (load_segments pgdir ip (unat (elf_phnum elf)) (elf_phoff elf) 0) (\<lambda>r.
                 case r of
                   None \<Rightarrow> exec_bad pgdir (Some ip)
                 | Some sz \<Rightarrow>
                     seq (iunlockput ip)
                    (seq end_op
                         (exec_image path argv (elf_entry elf) pgdir sz))))))))"

end
