(* ===== verification/Sysfile.thy ===== *)
theory Sysfile
  imports Exec
begin

text \<open>
  \<open>sysfile.c\<close>: the system calls on files and directories, each a transaction around
  calls into \<open>file.c\<close> and \<open>fs.c\<close>, and the table of all system calls of \<open>syscall.c\<close>.
\<close>

section \<open>File descriptors\<close>

definition argfd :: "nat \<Rightarrow> ('z pst_scheme, (nat \<times> nat) option) kop" where
  "argfd n =
     bnd (argint n) (\<lambda>r.
     case r of
       None \<Rightarrow> ret None
     | Some fd \<Rightarrow>
         bnd curproc (\<lambda>c.
         bnd (getp c) (\<lambda>p.
         if sint fd < 0 \<or> sint fd \<ge> int NOFILE then ret None
         else
           case p_ofile p ! nat (sint fd) of
             None \<Rightarrow> ret None
           | Some f \<Rightarrow> ret (Some (nat (sint fd), f)))))"

definition set_fd :: "nat \<Rightarrow> nat option \<Rightarrow> ('z pst_scheme, unit) kop" where
  "set_fd fd f = bnd curproc (\<lambda>c. set_proc c (\<lambda>p. p\<lparr>p_ofile := (p_ofile p)[fd := f]\<rparr>))"

definition fdalloc :: "nat \<Rightarrow> ('z pst_scheme, nat option) kop" where
  "fdalloc f =
     bnd curproc (\<lambda>c.
     bnd (getp c) (\<lambda>p.
     case find_index (\<lambda>o'. o' = None) (p_ofile p) of
       None \<Rightarrow> ret None
     | Some fd \<Rightarrow> seq (set_fd fd (Some f)) (ret (Some fd))))"

section \<open>Calls on open files\<close>

definition sys_dup :: "('z pst_scheme, int) kop" where
  "sys_dup =
     bnd (argfd 0) (\<lambda>r.
     case r of
       None \<Rightarrow> ret (-1)
     | Some (_, f) \<Rightarrow>
         bnd (fdalloc f) (\<lambda>fd.
         case fd of
           None \<Rightarrow> ret (-1)
         | Some fd \<Rightarrow> seq (filedup f) (ret (int fd))))"

text \<open>The arguments that \<open>sys_read\<close> and \<open>sys_write\<close> share: the file, the address and the count.\<close>

definition rw_args :: "('z pst_scheme, (nat \<times> u32 \<times> nat) option) kop" where
  "rw_args =
     bnd (argfd 0) (\<lambda>r.
     case r of
       None \<Rightarrow> ret None
     | Some (_, f) \<Rightarrow>
         bnd (argint 2) (\<lambda>n.
         case n of
           None \<Rightarrow> ret None
         | Some n \<Rightarrow>
             bnd (argptr 1 (sint n)) (\<lambda>p.
             case p of None \<Rightarrow> ret None | Some p \<Rightarrow> ret (Some (f, p, nat (sint n))))))"

definition sys_read :: "('z pst_scheme, int) kop" where
  "sys_read =
     bnd rw_args (\<lambda>r.
     case r of
       None \<Rightarrow> ret (-1)
     | Some (f, p, n) \<Rightarrow>
         bnd (fileread f n) (\<lambda>r.
         case r of None \<Rightarrow> ret (-1) | Some bs \<Rightarrow> seq (uwrite p bs) (ret (int (length bs)))))"

definition sys_write :: "('z pst_scheme, int) kop" where
  "sys_write =
     bnd rw_args (\<lambda>r.
     case r of
       None \<Rightarrow> ret (-1)
     | Some (f, p, n) \<Rightarrow> bnd (uread p n) (\<lambda>bs. filewrite f bs))"

definition sys_close :: "('z pst_scheme, int) kop" where
  "sys_close =
     bnd (argfd 0) (\<lambda>r.
     case r of
       None \<Rightarrow> ret (-1)
     | Some (fd, f) \<Rightarrow> seq (set_fd fd None) (seq (fileclose f) (ret 0)))"

text \<open>\<open>struct stat\<close> in user memory; the padding after the short fields is not written.\<close>

definition put_stat :: "u32 \<Rightarrow> fstat \<Rightarrow> ('z pst_scheme, unit) kop" where
  "put_stat st x =
     seq (uwrite st (bytes_of_u16 (st_type x)))
    (seq (uwrite (st + 4) (bytes_of_u32 (of_nat (st_dev x))))
    (seq (uwrite (st + 8) (bytes_of_u32 (of_nat (st_ino x))))
    (seq (uwrite (st + 12) (bytes_of_u16 (st_nlink x)))
         (uwrite (st + 16) (bytes_of_u32 (st_size x))))))"

definition sys_fstat :: "('z pst_scheme, int) kop" where
  "sys_fstat =
     bnd (argfd 0) (\<lambda>r.
     case r of
       None \<Rightarrow> ret (-1)
     | Some (_, f) \<Rightarrow>
         bnd (argptr 1 20) (\<lambda>st.
         case st of
           None \<Rightarrow> ret (-1)
         | Some st \<Rightarrow>
             bnd (filestat f) (\<lambda>x. case x of None \<Rightarrow> ret (-1) | Some x \<Rightarrow> seq (put_stat st x) (ret 0))))"

section \<open>Calls on directories\<close>

definition link_bad :: "nat \<Rightarrow> ('z pst_scheme, int) kop" where
  "link_bad ip =
     seq (ilock ip)
    (seq (set_ino ip (\<lambda>i. i\<lparr>i_nlink := i_nlink i - 1\<rparr>))
    (seq (iupdate ip)
    (seq (iunlockput ip)
    (seq end_op
         (ret (-1))))))"

text \<open>\<open>dp->dev != ip->dev || dirlink(dp, name, ip->inum) < 0\<close>.\<close>

definition link_entry :: "nat \<Rightarrow> byte list \<Rightarrow> nat \<Rightarrow> ('z pst_scheme, bool) kop" where
  "link_entry dp name ip =
     bnd (ino dp) (\<lambda>d.
     bnd (ino ip) (\<lambda>i.
     if i_dev d \<noteq> i_dev i then ret False
     else bnd (dirlink console_devsw dp name (i_inum i)) (\<lambda>r. ret (r \<ge> 0))))"

definition sys_link :: "('z pst_scheme, int) kop" where
  "sys_link =
     bnd (argstr 0) (\<lambda>old.
     case old of None \<Rightarrow> ret (-1) | Some old \<Rightarrow>
     bnd (argstr 1) (\<lambda>new.
     case new of None \<Rightarrow> ret (-1) | Some new \<Rightarrow>
     seq begin_op
    (bnd (namei console_devsw old) (\<lambda>r.
     case r of
       None \<Rightarrow> seq end_op (ret (-1))
     | Some ip \<Rightarrow>
         seq (ilock ip)
        (bnd (ino ip) (\<lambda>i.
         if i_type i = T_DIR then seq (iunlockput ip) (seq end_op (ret (-1)))
         else
           seq (set_ino ip (\<lambda>i. i\<lparr>i_nlink := i_nlink i + 1\<rparr>))
          (seq (iupdate ip)
          (seq (iunlock ip)
          (bnd (nameiparent console_devsw new) (\<lambda>r.
           case r of
             None \<Rightarrow> link_bad ip
           | Some (dp, name) \<Rightarrow>
               seq (ilock dp)
              (bnd (link_entry dp name ip) (\<lambda>ok.
               if \<not> ok then seq (iunlockput dp) (link_bad ip)
               else
                 seq (iunlockput dp)
                (seq (iput ip)
                (seq end_op
                     (ret 0)))))))))))))))"

definition isdirempty :: "nat \<Rightarrow> ('z pst_scheme, bool) kop" where
  "isdirempty dp =
     bnd (ino dp) (\<lambda>i.
     bnd (search_each (drop 2 (dir_offs (unat (i_size i)))) (\<lambda>off.
       bnd (read_dirent console_devsw ''isdirempty: readi'' dp off) (\<lambda>de.
       ret (if de_inum de \<noteq> 0 then Some () else None)))) (\<lambda>r.
     ret (r = None)))"

definition unlink_bad :: "nat \<Rightarrow> ('z pst_scheme, int) kop" where
  "unlink_bad dp = seq (iunlockput dp) (seq end_op (ret (-1)))"

text \<open>The entry is cleared and the link counts go down.\<close>

definition unlink_entry :: "nat \<Rightarrow> nat \<Rightarrow> nat \<Rightarrow> ('z pst_scheme, int) kop" where
  "unlink_entry dp ip off =
     bnd (writei console_devsw dp (replicate DIRENTSZ 0) (of_nat off)) (\<lambda>n.
     seq (panic_if (n \<noteq> int DIRENTSZ) ''unlink: writei'')
    (bnd (ino ip) (\<lambda>i.
     seq (whenc (i_type i = T_DIR)
           (seq (set_ino dp (\<lambda>i. i\<lparr>i_nlink := i_nlink i - 1\<rparr>)) (iupdate dp)))
    (seq (iunlockput dp)
    (seq (set_ino ip (\<lambda>i. i\<lparr>i_nlink := i_nlink i - 1\<rparr>))
    (seq (iupdate ip)
    (seq (iunlockput ip)
    (seq end_op
         (ret 0)))))))))"

definition sys_unlink :: "('z pst_scheme, int) kop" where
  "sys_unlink =
     bnd (argstr 0) (\<lambda>path.
     case path of None \<Rightarrow> ret (-1) | Some path \<Rightarrow>
     seq begin_op
    (bnd (nameiparent console_devsw path) (\<lambda>r.
     case r of
       None \<Rightarrow> seq end_op (ret (-1))
     | Some (dp, name) \<Rightarrow>
         seq (ilock dp)
             (if namecmp name [46] = 0 \<or> namecmp name [46, 46] = 0 then unlink_bad dp
              else
                bnd (dirlookup console_devsw dp name) (\<lambda>r.
                case r of
                  None \<Rightarrow> unlink_bad dp
                | Some (ip, off) \<Rightarrow>
                    seq (ilock ip)
                   (bnd (ino ip) (\<lambda>i.
                    seq (panic_if (sint (i_nlink i) < 1) ''unlink: nlink < 1'')
                   (bnd (if i_type i = T_DIR then isdirempty ip else ret True) (\<lambda>e.
                    if \<not> e then seq (iunlockput ip) (unlink_bad dp)
                    else unlink_entry dp ip off)))))))))"

text \<open>The entries \<open>.\<close> and \<open>..\<close> of a new directory.\<close>

definition make_dots :: "nat \<Rightarrow> nat \<Rightarrow> ('z pst_scheme, unit) kop" where
  "make_dots dp ip =
     seq (set_ino dp (\<lambda>i. i\<lparr>i_nlink := i_nlink i + 1\<rparr>))
    (seq (iupdate dp)
    (bnd (ino ip) (\<lambda>i.
     bnd (ino dp) (\<lambda>d.
     bnd (dirlink console_devsw ip [46] (i_inum i)) (\<lambda>r.
     seq (panic_if (r < 0) ''create dots'')
    (bnd (dirlink console_devsw ip [46, 46] (i_inum d)) (\<lambda>r.
     panic_if (r < 0) ''create dots'')))))))"

definition create :: "byte list \<Rightarrow> u16 \<Rightarrow> u16 \<Rightarrow> u16 \<Rightarrow> ('z pst_scheme, nat option) kop" where
  "create path ty mj mn =
     bnd (nameiparent console_devsw path) (\<lambda>r.
     case r of
       None \<Rightarrow> ret None
     | Some (dp, name) \<Rightarrow>
         seq (ilock dp)
        (bnd (dirlookup console_devsw dp name) (\<lambda>r.
         case r of
           Some (ip, _) \<Rightarrow>
             seq (iunlockput dp)
            (seq (ilock ip)
            (bnd (ino ip) (\<lambda>i.
             if ty = T_FILE \<and> i_type i = T_FILE then ret (Some ip)
             else seq (iunlockput ip) (ret None))))
         | None \<Rightarrow>
             bnd (ino dp) (\<lambda>d.
             bnd (ialloc (i_dev d) ty) (\<lambda>ip.
             seq (ilock ip)
            (seq (set_ino ip (\<lambda>i. i\<lparr>i_major := mj, i_minor := mn, i_nlink := 1\<rparr>))
            (seq (iupdate ip)
            (seq (whenc (ty = T_DIR) (make_dots dp ip))
            (bnd (ino ip) (\<lambda>i.
             bnd (dirlink console_devsw dp name (i_inum i)) (\<lambda>r.
             seq (panic_if (r < 0) ''create: dirlink'')
            (seq (iunlockput dp)
                 (ret (Some ip))))))))))))))"

text \<open>The inode \<open>sys_open\<close> works on, locked; \<open>None\<close> when the call fails.\<close>

definition open_inode :: "byte list \<Rightarrow> u32 \<Rightarrow> ('z pst_scheme, nat option) kop" where
  "open_inode path omode =
     (if omode AND O_CREATE \<noteq> 0 then
        bnd (create path T_FILE 0 0) (\<lambda>r. case r of None \<Rightarrow> seq end_op (ret None) | Some ip \<Rightarrow> ret (Some ip))
      else
        bnd (namei console_devsw path) (\<lambda>r.
        case r of
          None \<Rightarrow> seq end_op (ret None)
        | Some ip \<Rightarrow>
            seq (ilock ip)
           (bnd (ino ip) (\<lambda>i.
            if i_type i = T_DIR \<and> omode \<noteq> O_RDONLY then seq (iunlockput ip) (seq end_op (ret None))
            else ret (Some ip)))))"

definition open_fd :: "nat \<Rightarrow> ('z pst_scheme, (nat \<times> nat) option) kop" where
  "open_fd ip =
     bnd filealloc (\<lambda>f.
     case f of
       None \<Rightarrow> seq (iunlockput ip) (seq end_op (ret None))
     | Some f \<Rightarrow>
         bnd (fdalloc f) (\<lambda>fd.
         case fd of
           None \<Rightarrow> seq (fileclose f) (seq (iunlockput ip) (seq end_op (ret None)))
         | Some fd \<Rightarrow> ret (Some (f, fd))))"

definition sys_open :: "('z pst_scheme, int) kop" where
  "sys_open =
     bnd (argstr 0) (\<lambda>path.
     case path of None \<Rightarrow> ret (-1) | Some path \<Rightarrow>
     bnd (argint 1) (\<lambda>omode.
     case omode of None \<Rightarrow> ret (-1) | Some omode \<Rightarrow>
     seq begin_op
    (bnd (open_inode path omode) (\<lambda>r.
     case r of
       None \<Rightarrow> ret (-1)
     | Some ip \<Rightarrow>
         bnd (open_fd ip) (\<lambda>r.
         case r of
           None \<Rightarrow> ret (-1)
         | Some (f, fd) \<Rightarrow>
             seq (iunlock ip)
            (seq end_op
            (seq (set_fobj f (\<lambda>o'. o'\<lparr>f_type := FD_INODE, f_ip := ip, f_off := 0,
                    f_readable := (omode AND O_WRONLY = 0),
                    f_writable := (omode AND O_WRONLY \<noteq> 0 \<or> omode AND O_RDWR \<noteq> 0)\<rparr>))
                 (ret (int fd)))))))))"

definition sys_mkdir :: "('z pst_scheme, int) kop" where
  "sys_mkdir =
     seq begin_op
    (bnd (argstr 0) (\<lambda>path.
     bnd (case path of None \<Rightarrow> ret None | Some path \<Rightarrow> create path T_DIR 0 0) (\<lambda>r.
     case r of
       None \<Rightarrow> seq end_op (ret (-1))
     | Some ip \<Rightarrow> seq (iunlockput ip) (seq end_op (ret 0)))))"

definition mknod_args :: "('z pst_scheme, (byte list \<times> u32 \<times> u32) option) kop" where
  "mknod_args =
     bnd (argstr 0) (\<lambda>path.
     case path of None \<Rightarrow> ret None | Some path \<Rightarrow>
     bnd (argint 1) (\<lambda>mj.
     case mj of None \<Rightarrow> ret None | Some mj \<Rightarrow>
     bnd (argint 2) (\<lambda>mn.
     case mn of None \<Rightarrow> ret None | Some mn \<Rightarrow> ret (Some (path, mj, mn)))))"

definition sys_mknod :: "('z pst_scheme, int) kop" where
  "sys_mknod =
     seq begin_op
    (bnd mknod_args (\<lambda>a.
     bnd (case a of None \<Rightarrow> ret None | Some (path, mj, mn) \<Rightarrow> create path T_DEV (ucast mj) (ucast mn)) (\<lambda>r.
     case r of
       None \<Rightarrow> seq end_op (ret (-1))
     | Some ip \<Rightarrow> seq (iunlockput ip) (seq end_op (ret 0)))))"

definition sys_chdir :: "('z pst_scheme, int) kop" where
  "sys_chdir =
     bnd curproc (\<lambda>c.
     seq begin_op
    (bnd (argstr 0) (\<lambda>path.
     bnd (case path of None \<Rightarrow> ret None | Some path \<Rightarrow> namei console_devsw path) (\<lambda>r.
     case r of
       None \<Rightarrow> seq end_op (ret (-1))
     | Some ip \<Rightarrow>
         seq (ilock ip)
        (bnd (ino ip) (\<lambda>i.
         if i_type i \<noteq> T_DIR then seq (iunlockput ip) (seq end_op (ret (-1)))
         else
           seq (iunlock ip)
          (bnd (getp c) (\<lambda>p.
           seq (case p_cwd p of None \<Rightarrow> fault ''chdir: no cwd'' | Some d \<Rightarrow> iput d)
          (seq end_op
          (seq (set_proc c (\<lambda>p. p\<lparr>p_cwd := Some ip\<rparr>))
               (ret 0)))))))))))"

text \<open>The loop of \<open>sys_exec\<close> over the argument vector in user memory, with \<open>n\<close> entries left.\<close>

primrec fetch_argv :: "nat \<Rightarrow> u32 \<Rightarrow> ('z pst_scheme, byte list list option) kop" where
  "fetch_argv 0 a = ret None"
| "fetch_argv (Suc n) a =
     bnd (fetchint a) (\<lambda>r.
     case r of
       None \<Rightarrow> ret None
     | Some uarg \<Rightarrow>
         if uarg = 0 then ret (Some [])
         else
           bnd (fetchstr uarg) (\<lambda>s.
           case s of
             None \<Rightarrow> ret None
           | Some s \<Rightarrow> bnd (fetch_argv n (a + 4)) (\<lambda>r. ret (map_option (\<lambda>ss. s # ss) r))))"

definition sys_exec :: "('z pst_scheme, int) kop" where
  "sys_exec =
     bnd (argstr 0) (\<lambda>path.
     case path of None \<Rightarrow> ret (-1) | Some path \<Rightarrow>
     bnd (argint 1) (\<lambda>uargv.
     case uargv of None \<Rightarrow> ret (-1) | Some uargv \<Rightarrow>
     bnd (fetch_argv MAXARG uargv) (\<lambda>argv.
     case argv of None \<Rightarrow> ret (-1) | Some argv \<Rightarrow> exec path argv)))"

text \<open>The two descriptors of \<open>sys_pipe\<close>; on failure both files are closed.\<close>

definition pipe_fds :: "nat \<Rightarrow> nat \<Rightarrow> ('z pst_scheme, (nat \<times> nat) option) kop" where
  "pipe_fds rf wr =
     bnd (fdalloc rf) (\<lambda>fd0.
     bnd (case fd0 of None \<Rightarrow> ret None | Some _ \<Rightarrow> fdalloc wr) (\<lambda>fd1.
     case (fd0, fd1) of
       (Some fd0, Some fd1) \<Rightarrow> ret (Some (fd0, fd1))
     | _ \<Rightarrow>
         seq (case fd0 of None \<Rightarrow> ret () | Some fd0 \<Rightarrow> set_fd fd0 None)
        (seq (fileclose rf)
        (seq (fileclose wr)
             (ret None)))))"

definition sys_pipe :: "('z pst_scheme, int) kop" where
  "sys_pipe =
     bnd (argptr 0 8) (\<lambda>fd.
     case fd of None \<Rightarrow> ret (-1) | Some fd \<Rightarrow>
     bnd pipealloc (\<lambda>r.
     case r of None \<Rightarrow> ret (-1) | Some (rf, wr) \<Rightarrow>
     bnd (pipe_fds rf wr) (\<lambda>r.
     case r of None \<Rightarrow> ret (-1) | Some (fd0, fd1) \<Rightarrow>
     seq (uwrite fd (bytes_of_u32 (of_nat fd0)))
    (seq (uwrite (fd + 4) (bytes_of_u32 (of_nat fd1)))
         (ret 0)))))"

section \<open>The system call table\<close>

definition syscalls :: "nat \<Rightarrow> ('z pst_scheme, int) kop option" where
  "syscalls n = (if n < 24 then
     [None, Some sys_fork, Some sys_exit, Some sys_wait, Some sys_pipe, Some sys_read, Some sys_kill, Some sys_exec,
      Some sys_fstat, Some sys_chdir, Some sys_dup, Some sys_getpid, Some sys_sbrk, Some sys_sleep, Some sys_uptime,
      Some sys_open, Some sys_write, Some sys_mknod, Some sys_unlink, Some sys_link, Some sys_mkdir, Some sys_close,
      Some sys_journalstat, Some sys_crash] ! n else None)"

definition set_eax :: "nat \<Rightarrow> int \<Rightarrow> ('z pst_scheme, unit) kop" where
  "set_eax c r = set_proc c (\<lambda>p. p\<lparr>p_tf := (p_tf p)\<lparr>tf_eax := of_int r\<rparr>\<rparr>)"

text \<open>\<open>"%d %s: unknown sys call %d\n"\<close>.\<close>

definition unknown_msg :: "byte list" where
  "unknown_msg = [37, 100, 32, 37, 115, 58, 32, 117, 110, 107, 110, 111, 119, 110, 32, 115, 121, 115, 32, 99, 97, 108, 108, 32, 37, 100, 10]"

definition syscall :: "('z pst_scheme, unit) kop" where
  "syscall =
     bnd curproc (\<lambda>c.
     bnd (getp c) (\<lambda>p.
     let num = sint (tf_eax (p_tf p)) in
     case (if num > 0 then syscalls (nat num) else None) of
       Some f \<Rightarrow> bnd f (set_eax c)
     | None \<Rightarrow>
         seq (cprintf unknown_msg [CNum (of_int (p_pid p)), CStr (Some (takeWhile (\<lambda>b. b \<noteq> 0) (p_name p))), CNum (of_int num)])
             (set_eax c (-1))))"

end
