(* ===== verification/Trap.thy ===== *)
theory Trap
  imports Sysfile
begin

text \<open>
  \<open>trap.c\<close>: the interrupt descriptor table and the handler of system calls, device
  interrupts and faults. The keyboard and the serial line are given by the values their
  \<open>getc\<close> functions return. Acknowledging the interrupt controller is left out, as is the
  text of the messages about spurious interrupts and faults.
\<close>

section \<open>Descriptors\<close>

abbreviation (input) T_SYSCALL :: nat where "T_SYSCALL \<equiv> 64"
abbreviation (input) T_IRQ0 :: nat where "T_IRQ0 \<equiv> 32"
abbreviation (input) IRQ_TIMER :: nat where "IRQ_TIMER \<equiv> 0"
abbreviation (input) IRQ_KBD :: nat where "IRQ_KBD \<equiv> 1"
abbreviation (input) IRQ_COM1 :: nat where "IRQ_COM1 \<equiv> 4"
abbreviation (input) IRQ_IDE :: nat where "IRQ_IDE \<equiv> 14"
abbreviation (input) IRQ_SPURIOUS :: nat where "IRQ_SPURIOUS \<equiv> 31"
abbreviation (input) STS_IG32 :: nat where "STS_IG32 \<equiv> 14"
abbreviation (input) STS_TG32 :: nat where "STS_TG32 \<equiv> 15"

record gatedesc =
  gd_off :: u32
  gd_cs :: u16
  gd_type :: nat
  gd_s :: bool
  gd_dpl :: nat
  gd_p :: bool

definition SETGATE :: "bool \<Rightarrow> u16 \<Rightarrow> u32 \<Rightarrow> nat \<Rightarrow> gatedesc" where
  "SETGATE istrap sel off d = \<lparr>gd_off = off, gd_cs = sel, gd_type = (if istrap then STS_TG32 else STS_IG32),
     gd_s = False, gd_dpl = d, gd_p = True\<rparr>"

text \<open>\<open>tvinit\<close>: the table, from the addresses of the vectors.\<close>

definition tvinit :: "(nat \<Rightarrow> u32) \<Rightarrow> gatedesc list" where
  "tvinit vectors =
     (map (\<lambda>i. SETGATE False (of_nat (SEG_KCODE * 8)) (vectors i) 0) [0..<256])
       [T_SYSCALL := SETGATE True (of_nat (SEG_KCODE * 8)) (vectors T_SYSCALL) DPL_USER]"

section \<open>The handler\<close>

text \<open>The clock interrupt of the first processor.\<close>

definition clock_tick :: "('z pst_scheme, unit) kop" where
  "clock_tick =
     seq (lock LTicks)
    (seq (upd (\<lambda>s. s\<lparr>ticks := ticks s + 1\<rparr>))
    (seq (wakeup ChTicks)
         (unlock LTicks)))"

definition user_mode :: "trapframe \<Rightarrow> bool" where
  "user_mode tf \<longleftrightarrow> tf_cs tf AND 3 = of_nat DPL_USER"

definition trap_syscall :: "trapframe \<Rightarrow> ('z pst_scheme, unit) kop" where
  "trap_syscall tf =
     bnd curproc (\<lambda>c.
     bnd (getp c) (\<lambda>p.
     seq (whenc (p_killed p) exit)
    (seq (set_proc c (\<lambda>p. p\<lparr>p_tf := tf\<rparr>))
    (seq syscall
    (bnd (getp c) (\<lambda>p.
     whenc (p_killed p) exit))))))"

text \<open>\<open>if(myproc() && myproc()->killed && (tf->cs&3) == DPL_USER) exit();\<close>\<close>

definition exit_if_killed :: "trapframe \<Rightarrow> ('z pst_scheme, unit) kop" where
  "exit_if_killed tf =
     bnd myproc (\<lambda>c.
     case c of
       None \<Rightarrow> ret ()
     | Some c \<Rightarrow> bnd (getp c) (\<lambda>p. whenc (p_killed p \<and> user_mode tf) exit))"

text \<open>The switch over the device interrupts; \<open>cpu\<close> is the processor, \<open>kbd\<close> and \<open>com\<close> the input.\<close>

definition trap_device :: "nat \<Rightarrow> int list \<Rightarrow> int list \<Rightarrow> trapframe \<Rightarrow> ('z pst_scheme, unit) kop" where
  "trap_device cpu kbd com tf =
     (let n = unat (tf_trapno tf) in
      if n = T_IRQ0 + IRQ_TIMER then whenc (cpu = 0) clock_tick
      else if n = T_IRQ0 + IRQ_IDE then ideintr
      else if n = T_IRQ0 + IRQ_IDE + 1 then ret ()
      else if n = T_IRQ0 + IRQ_KBD then consoleintr procdump kbd
      else if n = T_IRQ0 + IRQ_COM1 then consoleintr procdump com
      else if n = T_IRQ0 + 7 \<or> n = T_IRQ0 + IRQ_SPURIOUS then ret ()
      else
        bnd myproc (\<lambda>c.
        case c of
          None \<Rightarrow> panic ''trap''
        | Some c \<Rightarrow>
            if tf_cs tf AND 3 = 0 then panic ''trap''
            else set_proc c (\<lambda>p. p\<lparr>p_killed := True\<rparr>)))"

definition yield_on_tick :: "trapframe \<Rightarrow> ('z pst_scheme, unit) kop" where
  "yield_on_tick tf =
     bnd myproc (\<lambda>c.
     case c of
       None \<Rightarrow> ret ()
     | Some c \<Rightarrow> bnd (getp c) (\<lambda>p. whenc (p_state p = RUNNING \<and> unat (tf_trapno tf) = T_IRQ0 + IRQ_TIMER) yield))"

definition trap :: "nat \<Rightarrow> int list \<Rightarrow> int list \<Rightarrow> trapframe \<Rightarrow> ('z pst_scheme, unit) kop" where
  "trap cpu kbd com tf =
     (if unat (tf_trapno tf) = T_SYSCALL then trap_syscall tf
      else
        seq (trap_device cpu kbd com tf)
       (seq (exit_if_killed tf)
       (seq (yield_on_tick tf)
            (exit_if_killed tf))))"

end
