(* ===== verification/JFault.thy ===== *)
theory JFault
  imports JTxn
begin

text \<open>
  A claim of the journal's documentation about its own instruments, the fault injection of
  \<open>crash 3\<close>, compared with what \<open>log.c\<close> does.
\<close>

lemma flip_byte: "(b :: byte) XOR 0xFF \<noteq> b"
proof
  assume "b XOR 0xFF = b"
  then have "bit (b XOR 0xFF) 0 = bit b 0" by simp
  then show False by (simp add: bit_xor_iff)
qed

lemma range_of_flip_later: "0 < off \<Longrightarrow> range_of off len (flip_first d) = range_of off len d"
  by (cases d) (auto simp: range_of_def flip_first_def bslice_def drop_Cons' nat_eq_iff)

text \<open>
  C39: The checksum of a log slice notices the byte that \<open>crash 3\<close> flips exactly when the
  slice starts at the first byte of the block; the corruption of a block whose logged
  slice starts later goes unnoticed.
\<close>
theorem crash3_detection:
  assumes "length d = BSIZE" and "0 \<le> off" and "0 < len" and "off + len \<le> int BSIZE"
  shows "crc32 crc32_init (range_of off len (flip_first d)) \<noteq> crc32 crc32_init (range_of off len d) \<longleftrightarrow> off = 0"
proof (cases "off = 0")
  case True
  obtain b bs where d: "d = b # bs" using assms(1) by (cases d) simp_all
  obtain n where n: "nat len = Suc n" using assms(3) by (metis gr0_implies_Suc zero_less_nat_eq)
  have "range_of off len (flip_first d) = [] @ (b XOR 0xFF) # take n bs" "range_of off len d = [] @ b # take n bs"
    using assms(3) True n by (simp_all add: range_of_def flip_first_def bslice_def d)
  then show ?thesis using True crc32_byte_differs [OF flip_byte, of "[]" b "take n bs"] by simp
next
  case False
  then show ?thesis using range_of_flip_later [of off len d] assms(2) by simp
qed

theorem crash3_detection_witness:
  "crc32 crc32_init (range_of 0 8 (flip_first (replicate 512 0))) \<noteq> crc32 crc32_init (range_of 0 8 (replicate 512 0)) \<and>
   crc32 crc32_init (range_of 64 16 (flip_first (replicate 512 0))) = crc32 crc32_init (range_of 64 16 (replicate 512 0))"
  using crash3_detection [of "replicate 512 0" 0 8] crash3_detection [of "replicate 512 0" 64 16] by simp

end
