(* ===== verification/Frame.thy ===== *)
theory Frame
  imports Proc
begin

text \<open>
  What an operation leaves alone. \<open>pres R m\<close> says that \<open>m\<close> ends, in whatever way, in a
  state that is related by the preorder \<open>R\<close> to the state it started in. The locale
  \<open>mem_frame\<close> covers the page table routines, \<open>fs_frame\<close> everything a process can do below
  the file table, sleeping and waking included, and \<open>file_frame\<close> the file table.
\<close>

named_theorems pres_intro

lemma map_update_same: "f y = f (xs ! i) \<Longrightarrow> map f (xs[i := y]) = map f xs"
  by (cases "i < length xs") (simp_all add: map_update list_update_same_conv list_update_beyond)

definition final :: "('a, 's) outcome \<Rightarrow> 's" where
  "final oc = (case oc of Ok _ t \<Rightarrow> t | Panic _ t \<Rightarrow> t | Block _ t \<Rightarrow> t | Fault _ t \<Rightarrow> t)"

lemma final_simps [simp]: "final (Ok x t) = t" "final (Panic m t) = t" "final (Block m t) = t" "final (Fault m t) = t"
  by (simp_all add: final_def)

definition pres :: "('s \<Rightarrow> 's \<Rightarrow> bool) \<Rightarrow> ('s, 'a) kop \<Rightarrow> bool" where
  "pres R m \<longleftrightarrow> (\<forall>s. R s (final (m s)))"

lemma presD: "pres R m \<Longrightarrow> R s (final (m s))"
  by (simp add: pres_def)

locale frame_rel =
  fixes R :: "'s \<Rightarrow> 's \<Rightarrow> bool"
  assumes R_refl [simp]: "R s s" and R_trans: "R s t \<Longrightarrow> R t u \<Longrightarrow> R s u"
begin

lemma pres_basic [pres_intro]:
  "pres R (ret x)" "pres R (panic e)" "pres R (fault e)" "pres R (block e)" "pres R (getf g)" "pres R (panic_if b e)"
  by (simp_all add: pres_def)

lemma pres_upd [pres_intro]: "(\<And>s. R s (g s)) \<Longrightarrow> pres R (upd g)"
  by (simp add: pres_def)

lemma pres_bnd [pres_intro]:
  assumes "pres R m" "\<And>x. pres R (k x)"
  shows "pres R (bnd m k)"
  unfolding pres_def
proof
  fix s
  show "R s (final (bnd m k s))"
  proof (cases "m s")
    case (Ok x t)
    then have "R s t" using presD [OF assms(1), of s] by simp
    then show ?thesis using R_trans [OF _ presD [OF assms(2)]] Ok by simp
  qed (use presD [OF assms(1), of s] in simp_all)
qed

lemma pres_seq [pres_intro]: "pres R m \<Longrightarrow> pres R k \<Longrightarrow> pres R (seq m k)"
  unfolding seq_def by (rule pres_bnd)

lemma pres_whenc [pres_intro]: "pres R m \<Longrightarrow> pres R (whenc b m)"
  by (simp add: pres_def)

lemma pres_if [pres_intro]: "pres R m \<Longrightarrow> pres R k \<Longrightarrow> pres R (if b then m else k)"
  by simp

lemma pres_option [pres_intro]: "pres R m \<Longrightarrow> (\<And>x. pres R (k x)) \<Longrightarrow> pres R (case r of None \<Rightarrow> m | Some x \<Rightarrow> k x)"
  by (cases r) simp_all

lemma pres_prod [pres_intro]: "(\<And>x y. pres R (k x y)) \<Longrightarrow> pres R (case r of (x, y) \<Rightarrow> k x y)"
  by (cases r) simp

lemma pres_nat [pres_intro]: "pres R m \<Longrightarrow> (\<And>n. pres R (k n)) \<Longrightarrow> pres R (case r of 0 \<Rightarrow> m | Suc n \<Rightarrow> k n)"
  by (cases r) simp_all

lemma pres_Let [pres_intro]: "pres R (k x) \<Longrightarrow> pres R (Let x k)"
  by simp

lemma pres_for_each [pres_intro]: "(\<And>i. pres R (body i)) \<Longrightarrow> pres R (for_each ks body)"
  by (induction ks) (simp_all add: pres_basic pres_seq)

lemma pres_search_each [pres_intro]: "(\<And>i. pres R (body i)) \<Longrightarrow> pres R (search_each ks body)"
  by (induction ks) (simp_all add: pres_basic pres_bnd pres_option)

end

section \<open>Page tables\<close>

locale mem_frame = frame_rel R for R :: "'z mst_scheme \<Rightarrow> 'z mst_scheme \<Rightarrow> bool" +
  assumes held_frame [simp]: "R s (s\<lparr>held := h\<rparr>)"
    and pmem_frame [simp]: "R s (s\<lparr>pmem := m\<rparr>)"
    and freelist_frame [simp]: "R s (s\<lparr>freelist := r\<rparr>)"
begin

lemma pres_lock [pres_intro]: "pres R (lock l)" "pres R (unlock l)"
  by (simp_all add: pres_def lock_def unlock_def)

lemma pres_kload [pres_intro]: "pres R (kload v)" "pres R (kstore v w)" "pres R (kmemset v c n)" "pres R (kmemmove v w n)" "pres R (kput v bs)"
  by (auto intro!: pres_intro simp: kload_def kstore_def kmemset_def kmemmove_def kput_def)

lemma pres_kalloc [pres_intro]: "pres R kalloc" "pres R (kfree v)"
  by (auto intro!: pres_intro simp: kalloc_def kfree_def kmem_lock_def kmem_unlock_def)

lemma pres_walkpgdir [pres_intro]: "pres R (walkpgdir pd va al)"
  by (auto intro!: pres_intro simp: walkpgdir_def)

lemma pres_mappages_loop [pres_intro]: "pres R (mappages_loop pd perm k a pa)"
proof (induction k arbitrary: a pa)
  case 0
  show ?case unfolding mappages_loop.simps [of pd perm 0] nat.case by (intro pres_intro)
next
  case (Suc k)
  show ?case unfolding mappages_loop.simps [of pd perm "Suc k"] nat.case by (intro pres_intro Suc.IH)
qed

lemma pres_mappages [pres_intro]: "pres R (mappages pd va sz pa perm)"
  by (auto intro!: pres_intro simp: mappages_def)

lemma pres_dealloc_loop [pres_intro]: "pres R (dealloc_loop pd a osz)"
proof (induction pd a osz rule: dealloc_loop.induct)
  case (1 pd a osz)
  show ?case
  proof (cases "a < osz")
    case True
    then show ?thesis unfolding dealloc_loop.simps [of pd a osz] by (simp only: if_True) (intro pres_intro 1)
  next
    case False
    then show ?thesis unfolding dealloc_loop.simps [of pd a osz] by (simp only: if_False) (intro pres_intro)
  qed
qed

lemma pres_deallocuvm [pres_intro]: "pres R (deallocuvm pd osz nsz)"
  by (auto intro!: pres_intro simp: deallocuvm_def)

lemma pres_freevm [pres_intro]: "pres R (freevm pd)"
  by (auto intro!: pres_intro simp: freevm_def)

lemma pres_setupkvm [pres_intro]: "pres R setupkvm"
  by (auto intro!: pres_intro simp: setupkvm_def)

lemma pres_copyuvm [pres_intro]: "pres R (copyuvm pd sz)"
  by (auto intro!: pres_intro simp: copyuvm_def)

end

section \<open>Files\<close>

text \<open>
  The part of the state that no operation on blocks, inodes, the log or a pipe touches. A
  process may be put to sleep or woken on the way; its descriptors stay.
\<close>

definition proc_chan :: "chan \<Rightarrow> bool" where
  "proc_chan c \<longleftrightarrow> (\<exists>i. c = ChProc i)"

lemma proc_chan_simps [simp]: "\<not> proc_chan ChLog" "\<not> proc_chan ChTicks" "\<not> proc_chan ChInput" "\<not> proc_chan (ChBuf b)" "\<not> proc_chan (ChSleeplock l)"
    "\<not> proc_chan (ChPipeR p)" "\<not> proc_chan (ChPipeW p)" "proc_chan (ChProc i)"
  by (simp_all add: proc_chan_def)

locale fs_frame = mem_frame R for R :: "'z fls_scheme \<Rightarrow> 'z fls_scheme \<Rightarrow> bool" +
  assumes bufs_frame [simp]: "R s (s\<lparr>bufs := x1\<rparr>)" and mru_frame [simp]: "R s (s\<lparr>mru := x2\<rparr>)"
    and queue_frame [simp]: "R s (s\<lparr>idequeue := x3\<rparr>)" and disk_frame [simp]: "R s (s\<lparr>disk := x4\<rparr>)"
    and dcmds_frame [simp]: "R s (s\<lparr>dcmds := x5\<rparr>)" and log_frame [simp]: "R s (s\<lparr>jl := x6\<rparr>)"
    and stats_frame [simp]: "R s (s\<lparr>jstats := x7\<rparr>)" and icache_frame [simp]: "R s (s\<lparr>icache := x8\<rparr>)"
    and pipes_frame [simp]: "R s (s\<lparr>pipes := x9\<rparr>)" and crc_frame [simp]: "R s (s\<lparr>crc32_table := x10\<rparr>)"
    and wake_frame [simp]: "R s (s\<lparr>ptable := map (wake_proc c) (ptable s)\<rparr>)"
    and sleep_frame: "\<not> proc_chan c \<Longrightarrow> R s (s\<lparr>ptable := (ptable s)[i := (ptable s ! i)\<lparr>p_chan := Some c, p_state := SLEEPING\<rparr>]\<rparr>)"
    and leave_frame [simp]: "R s (s\<lparr>ptable := (ptable s)[i := (ptable s ! i)\<lparr>p_chan := None\<rparr>]\<rparr>)"
    and run_frame [simp]: "R s (s\<lparr>ptable := (ptable s)[i := (ptable s ! i)\<lparr>p_state := RUNNING\<rparr>]\<rparr>)"
begin

lemma pres_wakeup [pres_intro]: "pres R (wakeup1 c)" "pres R (wakeup c)"
  by (auto intro!: pres_intro simp: wakeup1_def wakeup_def)

lemma pres_sched [pres_intro]: "pres R sched_checks" "pres R sched"
  by (auto intro!: pres_intro simp: sched_checks_def sched_def myproc_def)

lemma pres_sleep [pres_intro]: "\<not> proc_chan c \<Longrightarrow> pres R (sleep_enter c l)" "pres R (sleep_leave l)" "\<not> proc_chan c \<Longrightarrow> pres R (sleep c l)" "pres R resume"
  by (auto intro!: pres_intro sleep_frame simp: sleep_def sleep_enter_def sleep_leave_def resume_def myproc_def set_proc_def)

lemma pres_sleeplock [pres_intro]:
  "(\<And>x s. R s (setl x s)) \<Longrightarrow> pres R (acquiresleep l getl setl)" "(\<And>x s. R s (setl x s)) \<Longrightarrow> pres R (releasesleep l setl)"
  "pres R (holdingsleep l getl)"
  by (auto intro!: pres_intro simp: acquiresleep_def releasesleep_def holdingsleep_def)

lemma setl_frame [simp]: "R s (buf_setl b l s)" "R s (ino_setl ip l s)"
  by (simp_all add: buf_setl_def ino_setl_def)

lemma pres_set_buf [pres_intro]: "pres R (set_buf i g)" "pres R (set_ino i h)" "pres R (ino i)" "pres R (set_log g')" "pres R (set_lh h')"
    "pres R (set_stats k')" "pres R (set_pipe p g'')" "pres R (get_pipe p)"
  by (auto intro!: pres_intro simp: set_buf_def set_ino_def ino_def set_log_def set_lh_def set_stats_def set_pipe_def get_pipe_def)

lemma write_frame [simp]: "R s (s\<lparr>disk := d, dcmds := c\<rparr>)"
  using R_trans [OF disk_frame dcmds_frame] .

lemma pres_ide [pres_intro]: "pres R (idestart b)" "pres R ideintr"
  by (auto intro!: pres_intro simp: idestart_def ideintr_def split: list.split)

lemma pres_ide_interrupts [pres_intro]: "pres R (ide_interrupts k)"
  by (induction k) (simp_all only: ide_interrupts.simps, (intro pres_intro | assumption)+)

lemma pres_sleep_disk [pres_intro]: "pres R (sleep_disk b)"
  by (auto intro!: pres_intro simp: sleep_disk_def)

lemma pres_iderw_wait [pres_intro]: "pres R (iderw_wait k b)"
  by (induction k) (simp_all only: iderw_wait.simps, (intro pres_intro | assumption)+)

lemma pres_iderw [pres_intro]: "pres R (iderw b)" "pres R ideflush"
  by (auto intro!: pres_intro simp: iderw_def ideflush_def)

lemma pres_bio [pres_intro]: "pres R (bget dev n)" "pres R (bread dev n)" "pres R (bwrite b)" "pres R (brelse b)"
    "pres R (set_data b d)" "pres R (set_dirty b)" "pres R (get_data b)"
  by (auto intro!: pres_intro simp: bget_def bread_def bwrite_def brelse_def set_data_def set_dirty_def get_data_def)

lemma pres_write_head [pres_intro]: "pres R write_head" "pres R (install_block k)" "pres R install_trans" "pres R (write_block k)" "pres R write_log"
    "pres R corrupt_log"
  by (auto intro!: pres_intro simp: write_head_def crc32_lazy_def install_block_def install_trans_def write_block_def write_log_def corrupt_log_def)

lemma pres_log [pres_intro]: "pres R commit" "pres R begin_op" "pres R end_op" "pres R (log_write b off len)"
  by (auto intro!: pres_intro simp: commit_def begin_op_def end_op_def log_write_def)

lemma pres_bfree [pres_intro]: "pres R (bfree dev b)" "pres R (iupdate ip)"
  by (auto intro!: pres_intro simp: bfree_def iupdate_def)

lemma pres_iput [pres_intro]: "pres R (itrunc ip)" "pres R (iput ip)" "pres R (idup ip)"
  by (auto intro!: pres_intro simp: itrunc_def iput_def idup_def)

lemma pres_pipeclose [pres_intro]: "pres R (pipeclose p w)"
  by (auto intro!: pres_intro simp: pipeclose_def)

end

locale file_frame = fs_frame R for R :: "'z fls_scheme \<Rightarrow> 'z fls_scheme \<Rightarrow> bool" +
  assumes ftable_frame [simp]: "R s (s\<lparr>ftable := x\<rparr>)"
begin

lemma pres_fobj [pres_intro]: "pres R (fobj f)" "pres R (set_fobj f g)"
  by (auto intro!: pres_intro simp: fobj_def set_fobj_def)

lemma pres_file [pres_intro]: "pres R (filedup f)" "pres R (fileclose f)"
  by (auto intro!: pres_intro simp: filedup_def fileclose_def)

end

end
