(* ===== verification/SyscallSpec.thy ===== *)
theory SyscallSpec
  imports Syscall
begin

text \<open>
  The checks of \<open>syscall.c\<close> on pointers that a user program passes: for a process whose
  memory lies below \<open>KERNBASE\<close> and is mapped, the kernel reads exactly the bytes the user
  sees and nothing outside.
\<close>

section \<open>User memory\<close>

text \<open>The byte at a user address, and the bytes of a range.\<close>

definition ubyte :: "'z vst_scheme \<Rightarrow> u32 \<Rightarrow> byte" where
  "ubyte s v = (case mmu (pmem s) (cr3 s) v of Some a \<Rightarrow> pmem s a | None \<Rightarrow> 0)"

definition ubytes :: "'z vst_scheme \<Rightarrow> u32 \<Rightarrow> nat \<Rightarrow> byte list" where
  "ubytes s v n = map (\<lambda>i. ubyte s (v + of_nat i)) [0..<n]"

definition umapped :: "'z vst_scheme \<Rightarrow> u32 \<Rightarrow> bool" where
  "umapped s sz \<longleftrightarrow> (\<forall>v. v < sz \<longrightarrow> mmu (pmem s) (cr3 s) v \<noteq> None)"

lemma ubytes_Suc: "ubytes s v (Suc n) = ubyte s v # ubytes s (v + 1) n"
proof -
  have "map (\<lambda>i. ubyte s (v + of_nat i)) [0..<Suc n] = ubyte s v # map (\<lambda>i. ubyte s (v + of_nat (Suc i))) [0..<n]"
    by (simp add: map_upt_Suc del: upt_Suc)
  then show ?thesis by (simp add: ubytes_def algebra_simps)
qed

lemma ubytes_0 [simp]: "ubytes s v 0 = []"
  by (simp add: ubytes_def)

lemma uload_run: "umapped s sz \<Longrightarrow> v < sz \<Longrightarrow> uload v s = Ok (ubyte s v) s"
  by (auto simp: umapped_def uload_def ubyte_def split: option.splits)

lemma step_below:
  assumes "unat (v :: u32) + Suc n \<le> unat sz"
  shows "v < sz" "unat (v + 1) + n \<le> unat sz"
proof -
  show "v < sz" using assms by (simp add: word_less_nat_alt)
  have "unat sz < 2 ^ 32" using unsigned_less [of sz] by simp
  then have "unat (v + 1) = unat v + 1" using assms by (simp add: unat_word_ariths)
  then show "unat (v + 1) + n \<le> unat sz" using assms by simp
qed

lemma uread_run: "umapped s sz \<Longrightarrow> unat v + n \<le> unat sz \<Longrightarrow> uread v n s = Ok (ubytes s v n) s"
proof (induction n arbitrary: v)
  case (Suc n)
  then show ?case using uload_run [OF Suc.prems(1) step_below(1) [OF Suc.prems(2)]] Suc.IH [OF Suc.prems(1) step_below(2) [OF Suc.prems(2)]]
    by (simp add: ubytes_Suc)
qed simp

lemma scan_str_run:
  "umapped s sz \<Longrightarrow> unat v + n \<le> unat sz \<Longrightarrow>
   scan_str v n s = Ok (if 0 \<in> set (ubytes s v n) then Some (takeWhile (\<lambda>b. b \<noteq> 0) (ubytes s v n)) else None) s"
proof (induction n arbitrary: v)
  case (Suc n)
  then show ?case using uload_run [OF Suc.prems(1) step_below(1) [OF Suc.prems(2)]] Suc.IH [OF Suc.prems(1) step_below(2) [OF Suc.prems(2)]]
    by (simp add: ubytes_Suc)
qed simp

section \<open>Arguments\<close>

lemma curproc_run: "cur s = Some c \<Longrightarrow> curproc s = Ok c s"
  by (simp add: curproc_def myproc_def)

lemma getp_run [simp]: "getp c s = Ok (ptable s ! c) s"
  by (simp add: getp_def)

lemma word_range:
  assumes "unat (i :: u32) < 2147483648" "0 \<le> k" "k < 2147483648" "i < sz"
  shows "i + of_int k > sz \<longleftrightarrow> \<not> unat i + nat k \<le> unat sz"
proof -
  obtain n where "k = int n" using assms(2) by (rule nonneg_int_cases)
  then have "unat (of_int k :: u32) = nat k" using assms(3) by (simp add: unat_of_nat)
  then have "unat (i + of_int k) = unat i + nat k" using assms(1,3) by (simp add: unat_word_ariths)
  then show ?thesis by (simp add: word_less_nat_alt not_le)
qed

lemma pointer_check:
  assumes "unat (sz :: u32) \<le> 2147483648" "k < 2147483648"
  shows "k < 0 \<or> sz \<le> i \<or> sz < i + of_int k \<longleftrightarrow> \<not> (0 \<le> k \<and> unat i < unat sz \<and> unat i + nat k \<le> unat sz)"
proof (cases "0 \<le> k \<and> i < sz")
  case True
  then have i: "unat i < unat sz" by (simp add: word_less_nat_alt)
  then have "unat i < 2147483648" using assms(1) by simp
  from word_range [OF this _ assms(2), of sz] have "sz < i + of_int k \<longleftrightarrow> \<not> unat i + nat k \<le> unat sz" using True by blast
  then show ?thesis using True i by (auto simp: not_le)
next
  case False
  then show ?thesis by (auto simp: word_less_nat_alt word_le_nat_alt not_le)
qed

lemma fetchint_run:
  assumes "cur s = Some c" "umapped s (p_sz (ptable s ! c))" "unat (p_sz (ptable s ! c)) \<le> 2147483648"
  shows "fetchint addr s =
    Ok (if unat addr + 4 \<le> unat (p_sz (ptable s ! c)) then Some (u32_of_bytes (ubytes s addr 4)) else None) s"
proof (cases "addr < p_sz (ptable s ! c)")
  case True
  then have "unat addr < 2147483648" using assms(3) by (simp add: word_less_nat_alt)
  then show ?thesis using word_range [of addr 4 "p_sz (ptable s ! c)"] True uread_run [OF assms(2), of addr 4]
    by (simp add: fetchint_def curproc_run [OF assms(1)] not_le)
next
  case False
  then have "\<not> unat addr + 4 \<le> unat (p_sz (ptable s ! c))" by (simp add: word_less_nat_alt)
  then show ?thesis using False by (simp add: fetchint_def curproc_run [OF assms(1)] not_less)
qed

lemma fetchstr_run:
  assumes "cur s = Some c" "umapped s (p_sz (ptable s ! c))"
  shows "fetchstr addr s =
    (let bs = ubytes s addr (unat (p_sz (ptable s ! c)) - unat addr) in
     Ok (if 0 \<in> set bs then Some (takeWhile (\<lambda>b. b \<noteq> 0) bs) else None) s)"
proof (cases "addr < p_sz (ptable s ! c)")
  case True
  then have "unat addr + (unat (p_sz (ptable s ! c)) - unat addr) \<le> unat (p_sz (ptable s ! c))" by (simp add: word_less_nat_alt)
  from scan_str_run [OF assms(2) this] show ?thesis using True by (simp add: fetchstr_def curproc_run [OF assms(1)] not_le)
next
  case False
  then have "unat (p_sz (ptable s ! c)) - unat addr = 0" by (simp add: word_less_nat_alt)
  then show ?thesis using False by (simp add: fetchstr_def curproc_run [OF assms(1)] not_less)
qed

lemma argptr_run:
  assumes "cur s = Some c" "umapped s (p_sz (ptable s ! c))" "unat (p_sz (ptable s ! c)) \<le> 2147483648" "k < 2147483648"
  shows "argptr n k s =
    (let sz = unat (p_sz (ptable s ! c)); a = tf_esp (p_tf (ptable s ! c)) + 4 + 4 * of_nat n; i = u32_of_bytes (ubytes s a 4) in
     Ok (if unat a + 4 \<le> sz \<and> 0 \<le> k \<and> unat i < sz \<and> unat i + nat k \<le> sz then Some i else None) s)"
proof -
  let ?sz = "p_sz (ptable s ! c)" and ?a = "tf_esp (p_tf (ptable s ! c)) + 4 + 4 * of_nat n"
  let ?i = "u32_of_bytes (ubytes s ?a 4)"
  have ai: "argint n s = Ok (if unat ?a + 4 \<le> unat ?sz then Some ?i else None) s"
    using fetchint_run [OF assms(1-3), of ?a] by (simp add: argint_def curproc_run [OF assms(1)])
  have c: "k < 0 \<or> ?sz \<le> ?i \<or> ?sz < ?i + of_int k \<longleftrightarrow> \<not> (0 \<le> k \<and> unat ?i < unat ?sz \<and> unat ?i + nat k \<le> unat ?sz)"
    by (rule pointer_check [OF assms(3,4)])
  show ?thesis
  proof (cases "0 \<le> k \<and> unat ?i < unat ?sz \<and> unat ?i + nat k \<le> unat ?sz")
    case True
    then have "\<not> (k < 0 \<or> ?sz \<le> ?i \<or> ?sz < ?i + of_int k)" using c by blast
    then show ?thesis using ai True by (simp add: argptr_def curproc_run [OF assms(1)] Let_def)
  next
    case False
    then have "k < 0 \<or> ?sz \<le> ?i \<or> ?sz < ?i + of_int k" using c by blast
    then show ?thesis using ai False by (auto simp: argptr_def curproc_run [OF assms(1)] Let_def)
  qed
qed

section \<open>Properties\<close>

text \<open>
  C34: What the kernel takes from a user program. For a process of at most \<open>KERNBASE\<close> bytes
  that are mapped, \<open>fetchint\<close> reads the four user bytes at an address when all four lie
  inside the process and fails otherwise, \<open>fetchstr\<close> returns the bytes up to a zero byte
  inside the process and fails if there is none, and \<open>argptr\<close> accepts a pointer exactly
  when the whole block of the given length lies inside the process; the additions do not
  wrap, no access faults, and the state does not change.
\<close>
theorem syscall_arguments_bounded:
  fixes s :: "'z pst_scheme"
  assumes "cur s = Some c" and "sz = p_sz (ptable s ! c)" and "sz \<le> KERNBASE" and "umapped s sz" and "k < 2147483648"
  shows "fetchint addr s = Ok (if unat addr + 4 \<le> unat sz then Some (u32_of_bytes (ubytes s addr 4)) else None) s \<and>
   (let bs = ubytes s addr (unat sz - unat addr) in
    fetchstr addr s = Ok (if 0 \<in> set bs then Some (takeWhile (\<lambda>b. b \<noteq> 0) bs) else None) s) \<and>
   (let a = tf_esp (p_tf (ptable s ! c)) + 4 + 4 * of_nat n; i = u32_of_bytes (ubytes s a 4) in
    argptr n k s = Ok (if unat a + 4 \<le> unat sz \<and> 0 \<le> k \<and> unat i < unat sz \<and> unat i + nat k \<le> unat sz then Some i else None) s)"
proof -
  have "unat sz \<le> 2147483648" using assms(3) by (simp add: word_le_nat_alt)
  then show ?thesis using assms fetchint_run [of s c addr] fetchstr_run [of s c addr] argptr_run [of s c k n] by (simp add: Let_def)
qed

text \<open>A process of one page, mapped to the physical page \<open>0x3000\<close>, with a string of two bytes at address 0.\<close>

definition demo_mem :: memory where
  "demo_mem = store32 0x1000 0x2007 (store32 0x2000 0x3007 (mwrite 0x3000 [104, 105, 0, 0, 0, 0, 0, 0] (\<lambda>_. 7)))"

definition demo_sys :: pst where
  "demo_sys = (fls.extend demo_fls (pst.fields 0 False 0 0 []))\<lparr>pmem := demo_mem, cr3 := 0x1000, cur := Some 0, ptable := [zero_proc\<lparr>p_sz := 0x1000\<rparr>]\<rparr>"

lemma demo_mmu:
  assumes "v < 0x1000"
  shows "mmu demo_mem 0x1000 v = Some (0x3000 + unat v)"
proof -
  have v: "unat v < 4096" using assms by (simp add: word_less_nat_alt)
  have l: "load32 0x1000 demo_mem = 0x2007" "load32 0x2000 demo_mem = 0x3007"
    by (simp_all add: demo_mem_def load_store_other)
  show ?thesis using v l by (simp add: mmu_def unat_PDX unat_PTX and_FFF PTE_ADDR_def)
qed

lemma demo_sys_mapped: "umapped demo_sys 0x1000"
  using demo_mmu by (simp add: umapped_def demo_sys_def)

lemma demo_bytes: "demo_mem 12288 = 104" "demo_mem 12289 = 105" "demo_mem 12290 = 0" "demo_mem 12292 = 0" "demo_mem 12293 = 0"
    "demo_mem 12294 = 0" "demo_mem 12295 = 0"
  by (simp_all add: demo_mem_def store32_outside mwrite_def)

lemma demo_ubyte: "ubyte demo_sys 0 = 104" "ubyte demo_sys 1 = 105" "ubyte demo_sys 2 = 0"
  by (simp_all add: ubyte_def demo_sys_def demo_mmu demo_bytes)

theorem syscall_arguments_bounded_witness:
  "fetchint 0xFFD demo_sys = Ok None demo_sys \<and> fetchint 0xFFFFFFFF demo_sys = Ok None demo_sys \<and> fetchstr 0 demo_sys = Ok (Some [104, 105]) demo_sys"
proof -
  have a: "cur demo_sys = Some 0" "0x1000 = p_sz (ptable demo_sys ! 0)" "(0x1000 :: u32) \<le> KERNBASE" by (simp_all add: demo_sys_def)
  have "ubytes demo_sys 0 4096 = ubyte demo_sys 0 # ubyte demo_sys 1 # ubyte demo_sys 2 # ubytes demo_sys 3 4093"
    using ubytes_Suc [of demo_sys 0 4095] ubytes_Suc [of demo_sys 1 4094] ubytes_Suc [of demo_sys 2 4093] by simp
  then have u: "ubytes demo_sys 0 4096 = 104 # 105 # 0 # ubytes demo_sys 3 4093" by (simp add: demo_ubyte)
  note t = syscall_arguments_bounded [OF a demo_sys_mapped, of 0]
  have "fetchstr 0 demo_sys = Ok (Some [104, 105]) demo_sys" using t [of 0] u by (simp add: Let_def)
  moreover have "fetchint 0xFFD demo_sys = Ok None demo_sys" "fetchint 0xFFFFFFFF demo_sys = Ok None demo_sys"
    using t [of "0xFFD"] t [of "0xFFFFFFFF"] by (simp_all add: Let_def)
  ultimately show ?thesis by blast
qed

end
