(* ===== verification/FileSpec.thy ===== *)
theory FileSpec
  imports Frame Sysfile SyscallSpec
begin

text \<open>
  The reference counts of the file table (\<open>file.c\<close>) against the descriptors of all
  processes: \<open>dup\<close> and \<open>close\<close> keep the two in step, so an open file is released
  when its last descriptor is closed and not before.
\<close>

section \<open>Counting descriptors\<close>

definition fd_refs :: "'z kst_scheme \<Rightarrow> nat \<Rightarrow> nat" where
  "fd_refs s f = (\<Sum>fds\<leftarrow>map p_ofile (ptable s). count_list fds (Some f))"

definition files_ok :: "'z fls_scheme \<Rightarrow> bool" where
  "files_ok s \<longleftrightarrow> (\<forall>f<length (ftable s). f_ref (ftable s ! f) = int (fd_refs s f)) \<and>
     (\<forall>fds\<in>set (map p_ofile (ptable s)). \<forall>f. Some f \<in> set fds \<longrightarrow> f < length (ftable s))"

lemma sum_list_update:
  "i < length xs \<Longrightarrow> sum_list (map g (xs[i := y])) + g (xs ! i) = sum_list (map g xs) + (g y :: nat)"
  by (induction xs arbitrary: i) (auto simp: nth_Cons split: nat.split)

lemma count_list_update:
  "k < length xs \<Longrightarrow> count_list (xs[k := y]) z + (if xs ! k = z then 1 else 0) = count_list xs z + (if y = z then 1 else 0)"
proof (induction xs arbitrary: k)
  case (Cons x xs)
  show ?case
  proof (cases k)
    case (Suc j)
    then show ?thesis using Cons.IH [of j] Cons.prems by auto
  qed auto
qed simp

lemma fd_refs_update:
  assumes "c < length (ptable s)" "k < length (p_ofile (ptable s ! c))" "ptable t = (ptable s)[c := q]"
    "p_ofile q = (p_ofile (ptable s ! c))[k := y]"
  shows "fd_refs t f + (if p_ofile (ptable s ! c) ! k = Some f then 1 else 0) = fd_refs s f + (if y = Some f then 1 else 0)"
proof -
  let ?fds = "p_ofile (ptable s ! c)"
  have "map p_ofile (ptable t) = (map p_ofile (ptable s))[c := ?fds[k := y]]" using assms(3,4) by (simp add: map_update)
  then have "fd_refs t f + count_list ?fds (Some f) = fd_refs s f + count_list (?fds[k := y]) (Some f)"
    using sum_list_update [of c "map p_ofile (ptable s)" "\<lambda>fds. count_list fds (Some f)" "?fds[k := y]"] assms(1) by (simp add: fd_refs_def)
  then show ?thesis using count_list_update [OF assms(2), of y "Some f"] by linarith
qed

lemma fd_refs_pos:
  assumes "c < length (ptable s)" "k < length (p_ofile (ptable s ! c))" "p_ofile (ptable s ! c) ! k = Some f"
  shows "0 < fd_refs s f"
proof -
  have "Some f \<in> set (p_ofile (ptable s ! c))" using assms(2,3) by (metis nth_mem)
  then have "0 < count_list (p_ofile (ptable s ! c)) (Some f)" by (simp add: count_list_0_iff neq0_conv [symmetric] del: neq0_conv)
  moreover have "count_list (p_ofile (ptable s ! c)) (Some f) \<le> fd_refs s f"
    unfolding fd_refs_def by (rule member_le_sum_list) (use assms(1) in auto)
  ultimately show ?thesis by linarith
qed

section \<open>The part of the state that counts\<close>

definition same_files :: "'z fls_scheme \<Rightarrow> 'z fls_scheme \<Rightarrow> bool" where
  "same_files s t \<longleftrightarrow> ftable t = ftable s \<and> map p_ofile (ptable t) = map p_ofile (ptable s)"

interpretation ff: fs_frame "same_files :: 'z fls_scheme \<Rightarrow> 'z fls_scheme \<Rightarrow> bool"
  by unfold_locales (auto simp: same_files_def wake_proc_def map_update_same)

lemma files_ok_cong:
  "ftable t = ftable s \<Longrightarrow> map p_ofile (ptable t) = map p_ofile (ptable s) \<Longrightarrow> files_ok t = files_ok s"
  by (simp add: files_ok_def fd_refs_def)

lemma files_ok_pres:
  assumes "pres same_files m" "files_ok s"
  shows "files_ok (final (m s))" "ftable (final (m s)) = ftable s"
  using presD [OF assms(1), of s] files_ok_cong [of "final (m s)" s] assms(2) by (simp_all add: same_files_def)

lemma files_ok_set:
  assumes "files_ok s" "c < length (ptable s)" "k < length (p_ofile (ptable s ! c))" "f < length (ftable s)"
    and y: "y = None \<and> p_ofile (ptable s ! c) ! k = Some f \<and> n = -1 \<or> y = Some f \<and> p_ofile (ptable s ! c) ! k = None \<and> n = 1"
    and t: "ptable t = (ptable s)[c := q]" "p_ofile q = (p_ofile (ptable s ! c))[k := y]"
    and ft: "length (ftable t) = length (ftable s)" "\<forall>g<length (ftable s). f_ref (ftable t ! g) = f_ref (ftable s ! g) + (if g = f then n else 0)"
  shows "files_ok t"
proof -
  have "f_ref (ftable t ! g) = int (fd_refs t g)" if "g < length (ftable t)" for g
    using fd_refs_update [OF assms(2,3) t, of g] y ft that assms(1) by (auto simp: files_ok_def split: if_splits)
  moreover have "g < length (ftable t)" if "fds \<in> set (map p_ofile (ptable t))" "Some g \<in> set fds" for fds g
  proof -
    have "map p_ofile (ptable t) = (map p_ofile (ptable s))[c := (p_ofile (ptable s ! c))[k := y]]" using t by (simp add: map_update)
    then have "fds \<in> set (map p_ofile (ptable s)) \<or> fds = (p_ofile (ptable s ! c))[k := y]"
      using that(1) set_update_subset_insert by fastforce
    then have "(\<exists>fds'\<in>set (map p_ofile (ptable s)). Some g \<in> set fds') \<or> y = Some g"
    proof
      assume "fds = (p_ofile (ptable s ! c))[k := y]"
      then have "Some g \<in> set (p_ofile (ptable s ! c)) \<or> y = Some g" using that(2) set_update_subset_insert by fastforce
      then show ?thesis using assms(2) by (metis length_map nth_map nth_mem)
    qed (use that(2) in blast)
    then show ?thesis using assms(1,4) y ft(1) by (auto simp: files_ok_def)
  qed
  ultimately show ?thesis by (simp add: files_ok_def)
qed

section \<open>Properties\<close>

lemma cur_run: "cur s = Some c \<Longrightarrow> curproc s = Ok c s"
  by (simp add: curproc_def myproc_def)

lemma set_fd_run:
  "cur s = Some c \<Longrightarrow> set_fd k y s = Ok () (s\<lparr>ptable := (ptable s)[c := (ptable s ! c)\<lparr>p_ofile := (p_ofile (ptable s ! c))[k := y]\<rparr>]\<rparr>)"
  by (simp add: set_fd_def cur_run set_proc_def)

lemma filedup_run:
  assumes "LFtable \<notin> set (held s)"
  shows "filedup f s = (if f_ref (ftable s ! f) < 1 then Panic ''filedup'' (s\<lparr>held := LFtable # held s\<rparr>)
     else Ok f (s\<lparr>ftable := (ftable s)[f := (ftable s ! f)\<lparr>f_ref := f_ref (ftable s ! f) + 1\<rparr>]\<rparr>))"
  using assms by (simp add: filedup_def fobj_def set_fobj_def)

text \<open>\<open>fileclose\<close> up to the point where the entry of the table is done; the rest closes the pipe or the inode.\<close>

lemma fileclose_run:
  assumes "LFtable \<notin> set (held s)" "f < length (ftable s)" "1 \<le> f_ref (ftable s ! f)"
  shows "let o' = ftable s ! f in fileclose f s =
     (if f_ref o' > 1 then Ok () (s\<lparr>ftable := (ftable s)[f := o'\<lparr>f_ref := f_ref o' - 1\<rparr>]\<rparr>)
      else (if f_type o' = FD_PIPE then pipeclose (f_pipe o') (f_writable o')
            else whenc (f_type o' = FD_INODE) (seq begin_op (seq (iput (f_ip o')) end_op)))
        (s\<lparr>ftable := (ftable s)[f := o'\<lparr>f_ref := 0, f_type := FD_NONE\<rparr>]\<rparr>))"
  using assms by (simp add: fileclose_def fobj_def set_fobj_def Let_def)

lemma final_seq_ret [simp]: "final (seq m (ret x) s) = final (m s)"
  by (simp split: outcome.split)

lemma sys_dup_run:
  fixes s :: "'z pst_scheme"
  assumes ok: "files_ok s" and h: "held s = []" and c: "cur s = Some c" "c < length (ptable s)"
    and a: "argfd 0 s = Ok (Some (fd, f)) s" and f: "f < length (ftable s)" "1 \<le> f_ref (ftable s ! f)"
  shows "case find_index (\<lambda>o'. o' = None) (p_ofile (ptable s ! c)) of
     None \<Rightarrow> sys_dup s = Ok (-1) s
   | Some k \<Rightarrow> \<exists>t. sys_dup s = Ok (int k) t \<and> files_ok t \<and> p_ofile (ptable t ! c) ! k = Some f \<and> f_ref (ftable t ! f) = f_ref (ftable s ! f) + 1"
proof (cases "find_index (\<lambda>o'. o' = None) (p_ofile (ptable s ! c))")
  case None
  then show ?thesis using a by (simp add: sys_dup_def fdalloc_def cur_run [OF c(1)] getp_def)
next
  case (Some k)
  then have k: "k < length (p_ofile (ptable s ! c))" "p_ofile (ptable s ! c) ! k = None" by (auto simp: find_index_Some)
  let ?q = "(ptable s ! c)\<lparr>p_ofile := (p_ofile (ptable s ! c))[k := Some f]\<rparr>"
  let ?t = "s\<lparr>ptable := (ptable s)[c := ?q], ftable := (ftable s)[f := (ftable s ! f)\<lparr>f_ref := f_ref (ftable s ! f) + 1\<rparr>]\<rparr>"
  have "sys_dup s = Ok (int k) ?t"
    using a Some h f by (simp add: sys_dup_def fdalloc_def cur_run [OF c(1)] getp_def set_fd_run [OF c(1)] filedup_run)
  moreover have "files_ok ?t"
    by (rule files_ok_set [OF ok c(2) k(1) f(1), where q = ?q and y = "Some f" and n = 1]) (use k(2) in \<open>auto simp: nth_list_update\<close>)
  ultimately show ?thesis using Some c(2) f(1) k(1) by simp
qed

lemma sys_close_run:
  fixes s :: "'z pst_scheme"
  assumes ok: "files_ok s" and h: "held s = []" and c: "cur s = Some c" "c < length (ptable s)"
    and a: "argfd 0 s = Ok (Some (fd, f)) s" and f: "f < length (ftable s)" "1 \<le> f_ref (ftable s ! f)"
    and fd: "fd < length (p_ofile (ptable s ! c))" "p_ofile (ptable s ! c) ! fd = Some f"
  shows "files_ok (final (sys_close s)) \<and>
    f_type (ftable (final (sys_close s)) ! f) = (if f_ref (ftable s ! f) = 1 then FD_NONE else f_type (ftable s ! f))"
proof -
  let ?o = "ftable s ! f" and ?q = "(ptable s ! c)\<lparr>p_ofile := (p_ofile (ptable s ! c))[fd := None]\<rparr>"
  let ?s1 = "s\<lparr>ptable := (ptable s)[c := ?q]\<rparr>"
  have e: "final (sys_close s) = final (fileclose f ?s1)"
    using a by (simp add: sys_close_def set_fd_run [OF c(1)] split: outcome.split)
  have fr: "let o' = ?o in fileclose f ?s1 =
     (if f_ref o' > 1 then Ok () (?s1\<lparr>ftable := (ftable s)[f := o'\<lparr>f_ref := f_ref o' - 1\<rparr>]\<rparr>)
      else (if f_type o' = FD_PIPE then pipeclose (f_pipe o') (f_writable o')
            else whenc (f_type o' = FD_INODE) (seq begin_op (seq (iput (f_ip o')) end_op)))
        (?s1\<lparr>ftable := (ftable s)[f := o'\<lparr>f_ref := 0, f_type := FD_NONE\<rparr>]\<rparr>))"
    using fileclose_run [of ?s1 f] h f by (simp add: Let_def)
  have step: "files_ok (?s1\<lparr>ftable := (ftable s)[f := o'']\<rparr>)" if "f_ref o'' = f_ref ?o - 1" for o''
    by (rule files_ok_set [OF ok c(2) fd(1) f(1), where q = ?q and y = None and n = "-1"]) (use fd(2) that in \<open>auto simp: nth_list_update\<close>)
  show ?thesis
  proof (cases "f_ref ?o > 1")
    case True
    then show ?thesis using fr step [of "?o\<lparr>f_ref := f_ref ?o - 1\<rparr>"] f(1) unfolding e by (simp add: Let_def)
  next
    case False
    let ?m = "if f_type ?o = FD_PIPE then pipeclose (f_pipe ?o) (f_writable ?o) else whenc (f_type ?o = FD_INODE) (seq begin_op (seq (iput (f_ip ?o)) end_op))"
    let ?u = "?s1\<lparr>ftable := (ftable s)[f := ?o\<lparr>f_ref := 0, f_type := FD_NONE\<rparr>]\<rparr>"
    have k: "pres same_files ?m" by (intro pres_intro)
    have u: "fileclose f ?s1 = ?m ?u" using fr False by (simp add: Let_def)
    have "files_ok ?u" using step [of "?o\<lparr>f_ref := 0, f_type := FD_NONE\<rparr>"] False f(2) by simp
    from files_ok_pres [OF k this] show ?thesis unfolding e u using False f by simp
  qed
qed

text \<open>
  C33: The reference count of every open file is the number of descriptors, over all
  processes, that refer to it. \<open>dup\<close> and \<open>close\<close> keep this, however they end, also when
  the last \<open>close\<close> of an inode or pipe puts the process to sleep: \<open>dup\<close> fails with -1 and
  no change when the process has no free descriptor; \<open>close\<close> never finds a count below
  one, and it releases the file exactly when no other descriptor refers to it.
\<close>
theorem descriptor_counts:
  fixes s :: "'z pst_scheme"
  assumes "files_ok s" and "held s = []" and "cur s = Some c" and "c < length (ptable s)"
    and "argfd 0 s = Ok (Some (fd, f)) s" and "fd < length (p_ofile (ptable s ! c))" and "p_ofile (ptable s ! c) ! fd = Some f"
  shows "files_ok (final (sys_dup s)) \<and> files_ok (final (sys_close s)) \<and>
   (None \<notin> set (p_ofile (ptable s ! c)) \<longrightarrow> sys_dup s = Ok (-1) s) \<and>
   (None \<in> set (p_ofile (ptable s ! c)) \<longrightarrow> (\<exists>k t. sys_dup s = Ok (int k) t \<and> p_ofile (ptable s ! c) ! k = None \<and>
      p_ofile (ptable t ! c) ! k = Some f \<and> f_ref (ftable t ! f) = f_ref (ftable s ! f) + 1)) \<and>
   (f_type (ftable (final (sys_close s)) ! f) = (if fd_refs s f = 1 then FD_NONE else f_type (ftable s ! f)))"
proof -
  have "Some f \<in> set (p_ofile (ptable s ! c))" using assms(6,7) by (metis nth_mem)
  then have f: "f < length (ftable s)" using assms(1,4) by (auto simp: files_ok_def)
  moreover have n: "f_ref (ftable s ! f) = int (fd_refs s f)" using assms(1) f by (simp add: files_ok_def)
  ultimately have r: "1 \<le> f_ref (ftable s ! f)" using fd_refs_pos [OF assms(4,6,7)] by simp
  note d = sys_dup_run [OF assms(1-5) f r] and cl = sys_close_run [OF assms(1-5) f r assms(6,7)]
  show ?thesis
  proof (cases "find_index (\<lambda>o'. o' = None) (p_ofile (ptable s ! c))")
    case None
    then have "None \<notin> set (p_ofile (ptable s ! c))" by (auto simp: find_index_None in_set_conv_nth)
    then show ?thesis using d None cl assms(1) n by simp
  next
    case (Some k)
    then have k: "k < length (p_ofile (ptable s ! c))" "p_ofile (ptable s ! c) ! k = None" by (auto simp: find_index_Some)
    then have "None \<in> set (p_ofile (ptable s ! c))" by (metis nth_mem)
    then show ?thesis using d Some cl n k(2) by auto
  qed
qed

text \<open>The process of \<open>syscall_arguments_bounded_witness\<close> with one open pipe end and the argument 0.\<close>

definition demo_file :: fileobj where
  "demo_file = \<lparr>f_type = FD_PIPE, f_ref = 1, f_readable = True, f_writable = False, f_pipe = 0x80200000, f_ip = 0, f_off = 0\<rparr>"

definition demo_fd :: pst where
  "demo_fd = demo_sys\<lparr>held := [], ptable := [zero_proc\<lparr>p_sz := 0x1000, p_ofile := [Some 0, None]\<rparr>], ftable := [demo_file]\<rparr>"

lemma demo_fd_fields [simp]: "held demo_fd = []" "cur demo_fd = Some 0" "ptable demo_fd = [zero_proc\<lparr>p_sz := 0x1000, p_ofile := [Some 0, None]\<rparr>]"
    "ftable demo_fd = [demo_file]" "pmem demo_fd = demo_mem" "cr3 demo_fd = 0x1000"
  by (simp_all add: demo_fd_def demo_sys_def)

lemma demo_fd_ok: "files_ok demo_fd"
  by (simp add: files_ok_def fd_refs_def demo_file_def One_nat_def)

lemma demo_fd_arg: "argfd 0 demo_fd = Ok (Some (0, 0)) demo_fd"
proof -
  have "umapped demo_fd 0x1000" using demo_mmu by (simp add: umapped_def)
  moreover have "ubyte demo_fd 4 = 0" "ubyte demo_fd 5 = 0" "ubyte demo_fd 6 = 0" "ubyte demo_fd 7 = 0"
    by (simp_all add: ubyte_def demo_mmu demo_bytes)
  then have "ubytes demo_fd 4 4 = [0, 0, 0, 0]"
    by (simp add: numeral_eq_Suc ubytes_Suc)
  ultimately have "fetchint 4 demo_fd = Ok (Some 0) demo_fd" using fetchint_run [of demo_fd 0 4] by (simp add: u32_of_bytes_def)
  then show ?thesis by (simp add: argfd_def argint_def cur_run zero_proc_def zero_tf_def)
qed

theorem descriptor_counts_witness:
  "files_ok demo_fd \<and> (\<exists>t. sys_dup demo_fd = Ok 1 t \<and> files_ok t \<and> f_ref (ftable t ! 0) = 2) \<and>
   f_type (ftable (final (sys_close demo_fd)) ! 0) = FD_NONE"
proof -
  have n: "fd_refs demo_fd 0 = 1" by (simp add: fd_refs_def)
  note t = descriptor_counts [OF demo_fd_ok demo_fd_fields(1,2) _ demo_fd_arg]
  have t': "files_ok (final (sys_dup demo_fd)) \<and> files_ok (final (sys_close demo_fd)) \<and>
     (\<exists>k u. sys_dup demo_fd = Ok (int k) u \<and> [Some (0 :: nat), None] ! k = None \<and> f_ref (ftable u ! 0) = 2) \<and>
     f_type (ftable (final (sys_close demo_fd)) ! 0) = FD_NONE"
    using t n by (simp add: demo_file_def) blast
  have "find_index (\<lambda>o'. o' = None) [Some (0 :: nat), None] = Some 1" by (simp add: One_nat_def)
  then have "case Some 1 of None \<Rightarrow> True | Some k \<Rightarrow> \<exists>u. sys_dup demo_fd = Ok (int k) u"
    using sys_dup_run [OF demo_fd_ok demo_fd_fields(1,2) _ demo_fd_arg] by (auto simp: demo_file_def)
  then show ?thesis using t' demo_fd_ok by auto
qed

end
