(* ===== verification/ProcSpec.thy ===== *)
theory ProcSpec
  imports Proc
begin

text \<open>
  What the scheduler and the operations on processes of \<open>proc.c\<close> guarantee: bounded
  waiting for a process that stays runnable, no lost wake-up between \<open>exit\<close> and \<open>wait\<close>,
  and what \<open>kill\<close> of process 0 does to the next process created.
\<close>

section \<open>The scheduler\<close>

text \<open>One process chosen by the scheduler that stands at index \<open>k\<close>, over the end of the table if need be.\<close>

definition scheduler_next :: "nat \<Rightarrow> ('z pst_scheme, nat) kop" where
  "scheduler_next k =
     bnd (scheduler_pick k) (\<lambda>r.
     case r of
       Some i \<Rightarrow> ret i
     | None \<Rightarrow>
         seq scheduler_turn
        (bnd (scheduler_pick 0) (\<lambda>r. case r of Some i \<Rightarrow> ret i | None \<Rightarrow> block ''idle'')))"

definition ready :: "'z kst_scheme \<Rightarrow> bool" where
  "ready s \<longleftrightarrow> held s = [LPtable] \<and> (\<forall>p\<in>set (ptable s). p_state p = RUNNABLE \<longrightarrow> p_kstack p \<noteq> 0 \<and> p_pgdir p \<noteq> 0)"

lemma next_runnable_Some:
  "next_runnable k pt = Some j \<longleftrightarrow> k \<le> j \<and> j < length pt \<and> p_state (pt ! j) = RUNNABLE \<and> (\<forall>m. k \<le> m \<and> m < j \<longrightarrow> p_state (pt ! m) \<noteq> RUNNABLE)"
proof -
  have "next_runnable k pt = Some j \<longleftrightarrow> (\<exists>n<length pt - k. p_state (pt ! (k + n)) = RUNNABLE \<and> j = k + n \<and> (\<forall>m<n. p_state (pt ! (k + m)) \<noteq> RUNNABLE))"
    by (auto simp: next_runnable_def find_Some_iff)
  also have "\<dots> \<longleftrightarrow> k \<le> j \<and> j < length pt \<and> p_state (pt ! j) = RUNNABLE \<and> (\<forall>m. k \<le> m \<and> m < j \<longrightarrow> p_state (pt ! m) \<noteq> RUNNABLE)"
  proof
    assume r: "k \<le> j \<and> j < length pt \<and> p_state (pt ! j) = RUNNABLE \<and> (\<forall>m. k \<le> m \<and> m < j \<longrightarrow> p_state (pt ! m) \<noteq> RUNNABLE)"
    then show "\<exists>n<length pt - k. p_state (pt ! (k + n)) = RUNNABLE \<and> j = k + n \<and> (\<forall>m<n. p_state (pt ! (k + m)) \<noteq> RUNNABLE)"
      by (intro exI [of _ "j - k"]) auto
  next
    assume "\<exists>n<length pt - k. p_state (pt ! (k + n)) = RUNNABLE \<and> j = k + n \<and> (\<forall>m<n. p_state (pt ! (k + m)) \<noteq> RUNNABLE)"
    then obtain n where n: "n < length pt - k" "p_state (pt ! (k + n)) = RUNNABLE" "j = k + n" "\<forall>m<n. p_state (pt ! (k + m)) \<noteq> RUNNABLE" by blast
    have "p_state (pt ! m) \<noteq> RUNNABLE" if "k \<le> m" "m < j" for m using n(4) [rule_format, of "m - k"] that n(3) by simp
    then show "k \<le> j \<and> j < length pt \<and> p_state (pt ! j) = RUNNABLE \<and> (\<forall>m. k \<le> m \<and> m < j \<longrightarrow> p_state (pt ! m) \<noteq> RUNNABLE)"
      using n by simp
  qed
  finally show ?thesis .
qed

lemma next_runnable_None:
  "next_runnable k pt = None \<longleftrightarrow> (\<forall>m. k \<le> m \<and> m < length pt \<longrightarrow> p_state (pt ! m) \<noteq> RUNNABLE)"
  by (auto simp: next_runnable_def find_None_iff)

text \<open>The state in which process \<open>i\<close> has been given the processor.\<close>

definition given :: "nat \<Rightarrow> 'z pst_scheme \<Rightarrow> 'z pst_scheme" where
  "given i s =
     s\<lparr>cur := Some i, gdt := (gdt s)[SEG_TSS := Some ((SEG16 STS_T32A (ts_at s) 103 0)\<lparr>sg_s := False\<rparr>)],
       ts := \<lparr>ts_esp0 = p_kstack (ptable s ! i) + of_nat KSTACKSIZE, ts_ss0 = of_nat (SEG_KDATA * 8), ts_iomb = 0xFFFF\<rparr>,
       tr := of_nat (SEG_TSS * 8), cr3 := V2P (p_pgdir (ptable s ! i)),
       ptable := (ptable s)[i := (ptable s ! i)\<lparr>p_state := RUNNING\<rparr>]\<rparr>"

lemma scheduler_pick_run:
  assumes "ready s"
  shows "scheduler_pick k s = (case next_runnable k (ptable s) of None \<Rightarrow> Ok None s | Some i \<Rightarrow> Ok (Some i) (given i s))"
proof (cases "next_runnable k (ptable s)")
  case (Some i)
  then have "i < length (ptable s)" "p_state (ptable s ! i) = RUNNABLE" by (simp_all add: next_runnable_Some)
  then have "p_kstack (ptable s ! i) \<noteq> 0" "p_pgdir (ptable s ! i) \<noteq> 0" using assms by (auto simp: ready_def)
  then show ?thesis using Some by (simp add: scheduler_pick_def switchuvm_def set_proc_def given_def)
qed (simp add: scheduler_pick_def)

lemma scheduler_turn_run: "ready s \<Longrightarrow> scheduler_turn s = Ok () s"
proof -
  assume "ready s"
  then have h: "held s = [LPtable]" by (simp add: ready_def)
  have "s\<lparr>held := [LPtable]\<rparr> = s" by (metis h kst.surjective kst.update_convs(1) kst.select_convs(1))
  then show ?thesis using h by (simp add: scheduler_turn_def)
qed

lemma scheduler_next_run:
  assumes "ready s" "i < length (ptable s)" "p_state (ptable s ! i) = RUNNABLE"
  shows "\<exists>j. scheduler_next k s = Ok j (given j s) \<and> j < length (ptable s) \<and> p_state (ptable s ! j) = RUNNABLE \<and>
     (if k \<le> i then k \<le> j \<and> j \<le> i else k \<le> j \<or> j \<le> i)"
proof (cases "next_runnable k (ptable s)")
  case (Some j)
  then have "k \<le> j" "j < length (ptable s)" "p_state (ptable s ! j) = RUNNABLE" "k \<le> i \<Longrightarrow> j \<le> i"
    using assms(3) by (simp_all add: next_runnable_Some) (meson not_le)
  then show ?thesis using Some assms(1) by (intro exI [of _ j]) (simp add: scheduler_next_def scheduler_pick_run)
next
  case None
  then have "\<not> k \<le> i" using assms(2,3) by (auto simp: next_runnable_None)
  moreover obtain j where j: "next_runnable 0 (ptable s) = Some j"
    using assms(2,3) by (cases "next_runnable 0 (ptable s)") (auto simp: next_runnable_None)
  moreover have "j < length (ptable s)" "p_state (ptable s ! j) = RUNNABLE" "j \<le> i"
    using j assms(3) by (simp_all add: next_runnable_Some) (meson not_le)
  ultimately show ?thesis using None assms(1)
    by (intro exI [of _ j]) (simp add: scheduler_next_def scheduler_pick_run scheduler_turn_run)
qed

text \<open>
  What the scheduler may rely on when a process gives the processor back, whatever it and
  the interrupts did: a process that was runnable still is (only the scheduler takes
  that state away), the table has the same slots, and \<open>ptable.lock\<close> is held again.
\<close>

definition comes_back :: "nat \<Rightarrow> 'z pst_scheme \<Rightarrow> 'z pst_scheme \<Rightarrow> bool" where
  "comes_back i t u \<longleftrightarrow> ready u \<and> length (ptable u) = length (ptable t) \<and>
     (\<forall>j<length (ptable t). j \<noteq> i \<and> p_state (ptable t ! j) = RUNNABLE \<longrightarrow> p_state (ptable u ! j) = RUNNABLE)"

text \<open>The processes picked one after the other from a state and a table index.\<close>

inductive picks :: "'z pst_scheme \<Rightarrow> nat \<Rightarrow> nat list \<Rightarrow> bool" where
  picks_nil: "picks s k []"
| picks_cons: "scheduler_next k s = Ok i t \<Longrightarrow> comes_back i t u \<Longrightarrow> scheduler_back u = Ok () v \<Longrightarrow> picks v (Suc i) is \<Longrightarrow>
     picks s k (i # is)"

inductive_cases picks_consE: "picks s k (i # is)"

text \<open>The number of other processes that can be picked before process \<open>i\<close>.\<close>

definition ahead :: "nat \<Rightarrow> nat \<Rightarrow> nat \<Rightarrow> nat" where
  "ahead n i k = (if k \<le> i then i - k else n - k + i)"

lemma scheduler_back_run: "scheduler_back u = Ok () (u\<lparr>cr3 := V2P (kpgdir u), cur := None\<rparr>)"
  by (simp add: scheduler_back_def switchkvm_def)

lemma picked_in_time:
  assumes "picks s k is" "ready s" "i < length (ptable s)" "p_state (ptable s ! i) = RUNNABLE" "ahead (length (ptable s)) i k < length is"
  shows "i \<in> set is"
  using assms
proof (induction s k "is" rule: picks.induct)
  case (picks_cons k s j t u v js)
  obtain j' where j: "scheduler_next k s = Ok j' (given j' s)" "j' < length (ptable s)"
      "if k \<le> i then k \<le> j' \<and> j' \<le> i else k \<le> j' \<or> j' \<le> i"
    using scheduler_next_run [OF picks_cons.prems(1-3)] by blast
  then have jt: "j' = j" "t = given j s" using picks_cons.hyps(1) by simp_all
  show ?case
  proof (cases "j = i")
    case False
    have len: "length (ptable v) = length (ptable s)" "ready v" "p_state (ptable v ! i) = RUNNABLE"
      using picks_cons.hyps(2,3) jt False picks_cons.prems(2,3)
      by (auto simp: comes_back_def scheduler_back_run given_def ready_def)
    have "ahead (length (ptable s)) i (Suc j) < ahead (length (ptable s)) i k" using j(2,3) jt(1) False by (auto simp: ahead_def split: if_splits)
    then have "i \<in> set js" using picks_cons.IH len picks_cons.prems(2,4) by simp
    then show ?thesis by simp
  qed simp
qed simp

text \<open>\<open>yield\<close> gives the processor back in such a state.\<close>

lemma yield_comes_back:
  assumes "ready t" "cur t = Some i" "i < length (ptable t)" "p_kstack (ptable t ! i) \<noteq> 0" "p_pgdir (ptable t ! i) \<noteq> 0"
  shows "\<exists>u. yield (t\<lparr>held := []\<rparr>) = Block ''sched'' u \<and> comes_back i t u \<and> p_state (ptable u ! i) = RUNNABLE"
proof -
  let ?u = "t\<lparr>held := [LPtable], ptable := (ptable t)[i := (ptable t ! i)\<lparr>p_state := RUNNABLE\<rparr>]\<rparr>"
  have "yield (t\<lparr>held := []\<rparr>) = Block ''sched'' ?u"
    using assms(2,3) by (simp add: yield_def curproc_def myproc_def set_proc_def sched_def sched_checks_def)
  moreover have "comes_back i t ?u"
    using assms by (auto simp: comes_back_def ready_def nth_list_update set_conv_nth)
  ultimately show ?thesis using assms(3) by simp
qed

section \<open>Properties\<close>

text \<open>
  C31: Bounded waiting. While a process is runnable the scheduler always finds a process to
  run, marks it running and loads its address space; and whatever the processes picked do
  (they may run, sleep, wake others, yield), a process that is runnable is picked within
  as many picks as the process table has slots.
\<close>
theorem scheduler_fair:
  fixes s :: "'z pst_scheme"
  assumes "ready s" and "i < length (ptable s)" and "p_state (ptable s ! i) = RUNNABLE" and "k \<le> length (ptable s)"
  shows "(\<exists>j t. scheduler_next k s = Ok j t \<and> cur t = Some j \<and> p_state (ptable t ! j) = RUNNING \<and> cr3 t = V2P (p_pgdir (ptable s ! j)) \<and>
      (\<exists>u v. yield (t\<lparr>held := []\<rparr>) = Block ''sched'' u \<and> comes_back j t u \<and> scheduler_back u = Ok () v)) \<and>
   (\<forall>is. picks s k is \<and> length (ptable s) \<le> length is \<longrightarrow> i \<in> set is)"
proof (intro conjI allI impI)
  obtain j where j: "scheduler_next k s = Ok j (given j s)" "j < length (ptable s)" "p_state (ptable s ! j) = RUNNABLE"
    using scheduler_next_run [OF assms(1-3)] by blast
  have r: "p_kstack (ptable s ! j) \<noteq> 0" "p_pgdir (ptable s ! j) \<noteq> 0" using assms(1) j(2,3) by (auto simp: ready_def)
  have "ready (given j s)" using assms(1) j(2) by (auto simp: ready_def given_def set_conv_nth nth_list_update)
  then obtain u where "yield ((given j s)\<lparr>held := []\<rparr>) = Block ''sched'' u" "comes_back j (given j s) u"
    using yield_comes_back [of "given j s" j] j(2) r by (auto simp: given_def)
  moreover have "cur (given j s) = Some j \<and> p_state (ptable (given j s) ! j) = RUNNING \<and> cr3 (given j s) = V2P (p_pgdir (ptable s ! j))"
    using j(2) by (simp add: given_def)
  ultimately show "\<exists>j t. scheduler_next k s = Ok j t \<and> cur t = Some j \<and> p_state (ptable t ! j) = RUNNING \<and> cr3 t = V2P (p_pgdir (ptable s ! j)) \<and>
      (\<exists>u v. yield (t\<lparr>held := []\<rparr>) = Block ''sched'' u \<and> comes_back j t u \<and> scheduler_back u = Ok () v)"
    using j(1) scheduler_back_run [of u] by blast
  fix "is" assume "picks s k is \<and> length (ptable s) \<le> length is"
  moreover have "ahead (length (ptable s)) i k < length (ptable s)" using assms(2,4) by (auto simp: ahead_def)
  ultimately show "i \<in> set is" using picked_in_time [OF _ assms(1-3)] by auto
qed

text \<open>Two runnable processes.\<close>

definition demo_proc :: proc where
  "demo_proc = zero_proc\<lparr>p_state := RUNNABLE, p_kstack := 0x80400000, p_pgdir := 0x80500000\<rparr>"

definition demo_pst :: pst where
  "demo_pst = (fls.extend demo_fls (pst.fields 0 False 0 0 []))\<lparr>ptable := [demo_proc, demo_proc], held := [LPtable]\<rparr>"

lemma demo_pst_fields [simp]: "ptable demo_pst = [demo_proc, demo_proc]" "held demo_pst = [LPtable]"
  by (simp_all add: demo_pst_def)

lemma demo_pst_ready: "ready demo_pst"
  by (simp add: ready_def demo_proc_def)

theorem scheduler_fair_witness:
  "\<exists>t u v. scheduler_next 0 demo_pst = Ok 0 t \<and> comes_back 0 t u \<and> scheduler_back u = Ok () v \<and> (\<exists>i w. scheduler_next 1 v = Ok i w) \<and>
     (\<forall>is. picks v 1 is \<and> 2 \<le> length is \<longrightarrow> 0 \<in> set is)"
proof -
  have r0: "0 < length (ptable demo_pst)" "p_state (ptable demo_pst ! 0) = RUNNABLE" by (simp_all add: demo_proc_def)
  obtain j where "scheduler_next 0 demo_pst = Ok j (given j demo_pst)" "j \<le> 0" using scheduler_next_run [OF demo_pst_ready r0, of 0] by auto
  then have n: "scheduler_next 0 demo_pst = Ok 0 (given 0 demo_pst)" by simp
  have g: "ready (given 0 demo_pst)" "cur (given 0 demo_pst) = Some 0" "0 < length (ptable (given 0 demo_pst))"
    "p_kstack (ptable (given 0 demo_pst) ! 0) \<noteq> 0" "p_pgdir (ptable (given 0 demo_pst) ! 0) \<noteq> 0"
    by (simp_all add: given_def ready_def demo_proc_def)
  obtain u where u: "comes_back 0 (given 0 demo_pst) u" "p_state (ptable u ! 0) = RUNNABLE" using yield_comes_back [OF g] by blast
  let ?v = "u\<lparr>cr3 := V2P (kpgdir u), cur := None\<rparr>"
  have l: "length (ptable ?v) = 2" and rv: "ready ?v" using u(1) by (simp_all add: comes_back_def given_def ready_def)
  have rn: "0 < length (ptable ?v)" "p_state (ptable ?v ! 0) = RUNNABLE" "1 \<le> length (ptable ?v)" using l u(2) by simp_all
  have "(\<exists>i w. scheduler_next 1 ?v = Ok i w) \<and> (\<forall>is. picks ?v 1 is \<and> 2 \<le> length is \<longrightarrow> 0 \<in> set is)"
    using scheduler_fair [OF rv rn] unfolding l by blast
  then show ?thesis using n u(1) scheduler_back_run [of u] by blast
qed

lemma find_index_update:
  assumes "find_index P xs = Some i" "P y"
  shows "find_index P (xs[i := y]) = Some i"
  using assms by (auto simp: find_index_Some nth_list_update)

text \<open>
  C32: Killing process 0. A slot that has been reaped, or never used, has process number 0, so
  \<open>kill(0)\<close> succeeds on the first such slot and sets its \<open>killed\<close> flag; \<open>allocproc\<close> does not
  clear the flag, and the next process created in that slot starts out killed.
\<close>
theorem kill_zero_poisons:
  fixes s :: "'z pst_scheme"
  assumes "held s = []" and "find_index (\<lambda>p. p_pid p = 0) (ptable s) = Some i" and "find_index (\<lambda>p. p_state p = UNUSED) (ptable s) = Some i"
    and "freelist s \<noteq> 0"
  shows "\<exists>t u. kill 0 s = Ok 0 t \<and> allocproc t = Ok (Some i) u \<and> p_killed (ptable u ! i) \<and> p_state (ptable u ! i) = EMBRYO \<and>
     p_pid (ptable u ! i) = nextpid s"
proof -
  have i: "i < length (ptable s)" "p_state (ptable s ! i) = UNUSED" using assms(3) by (auto simp: find_index_Some)
  let ?p = "(ptable s ! i)\<lparr>p_killed := True, p_state := UNUSED\<rparr>"
  let ?t = "s\<lparr>ptable := (ptable s)[i := ?p], held := []\<rparr>"
  have k: "kill 0 s = Ok 0 ?t" using assms(1,2) i by (simp add: kill_def set_proc_def)
  have f: "find_index (\<lambda>p. p_state p = UNUSED) (ptable ?t) = Some i" using find_index_update [OF assms(3), of ?p] by simp
  have "\<exists>u. allocproc ?t = Ok (Some i) u \<and> p_killed (ptable u ! i) \<and> p_state (ptable u ! i) = EMBRYO \<and> p_pid (ptable u ! i) = nextpid s"
    using f assms(4) i(1) by (simp add: allocproc_def set_proc_def kalloc_run kstore_def)
  then show ?thesis using k by blast
qed

text \<open>The state of \<open>scheduler_fair_witness\<close> with an unused slot and a free page.\<close>

theorem kill_zero_poisons_witness:
  "\<exists>t u. kill 0 (demo_pst\<lparr>held := [], ptable := [zero_proc, zero_proc], freelist := 0x80300000\<rparr>) = Ok 0 t \<and>
     allocproc t = Ok (Some 0) u \<and> p_killed (ptable u ! 0)"
  using kill_zero_poisons [of "demo_pst\<lparr>held := [], ptable := [zero_proc, zero_proc], freelist := 0x80300000\<rparr>" 0]
  by (fastforce simp: zero_proc_def)

end
