(* ===== verification/Family.thy ===== *)
theory Family
  imports Frame ProcSpec
begin

text \<open>
  \<open>fork\<close>, \<open>exit\<close>, \<open>wait\<close> and \<open>kill\<close> of \<open>proc.c\<close> together, under any schedule: a process
  that sleeps in \<open>wait\<close> has a child, and none of its children is a zombie. So the
  wake-up of an exiting child is never lost, also when the children of an exiting process
  are handed to \<open>init\<close>.
\<close>

section \<open>Parents and children\<close>

definition waiting :: "proc list \<Rightarrow> nat \<Rightarrow> bool" where
  "waiting pt i \<longleftrightarrow> i < length pt \<and> p_state (pt ! i) = SLEEPING \<and> p_chan (pt ! i) = Some (ChProc i)"

definition alive :: "proc \<Rightarrow> bool" where
  "alive p \<longleftrightarrow> p_state p \<noteq> UNUSED \<and> p_state p \<noteq> ZOMBIE"

definition family :: "proc list \<Rightarrow> nat option \<Rightarrow> bool" where
  "family pt init \<longleftrightarrow>
     (\<forall>j<length pt. p_state (pt ! j) = UNUSED \<longrightarrow> p_parent (pt ! j) = None) \<and>
     (\<forall>j<length pt. p_parent (pt ! j) \<noteq> Some j) \<and>
     (\<forall>j<length pt. \<forall>i. p_state (pt ! j) = SLEEPING \<and> p_chan (pt ! j) = Some (ChProc i) \<longrightarrow> i = j) \<and>
     (\<forall>i. waiting pt i \<longrightarrow> (\<exists>k<length pt. p_parent (pt ! k) = Some i) \<and>
        (\<forall>k<length pt. p_parent (pt ! k) = Some i \<longrightarrow> p_state (pt ! k) \<noteq> ZOMBIE)) \<and>
     (\<forall>k. init = Some k \<longrightarrow> k < length pt \<and> p_parent (pt ! k) = None \<and> alive (pt ! k)) \<and>
     (\<forall>k<length pt. \<forall>i. p_parent (pt ! k) = Some i \<longrightarrow> i < length pt \<and> alive (pt ! i))"

abbreviation (input) fam :: "'z kst_scheme \<Rightarrow> bool" where
  "fam s \<equiv> family (ptable s) (initproc s)"

lemma familyD:
  assumes "family pt init"
  shows "j < length pt \<Longrightarrow> p_state (pt ! j) = UNUSED \<Longrightarrow> p_parent (pt ! j) = None"
    "j < length pt \<Longrightarrow> p_parent (pt ! j) \<noteq> Some j"
    "j < length pt \<Longrightarrow> p_state (pt ! j) = SLEEPING \<Longrightarrow> p_chan (pt ! j) = Some (ChProc i) \<Longrightarrow> i = j"
    "waiting pt i \<Longrightarrow> \<exists>k<length pt. p_parent (pt ! k) = Some i"
    "waiting pt i \<Longrightarrow> k < length pt \<Longrightarrow> p_parent (pt ! k) = Some i \<Longrightarrow> p_state (pt ! k) \<noteq> ZOMBIE"
    "init = Some k \<Longrightarrow> k < length pt \<and> p_parent (pt ! k) = None \<and> alive (pt ! k)"
    "k < length pt \<Longrightarrow> p_parent (pt ! k) = Some i \<Longrightarrow> i < length pt \<and> alive (pt ! i)"
  using assms unfolding family_def by blast+

lemma familyI:
  assumes "\<And>j. j < length pt \<Longrightarrow> p_state (pt ! j) = UNUSED \<Longrightarrow> p_parent (pt ! j) = None"
    "\<And>j. j < length pt \<Longrightarrow> p_parent (pt ! j) \<noteq> Some j"
    "\<And>j i. j < length pt \<Longrightarrow> p_state (pt ! j) = SLEEPING \<Longrightarrow> p_chan (pt ! j) = Some (ChProc i) \<Longrightarrow> i = j"
    "\<And>i. waiting pt i \<Longrightarrow> \<exists>k<length pt. p_parent (pt ! k) = Some i"
    "\<And>i k. waiting pt i \<Longrightarrow> k < length pt \<Longrightarrow> p_parent (pt ! k) = Some i \<Longrightarrow> p_state (pt ! k) \<noteq> ZOMBIE"
    "\<And>k. init = Some k \<Longrightarrow> k < length pt \<and> p_parent (pt ! k) = None \<and> alive (pt ! k)"
    "\<And>k i. k < length pt \<Longrightarrow> p_parent (pt ! k) = Some i \<Longrightarrow> i < length pt \<and> alive (pt ! i)"
  shows "family pt init"
  using assms unfolding family_def by blast

text \<open>Changing one slot of the table.\<close>

lemma waiting_update:
  assumes "j < length pt"
  shows "waiting (pt[j := q]) i \<longleftrightarrow> (if i = j then p_state q = SLEEPING \<and> p_chan q = Some (ChProc i) else waiting pt i)"
  using assms by (auto simp: waiting_def nth_list_update)

definition has_live_child :: "proc list \<Rightarrow> nat \<Rightarrow> bool" where
  "has_live_child pt i \<longleftrightarrow> (\<exists>k<length pt. p_parent (pt ! k) = Some i) \<and>
     (\<forall>k<length pt. p_parent (pt ! k) = Some i \<longrightarrow> p_state (pt ! k) \<noteq> ZOMBIE)"

lemma family_live: "family pt init \<Longrightarrow> waiting pt i \<Longrightarrow> has_live_child pt i"
  by (simp add: has_live_child_def familyD(4,5))

lemma family_update:
  assumes f: "family pt init" and j: "j < length pt"
    and u: "p_state q = UNUSED \<longrightarrow> p_parent q = None" and p: "p_parent q \<noteq> Some j"
    and s: "\<forall>i. p_state q = SLEEPING \<and> p_chan q = Some (ChProc i) \<longrightarrow> i = j \<and> has_live_child pt j"
    and n: "init = Some j \<longrightarrow> p_parent q = None \<and> alive q"
    and o: "\<forall>w. w \<noteq> j \<and> p_parent (pt ! j) = Some w \<and> waiting pt w \<longrightarrow> p_parent q = Some w"
    and z: "\<forall>w. p_parent q = Some w \<and> p_state q = ZOMBIE \<longrightarrow> \<not> waiting pt w"
    and a: "\<not> alive q \<longrightarrow> (\<forall>k<length pt. k \<noteq> j \<longrightarrow> p_parent (pt ! k) \<noteq> Some j)"
    and b: "\<forall>w. p_parent q = Some w \<longrightarrow> w < length pt \<and> alive (pt ! w)"
  shows "family (pt[j := q]) init"
proof -
  let ?pt = "pt[j := q]"
  have w: "waiting pt i" if "waiting ?pt i" "i \<noteq> j" for i using that by (simp add: waiting_update j)
  have l: "has_live_child pt i" if "waiting ?pt i" for i
    using that s family_live [OF f w] by (cases "i = j") (simp_all add: waiting_update j)
  show ?thesis
  proof (rule familyI)
    fix i assume i: "waiting ?pt i"
    obtain k where k: "k < length pt" "p_parent (pt ! k) = Some i" using l [OF i] by (auto simp: has_live_child_def)
    then have "p_parent (?pt ! k) = Some i" using o w [OF i] j familyD(2) [OF f j] by (cases "k = j") auto
    then show "\<exists>k<length ?pt. p_parent (?pt ! k) = Some i" using k(1) by auto
  next
    fix i k assume i: "waiting ?pt i" and k: "k < length ?pt" "p_parent (?pt ! k) = Some i"
    show "p_state (?pt ! k) \<noteq> ZOMBIE"
      using l [OF i] w [OF i] k z j p by (cases "k = j") (auto simp: has_live_child_def)
  next
    fix k assume "k < length ?pt"
    then have k: "k < length pt" by simp
    show "p_parent (?pt ! k) = None" if "p_state (?pt ! k) = UNUSED" using that u j familyD(1) [OF f k] by (cases "k = j") simp_all
    show "p_parent (?pt ! k) \<noteq> Some k" using p j familyD(2) [OF f k] by (cases "k = j") simp_all
    show "i = k" if "p_state (?pt ! k) = SLEEPING" "p_chan (?pt ! k) = Some (ChProc i)" for i
      using that s j familyD(3) [OF f k, of i] by (cases "k = j") simp_all
  next
    fix k assume k: "init = Some k"
    show "k < length ?pt \<and> p_parent (?pt ! k) = None \<and> alive (?pt ! k)"
      using familyD(6) [OF f k] n k j by (cases "k = j") simp_all
  next
    fix k i assume k: "k < length ?pt" "p_parent (?pt ! k) = Some i"
    have i: "i < length pt \<and> alive (pt ! i)" using k b j familyD(7) [OF f, of k i] by (cases "k = j") auto
    moreover have "alive q" if "i = j" using k a p that by (cases "k = j") auto
    ultimately show "i < length ?pt \<and> alive (?pt ! i)" by (cases "i = j") auto
  qed
qed

lemma family_keep:
  assumes f: "family pt init" and p: "p_parent q = p_parent (pt ! j)" and a: "alive q \<or> p_state q = p_state (pt ! j)"
    and s: "\<And>i. p_state q = SLEEPING \<Longrightarrow> p_chan q = Some (ChProc i) \<Longrightarrow> i = j \<and> has_live_child pt j"
  shows "family (pt[j := q]) init"
proof (cases "j < length pt")
  case True
  have al: "alive q" if "alive (pt ! j)" using a that by (auto simp: alive_def)
  show ?thesis
  proof (rule family_update [OF f True])
    show "p_state q = UNUSED \<longrightarrow> p_parent q = None" using familyD(1) [OF f True] p a by (auto simp: alive_def)
    show "p_parent q \<noteq> Some j" using familyD(2) [OF f True] p by simp
    show "\<forall>i. p_state q = SLEEPING \<and> p_chan q = Some (ChProc i) \<longrightarrow> i = j \<and> has_live_child pt j" using s by blast
    show "init = Some j \<longrightarrow> p_parent q = None \<and> alive q" using familyD(6) [OF f, of j] p al by simp
    show "\<forall>w. p_parent q = Some w \<and> p_state q = ZOMBIE \<longrightarrow> \<not> waiting pt w"
      using familyD(5) [OF f _ True] p a by (metis alive_def)
    show "\<not> alive q \<longrightarrow> (\<forall>k<length pt. k \<noteq> j \<longrightarrow> p_parent (pt ! k) \<noteq> Some j)"
      using familyD(7) [OF f, of _ j] al by blast
    show "\<forall>w. p_parent q = Some w \<longrightarrow> w < length pt \<and> alive (pt ! w)" using familyD(7) [OF f True] p by simp
  qed (simp add: p)
qed (simp add: f list_update_beyond)

text \<open>Waking the sleepers on a channel.\<close>

lemma wake_fields [simp]: "p_parent (wake_proc c p) = p_parent p" "p_chan (wake_proc c p) = p_chan p"
  by (simp_all add: wake_proc_def)

lemma waiting_wake: "waiting (map (wake_proc c) pt) i \<longleftrightarrow> waiting pt i \<and> c \<noteq> ChProc i"
  by (cases "i < length pt") (auto simp: waiting_def wake_proc_def split: if_splits)

lemma alive_wake [simp]: "alive (wake_proc c p) = alive p"
  by (simp add: alive_def wake_proc_def)

lemma family_wake:
  assumes f: "family pt init"
  shows "family (map (wake_proc c) pt) init"
proof -
  let ?pt = "map (wake_proc c) pt"
  have st: "p_state (?pt ! j) = p_state (pt ! j) \<or> p_state (pt ! j) = SLEEPING \<and> p_state (?pt ! j) = RUNNABLE" if "j < length pt" for j
    using that by (simp add: wake_proc_def)
  show ?thesis
  proof (rule familyI)
    fix j assume "j < length ?pt"
    then have j: "j < length pt" by simp
    show "p_parent (?pt ! j) = None" if "p_state (?pt ! j) = UNUSED" using familyD(1) [OF f j] st [OF j] that j by auto
    show "p_parent (?pt ! j) \<noteq> Some j" using familyD(2) [OF f j] j by simp
    show "i = j" if "p_state (?pt ! j) = SLEEPING" "p_chan (?pt ! j) = Some (ChProc i)" for i
      using familyD(3) [OF f j, of i] st [OF j] that j by auto
  next
    fix i assume "waiting ?pt i"
    then have w: "waiting pt i" by (simp add: waiting_wake)
    show "\<exists>k<length ?pt. p_parent (?pt ! k) = Some i" using familyD(4) [OF f w] by auto
  next
    fix i k assume "waiting ?pt i" and that: "k < length ?pt" "p_parent (?pt ! k) = Some i"
    then have w: "waiting pt i" by (simp add: waiting_wake)
    show "p_state (?pt ! k) \<noteq> ZOMBIE"
      using familyD(5) [OF f w, of k] st [of k] that by auto
  next
    fix k assume "init = Some k"
    from familyD(6) [OF f this] show "k < length ?pt \<and> p_parent (?pt ! k) = None \<and> alive (?pt ! k)" by simp
  next
    fix k i assume "k < length ?pt" "p_parent (?pt ! k) = Some i"
    then show "i < length ?pt \<and> alive (?pt ! i)" using familyD(7) [OF f, of k i] by simp
  qed
qed

section \<open>Operations below the process table\<close>

text \<open>
  Nothing below \<open>fork\<close>, \<open>exit\<close> and \<open>wait\<close> breaks the relations of the family: the file,
  inode, log and pipe operations put the process to sleep on channels of their own and wake
  others, and never make a process wait for a child.
\<close>

definition fam_rel :: "'z kst_scheme \<Rightarrow> 'z kst_scheme \<Rightarrow> bool" where
  "fam_rel s t \<longleftrightarrow> (fam s \<longrightarrow> fam t) \<and> cur t = cur s \<and> initproc t = initproc s \<and> length (ptable t) = length (ptable s) \<and>
     (\<forall>w. waiting (ptable t) w \<longrightarrow> waiting (ptable s) w)"

lemma fam_rel_set:
  assumes "p_parent q = p_parent (ptable s ! j)" "alive q \<or> p_state q = p_state (ptable s ! j)"
    "\<And>i. p_state q = SLEEPING \<Longrightarrow> p_chan q = Some (ChProc i) \<Longrightarrow> p_state (ptable s ! j) = SLEEPING \<and> p_chan (ptable s ! j) = Some (ChProc i)"
  shows "fam_rel s (s\<lparr>ptable := (ptable s)[j := q]\<rparr>)"
proof (cases "j < length (ptable s)")
  case True
  have "i = j \<and> has_live_child (ptable s) j" if "fam s" "p_state q = SLEEPING" "p_chan q = Some (ChProc i)" for i
    using familyD(3) [OF that(1) True, of i] family_live [OF that(1), of j] assms(3) [OF that(2,3)] True by (auto simp: waiting_def)
  then have "fam s \<Longrightarrow> family ((ptable s)[j := q]) (initproc s)" using family_keep [of "ptable s" "initproc s" q j] assms(1,2) by blast
  moreover have "waiting (ptable s) w" if "waiting ((ptable s)[j := q]) w" for w
    using that assms(3) [of w] True by (cases "w = j") (auto simp: waiting_update, simp add: waiting_def)
  ultimately show ?thesis by (simp add: fam_rel_def)
qed (simp add: fam_rel_def list_update_beyond)

lemma fam_rel_wake: "fam_rel s (s\<lparr>ptable := map (wake_proc c) (ptable s)\<rparr>)"
  by (simp add: fam_rel_def family_wake waiting_wake)

interpretation fam: file_frame "fam_rel :: 'z fls_scheme \<Rightarrow> 'z fls_scheme \<Rightarrow> bool"
proof unfold_locales
  fix s t u :: "'z fls_scheme"
  show "fam_rel s u" if "fam_rel s t" "fam_rel t u" using that by (auto simp: fam_rel_def)
qed (simp_all add: fam_rel_wake, (simp add: fam_rel_def; fail | rule fam_rel_set; simp add: alive_def proc_chan_def)+)

definition same_procs :: "'z mst_scheme \<Rightarrow> 'z mst_scheme \<Rightarrow> bool" where
  "same_procs s t \<longleftrightarrow> ptable t = ptable s \<and> cur t = cur s \<and> initproc t = initproc s"

interpretation sp: mem_frame "same_procs :: 'z mst_scheme \<Rightarrow> 'z mst_scheme \<Rightarrow> bool"
  by unfold_locales (simp_all add: same_procs_def)

text \<open>
  How an operation ends: \<open>wl I Q m s\<close> says that \<open>Q\<close> holds of the result and the state
  when \<open>m\<close> returns, and \<open>I\<close> of the state when it stops in any other way.
\<close>

definition wl :: "('s \<Rightarrow> bool) \<Rightarrow> ('a \<Rightarrow> 's \<Rightarrow> bool) \<Rightarrow> ('s, 'a) kop \<Rightarrow> 's \<Rightarrow> bool" where
  "wl I Q m s \<longleftrightarrow> (case m s of Ok x t \<Rightarrow> Q x t | Panic _ t \<Rightarrow> I t | Block _ t \<Rightarrow> I t | Fault _ t \<Rightarrow> I t)"

abbreviation ends :: "('s \<Rightarrow> bool) \<Rightarrow> ('s, 'a) kop \<Rightarrow> 's \<Rightarrow> bool" where
  "ends I \<equiv> wl I (\<lambda>_. I)"

lemma ends_final: "ends I m s \<longleftrightarrow> I (final (m s))"
  by (simp add: wl_def split: outcome.split)

lemma wl_basic: "Q x s \<Longrightarrow> wl I Q (ret x) s" "I s \<Longrightarrow> wl I Q (panic e) s" "I s \<Longrightarrow> wl I Q (fault e) s" "I s \<Longrightarrow> wl I Q (block e) s"
  by (simp_all add: wl_def)

lemma wl_getf: "wl I Q (k (g s)) s \<Longrightarrow> wl I Q (bnd (getf g) k) s"
  by (simp add: wl_def)

lemma wl_upd: "wl I Q k (g s) \<Longrightarrow> wl I Q (seq (upd g) k) s"
  by (simp add: wl_def)

lemma wl_call: "wl I P m s \<Longrightarrow> (\<And>x t. P x t \<Longrightarrow> wl I Q (k x) t) \<Longrightarrow> wl I Q (bnd m k) s"
  by (cases "m s") (simp_all add: wl_def)

lemma wl_if: "(b \<Longrightarrow> wl I Q m s) \<Longrightarrow> (\<not> b \<Longrightarrow> wl I Q k s) \<Longrightarrow> wl I Q (if b then m else k) s"
  by simp

lemma wl_option: "(r = None \<Longrightarrow> wl I Q m s) \<Longrightarrow> (\<And>x. r = Some x \<Longrightarrow> wl I Q (k x) s) \<Longrightarrow> wl I Q (case r of None \<Rightarrow> m | Some x \<Rightarrow> k x) s"
  by (cases r) simp_all

lemma wl_pres:
  assumes "pres R m" "\<And>t. R s t \<Longrightarrow> I t" "\<And>x t. R s t \<Longrightarrow> Q x t"
  shows "wl I Q m s"
  using presD [OF assms(1), of s] assms(2,3) by (cases "m s") (simp_all add: wl_def)

lemma wl_bnd:
  assumes "pres R m" "\<And>t. R s t \<Longrightarrow> I t" "\<And>x t. R s t \<Longrightarrow> wl I Q (k x) t"
  shows "wl I Q (bnd m k) s"
  by (rule wl_call [where P = "\<lambda>x t. R s t"], rule wl_pres [OF assms(1,2)]) (use assms(3) in auto)

lemma wl_seq:
  assumes "pres R m" "\<And>t. R s t \<Longrightarrow> I t" "\<And>t. R s t \<Longrightarrow> wl I Q k t"
  shows "wl I Q (seq m k) s"
  unfolding seq_def by (rule wl_bnd [OF assms])

lemmas sp_seq = wl_seq [where R = same_procs] and sp_bnd = wl_bnd [where R = same_procs]
lemmas fam_seq = wl_seq [where R = fam_rel] and fam_bnd = wl_bnd [where R = fam_rel]

lemma pres_set_keep:
  assumes "\<And>q. p_parent (g q) = p_parent q \<and> p_chan (g q) = p_chan q \<and> (p_state (g q) = p_state q \<or> p_state (g q) = RUNNABLE)"
  shows "pres fam_rel (set_proc i g :: ('z fls_scheme, unit) kop)"
  unfolding set_proc_def
proof (rule fam.pres_upd)
  fix s :: "'z fls_scheme"
  show "fam_rel s (s\<lparr>ptable := (ptable s)[i := g (ptable s ! i)]\<rparr>)"
    using assms [of "ptable s ! i"] by (intro fam_rel_set) (auto simp: alive_def)
qed

lemma pres_getp [pres_intro]: "pres fam_rel (getp i :: ('z fls_scheme, proc) kop)" "pres fam_rel (curproc :: ('z fls_scheme, nat) kop)"
  by (auto intro!: fam.pres_basic fam.pres_bnd fam.pres_option simp: getp_def curproc_def myproc_def)

lemma cur_ends: "cur s = Some c \<Longrightarrow> wl I Q (k c) s \<Longrightarrow> wl I Q (bnd curproc k) s"
  by (simp add: wl_def curproc_def myproc_def)

section \<open>Wait, kill and yield\<close>

definition live :: "nat \<Rightarrow> 'z kst_scheme \<Rightarrow> bool" where
  "live c s \<longleftrightarrow> fam s \<and> cur s = Some c \<and> c < length (ptable s) \<and> alive (ptable s ! c) \<and> \<not> waiting (ptable s) c"

lemma fam_kill: "fam s \<Longrightarrow> ends fam (kill pid) s"
  for s :: "'z pst_scheme"
proof (rule wl_pres)
  show "pres fam_rel (kill pid :: ('z pst_scheme, int) kop)"
    unfolding kill_def by (intro fam.pres_seq fam.pres_bnd fam.pres_option fam.pres_lock fam.pres_basic pres_set_keep) simp
qed (auto simp: fam_rel_def)

lemma fam_yield: "fam s \<Longrightarrow> ends fam yield s"
  for s :: "'z pst_scheme"
proof (rule wl_pres)
  show "pres fam_rel (yield :: ('z pst_scheme, unit) kop)"
    unfolding yield_def by (intro fam.pres_seq fam.pres_bnd fam.pres_option fam.pres_lock fam.pres_sched fam.pres_basic pres_set_keep pres_getp) simp
qed (auto simp: fam_rel_def)

lemma family_reap:
  assumes f: "family pt init" and j: "j < length pt" and z: "p_state (pt ! j) = ZOMBIE"
    and q: "p_parent q = None" "p_state q = UNUSED" and c: "p_parent (pt ! j) = Some c" "\<not> waiting pt c"
  shows "family (pt[j := q]) init"
proof (rule family_update [OF f j])
  have "\<not> alive (pt ! j)" using z by (simp add: alive_def)
  then show "init = Some j \<longrightarrow> p_parent q = None \<and> alive q"
    and "\<not> alive q \<longrightarrow> (\<forall>k<length pt. k \<noteq> j \<longrightarrow> p_parent (pt ! k) \<noteq> Some j)"
    using familyD(6) [OF f, of j] familyD(7) [OF f, of _ j] by blast+
qed (use q c in simp_all)

lemma family_sleep:
  assumes "family pt init" "alive (pt ! c)" "has_live_child pt c"
  shows "family (pt[c := (pt ! c)\<lparr>p_chan := Some (ChProc c), p_state := SLEEPING\<rparr>]) init"
  by (rule family_keep) (use assms in \<open>simp_all add: alive_def\<close>)

lemma fam_sleep_child:
  fixes s :: "'z pst_scheme"
  assumes "live c s" "has_live_child (ptable s) c"
  shows "ends fam (seq (sleep (ChProc c) LPtable) (block ''wait'') :: ('z pst_scheme, int) kop) s"
proof -
  let ?t = "s\<lparr>ptable := (ptable s)[c := (ptable s ! c)\<lparr>p_chan := Some (ChProc c), p_state := SLEEPING\<rparr>]\<rparr>"
  have "fam ?t" using family_sleep [of "ptable s"] assms by (simp add: live_def)
  moreover have "sleep_enter (ChProc c) LPtable s = Ok () ?t" using assms(1) by (simp add: sleep_enter_def myproc_def live_def set_proc_def)
  moreover have "pres fam_rel (seq (seq sched (sleep_leave LPtable)) (block ''wait'') :: ('z pst_scheme, int) kop)"
    by (intro fam.pres_seq fam.pres_sched fam.pres_sleep fam.pres_basic)
  ultimately have "ends fam (seq (seq sched (sleep_leave LPtable)) (block ''wait'') :: ('z pst_scheme, int) kop) ?t"
    by (intro wl_pres [where R = fam_rel]) (auto simp: fam_rel_def)
  then show ?thesis using \<open>sleep_enter _ _ s = _\<close> by (simp add: ends_final sleep_def)
qed

lemma fam_reap:
  fixes s :: "'z pst_scheme"
  assumes "fam s" "i < length (ptable s)" "p_state (ptable s ! i) = ZOMBIE" "p_parent (ptable s ! i) = Some c" "\<not> waiting (ptable s) c"
  shows "ends fam (seq (set_proc i (\<lambda>p. p\<lparr>p_kstack := 0\<rparr>)) (seq (freevm d)
     (seq (set_proc i (\<lambda>p. p\<lparr>p_pid := 0, p_parent := None, p_name := (p_name p)[0 := 0], p_killed := False, p_state := UNUSED\<rparr>))
     (seq (unlock LPtable) (ret (x :: int)))))) s"
  unfolding set_proc_def
proof (intro wl_upd sp_seq sp.pres_kalloc sp.pres_lock sp.pres_freevm wl_basic)
  let ?s = "s\<lparr>ptable := (ptable s)[i := (ptable s ! i)\<lparr>p_kstack := 0\<rparr>]\<rparr>"
  have f: "fam ?s" using fam_rel_set [of "(ptable s ! i)\<lparr>p_kstack := 0\<rparr>" s i] assms(1) by (simp add: fam_rel_def)
  have w: "\<not> waiting (ptable ?s) c" using assms(2,3,5) by (simp add: waiting_update)
  fix t assume t: "same_procs ?s t"
  show "fam t" using f t by (simp add: same_procs_def)
  fix u assume "same_procs (t\<lparr>ptable := (ptable t)[i := (ptable t ! i)\<lparr>p_pid := 0, p_parent := None,
     p_name := (p_name (ptable t ! i))[0 := 0], p_killed := False, p_state := UNUSED\<rparr>]\<rparr>) u"
  then show "fam u" "fam u" using family_reap [OF f, of i _ c] w t assms by (simp_all add: same_procs_def)
qed

lemma fam_wait:
  fixes s :: "'z pst_scheme"
  assumes l: "live c s"
  shows "ends fam wait s"
proof -
  have c: "cur s = Some c" using l by (simp add: live_def)
  show ?thesis
    unfolding wait_def getp_def
  proof (rule cur_ends [OF c], rule sp_seq [OF sp.pres_lock(1)], goal_cases)
    case (1 t)
    then show ?case using l by (simp add: same_procs_def live_def)
  next
    case (2 t)
    then have lt: "live c t" using l by (simp add: same_procs_def live_def)
    then have f: "fam t" by (simp add: live_def)
    show ?case
    proof (rule wl_getf, rule wl_option, goal_cases)
      case 1
      then have "has_live_child (ptable t) c" if "\<exists>p\<in>set (ptable t). p_parent p = Some c"
        using that by (auto simp: has_live_child_def find_index_None in_set_conv_nth)
      then show ?case
        by (intro wl_getf wl_if sp_seq sp.pres_lock wl_basic fam_sleep_child [OF lt]) (use f in \<open>auto simp: same_procs_def\<close>)
    next
      case (2 i)
      then have "i < length (ptable t)" "p_state (ptable t ! i) = ZOMBIE" "p_parent (ptable t ! i) = Some c" by (auto simp: find_index_Some)
      then show ?case
        by (intro wl_getf sp_seq [where m = "kfree _"] sp.pres_kalloc fam_reap [of _ i c]) (use f lt in \<open>simp_all add: same_procs_def live_def\<close>)
    qed
  qed
qed

section \<open>Exit\<close>

definition wake_kids :: "nat option \<Rightarrow> proc list \<Rightarrow> proc list" where
  "wake_kids w pt = (case w of None \<Rightarrow> pt | Some k \<Rightarrow> map (wake_proc (ChProc k)) pt)"

lemma wake_parent_run: "wake_parent w s = Ok () (s\<lparr>ptable := wake_kids w (ptable s)\<rparr>)"
  by (cases w) (simp_all add: wake_parent_def wakeup1_def wake_kids_def)

lemma wake_kids_facts [simp]:
  "length (wake_kids w pt) = length pt" "k < length pt \<Longrightarrow> p_parent (wake_kids w pt ! k) = p_parent (pt ! k)"
  "family pt init \<Longrightarrow> family (wake_kids w pt) init" "waiting (wake_kids w pt) i \<longleftrightarrow> waiting pt i \<and> w \<noteq> Some i"
  by (cases w; auto simp: wake_kids_def family_wake waiting_wake)+

lemma wake_kids_update:
  "p_state q = ZOMBIE \<Longrightarrow> wake_kids w (pt[i := q]) = (wake_kids w pt)[i := q]"
  by (cases w) (simp_all add: wake_kids_def map_update wake_proc_def)

lemma family_adopt:
  assumes f: "family pt init" and i: "i < length pt" "p_parent (pt ! i) = Some c" and c: "\<not> waiting pt c"
    and q: "q = (pt ! i)\<lparr>p_parent := init\<rparr>" and z: "p_state q = ZOMBIE \<Longrightarrow> \<forall>w. init = Some w \<longrightarrow> \<not> waiting pt w"
  shows "family (pt[i := q]) init"
proof (rule family_update [OF f i(1)])
  have n: "init \<noteq> Some i" using familyD(6) [OF f, of i] i(2) by auto
  then show "p_parent q \<noteq> Some i" "init = Some i \<longrightarrow> p_parent q = None \<and> alive q" using q by simp_all
  show "p_state q = UNUSED \<longrightarrow> p_parent q = None" using familyD(1) [OF f i(1)] i(2) q by auto
  show "\<forall>j. p_state q = SLEEPING \<and> p_chan q = Some (ChProc j) \<longrightarrow> j = i \<and> has_live_child pt i"
    using familyD(3) [OF f i(1)] family_live [OF f, of i] i(1) q by (auto simp: waiting_def)
  show "\<forall>w. w \<noteq> i \<and> p_parent (pt ! i) = Some w \<and> waiting pt w \<longrightarrow> p_parent q = Some w" using i(2) c by simp
  show "\<forall>w. p_parent q = Some w \<and> p_state q = ZOMBIE \<longrightarrow> \<not> waiting pt w" using q z by simp
  show "\<not> alive q \<longrightarrow> (\<forall>k<length pt. k \<noteq> i \<longrightarrow> p_parent (pt ! k) \<noteq> Some i)"
    using familyD(7) [OF f, of _ i] q by (auto simp: alive_def)
  show "\<forall>w. p_parent q = Some w \<longrightarrow> w < length pt \<and> alive (pt ! w)" using familyD(6) [OF f] q by simp
qed

text \<open>What the loop over the table keeps: only children of the exiting process change.\<close>

definition adopted :: "nat \<Rightarrow> 'z kst_scheme \<Rightarrow> 'z kst_scheme \<Rightarrow> bool" where
  "adopted c s t \<longleftrightarrow> fam t \<and> initproc t = initproc s \<and> length (ptable t) = length (ptable s) \<and>
     (\<forall>w. waiting (ptable t) w \<longrightarrow> waiting (ptable s) w) \<and>
     (\<forall>k<length (ptable s). p_parent (ptable s ! k) \<noteq> Some c \<longrightarrow> p_parent (ptable t ! k) = p_parent (ptable s ! k))"

lemma adopt_run:
  assumes f: "fam s" and init: "initproc s \<noteq> Some c" and c: "\<not> waiting (ptable s) c" and i: "i < length (ptable s)"
  shows "\<exists>t. adopt c (initproc s) i s = Ok () t \<and> adopted c s t \<and> p_parent (ptable t ! i) \<noteq> Some c"
proof (cases "p_parent (ptable s ! i) = Some c")
  case p: True
  let ?q = "(ptable s ! i)\<lparr>p_parent := initproc s\<rparr>"
  let ?pt = "if p_state (ptable s ! i) = ZOMBIE then wake_kids (initproc s) (ptable s) else ptable s"
  have "family (?pt[i := ?q]) (initproc s)"
  proof (cases "p_state (ptable s ! i) = ZOMBIE")
    case True
    then have "wake_kids (initproc s) (ptable s) ! i = ptable s ! i" using i by (simp add: wake_kids_def wake_proc_def split: option.split)
    then show ?thesis using family_adopt [of "wake_kids (initproc s) (ptable s)" "initproc s" i c ?q] f p c i True by simp
  qed (use family_adopt [OF f i p c refl] in simp)
  moreover have "adopt c (initproc s) i s = Ok () (s\<lparr>ptable := ?pt[i := ?q]\<rparr>)"
    using p by (simp add: adopt_def getp_def set_proc_def wake_parent_run wake_kids_update)
  moreover have "waiting (ptable s) w" if "waiting (?pt[i := ?q]) w" for w
    using that i by (cases "w = i") (auto simp: waiting_update split: if_splits, auto simp: waiting_def)
  ultimately show ?thesis using i p init by (auto simp: adopted_def nth_list_update)
qed (use f in \<open>simp add: adopt_def getp_def adopted_def\<close>)

lemma adopt_loop:
  assumes "fam s" "initproc s \<noteq> Some c" "\<not> waiting (ptable s) c" "\<forall>i\<in>set ks. i < length (ptable s)"
  shows "\<exists>t. for_each ks (adopt c (initproc s)) s = Ok () t \<and> adopted c s t \<and> (\<forall>i\<in>set ks. p_parent (ptable t ! i) \<noteq> Some c)"
  using assms
proof (induction ks arbitrary: s)
  case Nil
  then show ?case by (simp add: adopted_def)
next
  case (Cons i ks)
  obtain u where u: "adopt c (initproc s) i s = Ok () u" "adopted c s u" "p_parent (ptable u ! i) \<noteq> Some c"
    using adopt_run [OF Cons.prems(1-3)] Cons.prems(4) by auto
  have a: "initproc u = initproc s" "length (ptable u) = length (ptable s)" "fam u" "\<not> waiting (ptable u) c" using u(2) Cons.prems(3) by (auto simp: adopted_def)
  then obtain t where t: "for_each ks (adopt c (initproc s)) u = Ok () t" "adopted c u t" "\<forall>i\<in>set ks. p_parent (ptable t ! i) \<noteq> Some c"
    using Cons.IH [of u] Cons.prems(2,4) by auto
  have "p_parent (ptable t ! i) \<noteq> Some c" using u(3) t(2) Cons.prems(4) a by (auto simp: adopted_def)
  moreover have "adopted c s t" using u(2) t(2) by (auto simp: adopted_def)
  ultimately show ?case using u(1) t by auto
qed

lemma family_zombie:
  assumes f: "family pt init" and c: "c < length pt" "init \<noteq> Some c" "\<forall>k<length pt. p_parent (pt ! k) \<noteq> Some c"
    and w: "\<forall>w. p_parent (pt ! c) = Some w \<longrightarrow> \<not> waiting pt w"
  shows "family (pt[c := (pt ! c)\<lparr>p_state := ZOMBIE\<rparr>]) init"
  by (rule family_update [OF f c(1)]) (use c w familyD(7) [OF f c(1)] in auto)

lemma fam_exit_zombie:
  fixes s :: "'z pst_scheme"
  assumes f: "fam s" and c: "c < length (ptable s)" "initproc s \<noteq> Some c" "\<not> waiting (ptable s) c"
  shows "ends fam (exit_zombie c (initproc s)) s"
  unfolding exit_zombie_def
proof (rule sp_seq [OF sp.pres_lock(1)])
  fix u :: "'z pst_scheme" assume u: "same_procs s u"
  show "fam u" using f u by (simp add: same_procs_def)
  let ?v = "u\<lparr>ptable := wake_kids (p_parent (ptable u ! c)) (ptable u)\<rparr>"
  have v: "fam ?v" "initproc ?v = initproc s" "\<not> waiting (ptable ?v) c" "length (ptable ?v) = length (ptable s)"
    using f c u by (simp_all add: same_procs_def)
  obtain t where t: "for_each [0..<length (ptable s)] (adopt c (initproc s)) ?v = Ok () t" "adopted c ?v t"
      "\<forall>i\<in>set [0..<length (ptable s)]. p_parent (ptable t ! i) \<noteq> Some c"
    using adopt_loop [OF v(1) _ v(3), of "[0..<length (ptable s)]"] v(2,4) c(2) by auto
  have p: "p_parent (ptable t ! c) = p_parent (ptable u ! c)" "initproc t = initproc s" "length (ptable t) = length (ptable s)"
    using t(2) familyD(2) [OF \<open>fam u\<close>, of c] c(1) u by (auto simp: adopted_def same_procs_def)
  have ft: "fam t" and w: "\<forall>w. p_parent (ptable t ! c) = Some w \<longrightarrow> \<not> waiting (ptable t) w"
    using t(2) p(1) by (auto simp: adopted_def)
  have "fam (t\<lparr>ptable := (ptable t)[c := (ptable t ! c)\<lparr>p_state := ZOMBIE\<rparr>]\<rparr>)"
    using family_zombie [OF ft _ _ _ w] t(3) c p by simp
  moreover have "pres fam_rel (seq sched (panic ''zombie exit'') :: ('z pst_scheme, unit) kop)"
    by (intro fam.pres_seq fam.pres_sched fam.pres_basic)
  ultimately have "ends fam (seq sched (panic ''zombie exit'') :: ('z pst_scheme, unit) kop) (t\<lparr>ptable := (ptable t)[c := (ptable t ! c)\<lparr>p_state := ZOMBIE\<rparr>]\<rparr>)"
    by (intro wl_pres [where R = fam_rel]) (auto simp: fam_rel_def)
  then show "ends fam (bnd (getp c) (\<lambda>p. seq (wake_parent (p_parent p)) (bnd (getf (\<lambda>s. length (ptable s))) (\<lambda>n.
      seq (for_each [0..<n] (adopt c (initproc s))) (seq (set_proc c (\<lambda>p. p\<lparr>p_state := ZOMBIE\<rparr>)) (seq sched (panic ''zombie exit''))))))
        :: ('z pst_scheme, unit) kop) u"
    using t(1) u by (simp add: ends_final getp_def wake_parent_run set_proc_def same_procs_def)
qed

lemma fam_chain:
  fixes s t :: "'z pst_scheme"
  assumes "fam s" "fam_rel s t" "pres fam_rel m" "\<And>u. fam_rel s u \<Longrightarrow> ends fam k u"
  shows "ends fam (seq m k) t"
proof (rule fam_seq [OF assms(3)])
  fix u assume "fam_rel t u"
  then have "fam_rel s u" using assms(2) by (rule fam.R_trans [rotated])
  then show "fam u" "ends fam k u" using assms(1,4) by (auto simp: fam_rel_def)
qed

lemma fam_exit:
  fixes s :: "'z pst_scheme"
  assumes l: "live c s"
  shows "ends fam exit s"
proof (cases "initproc s = Some c")
  case True
  then show ?thesis using l by (simp add: exit_def ends_final live_def curproc_def myproc_def)
next
  case False
  have f: "fam s" and c: "cur s = Some c" using l by (simp_all add: live_def)
  have z: "ends fam (exit_zombie c (initproc s)) t" if "fam_rel s t" for t :: "'z pst_scheme"
  proof -
    have "fam t" "c < length (ptable t)" "initproc t = initproc s" "\<not> waiting (ptable t) c"
      using that l by (auto simp: live_def fam_rel_def)
    then show ?thesis using fam_exit_zombie [of t c] False by simp
  qed
  have p: "pres fam_rel (set_proc c (\<lambda>p. p\<lparr>p_ofile := (p_ofile p)[fd := None]\<rparr>) :: ('z pst_scheme, unit) kop)"
    "pres fam_rel (set_proc c (\<lambda>p. p\<lparr>p_cwd := None\<rparr>) :: ('z pst_scheme, unit) kop)" for fd
    by (rule pres_set_keep; simp)+
  show ?thesis
    unfolding exit_def getp_def
    by (rule cur_ends [OF c], rule wl_getf, (rule fam_chain [OF f] wl_getf z fam.R_refl | assumption | intro pres_intro p)+)
qed

section \<open>Fork\<close>

text \<open>The slot that \<open>allocproc\<close> took, until the new process gets its parent.\<close>

definition young :: "nat \<Rightarrow> nat \<Rightarrow> 'z kst_scheme \<Rightarrow> bool" where
  "young c np s \<longleftrightarrow> fam s \<and> c < length (ptable s) \<and> alive (ptable s ! c) \<and> np < length (ptable s) \<and> np \<noteq> c \<and> initproc s \<noteq> Some np \<and>
     p_state (ptable s ! np) = EMBRYO \<and> p_parent (ptable s ! np) = None \<and> (\<forall>k<length (ptable s). p_parent (ptable s ! k) \<noteq> Some np)"

lemma young_set:
  assumes y: "young c np s" and q: "p_state q = EMBRYO" "p_parent q = None"
  shows "young c np (s\<lparr>ptable := (ptable s)[np := q]\<rparr>)"
proof -
  have "family ((ptable s)[np := q]) (initproc s)"
    by (rule family_keep) (use y q in \<open>simp_all add: young_def alive_def\<close>)
  then show ?thesis using y q by (auto simp: young_def nth_list_update)
qed

lemma young_start:
  assumes l: "live c s" and i: "find_index (\<lambda>p. p_state p = UNUSED) (ptable s) = Some i" and q: "p_state q = EMBRYO" "p_parent q = p_parent (ptable s ! i)"
  shows "young c i (s\<lparr>ptable := (ptable s)[i := q]\<rparr>)"
proof -
  have u: "i < length (ptable s)" "p_state (ptable s ! i) = UNUSED" "\<not> alive (ptable s ! i)" using i by (auto simp: find_index_Some alive_def)
  have f: "fam s" using l by (simp add: live_def)
  have "family ((ptable s)[i := q]) (initproc s)" by (rule family_keep [OF f]) (use q in \<open>simp_all add: alive_def\<close>)
  moreover have "i \<noteq> c" "initproc s \<noteq> Some i" "p_parent (ptable s ! i) = None" "\<forall>k<length (ptable s). p_parent (ptable s ! k) \<noteq> Some i"
    using l u familyD(6) [OF f, of i] familyD(7) [OF f, of _ i] familyD(1) [OF f u(1,2)] by (auto simp: live_def)
  ultimately show ?thesis using l u(1) q by (auto simp: young_def live_def nth_list_update)
qed

lemma young_drop:
  assumes y: "young c np s" and q: "p_state q = UNUSED" "p_parent q = None"
  shows "fam (s\<lparr>ptable := (ptable s)[np := q]\<rparr>)"
  using family_update [of "ptable s" "initproc s" np q] y q by (auto simp: young_def)

lemma young_child:
  assumes y: "young c np s" and q: "p_state q = EMBRYO" "p_parent q = Some c"
  shows "fam (s\<lparr>ptable := (ptable s)[np := q]\<rparr>)"
  using family_update [of "ptable s" "initproc s" np q] y q by (auto simp: young_def alive_def)

definition young_rel :: "nat \<Rightarrow> nat \<Rightarrow> 'z kst_scheme \<Rightarrow> 'z kst_scheme \<Rightarrow> bool" where
  "young_rel c np s t \<longleftrightarrow> (young c np s \<longrightarrow> young c np t)"

interpretation yr: mem_frame "young_rel c np :: 'z mst_scheme \<Rightarrow> 'z mst_scheme \<Rightarrow> bool" for c np
  by unfold_locales (simp_all add: young_rel_def young_def)

lemma pres_young_set:
  assumes "\<And>q. p_state (g q) = p_state q \<and> p_parent (g q) = p_parent q"
  shows "pres (young_rel c np) (set_proc np g :: ('z mst_scheme, unit) kop)"
proof -
  have "young_rel c np s (s\<lparr>ptable := (ptable s)[np := g (ptable s ! np)]\<rparr>)" for s :: "'z mst_scheme"
    using young_set [of c np s "g (ptable s ! np)"] assms [of "ptable s ! np"] by (auto simp: young_rel_def young_def)
  then show ?thesis unfolding set_proc_def by (rule yr.pres_upd)
qed

lemma young_bnd:
  assumes "young c np s" "pres (young_rel c np) m" "\<And>x t. young c np t \<Longrightarrow> wl fam Q (k x) t"
  shows "wl fam Q (bnd m k) s"
  by (rule wl_bnd [OF assms(2)]) (use assms(1,3) in \<open>auto simp: young_rel_def young_def\<close>)

lemma young_seq:
  assumes "young c np s" "pres (young_rel c np) m" "\<And>t. young c np t \<Longrightarrow> wl fam Q k t"
  shows "wl fam Q (seq m k) s"
  unfolding seq_def by (rule young_bnd [OF assms])

lemma young_unset:
  assumes "young c np s" "\<And>q. p_state (g q) = UNUSED \<and> p_parent (g q) = p_parent q" "\<And>t. fam t \<Longrightarrow> Q x t"
  shows "wl fam Q (seq (set_proc np g) (ret x)) s"
  unfolding set_proc_def
proof (intro wl_upd wl_basic assms(3))
  show "fam (s\<lparr>ptable := (ptable s)[np := g (ptable s ! np)]\<rparr>)"
    by (rule young_drop [OF assms(1)]) (use assms(1,2) in \<open>simp_all add: young_def\<close>)
qed

lemma alloc_start:
  assumes "live c s" "find_index (\<lambda>p. p_state p = UNUSED) (ptable s) = Some i" "\<And>t. young c i t \<Longrightarrow> wl fam Q k t"
  shows "wl fam Q (seq (set_proc i (\<lambda>p. p\<lparr>p_state := EMBRYO, p_pid := pid\<rparr>)) k) s"
  unfolding set_proc_def by (intro wl_upd assms(3) young_start [OF assms(1,2)]) simp_all

definition made :: "nat \<Rightarrow> nat option \<Rightarrow> 'z kst_scheme \<Rightarrow> bool" where
  "made c r t \<longleftrightarrow> (case r of None \<Rightarrow> fam t | Some np \<Rightarrow> young c np t)"

lemma fam_allocproc:
  fixes s :: "'z pst_scheme"
  assumes l: "live c s"
  shows "wl fam (made c) allocproc s"
  unfolding allocproc_def
proof (rule sp_seq [OF sp.pres_lock(1)], goal_cases)
  case (1 t)
  then show ?case using l by (simp add: same_procs_def live_def)
next
  case (2 t)
  then have lt: "live c t" using l by (simp add: same_procs_def live_def)
  have n: "pres (young_rel c i) (upd (\<lambda>s. s\<lparr>nextpid := n\<rparr>) :: ('z pst_scheme, unit) kop)" for i n
    by (rule yr.pres_upd) (simp add: young_rel_def young_def)
  show ?case
  proof (rule wl_getf, rule wl_option, goal_cases)
    case 1
    show ?case by (rule sp_seq [OF sp.pres_lock(2)]) (use lt in \<open>auto intro!: wl_basic simp: same_procs_def live_def made_def\<close>)
  next
    case (2 i)
    show ?case
      by (rule wl_getf, rule alloc_start [OF lt 2])
        (rule wl_getf wl_if young_unset [where x = None] young_seq young_bnd n pres_intro pres_young_set | assumption | simp add: made_def wl_basic)+
  qed
qed

lemma young_parent:
  fixes s :: "'z pst_scheme"
  assumes "young c np s" "\<And>q. p_state (g q) = p_state q \<and> p_parent (g q) = Some c" "pres fam_rel k"
  shows "ends fam (seq (set_proc np g) k) s"
  unfolding set_proc_def
proof (intro wl_upd wl_pres [OF assms(3)])
  have "fam (s\<lparr>ptable := (ptable s)[np := g (ptable s ! np)]\<rparr>)"
    by (rule young_child [OF assms(1)]) (use assms(1,2) in \<open>simp_all add: young_def\<close>)
  then show "fam t" "fam t" if "fam_rel (s\<lparr>ptable := (ptable s)[np := g (ptable s ! np)]\<rparr>) t" for t
    using that by (auto simp: fam_rel_def)
qed

lemma fam_fork:
  fixes s :: "'z pst_scheme"
  assumes l: "live c s"
  shows "ends fam fork s"
proof -
  have c: "cur s = Some c" using l by (simp add: live_def)
  show ?thesis
    unfolding fork_def
  proof (rule cur_ends [OF c], rule wl_call [OF fam_allocproc [OF l]], goal_cases)
    case (1 r t)
    show ?case
    proof (rule wl_option, goal_cases)
      case 1
      then show ?case using \<open>made c r t\<close> by (simp add: made_def wl_basic)
    next
      case (2 np)
      then have y: "young c np t" using \<open>made c r t\<close> by (simp add: made_def)
      show ?case
        unfolding getp_def
        by (rule wl_getf, rule young_bnd [OF y])
          (rule wl_getf wl_if young_unset [where x = "-1"] young_parent pres_set_keep young_seq young_bnd pres_intro pres_young_set
            | assumption | simp add: set_name_def)+
    qed
  qed
qed

section \<open>All processes together\<close>

text \<open>
  Any process that is not asleep makes a call and runs until the call returns or sleeps.
  \<open>KRest\<close> is what is left of an \<open>exit\<close> that slept while it closed its files;
  \<open>KClose\<close>, \<open>KBegin\<close>, \<open>KPut\<close> and \<open>KEnd\<close> are the calls it may still have to make before.
\<close>

datatype kcall = KFork | KExit | KRest | KWait | KKill int | KYield | KClose nat | KBegin | KPut nat | KEnd

fun call_op :: "nat \<Rightarrow> kcall \<Rightarrow> (pst, unit) kop" where
  "call_op i KFork = bnd fork (\<lambda>_. ret ())"
| "call_op i KExit = exit"
| "call_op i KRest = bnd (getf initproc) (\<lambda>init. if init = Some i then panic ''init exiting'' else exit_zombie i init)"
| "call_op i KWait = bnd wait (\<lambda>_. ret ())"
| "call_op i (KKill pid) = bnd (kill pid) (\<lambda>_. ret ())"
| "call_op i KYield = yield"
| "call_op i (KClose f) = fileclose f"
| "call_op i KBegin = begin_op"
| "call_op i (KPut ip) = iput ip"
| "call_op i KEnd = end_op"

inductive wstep :: "pst \<Rightarrow> pst \<Rightarrow> bool" where
  wcall: "i < length (ptable s) \<Longrightarrow> p_state (ptable s ! i) = RUNNABLE \<or> p_state (ptable s ! i) = RUNNING \<Longrightarrow>
     t = settle (call_op i k (dispatch i s)) \<Longrightarrow> wstep s t"

inductive_cases wstepE: "wstep s t"

text \<open>At the start slot 0 holds \<open>init\<close>; any other process is a runnable child of it.\<close>

definition wstart :: "pst \<Rightarrow> bool" where
  "wstart s \<longleftrightarrow> ptable s \<noteq> [] \<and> initproc s = Some 0 \<and> p_state (ptable s ! 0) = RUNNABLE \<and> p_parent (ptable s ! 0) = None \<and>
     (\<forall>i<length (ptable s). 0 < i \<longrightarrow> p_state (ptable s ! i) = UNUSED \<and> p_parent (ptable s ! i) = None \<or>
        p_state (ptable s ! i) = RUNNABLE \<and> p_parent (ptable s ! i) = Some 0)"

lemma wstart_fam:
  assumes "wstart s"
  shows "fam s"
proof (rule familyI)
  have st: "p_state (ptable s ! i) = RUNNABLE \<or> p_state (ptable s ! i) = UNUSED \<and> p_parent (ptable s ! i) = None"
    and pa: "p_parent (ptable s ! i) = None \<or> p_parent (ptable s ! i) = Some 0 \<and> 0 < i" if "i < length (ptable s)" for i
    using assms that by (cases "i = 0"; auto simp: wstart_def)+
  have nw: "\<not> waiting (ptable s) i" for i using st [of i] by (auto simp: waiting_def)
  show "\<exists>k<length (ptable s). p_parent (ptable s ! k) = Some i" if "waiting (ptable s) i" for i using nw that by blast
  show "p_state (ptable s ! k) \<noteq> ZOMBIE" if "waiting (ptable s) i" for i k using nw that by blast
  show "p_parent (ptable s ! j) = None" if "j < length (ptable s)" "p_state (ptable s ! j) = UNUSED" for j using st [OF that(1)] that by auto
  show "p_parent (ptable s ! j) \<noteq> Some j" if "j < length (ptable s)" for j using pa [OF that] by auto
  show "i = j" if "j < length (ptable s)" "p_state (ptable s ! j) = SLEEPING" for i j using st [OF that(1)] that by auto
  show "k < length (ptable s) \<and> p_parent (ptable s ! k) = None \<and> alive (ptable s ! k)" if "initproc s = Some k" for k
    using assms that by (auto simp: wstart_def alive_def)
  show "i < length (ptable s) \<and> alive (ptable s ! i)" if "k < length (ptable s)" "p_parent (ptable s ! k) = Some i" for k i
    using pa [OF that(1)] that assms by (auto simp: wstart_def alive_def)
qed

lemma live_dispatch:
  assumes "fam s" "i < length (ptable s)"
  shows "live i (dispatch i s)"
proof -
  have "family ((ptable s)[i := (ptable s ! i)\<lparr>p_state := RUNNING, p_chan := None\<rparr>]) (initproc s)"
    by (rule family_keep [OF assms(1)]) (simp_all add: alive_def)
  then show ?thesis using assms(2) by (simp add: live_def dispatch_def alive_def waiting_update)
qed

lemma settle_final: "ptable (settle oc) = ptable (final oc)" "initproc (settle oc) = initproc (final oc)"
  by (cases oc; simp add: settle_def)+

lemma fam_call:
  assumes l: "live i s"
  shows "ends fam (call_op i k) s"
proof -
  have f: "fam s" using l by (simp add: live_def)
  have r: "ends fam m s" if "pres fam_rel m" for m :: "(pst, unit) kop"
    by (rule wl_pres [OF that]) (use f in \<open>auto simp: fam_rel_def\<close>)
  have d: "ends fam (bnd m (\<lambda>_. ret ())) s" if "ends fam m s" for m :: "(pst, int) kop"
    by (rule wl_call [OF that]) (simp add: wl_basic)
  show ?thesis
  proof (cases k)
    case KRest
    then show ?thesis using fam_exit_zombie [OF f] l f by (auto intro!: wl_getf wl_basic simp: live_def)
  qed (simp_all add: d fam_fork [OF l] fam_exit [OF l] fam_wait [OF l] fam_kill [OF f] fam_yield [OF f] r pres_intro)
qed

interpretation wm: machine wstart wstep fam
proof unfold_locales
  fix s t assume f: "fam s" and "wstep s t"
  then obtain i k where "i < length (ptable s)" "t = settle (call_op i k (dispatch i s))" by (elim wstepE)
  then show "fam t" using fam_call [OF live_dispatch [OF f, of i], of k] by (simp add: ends_final settle_final)
qed (rule wstart_fam)

text \<open>
  C30: Under every schedule of \<open>fork\<close>, \<open>exit\<close>, \<open>wait\<close>, \<open>kill\<close> and \<open>yield\<close>, a process
  asleep in \<open>wait\<close> has a child and all its children are alive, so that an exit is still to
  come that wakes it; and the parent of every process is alive, because an exiting process
  hands its children to \<open>init\<close>.
\<close>
theorem wait_wakeup_not_lost:
  assumes "reach wstart wstep s"
  shows "(\<forall>i<length (ptable s). p_state (ptable s ! i) = SLEEPING \<and> p_chan (ptable s ! i) = Some (ChProc i) \<longrightarrow>
       (\<exists>k<length (ptable s). p_parent (ptable s ! k) = Some i) \<and>
       (\<forall>k<length (ptable s). p_parent (ptable s ! k) = Some i \<longrightarrow> alive (ptable s ! k))) \<and>
     (\<forall>k<length (ptable s). \<forall>i. p_parent (ptable s ! k) = Some i \<longrightarrow> i < length (ptable s) \<and> alive (ptable s ! i))"
proof -
  have f: "fam s" by (rule wm.reach_inv [OF assms])
  have "alive (ptable s ! k)" if "waiting (ptable s) i" "k < length (ptable s)" "p_parent (ptable s ! k) = Some i" for i k
    using familyD(1) [OF f that(2)] familyD(5) [OF f that] that(3) by (auto simp: alive_def)
  then show ?thesis using familyD(4) [OF f] familyD(7) [OF f] by (auto simp: waiting_def)
qed

definition demo_family :: pst where
  "demo_family = demo_pst\<lparr>held := [], initproc := Some 0,
     ptable := [zero_proc\<lparr>p_state := RUNNABLE, p_pid := 1\<rparr>, zero_proc\<lparr>p_state := RUNNABLE, p_pid := 2, p_parent := Some 0\<rparr>]\<rparr>"

lemma demo_family_start: "wstart demo_family"
  by (auto simp: wstart_def demo_family_def zero_proc_def less_Suc_eq)

lemma demo_family_wait:
  "\<exists>t. wstep demo_family t \<and> length (ptable t) = 2 \<and> p_state (ptable t ! 0) = SLEEPING \<and> p_chan (ptable t ! 0) = Some (ChProc 0)"
proof -
  have "wstep demo_family (settle (call_op 0 KWait (dispatch 0 demo_family)))"
    by (rule wcall [of 0 _ _ KWait]) (simp_all add: demo_family_def)
  moreover have "\<exists>t. call_op 0 KWait (dispatch 0 demo_family) = Block ''sched'' t \<and> length (ptable t) = 2 \<and>
      p_state (ptable t ! 0) = SLEEPING \<and> p_chan (ptable t ! 0) = Some (ChProc 0)"
    by (simp add: demo_family_def dispatch_def wait_def curproc_def myproc_def lock_def curkilled_def zero_proc_def sleep_def sleep_enter_def
        sched_def sched_checks_def set_proc_def)
  ultimately show ?thesis by (auto simp: settle_def)
qed

theorem wait_wakeup_not_lost_witness:
  "\<exists>s. reach wstart wstep s \<and> p_state (ptable s ! 0) = SLEEPING \<and> p_chan (ptable s ! 0) = Some (ChProc 0) \<and>
     (\<exists>k<length (ptable s). p_parent (ptable s ! k) = Some 0 \<and> alive (ptable s ! k))"
proof -
  obtain t where t: "wstep demo_family t" "length (ptable t) = 2" "p_state (ptable t ! 0) = SLEEPING" "p_chan (ptable t ! 0) = Some (ChProc 0)"
    using demo_family_wait by blast
  have r: "reach wstart wstep t" using reach_start [of wstart demo_family wstep, OF demo_family_start] t(1) by (rule reach_step)
  then show ?thesis using wait_wakeup_not_lost [OF r] t(2-4) by (metis zero_less_numeral)
qed

end
