(* ===== verification/ULib.thy ===== *)
theory ULib
  imports Prelude
begin

text \<open>
  The library of the user programs: \<open>ulib.c\<close> and \<open>printf.c\<close>. A string is the list of its bytes
  before the terminating zero; what a function writes through a pointer is a list as well.
  A number that \<open>printf\<close> prints is read back by \<open>atoi\<close>.
\<close>

section \<open>Strings\<close>

text \<open>\<open>strcpy\<close>: the bytes at the destination afterwards, over what was there.\<close>

fun strcpy :: "byte list \<Rightarrow> byte list \<Rightarrow> byte list" where
  "strcpy s [] = 0 # tl s"
| "strcpy s (b # t) = b # strcpy (tl s) t"

fun strcmp :: "byte list \<Rightarrow> byte list \<Rightarrow> int" where
  "strcmp [] [] = 0"
| "strcmp [] (b # q) = - uint b"
| "strcmp (a # p) [] = uint a"
| "strcmp (a # p) (b # q) = (if a = b then strcmp p q else uint a - uint b)"

fun strlen_user :: "byte list \<Rightarrow> nat" where
  "strlen_user [] = 0"
| "strlen_user (b # s) = (if b = 0 then 0 else Suc (strlen_user s))"

text \<open>\<open>strchr\<close>: the offset of the first occurrence before the terminating zero.\<close>

fun strchr :: "byte list \<Rightarrow> byte \<Rightarrow> nat option" where
  "strchr [] c = None"
| "strchr (b # s) c = (if b = 0 then None else if b = c then Some 0 else map_option Suc (strchr s c))"

text \<open>
  \<open>gets\<close>, on the bytes that \<open>read\<close> delivers one by one: the string it stores and the input
  that is left.
\<close>

fun gets_loop :: "nat \<Rightarrow> nat \<Rightarrow> byte list \<Rightarrow> byte list \<times> byte list" where
  "gets_loop mx i [] = ([], [])"
| "gets_loop mx i (c # inp) =
     (if i + 1 < mx then
        if c = 10 \<or> c = 13 then ([c], inp) else apfst (Cons c) (gets_loop mx (i + 1) inp)
      else ([], c # inp))"

definition gets :: "nat \<Rightarrow> byte list \<Rightarrow> byte list \<times> byte list" where
  "gets mx inp = gets_loop mx 0 inp"

fun atoi_loop :: "u32 \<Rightarrow> byte list \<Rightarrow> u32" where
  "atoi_loop n [] = n"
| "atoi_loop n (b # s) = (if 48 \<le> b \<and> b \<le> 57 then atoi_loop (n * 10 + ucast b - 48) s else n)"

definition atoi :: "byte list \<Rightarrow> u32" where
  "atoi s = atoi_loop 0 s"

text \<open>\<open>memmove\<close> of \<open>ulib.c\<close>, which copies upwards whatever the overlap.\<close>

primrec memmove_user :: "nat \<Rightarrow> nat \<Rightarrow> nat \<Rightarrow> (nat \<Rightarrow> byte) \<Rightarrow> nat \<Rightarrow> byte" where
  "memmove_user dst src 0 mem = mem"
| "memmove_user dst src (Suc n) mem = memmove_user (dst + 1) (src + 1) n (mem(dst := mem src))"

section \<open>Printing\<close>

definition udigit :: "nat \<Rightarrow> byte" where
  "udigit n = (if n < 10 then of_nat (48 + n) else of_nat (55 + n))"

function udigits :: "nat \<Rightarrow> nat \<Rightarrow> byte list" where
  "udigits base x = udigit (x mod base) # (if x div base = 0 \<or> base \<le> 1 then [] else udigits base (x div base))"
  by pat_completeness auto
termination
  by (relation "measure snd") (auto simp: div_eq_0_iff)

declare udigits.simps [simp del]

definition printint_user :: "u32 \<Rightarrow> nat \<Rightarrow> bool \<Rightarrow> byte list" where
  "printint_user xx base sg =
     (let neg = (sg \<and> sint xx < 0); x = (if neg then - xx else xx)
      in rev (udigits base (unat x) @ (if neg then [45] else [])))"

text \<open>
  \<open>printf\<close>: the bytes it writes. The arguments are the words of the stack from \<open>ap\<close> on, and
  \<open>str\<close> gives the string at an address; the flag is the variable \<open>state\<close>.
\<close>

fun printf_loop :: "(u32 \<Rightarrow> byte list) \<Rightarrow> bool \<Rightarrow> byte list \<Rightarrow> (nat \<Rightarrow> u32) \<Rightarrow> byte list" where
  "printf_loop str st [] ap = []"
| "printf_loop str False (c # fmt) ap = (if c = 37 then printf_loop str True fmt ap else c # printf_loop str False fmt ap)"
| "printf_loop str True (c # fmt) ap =
     (if c = 100 then printint_user (ap 0) 10 True @ printf_loop str False fmt (\<lambda>i. ap (Suc i))
      else if c = 120 \<or> c = 112 then printint_user (ap 0) 16 False @ printf_loop str False fmt (\<lambda>i. ap (Suc i))
      else if c = 115 then
        (if ap 0 = 0 then [40, 110, 117, 108, 108, 41] else str (ap 0)) @ printf_loop str False fmt (\<lambda>i. ap (Suc i))
      else if c = 99 then ucast (ap 0) # printf_loop str False fmt (\<lambda>i. ap (Suc i))
      else if c = 37 then c # printf_loop str False fmt ap
      else 37 # c # printf_loop str False fmt ap)"

definition printf :: "(u32 \<Rightarrow> byte list) \<Rightarrow> byte list \<Rightarrow> (nat \<Rightarrow> u32) \<Rightarrow> byte list" where
  "printf str fmt ap = printf_loop str False fmt ap"

section \<open>Lemmas\<close>

lemma strchr_Some: "strchr s c = Some k \<longleftrightarrow> k < length s \<and> s ! k = c \<and> c \<noteq> 0 \<and> (\<forall>j<k. s ! j \<noteq> 0 \<and> s ! j \<noteq> c)"
proof (induction s arbitrary: k)
  case (Cons b s)
  then show ?case by (cases k) (auto simp: All_less_Suc2)
qed simp

lemma strcmp_eq: "0 \<notin> set p \<Longrightarrow> 0 \<notin> set q \<Longrightarrow> strcmp p q = 0 \<longleftrightarrow> p = q"
  by (induction p q rule: strcmp.induct) (auto simp: uint_0_iff dest: unsigned_word_eqI)

lemma udigit_value:
  assumes "d < 10"
  shows "48 \<le> udigit d \<and> udigit d \<le> 57 \<and> (ucast (udigit d) :: u32) = 48 + of_nat d"
proof -
  have u: "udigit d = of_nat (48 + d)" using assms by (simp add: udigit_def)
  have n: "unat (udigit d) = 48 + d" using assms by (simp add: u unsigned_of_nat take_bit_nat_eq_self del: of_nat_add)
  then have "(ucast (udigit d) :: u32) = of_nat (48 + d)" by (metis of_nat_unat)
  then show ?thesis using assms n by (simp add: word_le_nat_alt)
qed

lemma atoi_append:
  "\<forall>b\<in>set s. 48 \<le> b \<and> b \<le> 57 \<Longrightarrow> atoi_loop n (s @ t) = atoi_loop (atoi_loop n s) t"
  by (induction s arbitrary: n) auto

lemma udigits_digits: "\<forall>b\<in>set (udigits 10 x). 48 \<le> b \<and> b \<le> 57"
proof (induction x rule: less_induct)
  case (less x)
  have "\<forall>b\<in>set (udigits 10 (x div 10)). 48 \<le> b \<and> b \<le> 57" if "x div 10 \<noteq> 0"
    by (rule less.IH) (use that in \<open>simp add: div_eq_0_iff\<close>)
  then show ?case using udigit_value [of "x mod 10"] by (simp add: udigits.simps [of 10 x])
qed

lemma atoi_udigits: "atoi (rev (udigits 10 x)) = of_nat x"
proof (induction x rule: less_induct)
  case (less x)
  have d: "x mod 10 < 10" by simp
  show ?case
  proof (cases "x div 10 = 0")
    case True
    then show ?thesis using udigit_value [OF d] by (simp add: udigits.simps [of 10 x] atoi_def)
  next
    case False
    then have "x div 10 < x" by (simp add: div_eq_0_iff)
    note IH = less.IH [OF this]
    have "atoi (rev (udigits 10 x)) = atoi_loop (atoi (rev (udigits 10 (x div 10)))) [udigit (x mod 10)]"
      using False udigits_digits by (simp add: udigits.simps [of 10 x] atoi_def atoi_append)
    also have "\<dots> = of_nat (x div 10) * 10 + of_nat (x mod 10)" using IH udigit_value [OF d] by simp
    also have "\<dots> = of_nat x" by (metis div_mult_mod_eq of_nat_add of_nat_mult of_nat_numeral)
    finally show ?thesis .
  qed
qed

lemma atoi_printint: "0 \<le> sint x \<Longrightarrow> atoi (printint_user x 10 True) = x"
  using atoi_udigits [of "unat x"] by (simp add: printint_user_def)

end
