(* ===== verification/Grep.thy ===== *)
theory Grep
  imports ULib
begin

text \<open>
  \<open>grep.c\<close>: the matcher (\<open>match\<close>, \<open>matchhere\<close>, \<open>matchstar\<close>) and the loop that cuts what it
  reads into lines. A C string is the list of its bytes before the terminating zero. The
  matcher is compared with the language that a pattern denotes.
\<close>

section \<open>The matcher\<close>

fun matchhere :: "byte list \<Rightarrow> byte list \<Rightarrow> bool" and matchstar :: "byte \<Rightarrow> byte list \<Rightarrow> byte list \<Rightarrow> bool" where
  "matchhere re tx =
     (case re of [] \<Rightarrow> True
      | c # re1 \<Rightarrow>
         (case re1 of
            d # re2 \<Rightarrow>
              if d = 42 then matchstar c re2 tx
              else (case tx of [] \<Rightarrow> False | t # ts \<Rightarrow> (c = 46 \<or> c = t) \<and> matchhere re1 ts)
          | [] \<Rightarrow>
              if c = 36 then tx = []
              else (case tx of [] \<Rightarrow> False | t # ts \<Rightarrow> (c = 46 \<or> c = t) \<and> matchhere re1 ts)))"
| "matchstar c re tx =
     (matchhere re tx \<or> (case tx of [] \<Rightarrow> False | t # ts \<Rightarrow> (t = c \<or> c = 46) \<and> matchstar c re ts))"

fun match_from :: "byte list \<Rightarrow> byte list \<Rightarrow> bool" where
  "match_from re tx = (matchhere re tx \<or> (case tx of [] \<Rightarrow> False | _ # ts \<Rightarrow> match_from re ts))"

definition match :: "byte list \<Rightarrow> byte list \<Rightarrow> bool" where
  "match re tx = (if re \<noteq> [] \<and> hd re = 94 then matchhere (tl re) tx else match_from re tx)"

lemmas [simp del] = matchhere.simps matchstar.simps match_from.simps

section \<open>The language of a pattern\<close>

datatype atom = One byte | Star byte

text \<open>
  The atoms of a pattern after a leading \<open>^\<close>, and whether it ends in the anchor \<open>$\<close>.
\<close>

fun atoms :: "byte list \<Rightarrow> atom list \<times> bool" where
  "atoms [] = ([], False)"
| "atoms [c] = (if c = 36 then ([], True) else ([One c], False))"
| "atoms (c # d # re) = (if d = 42 then apfst (Cons (Star c)) (atoms re) else apfst (Cons (One c)) (atoms (d # re)))"

definition accepts :: "byte \<Rightarrow> byte \<Rightarrow> bool" where
  "accepts c b \<longleftrightarrow> c = 46 \<or> c = b"

fun lang :: "atom list \<Rightarrow> byte list set" where
  "lang [] = {[]}"
| "lang (One c # as) = {b # v | b v. accepts c b \<and> v \<in> lang as}"
| "lang (Star c # as) = {u @ v | u v. (\<forall>b\<in>set u. accepts c b) \<and> v \<in> lang as}"

definition caret :: "byte list \<Rightarrow> bool" where
  "caret re \<longleftrightarrow> re \<noteq> [] \<and> hd re = 94"

definition pattern_body :: "byte list \<Rightarrow> byte list" where
  "pattern_body re = (if caret re then tl re else re)"

definition free_end :: "bool \<Rightarrow> byte list set" where
  "free_end anchored = (if anchored then {[]} else UNIV)"

section \<open>The matcher decides the language\<close>

definition here :: "byte list \<Rightarrow> byte list \<Rightarrow> bool" where
  "here re tx \<longleftrightarrow> (\<exists>u v. tx = u @ v \<and> u \<in> lang (fst (atoms re)) \<and> v \<in> free_end (snd (atoms re)))"

lemma here_Nil: "here [] tx"
  by (simp add: here_def free_end_def)

lemma here_dollar: "here [36] tx \<longleftrightarrow> tx = []"
  by (simp add: here_def free_end_def)

lemma here_one:
  assumes "atoms (c # re) = apfst (Cons (One c)) (atoms re)"
  shows "here (c # re) tx \<longleftrightarrow> (case tx of [] \<Rightarrow> False | t # ts \<Rightarrow> accepts c t \<and> here re ts)"
proof (cases tx)
  case (Cons t ts)
  have "(\<exists>u v. t # ts = u @ v \<and> (\<exists>b w. u = b # w \<and> accepts c b \<and> w \<in> L) \<and> v \<in> F) \<longleftrightarrow>
      accepts c t \<and> (\<exists>u v. ts = u @ v \<and> u \<in> L \<and> v \<in> F)" (is "?A \<longleftrightarrow> ?B") for L F
  proof
    show ?B if ?A using that by clarsimp blast
    show ?A if ?B
    proof -
      obtain u v where "t # ts = (t # u) @ v" "accepts c t" "u \<in> L" "v \<in> F" using \<open>?B\<close> by auto
      then show ?A by blast
    qed
  qed
  then show ?thesis using assms Cons by (simp add: here_def)
qed (use assms in \<open>auto simp: here_def\<close>)

lemma here_star:
  assumes "atoms (c # re') = apfst (Cons (Star c)) (atoms re)"
  shows "here (c # re') tx \<longleftrightarrow> (\<exists>u v. tx = u @ v \<and> (\<forall>b\<in>set u. accepts c b) \<and> here re v)"
proof
  assume "here (c # re') tx"
  then obtain u v w where "tx = (u @ v) @ w" "\<forall>b\<in>set u. accepts c b" "v \<in> lang (fst (atoms re))" "w \<in> free_end (snd (atoms re))"
    using assms by (auto simp: here_def)
  then have "tx = u @ (v @ w)" "\<forall>b\<in>set u. accepts c b" "here re (v @ w)" by (auto simp: here_def)
  then show "\<exists>u v. tx = u @ v \<and> (\<forall>b\<in>set u. accepts c b) \<and> here re v" by blast
next
  assume "\<exists>u v. tx = u @ v \<and> (\<forall>b\<in>set u. accepts c b) \<and> here re v"
  then obtain u v w where u: "tx = (u @ v) @ w" "\<forall>b\<in>set u. accepts c b" "v \<in> lang (fst (atoms re))" "w \<in> free_end (snd (atoms re))"
    by (auto simp: here_def)
  then have "u @ v \<in> lang (fst (atoms (c # re')))" "w \<in> free_end (snd (atoms (c # re')))" using assms by auto
  then show "here (c # re') tx" unfolding here_def using u(1) by blast
qed

lemma star_unfold:
  "(\<exists>u v. tx = u @ v \<and> (\<forall>b\<in>set u. accepts c b) \<and> P v) \<longleftrightarrow>
   P tx \<or> (case tx of [] \<Rightarrow> False | t # ts \<Rightarrow> accepts c t \<and> (\<exists>u v. ts = u @ v \<and> (\<forall>b\<in>set u. accepts c b) \<and> P v))"
proof (cases tx)
  case (Cons t ts)
  have "(\<exists>u v. t # ts = u @ v \<and> (\<forall>b\<in>set u. accepts c b) \<and> P v) \<longleftrightarrow>
      P (t # ts) \<or> accepts c t \<and> (\<exists>u v. ts = u @ v \<and> (\<forall>b\<in>set u. accepts c b) \<and> P v)" (is "?L \<longleftrightarrow> ?R")
  proof
    assume ?L
    then obtain u v where u: "t # ts = u @ v" "\<forall>b\<in>set u. accepts c b" "P v" by blast
    then show ?R by (cases u) auto
  next
    assume ?R
    then show ?L
    proof (elim disjE conjE exE)
      fix u v assume "accepts c t" "ts = u @ v" "\<forall>b\<in>set u. accepts c b" "P v"
      then have "t # ts = (t # u) @ v" "\<forall>b\<in>set (t # u). accepts c b" "P v" by simp_all
      then show ?L by blast
    qed (metis append_Nil empty_iff empty_set)
  qed
  then show ?thesis using Cons by simp
qed simp

lemma matcher_lang:
  "matchhere re tx \<longleftrightarrow> here re tx"
  "matchstar c re tx \<longleftrightarrow> (\<exists>u v. tx = u @ v \<and> (\<forall>b\<in>set u. accepts c b) \<and> here re v)"
proof (induction re tx and c re tx rule: matchhere_matchstar.induct)
  case IH: (1 re tx)
  consider "re = []" | "re = [36]" | c where "re = [c]" "c \<noteq> 36" | c re' where "re = c # 42 # re'" | c d re' where "re = c # d # re'" "d \<noteq> 42"
    by (metis list.exhaust)
  then show ?case
  proof cases
    case 1
    then show ?thesis by (simp add: matchhere.simps here_Nil)
  next
    case 2
    then show ?thesis by (simp add: matchhere.simps here_dollar)
  next
    case (3 c)
    then show ?thesis by (cases tx) (simp_all add: matchhere.simps [of "[c]"] matchhere.simps [of "[]"] here_one accepts_def here_Nil)
  next
    case (4 c re')
    then show ?thesis using IH(2) [of c "42 # re'" 42 re'] here_star [of c "42 # re'" re' tx] by (simp add: matchhere.simps [of "c # 42 # re'"])
  next
    case (5 c d re')
    then show ?thesis using IH(3) [of c "d # re'" d re'] here_one [of c "d # re'" tx] by (cases tx) (simp_all add: matchhere.simps [of "c # d # re'"] accepts_def)
  qed
next
  case (2 c re tx)
  then show ?case by (subst star_unfold) (cases tx; auto simp: matchstar.simps accepts_def)
qed

lemma match_from_suffix: "match_from re tx \<longleftrightarrow> (\<exists>w v. tx = w @ v \<and> matchhere re v)"
proof (induction tx)
  case (Cons t ts)
  then show ?case by (subst match_from.simps) (auto simp: Cons_eq_append_conv)
qed (simp add: match_from.simps)

section \<open>Reading lines\<close>

text \<open>
  The inner loop of \<open>grep\<close>: from \<open>p\<close> on, the bytes it writes and where \<open>p\<close> ends up.
\<close>

function grep_lines :: "byte list \<Rightarrow> byte list \<Rightarrow> byte list \<times> byte list" where
  "grep_lines re p =
     (case strchr p 10 of None \<Rightarrow> ([], p)
      | Some k \<Rightarrow>
          let (out, p') = grep_lines re (drop (Suc k) p)
          in ((if match re (take k p) then take (Suc k) p else []) @ out, p'))"
  by auto

termination by (relation "measure (\<lambda>(_, p). length p)") (auto simp: strchr_Some)

lemmas [simp del] = grep_lines.simps

text \<open>
  A descriptor, as the chunks that become available one after the other: a file is one
  chunk, a pipe or the console gives one for each burst of input. A read never spans two of
  them and takes what fits. \<open>grep\<close> reads behind the bytes it has carried over into a buffer
  of 1024 bytes, of which the last is the terminating zero.
\<close>

fun read_chunk :: "nat \<Rightarrow> byte list list \<Rightarrow> byte list \<times> byte list list" where
  "read_chunk n [] = ([], [])"
| "read_chunk n (c # cs) = (take n c, if length c \<le> n then cs else drop n c # cs)"

lemma read_chunk_less: "read_chunk n cs = (d, cs') \<Longrightarrow> d \<noteq> [] \<Longrightarrow> sum_list (map length cs') < sum_list (map length cs)"
  by (cases cs) (auto split: if_splits)

function grep_loop :: "byte list \<Rightarrow> byte list \<Rightarrow> byte list list \<Rightarrow> byte list" where
  "grep_loop re m cs =
     (let (d, cs') = read_chunk (1024 - length m - 1) cs
      in if d = [] then []
         else let (out, p) = grep_lines re (m @ d)
              in out @ grep_loop re (if length p = length (m @ d) then [] else p) cs')"
  by auto

termination by (relation "measure (\<lambda>(_, _, cs). sum_list (map length cs))") (auto simp: read_chunk_less [OF sym])

definition grep :: "byte list \<Rightarrow> byte list list \<Rightarrow> byte list" where
  "grep re cs = grep_loop re [] cs"

lemmas [simp del] = grep_loop.simps

section \<open>Which lines are printed\<close>

definition with_nl :: "byte list \<Rightarrow> byte list" where
  "with_nl l = l @ [10]"

lemma strchr_line: "10 \<notin> set l \<Longrightarrow> 0 \<notin> set l \<Longrightarrow> strchr (with_nl l @ xs) 10 = Some (length l)"
  by (auto simp: strchr_Some with_nl_def nth_append in_set_conv_nth)

lemma strchr_none: "10 \<notin> set l \<Longrightarrow> strchr l 10 = None"
proof (cases "strchr l 10")
  case (Some k)
  then have "10 \<in> set l" by (auto simp: strchr_Some in_set_conv_nth)
  then show "10 \<notin> set l \<Longrightarrow> strchr l 10 = None" by simp
qed simp

lemma grep_lines_run:
  assumes "\<forall>l\<in>set ls. 10 \<notin> set l \<and> 0 \<notin> set l" "10 \<notin> set r"
  shows "grep_lines re (concat (map with_nl ls) @ r) = (concat (map with_nl (filter (match re) ls)), r)"
  using assms(1)
proof (induction ls)
  case Nil
  then show ?case using strchr_none [OF assms(2)] by (simp add: grep_lines.simps)
next
  case (Cons l ls)
  have "grep_lines re (with_nl l @ xs) = (case grep_lines re xs of (out, p) \<Rightarrow> ((if match re l then with_nl l else []) @ out, p))" for xs
    using Cons.prems strchr_line [of l xs] by (subst grep_lines.simps) (auto simp: with_nl_def split: prod.split)
  then show ?case using Cons by simp
qed

text \<open>Any text is a sequence of complete lines and an incomplete one.\<close>

fun cut_lines :: "byte list \<Rightarrow> byte list list \<times> byte list" where
  "cut_lines [] = ([], [])"
| "cut_lines (b # s) = (case cut_lines s of (ls, r) \<Rightarrow>
     if b = 10 then ([] # ls, r) else case ls of [] \<Rightarrow> ([], b # r) | l # ls' \<Rightarrow> ((b # l) # ls', r))"

lemma cut_lines_text: "cut_lines s = (ls, r) \<Longrightarrow> s = concat (map with_nl ls) @ r \<and> (\<forall>l\<in>set ls. 10 \<notin> set l) \<and> 10 \<notin> set r"
  by (induction s arbitrary: ls r) (auto simp: with_nl_def split: prod.splits if_splits list.splits)

lemma cut_lines_unique:
  assumes "\<forall>l\<in>set ls. 10 \<notin> set l" "10 \<notin> set r"
  shows "cut_lines (concat (map with_nl ls) @ r) = (ls, r)"
proof -
  have r: "cut_lines r = ([], r)" using assms(2) by (induction r) auto
  have "cut_lines (with_nl l @ s) = (case cut_lines s of (ls, r) \<Rightarrow> (l # ls, r))" if "10 \<notin> set l" for l s
    using that by (induction l) (auto simp: with_nl_def split: prod.splits)
  then show ?thesis using assms(1) r by (induction ls) auto
qed

lemma grep_step:
  assumes "d \<noteq> []" "length m + length d \<le> 1023"
  shows "grep_loop re m (d # cs) = (case grep_lines re (m @ d) of (out, p) \<Rightarrow>
     out @ grep_loop re (if length p = length (m @ d) then [] else p) cs)"
proof -
  have "length d \<le> 1024 - length m - 1" using assms(2) by linarith
  then show ?thesis using assms(1) by (subst grep_loop.simps) (simp add: Let_def)
qed

lemma line_end:
  assumes "10 \<in> set d" "m @ d = concat (map with_nl ls) @ r" "10 \<notin> set r"
  shows "length r < length d"
proof (rule ccontr)
  assume "\<not> length r < length d"
  then have "d = drop (length r - length d) r" using arg_cong [OF assms(2), of "\<lambda>x. drop (length x - length d) x"] by simp
  then show False using assms(1,3) by (metis in_set_dropD)
qed

lemma grep_loop_run:
  assumes "\<forall>c\<in>set cs. 10 \<in> set c \<and> 0 \<notin> set c \<and> length c \<le> 512" "10 \<notin> set m" "0 \<notin> set m" "length m < 512"
    "cut_lines (m @ concat cs) = (ls, r)"
  shows "grep_loop re m cs = concat (map with_nl (filter (match re) ls))"
  using assms
proof (induction cs arbitrary: m ls r)
  case Nil
  then show ?case using cut_lines_unique [of "[]" m] by (simp add: grep_loop.simps)
next
  case (Cons d cs)
  obtain ls1 m1 where c: "cut_lines (m @ d) = (ls1, m1)" by (cases "cut_lines (m @ d)")
  note l = cut_lines_text [OF c]
  have z: "0 \<notin> set (m @ d)" using Cons.prems by auto
  have "length m1 < length d" using line_end [of d m ls1 m1] l Cons.prems(1) by simp
  then have m1: "length m1 < 512" "length m1 \<noteq> length (m @ d)" using Cons.prems(1) by auto
  have "0 \<notin> set m1" "\<forall>l\<in>set ls1. 0 \<notin> set l" using l z by (auto simp: with_nl_def split: if_splits)
  obtain ls2 r2 where c2: "cut_lines (m1 @ concat cs) = (ls2, r2)" by (cases "cut_lines (m1 @ concat cs)")
  note l2 = cut_lines_text [OF c2]
  have "m @ concat (d # cs) = (m @ d) @ concat cs" by simp
  also have "\<dots> = concat (map with_nl ls1) @ m1 @ concat cs" using l by simp
  also have "\<dots> = concat (map with_nl (ls1 @ ls2)) @ r2" using l2 by simp
  finally have "m @ concat (d # cs) = concat (map with_nl (ls1 @ ls2)) @ r2" .
  then have "ls = ls1 @ ls2" using cut_lines_unique [of "ls1 @ ls2" r2] Cons.prems(5) l l2 by auto
  moreover have "grep_lines re (m @ d) = (concat (map with_nl (filter (match re) ls1)), m1)"
    using grep_lines_run [of ls1 m1 re] l \<open>\<forall>l\<in>set ls1. 0 \<notin> set l\<close> by simp
  moreover have "grep_loop re m1 cs = concat (map with_nl (filter (match re) ls2))"
    by (rule Cons.IH [OF _ _ _ _ c2]) (use Cons.prems(1) m1(1) l \<open>0 \<notin> set m1\<close> in auto)
  moreover have "d \<noteq> []" using Cons.prems(1) by auto
  ultimately show ?case using grep_step [of d m re cs] m1(2) Cons.prems(1,4) by (simp del: length_append)
qed

lemma cut_lines_append:
  assumes "cut_lines a = (ls1, m1)" "cut_lines (m1 @ b) = (ls2, r)"
  shows "cut_lines (a @ b) = (ls1 @ ls2, r)"
proof -
  note l1 = cut_lines_text [OF assms(1)] and l2 = cut_lines_text [OF assms(2)]
  have "a @ b = concat (map with_nl (ls1 @ ls2)) @ r" using l1 l2 by simp
  then show ?thesis using cut_lines_unique [of "ls1 @ ls2" r] l1 l2 by auto
qed

lemma cut_lines_none: "10 \<notin> set a \<Longrightarrow> cut_lines a = ([], a)"
  using cut_lines_unique [of "[]" a] by simp

lemma cut_lines_Nil: "cut_lines a = ([], r) \<Longrightarrow> r = a \<and> 10 \<notin> set a"
  using cut_lines_text [of a "[]" r] by simp

lemma cut_lines_zero: "cut_lines a = (ls, r) \<Longrightarrow> 0 \<notin> set a \<Longrightarrow> (\<forall>l\<in>set ls. 0 \<notin> set l) \<and> 0 \<notin> set r"
  using cut_lines_text [of a ls r] by (auto simp: with_nl_def split: if_splits)

lemma grep_lines_cut:
  assumes "cut_lines a = (ls, r)" "0 \<notin> set a"
  shows "grep_lines re a = (concat (map with_nl (filter (match re) ls)), r)"
  using grep_lines_run [of ls r re] cut_lines_text [OF assms(1)] cut_lines_zero [OF assms] by auto

lemma grep_read:
  assumes "read_chunk (1024 - length m - 1) cs = (d, cs')" "d \<noteq> []" "grep_lines re (m @ d) = (out, p)"
  shows "grep_loop re m cs = out @ grep_loop re (if length p = length (m @ d) then [] else p) cs'"
  using assms by (subst grep_loop.simps) simp

text \<open>The first line of a text that has none within the buffer is longer than the buffer.\<close>

lemma no_line_in_buffer:
  assumes "cut_lines (a @ b) = (ls, r)" "10 \<notin> set a" "\<forall>l\<in>set ls. length l < length a"
  shows "ls = []"
proof (cases ls)
  case (Cons l ls')
  have "a @ b = l @ 10 # concat (map with_nl ls') @ r" using cut_lines_text [OF assms(1)] Cons by (simp add: with_nl_def)
  then have "(a @ b) ! length l = 10" by (simp add: nth_append)
  moreover have "length l < length a" using assms(3) Cons by simp
  ultimately have "10 \<in> set a" by (metis nth_append nth_mem)
  then show ?thesis using assms(2) by simp
qed

lemma full_buffer:
  assumes c1: "cut_lines b = ([], m1)" and c2: "cut_lines (m1 @ e) = (ls2, r2)" and l: "\<forall>l\<in>set ls2. length l \<le> 1022" and b: "length b = 1023"
  shows "m1 = b \<and> ls2 = [] \<and> 10 \<notin> set e"
proof -
  have m1: "m1 = b \<and> 10 \<notin> set b" using cut_lines_Nil [OF c1] by blast
  have "\<forall>l\<in>set ls2. length l < length b"
  proof
    fix l assume "l \<in> set ls2"
    then have "length l \<le> 1022" using l by simp
    then show "length l < length b" using b by linarith
  qed
  then have "ls2 = []" using no_line_in_buffer [of b e ls2 r2] c2 m1 by metis
  then show ?thesis using cut_lines_Nil [of "m1 @ e" r2] c2 m1 by simp
qed

text \<open>A file, whatever its length.\<close>

lemma grep_loop_file:
  assumes "10 \<notin> set m" "length m \<le> 1022" "0 \<notin> set (m @ c)" "cut_lines (m @ c) = (ls, r)" "\<forall>l\<in>set ls. length l \<le> 1022"
  shows "grep_loop re m [c] = concat (map with_nl (filter (match re) ls))"
  using assms
proof (induction "length c" arbitrary: m c ls r rule: less_induct)
  case less
  show ?case
  proof (cases "c = []")
    case True
    then show ?thesis using cut_lines_none [OF less.prems(1)] less.prems(4) by (simp add: grep_loop.simps)
  next
    case False
    define n where "n = 1024 - length m - 1"
    define d e where de: "d = take n c" "e = drop n c"
    have n: "0 < n" "length m + n = 1023" using less.prems(2) by (simp_all add: n_def)
    have c: "c = d @ e" "d \<noteq> []" "length e < length c" using n(1) False by (simp_all add: de)
    obtain ls1 m1 where c1: "cut_lines (m @ d) = (ls1, m1)" by (cases "cut_lines (m @ d)")
    obtain ls2 r2 where c2: "cut_lines (m1 @ e) = (ls2, r2)" by (cases "cut_lines (m1 @ e)")
    have ls: "ls = ls1 @ ls2" using cut_lines_append [OF c1 c2] less.prems(4) c(1) by simp
    note l1 = cut_lines_text [OF c1]
    have z: "0 \<notin> set (m @ d)" "0 \<notin> set e" using less.prems(3) c(1) by auto
    have z1: "0 \<notin> set (m1 @ e)" using cut_lines_zero [OF c1 z(1)] z(2) by auto
    define m' where "m' = (if length m1 = length (m @ d) then [] else m1)"
    have step: "grep_loop re m [c] = concat (map with_nl (filter (match re) ls1)) @ grep_loop re m' (if length c \<le> n then [] else [e])"
      using grep_read [OF _ c(2) grep_lines_cut [OF c1 z(1)], of "[c]" "if length c \<le> n then [] else [e]"]
      unfolding m'_def by (simp add: n_def de)
    have rest: "grep_loop re m' (if length c \<le> n then [] else [e]) = concat (map with_nl (filter (match re) ls2))"
    proof (cases "length c \<le> n")
      case True
      then have "ls2 = []" using c2 l1 by (simp add: de(2) cut_lines_none)
      then show ?thesis using True by (simp add: grep_loop.simps)
    next
      case long: False
      have b: "length (m @ d) = 1023" using n(2) long by (simp add: de(1))
      have "grep_loop re m' [e] = concat (map with_nl (filter (match re) ls2))"
      proof (cases "ls1 = []")
        case True
        then have "m1 = m @ d" "ls2 = []" "10 \<notin> set e" using full_buffer [of "m @ d" m1 e ls2 r2] c1 c2 less.prems(5) ls b by simp_all
        then show ?thesis using less.hyps [OF c(3), of "[]" "[]" e] z(2) by (simp add: m'_def cut_lines_none)
      next
        case ne: False
        then have "0 < length (concat (map with_nl ls1))" by (cases ls1) (simp_all add: with_nl_def)
        then have "length m1 < length (m @ d)" using l1 by simp
        then show ?thesis using less.hyps [OF c(3), of m1 ls2 r2] c2 z1 l1 less.prems(5) ls b by (auto simp: m'_def)
      qed
      then show ?thesis using long by simp
    qed
    show ?thesis unfolding step rest ls by simp
  qed
qed

text \<open>A read without a newline.\<close>

lemma grep_loop_discard:
  assumes "\<forall>c\<in>set (cs @ [d]). c \<noteq> [] \<and> 0 \<notin> set c \<and> length c \<le> 512" "10 \<notin> set d"
    and "10 \<notin> set m" "0 \<notin> set m" "length m < 512"
  shows "grep_loop re m (cs @ d # cs') = grep_loop re m cs @ grep_loop re [] cs'"
  using assms
proof (induction cs arbitrary: m)
  case Nil
  then have "cut_lines (m @ d) = ([], m @ d)" "0 \<notin> set (m @ d)" by (simp_all add: cut_lines_none)
  then show ?case using grep_step [of d m re cs'] grep_lines_cut [of "m @ d"] Nil by (simp add: grep_loop.simps [of re m "[]"])
next
  case (Cons c cs)
  obtain ls1 m1 where c1: "cut_lines (m @ c) = (ls1, m1)" by (cases "cut_lines (m @ c)")
  note l1 = cut_lines_text [OF c1]
  let ?m = "if length m1 = length (m @ c) then [] else m1"
  have z: "0 \<notin> set (m @ c)" using Cons.prems by simp
  have "10 \<notin> set ?m" "0 \<notin> set ?m" using l1 cut_lines_zero [OF c1 z] by auto
  moreover have "length ?m < 512"
  proof (cases "10 \<in> set c")
    case True
    then show ?thesis using line_end [of c m ls1 m1] l1 Cons.prems(1) by (simp add: with_nl_def)
  next
    case False
    then show ?thesis using cut_lines_none [of "m @ c"] Cons.prems(3) c1 by simp
  qed
  ultimately have "grep_loop re ?m (cs @ d # cs') = grep_loop re ?m cs @ grep_loop re [] cs'"
    by (intro Cons.IH) (use Cons.prems in auto)
  then show ?case using grep_step [of c m re] grep_lines_cut [OF c1 z] Cons.prems by simp
qed

text \<open>
  C37: \<open>match\<close> finds a pattern in a text exactly when a part of the text is in the language of
  the pattern: \<open>.\<close> stands for any byte, \<open>c*\<close> for any number of \<open>c\<close>, a leading \<open>^\<close> ties the part
  to the start of the text and a final \<open>$\<close> to its end.
\<close>
theorem match_decides_language:
  "match re tx \<longleftrightarrow> (\<exists>w u v. tx = w @ u @ v \<and> w \<in> free_end (caret re) \<and> u \<in> lang (fst (atoms (pattern_body re))) \<and>
     v \<in> free_end (snd (atoms (pattern_body re))))"
proof -
  have "match re tx \<longleftrightarrow> (\<exists>w t. tx = w @ t \<and> w \<in> free_end (caret re) \<and> here (pattern_body re) t)"
    by (auto simp: match_def caret_def pattern_body_def free_end_def match_from_suffix matcher_lang)
  then show ?thesis by (simp add: here_def) blast
qed

text \<open>
  C38: \<open>grep\<close> prints the complete lines of a file that match, in order, when no line is longer
  than the 1022 bytes that fit its buffer; a final line without a newline is not printed. It
  prints the matching lines of its input also when the input comes in pieces of at most the
  512 bytes that a pipe holds, however the lines are spread over the pieces, as long as every
  piece ends at least one line. A piece that ends no line is lost, and with it the
  beginning of its line that the piece before it left: what is printed is what the input up
  to the lost piece and the input after it give each on its own.
\<close>
theorem grep_prints_lines:
  "(0 \<notin> set s \<and> (\<forall>l\<in>set (fst (cut_lines s)). length l \<le> 1022) \<longrightarrow>
      grep re [s] = concat (map with_nl (filter (match re) (fst (cut_lines s))))) \<and>
   ((\<forall>c\<in>set cs. 10 \<in> set c \<and> 0 \<notin> set c \<and> length c \<le> 512) \<longrightarrow>
      grep re cs = concat (map with_nl (filter (match re) (fst (cut_lines (concat cs)))))) \<and>
   ((\<forall>c\<in>set (cs @ [d]). c \<noteq> [] \<and> 0 \<notin> set c \<and> length c \<le> 512) \<and> 10 \<notin> set d \<longrightarrow>
      grep re (cs @ d # cs') = grep re cs @ grep re cs')"
proof (intro conjI impI)
  assume "0 \<notin> set s \<and> (\<forall>l\<in>set (fst (cut_lines s)). length l \<le> 1022)"
  then show "grep re [s] = concat (map with_nl (filter (match re) (fst (cut_lines s))))"
    using grep_loop_file [of "[]" s "fst (cut_lines s)" "snd (cut_lines s)"] by (simp add: grep_def)
next
  assume "\<forall>c\<in>set cs. 10 \<in> set c \<and> 0 \<notin> set c \<and> length c \<le> 512"
  then show "grep re cs = concat (map with_nl (filter (match re) (fst (cut_lines (concat cs)))))"
    using grep_loop_run [of cs "[]" "fst (cut_lines (concat cs))" "snd (cut_lines (concat cs))"] by (simp add: grep_def)
next
  assume "(\<forall>c\<in>set (cs @ [d]). c \<noteq> [] \<and> 0 \<notin> set c \<and> length c \<le> 512) \<and> 10 \<notin> set d"
  then show "grep re (cs @ d # cs') = grep re cs @ grep re cs'"
    using grep_loop_discard [of cs d "[]" re cs'] by (simp add: grep_def)
qed

theorem grep_prints_lines_witness:
  "grep [97, 42, 36] [[98, 97, 10, 99, 10, 100]] = [98, 97, 10, 99, 10] \<and> grep [98] [[97, 10, 98], [100, 10]] = [98, 100, 10] \<and>
   grep [98] ([[97, 10, 98]] @ [99] # [[100, 10]]) = []"
proof -
  have m: "match [97, 42, 36] [98, 97]" "match [97, 42, 36] [99]" "\<not> match [98] [97]" "match [98] [98, 100]" "\<not> match [98] [100]"
    by (simp_all add: match_def match_from.simps [of _ "_ # _"] match_from.simps [of _ "[]"] matchhere.simps [of "_ # _"] matchhere.simps [of "[]"]
        matchstar.simps [of _ _ "_ # _"] matchstar.simps [of _ _ "[]"])
  show ?thesis
    using grep_prints_lines [of "[98, 97, 10, 99, 10, 100]" "[97, 42, 36]"] grep_prints_lines [of _ "[98]" "[[97, 10, 98], [100, 10]]"]
      grep_prints_lines [of "[97, 10, 98]" "[98]" "[[97, 10, 98]]" "[99]" "[[100, 10]]"] grep_prints_lines [of "[100, 10]" "[98]"] m
    by (simp add: with_nl_def)
qed

end
