(* ===== verification/Sh.thy ===== *)
theory Sh
  imports ULib Params "HOL-Library.Sublist"
begin

text \<open>
  The parser of the shell, \<open>sh.c\<close>. A pointer into the command line is the text from there to
  its end \<open>es\<close>. \<open>parseline\<close>, \<open>parsepipe\<close>, \<open>parseexec\<close> and \<open>parseblock\<close> call each other; they run
  on fuel, which is proved to be enough for every line. Every command can be written down
  so that the parser gives it back.
\<close>

section \<open>Commands\<close>

type_synonym cursor = "byte list"

text \<open>
  \<open>struct cmd\<close> and its five variants; \<open>'a\<close> is the form of a word: a pair of pointers from the
  parser, a string after \<open>nulterminate\<close>.
\<close>

datatype 'a cmd = EXEC "'a list" | REDIR "'a cmd" 'a u32 nat | PIPE "'a cmd" "'a cmd" | LIST "'a cmd" "'a cmd" | BACK "'a cmd"

abbreviation (input) MAXARGS :: nat where "MAXARGS \<equiv> 10"

type_synonym pcmd = "(cursor \<times> cursor) cmd"

text \<open>What a parsing function returns; \<open>Bad\<close> is \<open>panic\<close>, which ends the process.\<close>

datatype 'a parsed = Parsed 'a | Bad string | Fuel

fun pbind :: "'a parsed \<Rightarrow> ('a \<Rightarrow> 'b parsed) \<Rightarrow> 'b parsed" where
  "pbind (Parsed x) k = k x"
| "pbind (Bad e) k = Bad e"
| "pbind Fuel k = Fuel"

section \<open>Tokens\<close>

definition whitespace :: "byte list" where
  "whitespace = [32, 9, 13, 10, 11]"

definition symbols :: "byte list" where
  "symbols = [60, 124, 62, 38, 59, 40, 41]"

definition deref :: "cursor \<Rightarrow> byte" where
  "deref s = (case s of [] \<Rightarrow> 0 | b # _ \<Rightarrow> b)"

definition is_space :: "byte \<Rightarrow> bool" where
  "is_space b \<longleftrightarrow> strchr whitespace b \<noteq> None"

definition is_word :: "byte \<Rightarrow> bool" where
  "is_word b \<longleftrightarrow> strchr whitespace b = None \<and> strchr symbols b = None"

definition skip_space :: "cursor \<Rightarrow> cursor" where
  "skip_space s = dropWhile is_space s"

definition gettoken :: "cursor \<Rightarrow> byte \<times> cursor \<times> cursor \<times> cursor" where
  "gettoken s =
     (let q = skip_space s;
          (ret, eq) =
            (if deref q = 0 then (0, q)
             else if deref q \<in> {124, 40, 41, 59, 38, 60} then (deref q, tl q)
             else if deref q = 62 then (if deref (tl q) = 62 then (43, tl (tl q)) else (62, tl q))
             else (97, dropWhile is_word q))
      in (ret, q, eq, skip_space eq))"

definition peek :: "cursor \<Rightarrow> byte list \<Rightarrow> bool \<times> cursor" where
  "peek s toks = (let s = skip_space s in (deref s \<noteq> 0 \<and> strchr toks (deref s) \<noteq> None, s))"

section \<open>The parser\<close>

definition next_token :: "cursor \<Rightarrow> cursor" where
  "next_token s = (case gettoken s of (_, _, _, s') \<Rightarrow> s')"

definition redirect :: "byte \<Rightarrow> pcmd \<Rightarrow> cursor \<Rightarrow> cursor \<Rightarrow> pcmd" where
  "redirect tok cmd q eq =
     (if tok = 60 then REDIR cmd (q, eq) O_RDONLY 0
      else if tok = 62 \<or> tok = 43 then REDIR cmd (q, eq) (O_WRONLY OR O_CREATE) 1
      else cmd)"

lemma skip_space_le: "length (skip_space s) \<le> length s"
  by (simp add: skip_space_def length_dropWhile_le)

lemma gettoken_le:
  assumes "gettoken s = (tok, q, eq, s')"
  shows "length s' \<le> length s" "tok \<noteq> 0 \<Longrightarrow> length s' < length s"
proof -
  let ?q = "skip_space s"
  have q: "length ?q \<le> length s" by (rule skip_space_le)
  have e: "length eq \<le> length ?q \<and> (tok \<noteq> 0 \<longrightarrow> length eq < length ?q)"
  proof (cases ?q)
    case Nil
    then show ?thesis using assms by (auto simp: gettoken_def deref_def)
  next
    case (Cons b r)
    have "length (tl r) \<le> length r" "length (dropWhile is_word r) \<le> length r" by (simp_all add: length_dropWhile_le)
    moreover have "is_word b" if "b \<noteq> 0" "b \<notin> {124, 40, 41, 59, 38, 60}" "b \<noteq> 62"
    proof -
      have "b \<notin> set whitespace" using Cons hd_dropWhile [of is_space s] by (auto simp: skip_space_def is_space_def whitespace_def)
      then show ?thesis using that by (auto simp: is_word_def whitespace_def symbols_def)
    qed
    ultimately show ?thesis using assms Cons by (auto simp: gettoken_def deref_def Let_def less_Suc_eq_le split: if_splits)
        (metis length_Cons order_refl)
  qed
  have "length s' \<le> length eq" using assms skip_space_le [of eq] by (auto simp: gettoken_def Let_def split: prod.splits)
  then show "length s' \<le> length s" "tok \<noteq> 0 \<Longrightarrow> length s' < length s" using q e by auto
qed

lemma next_token_le: "length (next_token s) \<le> length s"
  using gettoken_le(1) by (auto simp: next_token_def split: prod.split)

lemma peekD: "peek s toks = (b, s') \<Longrightarrow> s' = skip_space s \<and> (b \<longrightarrow> deref s' \<noteq> 0)"
  by (auto simp: peek_def Let_def)

lemma next_token_less: "deref (skip_space s) \<noteq> 0 \<Longrightarrow> length (next_token (skip_space s)) < length s"
proof -
  assume d: "deref (skip_space s) \<noteq> 0"
  obtain tok q eq s' where g: "gettoken (skip_space s) = (tok, q, eq, s')" by (cases "gettoken (skip_space s)")
  have "skip_space (skip_space s) = skip_space s" by (simp add: skip_space_def)
  then have "tok \<noteq> 0" using g d by (auto simp: gettoken_def Let_def split: if_splits)
  then show ?thesis using gettoken_le(2) [OF g] g skip_space_le [of s] by (simp add: next_token_def)
qed

lemma redirs_less:
  assumes "peek s toks = (True, s1)" "gettoken s1 = (tok, x, y, s2)" "gettoken s2 = (97, q, eq, s3)"
  shows "length s3 < length s"
proof -
  have "s1 = skip_space s" "deref s1 \<noteq> 0" using peekD [OF assms(1)] by auto
  then have "length s2 < length s" using next_token_less [of s] assms(2) by (simp add: next_token_def)
  then show ?thesis using gettoken_le(1) [OF assms(3)] by simp
qed

text \<open>The loop of \<open>parseredirs\<close>.\<close>

function parseredirs :: "pcmd \<Rightarrow> cursor \<Rightarrow> (pcmd \<times> cursor) parsed" where
  "parseredirs cmd s =
     (case peek s [60, 62] of (b, s1) \<Rightarrow>
      if b then
        case gettoken s1 of (tok, _, _, s2) \<Rightarrow>
        case gettoken s2 of (tok2, q, eq, s3) \<Rightarrow>
        if tok2 \<noteq> 97 then Bad ''missing file for redirection''
        else parseredirs (redirect tok cmd q eq) s3
      else Parsed (cmd, s1))"
  by auto

termination
  by (relation "measure (\<lambda>(_, s). length s)") (auto intro: redirs_less dest: sym)

text \<open>
  The loop of \<open>parseexec\<close> over the words. The command it fills in is the innermost one of
  what \<open>parseredirs\<close> has wrapped around it.
\<close>

fun add_arg :: "'a cmd \<Rightarrow> 'a \<Rightarrow> 'a cmd" where
  "add_arg (EXEC av) w = EXEC (av @ [w])"
| "add_arg (REDIR c f m fd) w = REDIR (add_arg c w) f m fd"
| "add_arg c w = c"

text \<open>The while loops always move on; a counter as long as the text bounds them.\<close>

fun parse_args :: "nat \<Rightarrow> pcmd \<Rightarrow> nat \<Rightarrow> cursor \<Rightarrow> (pcmd \<times> cursor) parsed" where
  "parse_args 0 cmd argc s = Fuel"
| "parse_args (Suc n) cmd argc s =
     (case peek s [124, 41, 38, 59] of (b, s1) \<Rightarrow>
      if b then Parsed (cmd, s1)
      else
        case gettoken s1 of (tok, q, eq, s2) \<Rightarrow>
        if tok = 0 then Parsed (cmd, s2)
        else if tok \<noteq> 97 then Bad ''syntax''
        else if argc + 1 \<ge> MAXARGS then Bad ''too many args''
        else pbind (parseredirs (add_arg cmd (q, eq)) s2) (\<lambda>(cmd, s). parse_args n cmd (argc + 1) s))"

fun parse_back :: "nat \<Rightarrow> pcmd \<Rightarrow> cursor \<Rightarrow> (pcmd \<times> cursor) parsed" where
  "parse_back 0 cmd s = Fuel"
| "parse_back (Suc n) cmd s =
     (case peek s [38] of (b, s1) \<Rightarrow>
      if b then parse_back n (BACK cmd) (next_token s1) else Parsed (cmd, s1))"

fun parseline :: "nat \<Rightarrow> cursor \<Rightarrow> (pcmd \<times> cursor) parsed"
  and parsepipe :: "nat \<Rightarrow> cursor \<Rightarrow> (pcmd \<times> cursor) parsed"
  and parseexec :: "nat \<Rightarrow> cursor \<Rightarrow> (pcmd \<times> cursor) parsed"
  and parseblock :: "nat \<Rightarrow> cursor \<Rightarrow> (pcmd \<times> cursor) parsed" where
  "parseline 0 s = Fuel"
| "parseline (Suc n) s =
     pbind (parsepipe n s) (\<lambda>(cmd, s).
     pbind (parse_back (Suc (length s)) cmd s) (\<lambda>(cmd, s).
     case peek s [59] of (b, s) \<Rightarrow>
     if b then pbind (parseline n (next_token s)) (\<lambda>(cmd2, s). Parsed (LIST cmd cmd2, s))
     else Parsed (cmd, s)))"
| "parsepipe 0 s = Fuel"
| "parsepipe (Suc n) s =
     pbind (parseexec n s) (\<lambda>(cmd, s).
     case peek s [124] of (b, s) \<Rightarrow>
     if b then pbind (parsepipe n (next_token s)) (\<lambda>(cmd2, s). Parsed (PIPE cmd cmd2, s))
     else Parsed (cmd, s))"
| "parseexec 0 s = Fuel"
| "parseexec (Suc n) s =
     (case peek s [40] of (b, s) \<Rightarrow>
      if b then parseblock n s
      else pbind (parseredirs (EXEC []) s) (\<lambda>(cmd, s). parse_args (Suc (length s)) cmd 0 s))"
| "parseblock 0 s = Fuel"
| "parseblock (Suc n) s =
     (case peek s [40] of (b, s) \<Rightarrow>
      if \<not> b then Bad ''parseblock''
      else pbind (parseline n (next_token s)) (\<lambda>(cmd, s).
        case peek s [41] of (b, s) \<Rightarrow>
        if \<not> b then Bad ''syntax - missing )''
        else parseredirs cmd (next_token s)))"

text \<open>
  \<open>nulterminate\<close> writes a zero at the end of every word; a pointer is turned into its offset
  in the line of length \<open>len\<close>.
\<close>

fun nulterminate :: "nat \<Rightarrow> pcmd \<Rightarrow> byte list \<Rightarrow> byte list" where
  "nulterminate len (EXEC av) buf = fold (\<lambda>(q, eq) buf. buf[len - length eq := 0]) av buf"
| "nulterminate len (REDIR c (q, eq) m fd) buf = (nulterminate len c buf)[len - length eq := 0]"
| "nulterminate len (PIPE c d) buf = nulterminate len d (nulterminate len c buf)"
| "nulterminate len (LIST c d) buf = nulterminate len d (nulterminate len c buf)"
| "nulterminate len (BACK c) buf = nulterminate len c buf"

definition parsecmd :: "byte list \<Rightarrow> (pcmd \<times> byte list) parsed" where
  "parsecmd buf =
     (let len = strlen_user buf; s = take len buf in
      pbind (parseline (4 * len + 4) s) (\<lambda>(cmd, s).
      case peek s [] of (_, s) \<Rightarrow>
      if s \<noteq> [] then Bad ''syntax'' else Parsed (cmd, nulterminate len cmd buf)))"

text \<open>The strings that the pointers of a command refer to, as \<open>runcmd\<close> sees them.\<close>

definition string_at :: "nat \<Rightarrow> byte list \<Rightarrow> cursor \<Rightarrow> byte list" where
  "string_at len buf q = takeWhile (\<lambda>b. b \<noteq> 0) (drop (len - length q) buf)"

definition strings :: "nat \<Rightarrow> byte list \<Rightarrow> pcmd \<Rightarrow> byte list cmd" where
  "strings len buf cmd = map_cmd (\<lambda>(q, eq). string_at len buf q) cmd"

lemmas [simp del] = parseredirs.simps

section \<open>The parser always answers\<close>

text \<open>An answer that leaves at most \<open>k\<close> bytes unread.\<close>

definition answers :: "nat \<Rightarrow> (pcmd \<times> cursor) parsed \<Rightarrow> bool" where
  "answers k r = (case r of Parsed (c, s) \<Rightarrow> length s \<le> k | Bad e \<Rightarrow> True | Fuel \<Rightarrow> False)"

lemma answers_basic: "length s \<le> k \<Longrightarrow> answers k (Parsed (c, s))" "answers k (Bad e)"
  by (simp_all add: answers_def)

lemma answers_bind: "answers k m \<Longrightarrow> (\<And>c s. length s \<le> k \<Longrightarrow> answers n (f (c, s))) \<Longrightarrow> answers n (pbind m f)"
  by (cases m) (auto simp: answers_def)

lemma answers_mono: "answers k r \<Longrightarrow> k \<le> n \<Longrightarrow> answers n r"
  by (auto simp: answers_def split: parsed.splits)

lemma peekE:
  obtains b where "peek s toks = (b, skip_space s)" "length (skip_space s) \<le> length s"
    "b \<Longrightarrow> length (next_token (skip_space s)) < length s"
  using next_token_less [of s] skip_space_le [of s] by (auto simp: peek_def Let_def)

lemma gettokenE:
  obtains tok q eq s' where "gettoken s = (tok, q, eq, s')" "length s' \<le> length s" "tok \<noteq> 0 \<Longrightarrow> length s' < length s"
  using gettoken_le [of s] by (metis prod_cases4)

lemma parseredirs_answers: "answers (length s) (parseredirs cmd s)"
proof (induction "length s" arbitrary: cmd s rule: less_induct)
  case (less s cmd)
  let ?s1 = "skip_space s"
  obtain b where p: "peek s [60, 62] = (b, ?s1)" "length ?s1 \<le> length s" "b \<Longrightarrow> length (next_token ?s1) < length s" by (rule peekE [of s "[60, 62]"]) blast
  obtain tok x y s2 where g: "gettoken ?s1 = (tok, x, y, s2)" by (rule gettokenE [of "?s1"]) blast
  obtain tok2 q eq s3 where h: "gettoken s2 = (tok2, q, eq, s3)" "length s3 \<le> length s2" by (rule gettokenE [of "s2"]) blast
  show ?case
  proof (cases "b \<and> tok2 = 97")
    case True
    then have l: "length s3 < length s" using p(3) g h(2) by (simp add: next_token_def)
    have "parseredirs cmd s = parseredirs (redirect tok cmd q eq) s3"
      using p(1) True g h(1) by (subst parseredirs.simps) simp
    then show ?thesis using answers_mono [OF less [OF l]] l by simp
  next
    case False
    then have "parseredirs cmd s = (if b then Bad ''missing file for redirection'' else Parsed (cmd, ?s1))"
      using p(1) g h(1) by (subst parseredirs.simps) simp
    then show ?thesis using p(2) by (simp add: answers_basic)
  qed
qed

lemma parse_args_answers: "length s < n \<Longrightarrow> answers (length s) (parse_args n cmd argc s)"
proof (induction n arbitrary: cmd argc s)
  case (Suc n)
  let ?s1 = "skip_space s"
  obtain b where p: "peek s [124, 41, 38, 59] = (b, ?s1)" "length ?s1 \<le> length s" by (rule peekE [of s "[124, 41, 38, 59]"]) blast
  obtain tok q eq s2 where g: "gettoken ?s1 = (tok, q, eq, s2)" "length s2 \<le> length ?s1" "tok \<noteq> 0 \<Longrightarrow> length s2 < length ?s1" by (rule gettokenE [of "?s1"]) blast
  show ?case
  proof (cases "b \<or> tok = 0 \<or> tok \<noteq> 97 \<or> MAXARGS \<le> argc + 1")
    case True
    then show ?thesis using p g(1,2) by (auto intro!: answers_basic)
  next
    case False
    have e: "parse_args (Suc n) cmd argc s = pbind (parseredirs (add_arg cmd (q, eq)) s2) (\<lambda>(cmd, s). parse_args n cmd (argc + 1) s)"
      using False p(1) g(1) by simp
    have l: "length s2 < length s" using False g(3) p(2) by simp
    show ?thesis
      unfolding e
    proof (rule answers_bind [OF parseredirs_answers])
      fix c and s' :: cursor assume "length s' \<le> length s2"
      then have "length s' < n" "length s' \<le> length s" using l Suc.prems by simp_all
      then show "answers (length s) (case (c, s') of (cmd, s) \<Rightarrow> parse_args n cmd (argc + 1) s)" using answers_mono [OF Suc.IH] by simp
    qed
  qed
qed simp

lemma parse_back_answers: "length s < n \<Longrightarrow> answers (length s) (parse_back n cmd s)"
proof (induction n arbitrary: cmd s)
  case (Suc n)
  let ?s1 = "skip_space s"
  obtain b where p: "peek s [38] = (b, ?s1)" "length ?s1 \<le> length s" "b \<Longrightarrow> length (next_token ?s1) < length s" by (rule peekE [of s "[38]"]) blast
  show ?case
  proof (cases b)
    case True
    then have "length (next_token ?s1) < n" "length (next_token ?s1) \<le> length s" using p(3) Suc.prems by simp_all
    then show ?thesis using answers_mono [OF Suc.IH] p(1) True by simp
  qed (use p in \<open>simp add: answers_basic\<close>)
qed simp

text \<open>
  Four units of fuel for every byte are enough: on the way from \<open>parseline\<close> back to itself
  at least one byte is read.
\<close>

lemma answers_line:
  assumes "\<And>s :: cursor. 4 * length s + 4 \<le> n \<Longrightarrow> answers (length s) (parseline n s)"
    "\<And>s :: cursor. 4 * length s + 3 \<le> n \<Longrightarrow> answers (length s) (parsepipe n s)" "4 * length s + 3 \<le> n"
  shows "answers (length s) (parseline (Suc n) s)"
  unfolding parseline.simps
proof (rule answers_bind [OF assms(2) [OF assms(3)]], unfold prod.case, rule answers_bind [OF parse_back_answers], simp, unfold prod.case)
  fix s2 s3 :: cursor and c2 c3 :: pcmd assume l: "length s2 \<le> length s" "length s3 \<le> length s2"
  obtain b where p: "peek s3 [59] = (b, skip_space s3)" "length (skip_space s3) \<le> length s3" "b \<Longrightarrow> length (next_token (skip_space s3)) < length s3"
    by (rule peekE [of s3 "[59]"]) blast
  show "answers (length s) (case peek s3 [59] of (b, s) \<Rightarrow>
     if b then pbind (parseline n (next_token s)) (\<lambda>(cmd2, s). Parsed (LIST c3 cmd2, s)) else Parsed (c3, s))"
  proof (cases b)
    case True
    then have "answers (length (next_token (skip_space s3))) (parseline n (next_token (skip_space s3)))"
      using p(3) l assms(3) by (intro assms(1)) linarith
    then show ?thesis
      using p l True by (auto intro!: answers_bind [of "length (next_token (skip_space s3))"] answers_basic)
  qed (use p l in \<open>auto intro!: answers_basic\<close>)
qed

lemma answers_pipe:
  assumes "\<And>s :: cursor. 4 * length s + 3 \<le> n \<Longrightarrow> answers (length s) (parsepipe n s)"
    "\<And>s :: cursor. 4 * length s + 2 \<le> n \<Longrightarrow> answers (length s) (parseexec n s)" "4 * length s + 2 \<le> n"
  shows "answers (length s) (parsepipe (Suc n) s)"
  unfolding parsepipe.simps
proof (rule answers_bind [OF assms(2) [OF assms(3)]], unfold prod.case)
  fix s3 :: cursor and c3 :: pcmd assume l: "length s3 \<le> length s"
  obtain b where p: "peek s3 [124] = (b, skip_space s3)" "length (skip_space s3) \<le> length s3" "b \<Longrightarrow> length (next_token (skip_space s3)) < length s3"
    by (rule peekE [of s3 "[124]"]) blast
  show "answers (length s) (case peek s3 [124] of (b, s) \<Rightarrow>
     if b then pbind (parsepipe n (next_token s)) (\<lambda>(cmd2, s). Parsed (PIPE c3 cmd2, s)) else Parsed (c3, s))"
  proof (cases b)
    case True
    then have "answers (length (next_token (skip_space s3))) (parsepipe n (next_token (skip_space s3)))"
      using p(3) l assms(3) by (intro assms(1)) linarith
    then show ?thesis
      using p l True by (auto intro!: answers_bind [of "length (next_token (skip_space s3))"] answers_basic)
  qed (use p l in \<open>auto intro!: answers_basic\<close>)
qed

lemma answers_exec:
  assumes "\<And>s :: cursor. 4 * length s + 1 \<le> n \<Longrightarrow> answers (length s) (parseblock n s)" "4 * length s + 1 \<le> n"
  shows "answers (length s) (parseexec (Suc n) s)"
proof -
  obtain b where p: "peek s [40] = (b, skip_space s)" "length (skip_space s) \<le> length s" by (rule peekE [of s "[40]"]) blast
  have "answers (length s) (parseblock n (skip_space s))" by (rule answers_mono [OF assms(1)]) (use p(2) assms(2) in linarith)+
  moreover have "answers (length s) (pbind (parseredirs (EXEC []) (skip_space s)) (\<lambda>(cmd, s). parse_args (Suc (length s)) cmd 0 s))"
    by (rule answers_bind [OF parseredirs_answers], unfold prod.case, rule answers_mono [OF parse_args_answers]) (use p(2) in simp_all)
  ultimately show ?thesis using p(1) by simp
qed

lemma answers_block:
  assumes "\<And>s :: cursor. 4 * length s + 4 \<le> n \<Longrightarrow> answers (length s) (parseline n s)" "4 * length s \<le> n"
  shows "answers (length s) (parseblock (Suc n) s)"
proof -
  let ?s = "next_token (skip_space s)"
  obtain b where p: "peek s [40] = (b, skip_space s)" "b \<Longrightarrow> length ?s < length s" by (rule peekE [of s "[40]"]) blast
  show ?thesis
  proof (cases b)
    case True
    have l: "length ?s < length s" by (rule p(2) [OF True])
    have "answers (length ?s) (parseline n ?s)" by (rule assms(1)) (use l assms(2) in linarith)
    then have "answers (length s) (pbind (parseline n ?s) (\<lambda>(cmd, s). case peek s [41] of (b, s) \<Rightarrow>
        if \<not> b then Bad ''syntax - missing )'' else parseredirs cmd (next_token s)))"
    proof (rule answers_bind, unfold prod.case)
      fix c and s2 :: cursor assume l2: "length s2 \<le> length ?s"
      obtain b2 where q: "peek s2 [41] = (b2, skip_space s2)" "b2 \<Longrightarrow> length (next_token (skip_space s2)) < length s2"
        by (rule peekE [of s2 "[41]"]) blast
      show "answers (length s) (case peek s2 [41] of (b, s) \<Rightarrow> if \<not> b then Bad ''syntax - missing )'' else parseredirs c (next_token s))"
        using q l l2 by (auto intro!: answers_basic answers_mono [OF parseredirs_answers])
    qed
    then show ?thesis using p(1) True by simp
  qed (use p(1) in \<open>simp add: answers_basic\<close>)
qed

lemma parser_answers:
  "(4 * length s + 4 \<le> n \<longrightarrow> answers (length s) (parseline n s)) \<and> (4 * length s + 3 \<le> n \<longrightarrow> answers (length s) (parsepipe n s)) \<and>
   (4 * length s + 2 \<le> n \<longrightarrow> answers (length s) (parseexec n s)) \<and> (4 * length s + 1 \<le> n \<longrightarrow> answers (length s) (parseblock n s))"
  for s :: cursor
proof (induction n arbitrary: s)
  case (Suc n)
  then show ?case using answers_line [of n s] answers_pipe [of n s] answers_exec [of n s] answers_block [of n s] by simp
qed simp

section \<open>Words\<close>

text \<open>The words of a command point into the line, and end where their letters end.\<close>

definition tokens :: "cursor \<Rightarrow> pcmd \<Rightarrow> bool" where
  "tokens S c \<longleftrightarrow> (\<forall>(q, eq)\<in>set_cmd c. suffix q S \<and> eq = dropWhile is_word q)"

definition sound :: "cursor \<Rightarrow> (pcmd \<times> cursor) parsed \<Rightarrow> bool" where
  "sound S r = (case r of Parsed (c, s) \<Rightarrow> suffix s S \<and> tokens S c | _ \<Rightarrow> True)"

lemma tokens_simps [simp]:
  "tokens S (EXEC []) = True" "tokens S (BACK c) = tokens S c"
  "tokens S (PIPE c d) = (tokens S c \<and> tokens S d)" "tokens S (LIST c d) = (tokens S c \<and> tokens S d)"
  "tokens S (REDIR c (q, eq) m fd) = (tokens S c \<and> suffix q S \<and> eq = dropWhile is_word q)"
  by (auto simp: tokens_def)

lemma tokens_add_arg: "tokens S c \<Longrightarrow> suffix q S \<Longrightarrow> eq = dropWhile is_word q \<Longrightarrow> tokens S (add_arg c (q, eq))"
  by (induction c "(q, eq)" rule: add_arg.induct) (auto simp: tokens_def)

lemma sound_basic: "suffix s S \<Longrightarrow> tokens S c \<Longrightarrow> sound S (Parsed (c, s))" "sound S (Bad e)" "sound S Fuel"
  by (simp_all add: sound_def)

lemma sound_bind: "sound S m \<Longrightarrow> (\<And>c s. suffix s S \<Longrightarrow> tokens S c \<Longrightarrow> sound S (f (c, s))) \<Longrightarrow> sound S (pbind m f)"
  by (cases m) (auto simp: sound_def)

lemma suffix_skip: "suffix s S \<Longrightarrow> suffix (skip_space s) S"
  unfolding skip_space_def using suffix_dropWhile suffix_order.trans by blast

lemma gettoken_suffix:
  assumes "gettoken s = (tok, q, eq, s')" "suffix s S"
  shows "suffix q S" "suffix s' S" "tok = 97 \<Longrightarrow> eq = dropWhile is_word q"
proof -
  have t: "suffix (tl x) S" if "suffix x S" for x using that by (metis suffix_order.trans suffix_tl)
  have q: "q = skip_space s" using assms(1) by (auto simp: gettoken_def Let_def split: prod.splits)
  then show "suffix q S" using suffix_skip [OF assms(2)] by simp
  then have "suffix eq S"
    using assms(1) q t suffix_dropWhile [of is_word q] suffix_order.trans [of "dropWhile is_word q" q S]
    by (auto simp: gettoken_def Let_def split: if_splits)
  then show "suffix s' S" using assms(1) suffix_skip [of eq S] by (auto simp: gettoken_def Let_def split: prod.splits)
  show "tok = 97 \<Longrightarrow> eq = dropWhile is_word q" using assms(1) by (auto simp: gettoken_def Let_def split: if_splits)
qed

lemma suffix_next: "suffix s S \<Longrightarrow> suffix (next_token s) S"
  using gettoken_suffix(2) by (auto simp: next_token_def split: prod.split)

lemma sound_redirs: "suffix s S \<Longrightarrow> tokens S cmd \<Longrightarrow> sound S (parseredirs cmd s)"
proof (induction "length s" arbitrary: cmd s rule: less_induct)
  case (less s cmd)
  let ?s1 = "skip_space s"
  obtain b where p: "peek s [60, 62] = (b, ?s1)" "b \<Longrightarrow> length (next_token ?s1) < length s" by (rule peekE [of s "[60, 62]"]) blast
  obtain tok x y s2 where g: "gettoken ?s1 = (tok, x, y, s2)" by (rule gettokenE [of ?s1]) blast
  obtain tok2 q eq s3 where h: "gettoken s2 = (tok2, q, eq, s3)" "length s3 \<le> length s2" by (rule gettokenE [of s2]) blast
  have s2: "suffix s2 S" by (rule gettoken_suffix(2) [OF g suffix_skip [OF less.prems(1)]])
  note s3 = gettoken_suffix [OF h(1) s2]
  show ?case
  proof (cases "b \<and> tok2 = 97")
    case True
    then have l: "length s3 < length s" using p(2) g h(2) by (simp add: next_token_def)
    have e: "parseredirs cmd s = parseredirs (redirect tok cmd q eq) s3" using p(1) True g h(1) by (subst parseredirs.simps) simp
    show ?thesis unfolding e by (rule less.hyps [OF l s3(2)]) (use True s3 less.prems(2) in \<open>simp add: redirect_def\<close>)
  next
    case False
    then have "parseredirs cmd s = (if b then Bad ''missing file for redirection'' else Parsed (cmd, ?s1))"
      using p(1) g h(1) by (subst parseredirs.simps) simp
    then show ?thesis using less.prems by (simp add: sound_basic suffix_skip)
  qed
qed

lemma sound_args: "suffix s S \<Longrightarrow> tokens S cmd \<Longrightarrow> sound S (parse_args n cmd argc s)"
proof (induction n arbitrary: cmd argc s)
  case (Suc n)
  obtain b where p: "peek s [124, 41, 38, 59] = (b, skip_space s)" by (rule peekE [of s "[124, 41, 38, 59]"]) blast
  obtain tok q eq s2 where g: "gettoken (skip_space s) = (tok, q, eq, s2)" by (rule gettokenE [of "skip_space s"]) blast
  note s2 = gettoken_suffix [OF g suffix_skip [OF Suc.prems(1)]]
  show ?case using p g s2 Suc by (auto intro!: sound_basic sound_bind sound_redirs suffix_skip tokens_add_arg)
qed (simp add: sound_basic)

lemma sound_back: "suffix s S \<Longrightarrow> tokens S cmd \<Longrightarrow> sound S (parse_back n cmd s)"
proof (induction n arbitrary: cmd s)
  case (Suc n)
  obtain b where "peek s [38] = (b, skip_space s)" by (rule peekE [of s "[38]"]) blast
  then show ?case using Suc.prems by (auto intro!: sound_basic suffix_skip suffix_next Suc.IH)
qed (simp add: sound_basic)

lemma parser_sound:
  "suffix s S \<longrightarrow> sound S (parseline n s) \<and> sound S (parsepipe n s) \<and> sound S (parseexec n s) \<and> sound S (parseblock n s)"
proof (induction n arbitrary: s)
  case (Suc n)
  then have IH: "suffix x S \<Longrightarrow> sound S (parseline n x)" "suffix x S \<Longrightarrow> sound S (parsepipe n x)"
    "suffix x S \<Longrightarrow> sound S (parseexec n x)" "suffix x S \<Longrightarrow> sound S (parseblock n x)" for x by simp_all
  show ?case
    by (auto intro!: IH sound_basic sound_bind sound_redirs sound_args sound_back suffix_skip suffix_next simp: peek_def Let_def
        simp del: parse_args.simps parse_back.simps)
qed (simp add: sound_basic)

text \<open>The zeros that \<open>nulterminate\<close> writes, and the strings one reads afterwards.\<close>

definition ends_of :: "nat \<Rightarrow> pcmd \<Rightarrow> nat set" where
  "ends_of len c = (\<lambda>(q, eq). len - length eq) ` set_cmd c"

lemma nth_update: "j < length xs \<Longrightarrow> xs[i := x] ! j = (if i = j then x else xs ! j)"
  by (cases "i < length xs") (auto simp: list_update_beyond)

lemma fold_zeros:
  "length (fold (\<lambda>(q, eq) buf. buf[len - length eq := 0]) av buf) = length buf"
  "i < length buf \<Longrightarrow> fold (\<lambda>(q, eq) buf. buf[len - length eq := 0]) av buf ! i = (if i \<in> (\<lambda>(q, eq). len - length eq) ` set av then 0 else buf ! i)"
  for buf :: "byte list"
  by (induction av arbitrary: buf) (auto simp: nth_update)

lemma nulterminate_nth:
  "length (nulterminate len c buf) = length buf \<and> (\<forall>i<length buf. nulterminate len c buf ! i = (if i \<in> ends_of len c then 0 else buf ! i))"
proof (induction len c buf rule: nulterminate.induct)
  case (1 len av buf)
  then show ?case using fold_zeros [where av = av and buf = buf and len = len] by (simp add: ends_of_def)
qed (auto simp: ends_of_def nth_update)

lemma not_word_end: "dropWhile is_word q \<noteq> [] \<Longrightarrow> \<not> is_word (hd (dropWhile is_word q))"
  by (rule hd_dropWhile)

lemma word_not_end:
  assumes t: "tokens s c" and i: "i < length s" "is_word (s ! i)"
  shows "i \<notin> ends_of (length s) c"
proof
  assume "i \<in> ends_of (length s) c"
  then obtain q where q: "suffix q s" "i = length s - length (dropWhile is_word q)" using t by (auto simp: ends_of_def tokens_def)
  then have "suffix (dropWhile is_word q) s" using suffix_dropWhile suffix_order.trans by blast
  then obtain u where u: "s = u @ dropWhile is_word q" by (auto simp: suffix_def)
  then have "i = length u" using q(2) by (metis add_diff_cancel_right' length_append)
  then have "s ! i = hd (dropWhile is_word q)" "dropWhile is_word q \<noteq> []" using u i(1) by (metis hd_conv_nth nth_append_length_plus Nat.add_0_right append_Nil2 less_irrefl)+
  then show False using i(2) not_word_end [of q] by simp
qed

lemma string_word:
  assumes t: "tokens s c" and w: "(q, eq) \<in> set_cmd c" and z: "0 \<notin> set s" and buf: "buf = s @ 0 # r"
  shows "string_at (length s) (nulterminate (length s) c buf) q = takeWhile is_word q"
proof -
  let ?b = "nulterminate (length s) c buf" and ?k = "length (takeWhile is_word q)"
  obtain u where u: "s = u @ q" and e: "eq = dropWhile is_word q" using t w by (auto simp: tokens_def suffix_def)
  have lq: "length q = ?k + length eq" unfolding e by (metis length_append takeWhile_dropWhile_id)
  note n = nulterminate_nth [of "length s" c buf]
  have in_word: "?b ! (length u + j) = q ! j" if "j < ?k" for j
  proof -
    have "length u + j < length s" "s ! (length u + j) = q ! j" using that lq by (simp_all add: u)
    moreover have "is_word (q ! j)" using that by (metis nth_mem set_takeWhileD takeWhile_nth)
    ultimately show ?thesis using word_not_end [OF t, of "length u + j"] n buf by (simp add: nth_append)
  qed
  have "length u + ?k = length s - length eq" using lq by (simp add: u)
  then have "length u + ?k \<in> ends_of (length s) c" using w by (force simp: ends_of_def)
  then have at_end: "?b ! (length u + ?k) = 0" using n buf lq by (simp add: u)
  have "takeWhile (\<lambda>b. b \<noteq> 0) (drop (length u) ?b) = take ?k (drop (length u) ?b)"
  proof (rule takeWhile_eq_take_P_nth)
    fix j assume "j < ?k" "j < length (drop (length u) ?b)"
    moreover have "q ! j \<noteq> 0" if "j < ?k" for j using z u that lq by (metis Un_iff nth_mem set_append trans_less_add1)
    ultimately show "drop (length u) ?b ! j \<noteq> 0" using in_word by simp
  qed (use at_end in simp)
  also have "\<dots> = takeWhile is_word q"
    using in_word n buf lq by (intro nth_equalityI) (simp_all add: u takeWhile_nth)
  finally show ?thesis using u by (simp add: string_at_def)
qed

lemma strings_words:
  assumes "tokens s c" "0 \<notin> set s" "buf = s @ 0 # r"
  shows "strings (length s) (nulterminate (length s) c buf) c = map_cmd (\<lambda>(q, eq). takeWhile is_word q) c"
  unfolding strings_def by (rule cmd.map_cong) (use string_word [OF assms(1) _ assms(2,3)] in auto)

lemma strlen_zero: "0 \<notin> set s \<Longrightarrow> strlen_user (s @ 0 # r) = length s"
  by (induction s) auto

lemma strlen_take: "0 \<in> set buf \<Longrightarrow> \<exists>r. buf = take (strlen_user buf) buf @ 0 # r \<and> 0 \<notin> set (take (strlen_user buf) buf) \<and> strlen_user buf < length buf"
  by (induction buf) auto

section \<open>What is written can be read\<close>

text \<open>More fuel does not change an answer.\<close>

definition below :: "'a parsed \<Rightarrow> 'a parsed \<Rightarrow> bool" where
  "below r r' \<longleftrightarrow> r = Fuel \<or> r = r'"

lemma below_refl: "below r r"
  by (simp add: below_def)

lemma below_bind:
  assumes "below m m'" "\<And>x. below (k x) (k' x)"
  shows "below (pbind m k) (pbind m' k')"
proof (cases m)
  case (Parsed x)
  then show ?thesis using assms(1) assms(2) [of x] by (auto simp: below_def)
qed (use assms(1) in \<open>auto simp: below_def\<close>)

lemma below_prod: "(\<And>x y. below (k x y) (k' x y)) \<Longrightarrow> below (case p of (x, y) \<Rightarrow> k x y) (case p of (x, y) \<Rightarrow> k' x y)"
  by (cases p) simp

lemma below_if: "below a a' \<Longrightarrow> below b b' \<Longrightarrow> below (if c then a else b) (if c then a' else b')"
  by simp

lemma parser_below:
  "below (parseline n s) (parseline (Suc n) s) \<and> below (parsepipe n s) (parsepipe (Suc n) s) \<and>
   below (parseexec n s) (parseexec (Suc n) s) \<and> below (parseblock n s) (parseblock (Suc n) s)"
proof (induction n arbitrary: s)
  case 0
  then show ?case by (simp add: below_def)
next
  case (Suc n)
  then show ?case
    unfolding parseline.simps(2) [of "Suc n"] parseline.simps(2) [of n] parsepipe.simps(2) [of "Suc n"] parsepipe.simps(2) [of n]
      parseexec.simps(2) [of "Suc n"] parseexec.simps(2) [of n] parseblock.simps(2) [of "Suc n"] parseblock.simps(2) [of n]
    by (intro conjI below_bind below_prod below_if below_refl) simp_all
qed

lemma parseline_more:
  assumes "parseline n s \<noteq> Fuel" "n \<le> m"
  shows "parseline m s = parseline n s"
  using assms(2)
proof (induction m rule: dec_induct)
  case (step m)
  then show ?case using parser_below [of m s] assms(1) by (auto simp: below_def)
qed simp

text \<open>
  A command as text: words are followed by a blank, every part of a compound command is in
  parentheses.
\<close>

fun unparse :: "byte list cmd \<Rightarrow> byte list" where
  "unparse (EXEC ws) = concat (map (\<lambda>w. w @ [32]) ws)"
| "unparse (REDIR c f m fd) = 40 # unparse c @ 41 # (if fd = 0 then 60 else 62) # f @ [32]"
| "unparse (PIPE c d) = 40 # unparse c @ 41 # 124 # 40 # unparse d @ [41]"
| "unparse (LIST c d) = 40 # unparse c @ 41 # 59 # 40 # unparse d @ [41]"
| "unparse (BACK c) = 40 # unparse c @ [41, 38]"

definition valid_word :: "byte list \<Rightarrow> bool" where
  "valid_word w \<longleftrightarrow> w \<noteq> [] \<and> (\<forall>b\<in>set w. b \<noteq> 0 \<and> is_word b)"

fun valid :: "byte list cmd \<Rightarrow> bool" where
  "valid (EXEC ws) \<longleftrightarrow> length ws < MAXARGS \<and> (\<forall>w\<in>set ws. valid_word w)"
| "valid (REDIR c f m fd) \<longleftrightarrow> valid c \<and> valid_word f \<and> (m = O_RDONLY \<and> fd = 0 \<or> m = O_WRONLY OR O_CREATE \<and> fd = 1)"
| "valid (PIPE c d) \<longleftrightarrow> valid c \<and> valid d"
| "valid (LIST c d) \<longleftrightarrow> valid c \<and> valid d"
| "valid (BACK c) \<longleftrightarrow> valid c"

lemma byte_kinds [simp]:
  "is_space 32" "\<not> is_space 0" "\<not> is_space 40" "\<not> is_space 41" "\<not> is_space 124" "\<not> is_space 59" "\<not> is_space 38" "\<not> is_space 60" "\<not> is_space 62"
  "\<not> is_word 32" "\<not> is_word 40" "\<not> is_word 41" "\<not> is_word 124" "\<not> is_word 59" "\<not> is_word 38" "\<not> is_word 60" "\<not> is_word 62"
  by (simp_all add: is_space_def is_word_def whitespace_def symbols_def)

lemma word_byte: "is_word b \<Longrightarrow> \<not> is_space b \<and> strchr [60, 62] b = None \<and> strchr [124, 41, 38, 59] b = None \<and> b \<notin> {124, 40, 41, 59, 38, 60, 62}"
  by (auto simp: is_space_def is_word_def whitespace_def symbols_def)

lemma deref_simps [simp]: "deref [] = 0" "deref (b # s) = b"
  by (simp_all add: deref_def)

lemma skip_plain: "\<not> is_space (deref s) \<Longrightarrow> skip_space s = s"
  by (cases s) (simp_all add: skip_space_def)

lemma peek_plain: "\<not> is_space (deref s) \<Longrightarrow> peek s toks = (deref s \<noteq> 0 \<and> strchr toks (deref s) \<noteq> None, s)"
  by (simp add: peek_def skip_plain Let_def)

lemma next_symbol: "b \<in> {124, 40, 41, 59, 38, 60} \<Longrightarrow> \<not> is_space (deref s) \<Longrightarrow> next_token (b # s) = s"
  by (auto simp: next_token_def gettoken_def skip_plain Let_def)

lemma valid_wordE:
  assumes "valid_word w"
  obtains b w' where "w = b # w'" "b \<noteq> 0" "is_word b" "\<forall>b\<in>set w. is_word b"
  using assms by (cases w) (auto simp: valid_word_def)

lemma gettoken_word:
  assumes "valid_word w" "\<not> is_space (deref s)"
  shows "gettoken (w @ 32 # s) = (97, w @ 32 # s, 32 # s, s)"
proof -
  obtain b w' where w: "w = b # w'" "b \<noteq> 0" "is_word b" "\<forall>b\<in>set w. is_word b" by (rule valid_wordE [OF assms(1)])
  have "dropWhile is_word (w @ 32 # s) = 32 # s" "takeWhile is_word (w @ 32 # s) = w" using w(4) by simp_all
  moreover have "skip_space (32 # s) = s" using skip_plain [OF assms(2)] by (simp add: skip_space_def)
  ultimately show ?thesis using w word_byte [OF w(3)] by (simp add: gettoken_def skip_plain Let_def)
qed

lemma redirs_none: "\<not> is_space (deref s) \<Longrightarrow> deref s \<noteq> 60 \<Longrightarrow> deref s \<noteq> 62 \<Longrightarrow> parseredirs cmd s = Parsed (cmd, s)"
  by (subst parseredirs.simps) (simp add: peek_plain)

lemma redirs_one:
  assumes "valid_word f" "\<not> is_space (deref s)" "deref s \<noteq> 60" "deref s \<noteq> 62"
  shows "parseredirs cmd (60 # f @ 32 # s) = Parsed (REDIR cmd (f @ 32 # s, 32 # s) O_RDONLY 0, s)"
    "parseredirs cmd (62 # f @ 32 # s) = Parsed (REDIR cmd (f @ 32 # s, 32 # s) (O_WRONLY OR O_CREATE) 1, s)"
proof -
  obtain b w' where w: "f = b # w'" "is_word b" by (rule valid_wordE [OF assms(1)])
  have "gettoken (60 # f @ 32 # s) = (60, 60 # f @ 32 # s, f @ 32 # s, f @ 32 # s)"
    "gettoken (62 # f @ 32 # s) = (62, 62 # f @ 32 # s, f @ 32 # s, f @ 32 # s)"
    using w word_byte [OF w(2)] by (auto simp: gettoken_def skip_plain Let_def)
  then show "parseredirs cmd (60 # f @ 32 # s) = Parsed (REDIR cmd (f @ 32 # s, 32 # s) O_RDONLY 0, s)"
    "parseredirs cmd (62 # f @ 32 # s) = Parsed (REDIR cmd (f @ 32 # s, 32 # s) (O_WRONLY OR O_CREATE) 1, s)"
    using gettoken_word [OF assms(1,2)] redirs_none [OF assms(2-4)]
    by (subst parseredirs.simps, simp add: peek_plain redirect_def)+
qed

abbreviation (input) words :: "pcmd \<Rightarrow> byte list cmd" where
  "words c \<equiv> map_cmd (\<lambda>(q, eq). takeWhile is_word q) c"

text \<open>Where a command may stop: at the end of the line or before a closing parenthesis.\<close>

definition stops :: "cursor \<Rightarrow> bool" where
  "stops s \<longleftrightarrow> s = [] \<or> deref s = 41"

lemma stops_plain: "stops s \<Longrightarrow> \<not> is_space (deref s) \<and> deref s \<notin> {60, 62, 124, 38, 59}"
  by (auto simp: stops_def)

lemma text_plain:
  assumes "\<forall>w\<in>set ws. valid_word w" "stops s"
  shows "\<not> is_space (deref (unparse (EXEC ws) @ s)) \<and> deref (unparse (EXEC ws) @ s) \<notin> {40, 60, 62}"
proof (cases ws)
  case Nil
  then show ?thesis using assms(2) by (auto simp: stops_def)
next
  case (Cons w ws')
  then obtain b w' where w: "w = b # w'" "is_word b" using assms(1) valid_wordE by (metis list.set_intros(1))
  then show ?thesis using Cons word_byte [OF w(2)] by auto
qed

lemma args_run:
  assumes "\<forall>w\<in>set ws. valid_word w" "argc + length ws < MAXARGS" "stops s" "length (unparse (EXEC ws)) < n"
  shows "\<exists>av. parse_args n (EXEC av0) argc (unparse (EXEC ws) @ s) = Parsed (EXEC (av0 @ av), s) \<and> map (\<lambda>(q, eq). takeWhile is_word q) av = ws"
  using assms
proof (induction ws arbitrary: argc av0 n)
  case Nil
  then obtain k where k: "n = Suc k" by (cases n) auto
  show ?case using Nil(3) unfolding k stops_def by (auto simp: peek_plain gettoken_def skip_plain)
next
  case (Cons w ws)
  let ?s = "unparse (EXEC ws) @ s"
  have v: "valid_word w" "\<forall>w\<in>set ws. valid_word w" using Cons.prems(1) by simp_all
  obtain b w' where w: "w = b # w'" "b \<noteq> 0" "is_word b" "\<forall>b\<in>set w. is_word b" by (rule valid_wordE [OF v(1)])
  note pl = text_plain [OF v(2) Cons.prems(3)]
  have g: "gettoken (w @ 32 # ?s) = (97, w @ 32 # ?s, 32 # ?s, ?s)" by (rule gettoken_word [OF v(1)]) (use pl in simp)
  have r: "parseredirs cmd ?s = Parsed (cmd, ?s)" for cmd by (rule redirs_none) (use pl in simp_all)
  have p: "peek (w @ 32 # ?s) [124, 41, 38, 59] = (False, w @ 32 # ?s)" using w word_byte [OF w(3)] by (simp add: peek_plain)
  obtain k where k: "n = Suc k" "length (unparse (EXEC ws)) < k" using Cons.prems(4) by (cases n) auto
  obtain av where av: "parse_args k (EXEC (av0 @ [(w @ 32 # ?s, 32 # ?s)])) (argc + 1) ?s = Parsed (EXEC ((av0 @ [(w @ 32 # ?s, 32 # ?s)]) @ av), s)"
      "map (\<lambda>(q, eq). takeWhile is_word q) av = ws"
    using Cons.IH [of "argc + 1" k "av0 @ [(w @ 32 # ?s, 32 # ?s)]"] v(2) Cons.prems(2,3) k(2) by auto
  have "unparse (EXEC (w # ws)) @ s = w @ 32 # ?s" by simp
  moreover have "parse_args n (EXEC av0) argc (w @ 32 # ?s) = Parsed (EXEC (av0 @ (w @ 32 # ?s, 32 # ?s) # av), s)"
    using p g r av(1) Cons.prems(2) by (simp add: k(1) del: unparse.simps)
  moreover have "takeWhile is_word (w @ 32 # ?s) = w" using w(4) by simp
  ultimately show ?case using av(2) by (intro exI [of _ "(w @ 32 # ?s, 32 # ?s) # av"]) (simp del: unparse.simps)
qed

text \<open>With enough fuel, \<open>f\<close> reads the command \<open>c\<close> and stops at \<open>s'\<close>.\<close>

definition yields :: "(nat \<Rightarrow> cursor \<Rightarrow> (pcmd \<times> cursor) parsed) \<Rightarrow> cursor \<Rightarrow> byte list cmd \<Rightarrow> cursor \<Rightarrow> bool" where
  "yields f s c s' \<longleftrightarrow> (\<exists>N t. words t = c \<and> (\<forall>n\<ge>N. f n s = Parsed (t, s')))"

lemma yieldsI:
  assumes "words t = c" "\<And>n. N \<le> n \<Longrightarrow> f (Suc n) s = Parsed (t, s')"
  shows "yields f s c s'"
proof -
  have "f n s = Parsed (t, s')" if "Suc N \<le> n" for n using assms(2) [of "n - 1"] that by (cases n) auto
  then show ?thesis using assms(1) by (auto simp: yields_def)
qed

lemma exec_words:
  assumes "valid (EXEC ws)" "stops s"
  shows "yields parseexec (unparse (EXEC ws) @ s) (EXEC ws) s"
proof -
  let ?s = "unparse (EXEC ws) @ s"
  have v: "\<forall>w\<in>set ws. valid_word w" "length ws < MAXARGS" using assms(1) by simp_all
  note pl = text_plain [OF v(1) assms(2)]
  have p: "peek ?s [40] = (False, ?s)" using peek_plain [of ?s "[40]"] pl by simp
  have r: "parseredirs (EXEC []) ?s = Parsed (EXEC [], ?s)" by (rule redirs_none) (use pl in simp_all)
  obtain av where av: "parse_args (Suc (length ?s)) (EXEC []) 0 ?s = Parsed (EXEC av, s)" "map (\<lambda>(q, eq). takeWhile is_word q) av = ws"
    using args_run [OF v(1) _ assms(2), of 0 "Suc (length ?s)" "[]"] v(2) by auto
  show ?thesis
    by (rule yieldsI [of "EXEC av"]) (use p r av in \<open>simp_all del: parse_args.simps unparse.simps\<close>)
qed

lemma exec_block:
  assumes "yields parseline (unparse c @ 41 # s) c (41 # s)" "\<not> is_space (deref (unparse c @ 41 # s))" "\<not> is_space (deref s)"
    "\<And>t. words t = c \<Longrightarrow> \<exists>t'. parseredirs t s = Parsed (t', s') \<and> words t' = c'"
  shows "yields parseexec (40 # unparse c @ 41 # s) c' s'"
proof -
  obtain N t where t: "words t = c" "\<And>n. N \<le> n \<Longrightarrow> parseline n (unparse c @ 41 # s) = Parsed (t, 41 # s)" using assms(1) by (auto simp: yields_def)
  obtain t' where t': "parseredirs t s = Parsed (t', s')" "words t' = c'" using assms(4) [OF t(1)] by blast
  have "parseexec (Suc n) (40 # unparse c @ 41 # s) = Parsed (t', s')" if l: "Suc N \<le> n" for n
  proof -
    obtain k where k: "n = Suc k" "N \<le> k" using l by (cases n) auto
    show ?thesis using t(2) [OF k(2)] t'(1) assms(2,3) by (simp add: k(1) peek_plain next_symbol)
  qed
  then show ?thesis using t'(2) by (rule yieldsI [rotated])
qed

lemma pipe_last:
  assumes "yields parseexec s c s'" "\<not> is_space (deref s')" "deref s' \<noteq> 124"
  shows "yields parsepipe s c s'"
proof -
  obtain N t where t: "words t = c" "\<And>n. N \<le> n \<Longrightarrow> parseexec n s = Parsed (t, s')" using assms(1) by (auto simp: yields_def)
  show ?thesis by (rule yieldsI [of t c N]) (use t assms(2,3) in \<open>simp_all add: peek_plain\<close>)
qed

lemma pipe_more:
  assumes "yields parseexec s c (124 # s')" "yields parsepipe s' d s2" "\<not> is_space (deref s')"
  shows "yields parsepipe s (PIPE c d) s2"
proof -
  obtain N t where t: "words t = c" "\<And>n. N \<le> n \<Longrightarrow> parseexec n s = Parsed (t, 124 # s')" using assms(1) by (auto simp: yields_def)
  obtain M u where u: "words u = d" "\<And>n. M \<le> n \<Longrightarrow> parsepipe n s' = Parsed (u, s2)" using assms(2) by (auto simp: yields_def)
  show ?thesis by (rule yieldsI [of "PIPE t u" _ "max N M"]) (use t u assms(3) in \<open>simp_all add: peek_plain next_symbol\<close>)
qed

lemma line_last:
  assumes "yields parsepipe s c s'" "\<not> is_space (deref s')" "deref s' \<notin> {38, 59}"
  shows "yields parseline s c s'"
proof -
  obtain N t where t: "words t = c" "\<And>n. N \<le> n \<Longrightarrow> parsepipe n s = Parsed (t, s')" using assms(1) by (auto simp: yields_def)
  show ?thesis by (rule yieldsI [of t c N]) (use t assms(2,3) in \<open>simp_all add: peek_plain\<close>)
qed

lemma line_back:
  assumes "yields parsepipe s c (38 # s')" "\<not> is_space (deref s')" "deref s' \<notin> {38, 59}"
  shows "yields parseline s (BACK c) s'"
proof -
  obtain N t where t: "words t = c" "\<And>n. N \<le> n \<Longrightarrow> parsepipe n s = Parsed (t, 38 # s')" using assms(1) by (auto simp: yields_def)
  show ?thesis by (rule yieldsI [of "BACK t" _ N]) (use t assms(2,3) in \<open>simp_all add: peek_plain next_symbol\<close>)
qed

lemma line_list:
  assumes "yields parsepipe s c (59 # s')" "yields parseline s' d s2" "\<not> is_space (deref s')"
  shows "yields parseline s (LIST c d) s2"
proof -
  obtain N t where t: "words t = c" "\<And>n. N \<le> n \<Longrightarrow> parsepipe n s = Parsed (t, 59 # s')" using assms(1) by (auto simp: yields_def)
  obtain M u where u: "words u = d" "\<And>n. M \<le> n \<Longrightarrow> parseline n s' = Parsed (u, s2)" using assms(2) by (auto simp: yields_def)
  show ?thesis by (rule yieldsI [of "LIST t u" _ "max N M"]) (use t u assms(3) in \<open>simp_all add: peek_plain next_symbol\<close>)
qed

lemma unparse_plain: "valid c \<Longrightarrow> stops s \<Longrightarrow> \<not> is_space (deref (unparse c @ s))"
proof (cases c)
  case (EXEC ws)
  then show "valid c \<Longrightarrow> stops s \<Longrightarrow> \<not> is_space (deref (unparse c @ s))" using text_plain [of ws s] by simp
qed simp_all

lemma block:
  assumes "yields parseline (unparse c @ 41 # s) c (41 # s)" "valid c" "\<not> is_space (deref s)" "deref s \<noteq> 60" "deref s \<noteq> 62"
  shows "yields parseexec (40 # unparse c @ 41 # s) c s"
  by (rule exec_block [OF assms(1) unparse_plain [OF assms(2)] assms(3)]) (use redirs_none [OF assms(3-5)] in \<open>auto simp: stops_def\<close>)

lemma line_run: "valid c \<Longrightarrow> stops s \<Longrightarrow> yields parseline (unparse c @ s) c s"
proof (induction c arbitrary: s)
  case (EXEC ws)
  then show ?case using stops_plain [of s] by (intro line_last pipe_last exec_words) auto
next
  case (REDIR c f m fd)
  have b: "yields parseline (unparse c @ 41 # x) c (41 # x)" for x using REDIR by (simp add: stops_def)
  have v: "valid_word f" "valid c" using REDIR.prems(1) by simp_all
  note pl = stops_plain [OF REDIR.prems(2)]
  let ?r = "(if fd = 0 then 60 else 62) # f @ 32 # s"
  have "\<exists>t'. parseredirs t ?r = Parsed (t', s) \<and> words t' = REDIR c f m fd" if "words t = c" for t
    using redirs_one [OF v(1), of s t] pl REDIR.prems(1) that v(1) by (auto simp: valid_word_def)
  then have "yields parseexec (40 # unparse c @ 41 # ?r) (REDIR c f m fd) s"
    by (intro exec_block [OF b unparse_plain [OF v(2)]]) (auto simp: stops_def)
  then show ?case using pl by (intro line_last pipe_last) auto
next
  case (PIPE c d)
  then have "yields parseexec (40 # unparse c @ 41 # 124 # 40 # unparse d @ 41 # s) c (124 # 40 # unparse d @ 41 # s)"
    "yields parseexec (40 # unparse d @ 41 # s) d s"
    using stops_plain [OF PIPE.prems(2)] by (auto intro!: block simp: stops_def)
  then show ?case using stops_plain [OF PIPE.prems(2)] by (auto intro!: line_last [OF pipe_more] pipe_last)
next
  case (LIST c d)
  then have "yields parseexec (40 # unparse c @ 41 # 59 # 40 # unparse d @ 41 # s) c (59 # 40 # unparse d @ 41 # s)"
    "yields parseexec (40 # unparse d @ 41 # s) d s"
    using stops_plain [OF LIST.prems(2)] by (auto intro!: block simp: stops_def)
  then show ?case using stops_plain [OF LIST.prems(2)] by (auto intro!: line_list [OF pipe_last line_last] pipe_last)
next
  case (BACK c)
  then have "yields parseexec (40 # unparse c @ 41 # 38 # s) c (38 # s)" by (auto intro!: block simp: stops_def)
  then show ?case using stops_plain [OF BACK.prems(2)] by (auto intro!: line_back pipe_last)
qed

lemma unparse_nonzero: "valid c \<Longrightarrow> 0 \<notin> set (unparse c)"
  by (induction c) (auto simp: valid_word_def)

lemma parsecmd_cases:
  assumes "0 \<in> set buf"
  shows "case parsecmd buf of Parsed (t, buf') \<Rightarrow> strings (strlen_user buf) buf' t = words t | Bad e \<Rightarrow> True | Fuel \<Rightarrow> False"
proof -
  let ?n = "strlen_user buf" and ?s = "take (strlen_user buf) buf"
  obtain r where r: "buf = ?s @ 0 # r" "0 \<notin> set ?s" "?n < length buf" using strlen_take [OF assms] by blast
  then have l: "length ?s = ?n" by simp
  have a: "answers (length ?s) (parseline (4 * ?n + 4) ?s)" using parser_answers [of ?s "4 * ?n + 4"] l by simp
  have s: "sound ?s (parseline (4 * ?n + 4) ?s)" using parser_sound [of ?s ?s] by simp
  show ?thesis
  proof (cases "parseline (4 * ?n + 4) ?s")
    case (Parsed x)
    obtain t s' where x: "x = (t, s')" by (cases x)
    have "tokens ?s t" using s Parsed x by (simp add: sound_def)
    then have "strings ?n (nulterminate ?n t buf) t = words t" using strings_words [OF _ r(2,1)] l by simp
    then show ?thesis using Parsed x by (simp add: parsecmd_def Let_def peek_def)
  qed (use a in \<open>simp_all add: parsecmd_def Let_def answers_def\<close>)
qed

text \<open>
  C36: The parser of the shell answers on every line, with a command or with a message, and
  never runs on; and after \<open>nulterminate\<close> the strings a command points to are exactly its
  words, although all of them are cut out of one buffer.
\<close>
theorem parsecmd_answers:
  assumes "0 \<in> set buf"
  shows "case parsecmd buf of
       Parsed (t, buf') \<Rightarrow> strings (strlen_user buf) buf' t = map_cmd (\<lambda>(q, eq). takeWhile is_word q) t
     | Bad e \<Rightarrow> True | Fuel \<Rightarrow> False"
  by (rule parsecmd_cases [OF assms])

text \<open>
  C35: Every command, however its pipes, lists, redirections and background jobs are nested,
  can be written as a line from which the parser builds that command, with at most nine
  words per program.
\<close>
theorem shell_roundtrip:
  assumes "valid c"
  shows "\<exists>t buf. parsecmd (unparse c @ [0]) = Parsed (t, buf) \<and> strings (length (unparse c)) buf t = c"
proof -
  let ?s = "unparse c" and ?buf = "unparse c @ [0]"
  have len: "strlen_user ?buf = length ?s" using strlen_zero [OF unparse_nonzero [OF assms], of "[]"] by simp
  obtain N t where t: "words t = c" "\<And>n. N \<le> n \<Longrightarrow> parseline n ?s = Parsed (t, [])"
    using line_run [OF assms, of "[]"] by (auto simp: yields_def stops_def)
  have "answers (length ?s) (parseline (4 * length ?s + 4) ?s)" using parser_answers [of ?s] by blast
  then have "parseline (4 * length ?s + 4) ?s \<noteq> Fuel" by (auto simp: answers_def)
  then have "parseline (4 * length ?s + 4) ?s = Parsed (t, [])"
    using parseline_more [of _ ?s "N + (4 * length ?s + 4)"] t(2) [of "N + (4 * length ?s + 4)"] by simp
  then have p: "parsecmd ?buf = Parsed (t, nulterminate (length ?s) t ?buf)"
    unfolding parsecmd_def len by (simp add: Let_def peek_def skip_space_def)
  then show ?thesis using parsecmd_cases [of ?buf] t(1) len by simp
qed

definition demo_cmd :: "byte list cmd" where
  "demo_cmd = LIST (REDIR (PIPE (EXEC [[108, 115]]) (EXEC [[103, 114, 101, 112], [97, 42]])) [102] (O_WRONLY OR O_CREATE) 1) (BACK (EXEC []))"

lemma demo_cmd_valid: "valid demo_cmd"
  by (simp add: demo_cmd_def valid_word_def is_word_def whitespace_def symbols_def)

theorem shell_roundtrip_witness:
  "\<exists>t buf. parsecmd (unparse demo_cmd @ [0]) = Parsed (t, buf) \<and> strings (length (unparse demo_cmd)) buf t = demo_cmd"
  by (rule shell_roundtrip [OF demo_cmd_valid])

theorem parsecmd_answers_witness:
  "\<exists>t buf'. parsecmd [97, 32, 98, 0] = Parsed (t, buf') \<and> strings 3 buf' t = EXEC [[97], [98]]"
proof -
  have "parsecmd [97, 32, 98, 0] = Parsed (EXEC [([97, 32, 98], [32, 98]), ([98], [])], [97, 0, 98, 0])"
    by code_simp
  then show ?thesis using parsecmd_answers [of "[97, 32, 98, 0]"] by (simp add: numeral_3_eq_3 is_word_def whitespace_def symbols_def)
qed

end
