(* ===== verification/Mkfs.thy ===== *)
theory Mkfs
  imports FsFile CString
begin

text \<open>
  \<open>mkfs.c\<close>, the host program that writes the first file system image. Given its arguments as
  names and contents, it is proved to succeed when they fit, and its image to be a file
  system in the sense of the theorems on \<open>fs.c\<close> and \<open>log.c\<close>: the bitmap, the inodes and their
  block maps fit together, every file has its bytes, and the log is empty.
\<close>

section \<open>The program\<close>

abbreviation (input) NINODES :: nat where "NINODES \<equiv> 200"

definition nbitmap :: nat where "nbitmap = FSSIZE div (BSIZE * 8) + 1"

definition ninodeblocks :: nat where "ninodeblocks = NINODES div IPB + 1"

definition nmeta :: nat where "nmeta = 2 + LOGSIZE + ninodeblocks + nbitmap"

text \<open>The superblock; \<open>xint\<close> and \<open>xshort\<close> are the byte order of the encoding functions.\<close>

definition mk_sb :: superblock where
  "mk_sb = \<lparr>sb_size = FSSIZE, sb_nblocks = FSSIZE - nmeta, sb_ninodes = NINODES, sb_nlog = LOGSIZE,
     sb_logstart = 2, sb_inodestart = 2 + LOGSIZE, sb_bmapstart = 2 + LOGSIZE + ninodeblocks\<rparr>"

record mkst =
  img :: "nat \<Rightarrow> byte list"
  freeinode :: nat
  freeblock :: nat

text \<open>
  \<open>rsect\<close> fails past the end of the image, which has \<open>FSSIZE\<close> sectors from the start; the
  program then exits, as it does when an assertion fails.
\<close>

definition wsect :: "nat \<Rightarrow> byte list \<Rightarrow> mkst \<Rightarrow> mkst" where
  "wsect sec buf m = m\<lparr>img := (img m)(sec := buf)\<rparr>"

definition rsect :: "nat \<Rightarrow> mkst \<Rightarrow> byte list option" where
  "rsect sec m = (if sec < FSSIZE then Some (img m sec) else None)"

definition winode :: "nat \<Rightarrow> dinode \<Rightarrow> mkst \<Rightarrow> mkst option" where
  "winode inum ip m =
     (let bn = IBLOCK inum mk_sb in
      case rsect bn m of None \<Rightarrow> None | Some buf \<Rightarrow> Some (wsect bn (put_dinode buf inum ip) m))"

definition rinode :: "nat \<Rightarrow> mkst \<Rightarrow> dinode option" where
  "rinode inum m = map_option (\<lambda>buf. dinode_at buf inum) (rsect (IBLOCK inum mk_sb) m)"

definition mk_ialloc :: "u16 \<Rightarrow> mkst \<Rightarrow> (nat \<times> mkst) option" where
  "mk_ialloc ty m =
     (let inum = freeinode m in
      map_option (Pair inum) (winode inum ((new_dinode ty)\<lparr>di_nlink := 1\<rparr>) (m\<lparr>freeinode := inum + 1\<rparr>)))"

definition mk_balloc :: "nat \<Rightarrow> mkst \<Rightarrow> mkst option" where
  "mk_balloc n m =
     (if n < BSIZE * 8 then
        Some (wsect (sb_bmapstart mk_sb) (fold (\<lambda>i buf. mark_used buf i) [0..<n] (replicate BSIZE 0)) m)
      else None)"

text \<open>
  The block of \<open>iappend\<close> for file block \<open>fbn\<close>, allocated when there is none: the block, the
  inode and the state. Block numbers come one after the other from \<open>freeblock\<close>.
\<close>

definition take_block :: "mkst \<Rightarrow> u32 \<times> mkst" where
  "take_block m = (of_nat (freeblock m), m\<lparr>freeblock := freeblock m + 1\<rparr>)"

definition set_addr :: "nat \<Rightarrow> dinode \<Rightarrow> mkst \<Rightarrow> dinode \<times> mkst" where
  "set_addr k din m =
     (if di_addrs din ! k = 0 then
        case take_block m of (b, m) \<Rightarrow> (din\<lparr>di_addrs := (di_addrs din)[k := b]\<rparr>, m)
      else (din, m))"

definition file_block :: "nat \<Rightarrow> dinode \<Rightarrow> mkst \<Rightarrow> (nat \<times> dinode \<times> mkst) option" where
  "file_block fbn din m =
     (if fbn < NDIRECT then
        case set_addr fbn din m of (din, m) \<Rightarrow> Some (unat (di_addrs din ! fbn), din, m)
      else
        case set_addr NDIRECT din m of (din, m) \<Rightarrow>
        let x = unat (di_addrs din ! NDIRECT); e = 4 * (fbn - NDIRECT) in
        case rsect x m of None \<Rightarrow> None
        | Some indirect \<Rightarrow>
            if get32 indirect e = 0 then
              case take_block m of (b, m) \<Rightarrow> Some (unat b, din, wsect x (put32 indirect e b) m)
            else Some (unat (get32 indirect e), din, m))"

function iappend_loop :: "dinode \<Rightarrow> nat \<Rightarrow> byte list \<Rightarrow> mkst \<Rightarrow> (dinode \<times> nat \<times> mkst) option" where
  "iappend_loop din off p m =
     (if p = [] then Some (din, off, m)
      else let fbn = off div BSIZE in
        if \<not> fbn < MAXFILE then None
        else case file_block fbn din m of None \<Rightarrow> None
        | Some (x, din, m) \<Rightarrow>
            let n1 = min (length p) ((fbn + 1) * BSIZE - off) in
            case rsect x m of None \<Rightarrow> None
            | Some buf \<Rightarrow> iappend_loop din (off + n1) (drop n1 p) (wsect x (bsplice (off - fbn * BSIZE) (take n1 p) buf) m))"
  by pat_completeness auto
termination
  by (relation "measure (\<lambda>(_, _, p, _). length p)") (auto simp: less_Suc_eq_le algebra_simps dividend_less_times_div)

definition iappend :: "nat \<Rightarrow> byte list \<Rightarrow> mkst \<Rightarrow> mkst option" where
  "iappend inum p m =
     (case rinode inum m of None \<Rightarrow> None
      | Some din \<Rightarrow>
          case iappend_loop din (unat (di_size din)) p m of None \<Rightarrow> None
          | Some (din, off, m) \<Rightarrow> winode inum (din\<lparr>di_size := of_nat off\<rparr>) m)"

text \<open>\<open>main\<close>: the directory entries, and one file after the other, read in blocks.\<close>

definition mk_dirent :: "nat \<Rightarrow> byte list \<Rightarrow> byte list" where
  "mk_dirent inum name = enc_dirent \<lparr>de_inum = of_nat inum, de_name = strncpy (of_list name) DIRSIZ\<rparr>"

function copy_file :: "nat \<Rightarrow> byte list \<Rightarrow> mkst \<Rightarrow> mkst option" where
  "copy_file inum d m =
     (if d = [] then Some m
      else case iappend inum (take BSIZE d) m of None \<Rightarrow> None | Some m \<Rightarrow> copy_file inum (drop BSIZE d) m)"
  by pat_completeness auto
termination
  by (relation "measure (\<lambda>(_, d, _). length d)") auto

definition skip_underscore :: "byte list \<Rightarrow> byte list" where
  "skip_underscore name = (case name of [] \<Rightarrow> [] | c # cs \<Rightarrow> if c = 95 then cs else name)"

definition add_file :: "byte list \<times> byte list \<Rightarrow> mkst \<Rightarrow> mkst option" where
  "add_file f m =
     (case f of (name, d) \<Rightarrow>
      if 47 \<in> set name then None
      else case mk_ialloc T_FILE m of None \<Rightarrow> None
      | Some (inum, m) \<Rightarrow>
          case iappend ROOTINO (mk_dirent inum (skip_underscore name)) m of None \<Rightarrow> None
          | Some m \<Rightarrow> copy_file inum d m)"

fun add_files :: "(byte list \<times> byte list) list \<Rightarrow> mkst \<Rightarrow> mkst option" where
  "add_files [] m = Some m"
| "add_files (f # fs) m = (case add_file f m of None \<Rightarrow> None | Some m \<Rightarrow> add_files fs m)"

definition fix_root :: "mkst \<Rightarrow> mkst option" where
  "fix_root m =
     (case rinode ROOTINO m of None \<Rightarrow> None
      | Some din \<Rightarrow> winode ROOTINO (din\<lparr>di_size := (di_size din div of_nat BSIZE + 1) * of_nat BSIZE\<rparr>) m)"

definition mk_start :: mkst where
  "mk_start = wsect 1 (bsplice 0 (enc_superblock mk_sb) (replicate BSIZE 0))
     \<lparr>img = (\<lambda>_. replicate BSIZE 0), freeinode = 1, freeblock = nmeta\<rparr>"

definition mkfs :: "(byte list \<times> byte list) list \<Rightarrow> mkst option" where
  "mkfs files =
     (case mk_ialloc T_DIR mk_start of None \<Rightarrow> None
      | Some (rootino, m) \<Rightarrow>
      if rootino \<noteq> ROOTINO then None
      else case iappend rootino (mk_dirent rootino [46]) m of None \<Rightarrow> None
      | Some m \<Rightarrow>
      case iappend rootino (mk_dirent rootino [46, 46]) m of None \<Rightarrow> None
      | Some m \<Rightarrow>
      case add_files files m of None \<Rightarrow> None
      | Some m \<Rightarrow>
      case fix_root m of None \<Rightarrow> None
      | Some m \<Rightarrow> mk_balloc (freeblock m) m)"

declare iappend_loop.simps [simp del] copy_file.simps [simp del]

section \<open>The image while it is built\<close>

lemma mk_sb_simps [simp]: "sb_size mk_sb = FSSIZE" "sb_bmapstart mk_sb = 58" "sb_inodestart mk_sb = 32" "sb_ninodes mk_sb = NINODES"
    "sb_logstart mk_sb = 2" "nmeta = 59"
  by (simp_all add: mk_sb_def nmeta_def ninodeblocks_def nbitmap_def)

lemma mk_sb_ok [simp]: "sb_ok mk_sb"
  by (auto simp: sb_ok_def IBLOCK_def)

text \<open>
  The bitmap that \<open>mk_balloc\<close> will write, and the image with that bitmap already in it. In this
  view an allocation does what \<open>balloc\<close> of the kernel does.
\<close>

definition bitmap :: "nat \<Rightarrow> byte list" where
  "bitmap n = fold (\<lambda>i buf. mark_used buf i) [0..<n] (replicate BSIZE 0)"

definition vimg :: "mkst \<Rightarrow> nat \<Rightarrow> byte list" where
  "vimg m = (img m)(58 := bitmap (freeblock m))"

lemma length_bitmap [simp]: "length (bitmap n) = BSIZE"
  by (induction n) (simp_all add: bitmap_def)

lemma bitmap_Suc: "bitmap (Suc n) = mark_used (bitmap n) n"
  by (simp add: bitmap_def)

lemma bit_free_bitmap: "n \<le> 4096 \<Longrightarrow> j < 4096 \<Longrightarrow> bit_free (bitmap n) j \<longleftrightarrow> n \<le> j"
proof (induction n)
  case 0
  then show ?case by (simp add: bitmap_def bit_free_bit)
next
  case (Suc n)
  then show ?case using bit_free_mark_used [of n "bitmap n" j] by (auto simp: bitmap_Suc)
qed

lemma used_bitmap: "n \<le> FSSIZE \<Longrightarrow> x < FSSIZE \<Longrightarrow> used mk_sb (V(58 := bitmap n)) x \<longleftrightarrow> x < n"
  using sb_one_map [OF mk_sb_ok, of x] by (simp add: used_def bit_free_bitmap not_le)

definition mk_ok :: "mkst \<Rightarrow> bool" where
  "mk_ok m \<longleftrightarrow> nmeta \<le> freeblock m \<and> freeblock m \<le> FSSIZE \<and> (\<forall>x. length (img m x) = BSIZE) \<and>
     (\<forall>x. freeblock m \<le> x \<longrightarrow> img m x = replicate BSIZE 0)"

lemma mk_okD:
  assumes "mk_ok m"
  shows "59 \<le> freeblock m" "freeblock m \<le> FSSIZE" "length (vimg m x) = BSIZE" "length (img m x) = BSIZE"
    "freeblock m \<le> x \<Longrightarrow> vimg m x = replicate BSIZE 0" "x < FSSIZE \<Longrightarrow> used mk_sb (vimg m) x \<longleftrightarrow> x < freeblock m" "fs_ok mk_sb (vimg m)"
  using assms used_bitmap [of "freeblock m" _ "img m"] by (auto simp: mk_ok_def vimg_def fs_ok_def)

lemma vimg_alloc: "mk_ok m \<Longrightarrow> vimg (m\<lparr>freeblock := Suc (freeblock m)\<rparr>) = alloc_eff mk_sb (freeblock m) (vimg m)"
  by (auto simp: vimg_def alloc_eff_def mk_ok_def bitmap_Suc fun_eq_iff)

lemma mk_ok_alloc: "mk_ok m \<Longrightarrow> freeblock m < FSSIZE \<Longrightarrow> mk_ok (m\<lparr>freeblock := Suc (freeblock m)\<rparr>)"
  by (auto simp: mk_ok_def)

lemma mk_ok_wsect: "mk_ok m \<Longrightarrow> length d = BSIZE \<Longrightarrow> x < freeblock m \<Longrightarrow> mk_ok (wsect x d m)"
  by (auto simp: mk_ok_def wsect_def)

lemma vimg_wsect: "x \<noteq> 58 \<Longrightarrow> vimg (wsect x d m) = (vimg m)(x := d)"
  by (auto simp: vimg_def wsect_def)

lemma wsect_simps [simp]: "freeblock (wsect x d m) = freeblock m" "freeinode (wsect x d m) = freeinode m" "img (wsect x d m) = (img m)(x := d)"
  by (simp_all add: wsect_def)

text \<open>A disk inode as the kernel would load it.\<close>

definition blank_inode :: inode where
  "blank_inode = \<lparr>i_dev = ROOTDEV, i_inum = 0, i_ref = 0, i_lock = initsleeplock, i_valid = True, i_type = 0, i_major = 0,
     i_minor = 0, i_nlink = 0, i_size = 0, i_addrs = []\<rparr>"

definition loaded :: "dinode \<Rightarrow> inode" where
  "loaded din = load_dinode din blank_inode"

lemma loaded_simps [simp]: "i_addrs (loaded d) = di_addrs d" "i_size (loaded d) = di_size d" "i_type (loaded d) = di_type d"
    "loaded (d\<lparr>di_addrs := a\<rparr>) = (loaded d)\<lparr>i_addrs := a\<rparr>"
  by (simp_all add: loaded_def load_dinode_def)

lemma ptr_loaded: "di_addrs d = di_addrs d' \<Longrightarrow> ptr V (loaded d) = ptr V (loaded d')"
  by (simp add: fun_eq_iff ptr_def ind_def)

text \<open>What a step of \<open>iappend\<close> leaves alone: the blocks below the data, and the inode but for its pointers.\<close>

definition kept_meta :: "mkst \<Rightarrow> dinode \<Rightarrow> mkst \<Rightarrow> dinode \<Rightarrow> bool" where
  "kept_meta m din m' din' \<longleftrightarrow> mk_ok m' \<and> freeinode m' = freeinode m \<and> freeblock m \<le> freeblock m' \<and>
     (\<forall>y\<le>58. img m' y = img m y) \<and> din' = din\<lparr>di_addrs := di_addrs din'\<rparr>"

lemma kept_meta_refl: "mk_ok m \<Longrightarrow> kept_meta m din m din"
  by (simp add: kept_meta_def)

lemma kept_meta_trans: "kept_meta m d m1 d1 \<Longrightarrow> kept_meta m1 d1 m2 d2 \<Longrightarrow> kept_meta m d m2 d2"
  unfolding kept_meta_def by (cases d, cases d1, cases d2) simp

lemma set_addr_grow:
  assumes ok: "mk_ok m" and w: "fwf mk_sb (vimg m) (loaded din)" and k: "k \<le> NDIRECT"
    and s: "set_addr k din m = (din', m')" and x: "unat (di_addrs din' ! k) < FSSIZE"
  shows "grow mk_sb (vimg m) (loaded din) (vimg m') (loaded din') (if k = NDIRECT then MAXFILE else k) (unat (di_addrs din' ! k)) \<and>
    kept_meta m din m' din'"
proof (cases "di_addrs din ! k = 0")
  case True
  let ?b = "freeblock m" and ?sl = "if k = NDIRECT then MAXFILE else k"
  have l: "length (di_addrs din) = NDIRECT + 1" using fwfD(1) [OF w] by simp
  have e: "din' = din\<lparr>di_addrs := (di_addrs din)[k := of_nat ?b]\<rparr>" "m' = m\<lparr>freeblock := Suc ?b\<rparr>"
    using s True by (auto simp: set_addr_def take_block_def)
  have ub: "unat (of_nat ?b :: u32) = ?b" using mk_okD(2) [OF ok] by (simp add: unat_of_nat take_bit_nat_eq_self)
  then have b: "?b < FSSIZE" "di_addrs din' ! k = of_nat ?b" using x e k l by simp_all
  have "grow mk_sb (vimg m) (loaded din) (alloc_eff mk_sb ?b (vimg m)) ((loaded din)\<lparr>i_addrs := (i_addrs (loaded din))[k := of_nat ?b]\<rparr>) ?sl ?b"
    by (rule grow_direct [OF mk_okD(7) [OF ok] w]) (use ok k True b mk_okD(3,6) [OF ok] in simp_all)
  then show ?thesis using e vimg_alloc [OF ok] b ub mk_ok_alloc [OF ok] by (simp add: kept_meta_def)
next
  case False
  then have "din' = din" "m' = m" using s by (simp_all add: set_addr_def)
  moreover have "ptr (vimg m) (loaded din) (if k = NDIRECT then MAXFILE else k) = unat (di_addrs din ! k)"
    using k by (auto simp: ptr_def ind_def)
  ultimately show ?thesis using grow_same [OF mk_okD(7) [OF ok] w, of "if k = NDIRECT then MAXFILE else k"] ok False
    by (simp add: unat_eq_0 kept_meta_refl)
qed

lemma indirect_grow:
  assumes ok: "mk_ok m" and w: "fwf mk_sb (vimg m) (loaded din)" and fbn: "NDIRECT \<le> fbn" "fbn < MAXFILE"
    and x: "x = unat (di_addrs din ! NDIRECT)" "x \<noteq> 0" and a: "a < FSSIZE" and e: "e = 4 * (fbn - NDIRECT)"
    and s: "(a, m') = (if get32 (img m x) e = 0 then (unat (of_nat (freeblock m) :: u32),
              wsect x (put32 (img m x) e (of_nat (freeblock m))) (m\<lparr>freeblock := Suc (freeblock m)\<rparr>))
            else (unat (get32 (img m x) e), m))"
  shows "grow mk_sb (vimg m) (loaded din) (vimg m') (loaded din) fbn a \<and> kept_meta m din m' din"
proof -
  have i: "ind (loaded din) = x" using x by (simp add: ind_def)
  have d: "58 < x" "x < FSSIZE" "x < freeblock m"
    using fwfD(2) [OF w order_refl] x mk_okD(6) [OF ok, of x] by (auto simp: i data_blk_def)
  then have v: "vimg m x = img m x" by (simp add: vimg_def)
  have p: "ptr (vimg m) (loaded din) fbn = unat (get32 (img m x) e)" using fbn x e v by (simp add: ptr_def i)
  show ?thesis
  proof (cases "get32 (img m x) e = 0")
    case False
    then show ?thesis using s grow_same [OF mk_okD(7) [OF ok] w, of fbn] p ok by (simp add: unat_eq_0 kept_meta_refl)
  next
    case True
    let ?b = "freeblock m" and ?m = "m\<lparr>freeblock := Suc (freeblock m)\<rparr>"
    have b: "a = ?b" "?b < FSSIZE" "m' = wsect x (put32 (img m x) e (of_nat ?b)) ?m"
      using s True a mk_okD(2) [OF ok] by (simp_all add: unat_of_nat take_bit_nat_eq_self)
    have "grow mk_sb (vimg m) (loaded din) ((alloc_eff mk_sb ?b (vimg m))(ind (loaded din) := put32 (vimg m (ind (loaded din))) (4 * (fbn - NDIRECT)) (of_nat ?b)))
        (loaded din) fbn ?b"
      by (rule grow_indirect [OF mk_okD(7) [OF ok] w]) (use b fbn mk_okD(3,6) [OF ok] p i x True in simp_all)
    moreover have "mk_ok m'" using mk_ok_wsect [OF mk_ok_alloc [OF ok b(2)], of "put32 (img m x) e (of_nat ?b)" x] b(3) d fbn e mk_okD(4) [OF ok]
      by simp
    ultimately show ?thesis using b d vimg_alloc [OF ok] by (simp add: i v e vimg_wsect kept_meta_def)
  qed
qed

lemma file_block_grow:
  assumes ok: "mk_ok m" and w: "fwf mk_sb (vimg m) (loaded din)" and fbn: "fbn < MAXFILE"
    and s: "file_block fbn din m = Some (x, din', m')" and x: "x < FSSIZE"
  shows "grow mk_sb (vimg m) (loaded din) (vimg m') (loaded din') fbn x \<and> kept_meta m din m' din'"
proof (cases "fbn < NDIRECT")
  case True
  then show ?thesis using s x set_addr_grow [OF ok w, of fbn] by (auto simp: file_block_def split: prod.splits)
next
  case False
  obtain d1 m1 where e: "set_addr NDIRECT din m = (d1, m1)" by (cases "set_addr NDIRECT din m")
  define p where p: "p = unat (di_addrs d1 ! NDIRECT)"
  have pf: "p < FSSIZE" using s False e by (auto simp: file_block_def rsect_def p Let_def split: if_splits)
  have g1: "grow mk_sb (vimg m) (loaded din) (vimg m1) (loaded d1) MAXFILE p" "kept_meta m din m1 d1"
    using set_addr_grow [OF ok w order_refl e] pf p by simp_all
  have k: "mk_ok m1" using g1(2) by (simp add: kept_meta_def)
  have "grow mk_sb (vimg m1) (loaded d1) (vimg m') (loaded d1) fbn x \<and> kept_meta m1 d1 m' d1"
    by (rule indirect_grow [OF k growD(2) [OF g1(1)] _ fbn p growD(5) [OF g1(1)] x refl])
      (use s False e pf in \<open>auto simp: file_block_def rsect_def take_block_def Let_def p split: if_splits\<close>)
  moreover have "din' = d1" using s False e pf by (auto simp: file_block_def rsect_def take_block_def Let_def split: if_splits)
  ultimately show ?thesis using grow_trans [OF g1(1) _ w fbn] kept_meta_trans [OF g1(2)] by blast
qed

section \<open>Counting blocks\<close>

text \<open>
  The blocks of a file of \<open>n\<close> bytes, and the shape of its pointers: exactly the first ones
  are set. \<open>cnt\<close> is the number of blocks that reaching file block \<open>fbn\<close> takes.
\<close>

definition need :: "nat \<Rightarrow> nat" where
  "need n = (n + (BSIZE - 1)) div BSIZE + (if NDIRECT * BSIZE < n then 1 else 0)"

definition dense :: "(nat \<Rightarrow> byte list) \<Rightarrow> inode \<Rightarrow> nat \<Rightarrow> bool" where
  "dense V i n \<longleftrightarrow> (\<forall>k<MAXFILE. ptr V i k \<noteq> 0 \<longleftrightarrow> k * BSIZE < n) \<and> (ind i \<noteq> 0 \<longleftrightarrow> NDIRECT * BSIZE < n)"

definition cnt :: "nat \<Rightarrow> (nat \<Rightarrow> byte list) \<Rightarrow> inode \<Rightarrow> nat" where
  "cnt fbn V i = (if ptr V i fbn = 0 then 1 else 0) + (if NDIRECT \<le> fbn \<and> ind i = 0 then 1 else 0)"

lemma need_0 [simp]: "need 0 = 0"
  by (simp add: need_def)

lemma need_step:
  assumes "0 < n" "off mod BSIZE + n \<le> BSIZE"
  shows "need (off + n) = need off + (if off mod BSIZE = 0 then 1 else 0) + (if off = NDIRECT * BSIZE then 1 else 0)"
proof -
  define Q R where q: "Q = off div BSIZE" "R = off mod BSIZE"
  have o: "off = BSIZE * Q + R" "R < BSIZE" "R + n \<le> BSIZE" using assms by (simp_all add: q)
  have "BSIZE * Q + R + n + (BSIZE - 1) = BSIZE * (Q + 1) + (R + n - 1)" using assms(1) by simp
  moreover have "(R + n - 1) div BSIZE = 0" using o(3) assms(1) by (intro div_less) linarith
  ultimately have 1: "(off + n + (BSIZE - 1)) div BSIZE = Q + 1" using o(1) by simp
  have 2: "(off + (BSIZE - 1)) div BSIZE = Q + (if R = 0 then 0 else 1)"
  proof (cases "R = 0")
    case False
    then have "BSIZE * Q + R + (BSIZE - 1) = BSIZE * (Q + 1) + (R - 1)" "(R - 1) div BSIZE = 0" using o(2) by simp_all
    then show ?thesis using o(1) False by simp
  qed (use o(1) in simp)
  have "NDIRECT * BSIZE < off + n \<longleftrightarrow> NDIRECT * BSIZE < off \<or> off = NDIRECT * BSIZE"
  proof (cases "Q < NDIRECT")
    case True
    then have "off + n \<le> NDIRECT * BSIZE" using o by linarith
    then show ?thesis using assms(1) by linarith
  next
    case False
    then have "NDIRECT * BSIZE \<le> off" using o by linarith
    then show ?thesis using assms(1) by linarith
  qed
  then show ?thesis using 1 2 q(2) by (simp add: need_def)
qed

lemma dense_cnt:
  assumes d: "dense V i off" and f: "off div BSIZE < MAXFILE"
  shows "cnt (off div BSIZE) V i = (if off mod BSIZE = 0 then 1 else 0) + (if off = NDIRECT * BSIZE then 1 else 0)"
proof -
  define Q R where q: "Q = off div BSIZE" "R = off mod BSIZE"
  have o: "off = BSIZE * Q + R" "R < BSIZE" by (simp_all add: q)
  have "ptr V i Q = 0 \<longleftrightarrow> R = 0" using d f o(1) unfolding dense_def q [symmetric] by auto
  moreover have "NDIRECT \<le> Q \<and> ind i = 0 \<longleftrightarrow> off = NDIRECT * BSIZE" using d o unfolding dense_def by auto
  ultimately show ?thesis unfolding cnt_def q [symmetric] by simp
qed

text \<open>Reaching a block, by cases: how many blocks it takes, and that it succeeds when there are so many.\<close>

lemma unat_blockno: "b \<le> FSSIZE + 1 \<Longrightarrow> unat (of_nat b :: u32) = b"
  by (simp add: unat_of_nat take_bit_nat_eq_self)

lemma file_block_direct:
  assumes "mk_ok m" "fwf mk_sb (vimg m) (loaded din)" "fbn < NDIRECT"
  shows "file_block fbn din m = (if ptr (vimg m) (loaded din) fbn = 0
      then Some (freeblock m, din\<lparr>di_addrs := (di_addrs din)[fbn := of_nat (freeblock m)]\<rparr>, m\<lparr>freeblock := freeblock m + 1\<rparr>)
      else Some (ptr (vimg m) (loaded din) fbn, din, m))"
  using assms(3) fwfD(1) [OF assms(2)] mk_okD(2) [OF assms(1)]
  by (simp add: file_block_def set_addr_def take_block_def ptr_def unat_blockno unat_eq_0)

lemma file_block_new_indirect:
  assumes "mk_ok m" "fwf mk_sb (vimg m) (loaded din)" "NDIRECT \<le> fbn" "fbn < MAXFILE" "ind (loaded din) = 0"
  shows "file_block fbn din m = Some (x, d1, m1) \<Longrightarrow> freeblock m1 = freeblock m + 2"
    "freeblock m < FSSIZE \<Longrightarrow> \<exists>d1 m1. file_block fbn din m = Some (freeblock m + 1, d1, m1)"
proof -
  have a: "di_addrs din ! NDIRECT = 0" using assms(5) by (simp add: ind_def unat_eq_0)
  have l: "length (di_addrs din) = NDIRECT + 1" using fwfD(1) [OF assms(2)] by simp
  have b: "freeblock m \<le> FSSIZE" "img m (freeblock m) = replicate BSIZE 0" using assms(1) by (simp_all add: mk_ok_def)
  have u: "unat (of_nat (freeblock m) :: u32) = freeblock m" "unat (of_nat (freeblock m) + 1 :: u32) = freeblock m + 1"
    using unat_blockno [of "freeblock m"] unat_blockno [of "freeblock m + 1"] b(1) by simp_all
  show "file_block fbn din m = Some (x, d1, m1) \<Longrightarrow> freeblock m1 = freeblock m + 2"
    "freeblock m < FSSIZE \<Longrightarrow> \<exists>d1 m1. file_block fbn din m = Some (freeblock m + 1, d1, m1)"
    using assms(3,4) a l b u get32_zeros [of "4 * (fbn - NDIRECT)" BSIZE]
    by (auto simp: file_block_def set_addr_def take_block_def rsect_def Let_def split: if_splits)
qed

lemma file_block_indirect:
  assumes ok: "mk_ok m" and w: "fwf mk_sb (vimg m) (loaded din)" and f: "NDIRECT \<le> fbn" "fbn < MAXFILE" and i: "ind (loaded din) \<noteq> 0"
  shows "\<exists>m1. file_block fbn din m = Some (if ptr (vimg m) (loaded din) fbn = 0 then freeblock m else ptr (vimg m) (loaded din) fbn, din, m1) \<and>
      freeblock m1 = freeblock m + (if ptr (vimg m) (loaded din) fbn = 0 then 1 else 0)"
proof -
  let ?x = "unat (di_addrs din ! NDIRECT)"
  have x: "ind (loaded din) = ?x" by (simp add: ind_def)
  have "data_blk mk_sb (vimg m) ?x" using fwfD(2) [OF w order_refl] i by (simp add: x)
  then have d: "?x < FSSIZE" "vimg m ?x = img m ?x" by (simp_all add: data_blk_def vimg_def)
  then have "ptr (vimg m) (loaded din) fbn = unat (get32 (img m ?x) (4 * (fbn - NDIRECT)))" using f i by (simp add: ptr_def x)
  moreover have "di_addrs din ! NDIRECT \<noteq> 0" using i by (simp add: ind_def unat_eq_0)
  ultimately show ?thesis
    using f d(1) mk_okD(2) [OF ok] unat_blockno [of "freeblock m"]
    by (simp add: file_block_def set_addr_def take_block_def rsect_def Let_def unat_eq_0)
qed

lemma file_block_count:
  assumes ok: "mk_ok m" and w: "fwf mk_sb (vimg m) (loaded din)" and fbn: "fbn < MAXFILE"
    and s: "file_block fbn din m = Some (x, din', m')"
  shows "freeblock m' = freeblock m + cnt fbn (vimg m) (loaded din)" "fbn < NDIRECT \<Longrightarrow> ind (loaded din') = ind (loaded din)"
proof -
  have z: "ind (loaded din) = 0 \<Longrightarrow> NDIRECT \<le> fbn \<Longrightarrow> ptr (vimg m) (loaded din) fbn = 0" using fbn by (simp add: ptr_def)
  consider "fbn < NDIRECT" | "NDIRECT \<le> fbn" "ind (loaded din) = 0" | "NDIRECT \<le> fbn" "ind (loaded din) \<noteq> 0" by linarith
  then have "freeblock m' = freeblock m + cnt fbn (vimg m) (loaded din) \<and> (fbn < NDIRECT \<longrightarrow> ind (loaded din') = ind (loaded din))"
  proof cases
    case 1
    then show ?thesis using s file_block_direct [OF ok w 1] by (auto simp: cnt_def ind_def split: if_splits)
  next
    case 2
    then show ?thesis using file_block_new_indirect(1) [OF ok w 2(1) fbn 2(2) s] z by (auto simp: cnt_def split: if_splits)
  next
    case 3
    then show ?thesis using s file_block_indirect [OF ok w 3(1) fbn 3(2)] by (auto simp: cnt_def split: if_splits)
  qed
  then show "freeblock m' = freeblock m + cnt fbn (vimg m) (loaded din)" "fbn < NDIRECT \<Longrightarrow> ind (loaded din') = ind (loaded din)" by auto
qed

lemma file_block_runs:
  assumes ok: "mk_ok m" and w: "fwf mk_sb (vimg m) (loaded din)" and fbn: "fbn < MAXFILE"
    and f: "freeblock m + cnt fbn (vimg m) (loaded din) \<le> FSSIZE"
  shows "\<exists>x din' m'. file_block fbn din m = Some (x, din', m') \<and> x < FSSIZE"
proof -
  have z: "ind (loaded din) = 0 \<Longrightarrow> NDIRECT \<le> fbn \<Longrightarrow> ptr (vimg m) (loaded din) fbn = 0" using fbn by (simp add: ptr_def)
  have p: "ptr (vimg m) (loaded din) fbn < FSSIZE" if "ptr (vimg m) (loaded din) fbn \<noteq> 0"
    using fwfD(2) [OF w, of fbn] fbn that by (simp add: data_blk_def)
  consider "fbn < NDIRECT" | "NDIRECT \<le> fbn" "ind (loaded din) = 0" | "NDIRECT \<le> fbn" "ind (loaded din) \<noteq> 0" by linarith
  then show ?thesis
  proof cases
    case 1
    then show ?thesis using f p file_block_direct [OF ok w 1] by (auto simp: cnt_def split: if_splits)
  next
    case 2
    then show ?thesis using f file_block_new_indirect(2) [OF ok w 2(1) fbn 2(2)] z by (auto simp: cnt_def split: if_splits)
  next
    case 3
    then show ?thesis using f p file_block_indirect [OF ok w 3(1) fbn 3(2)] by (auto simp: cnt_def split: if_splits)
  qed
qed

section \<open>Appending\<close>

definition appended :: "nat \<Rightarrow> byte list \<Rightarrow> mkst \<Rightarrow> dinode \<Rightarrow> mkst \<Rightarrow> dinode \<Rightarrow> bool" where
  "appended off p m din m' din' \<longleftrightarrow> kept_meta m din m' din' \<and> fwf mk_sb (vimg m') (loaded din') \<and>
     (\<forall>j<MAXFILE * BSIZE. cbyte (vimg m') (loaded din') j = overlay off p (cbyte (vimg m) (loaded din)) j) \<and>
     (\<forall>x<freeblock m. x \<notin> owned (vimg m) (loaded din) \<longrightarrow> x \<notin> owned (vimg m') (loaded din') \<and> img m' x = img m x) \<and>
     (dense (vimg m) (loaded din) off \<longrightarrow> dense (vimg m') (loaded din') (off + length p) \<and>
        freeblock m' + need off = freeblock m + need (off + length p))"

lemma appendedD:
  assumes "appended off p m din m' din'"
  shows "kept_meta m din m' din'" "mk_ok m'" "freeblock m \<le> freeblock m'" "fwf mk_sb (vimg m') (loaded din')"
    "j < MAXFILE * BSIZE \<Longrightarrow> cbyte (vimg m') (loaded din') j = overlay off p (cbyte (vimg m) (loaded din)) j"
    "x < freeblock m \<Longrightarrow> x \<notin> owned (vimg m) (loaded din) \<Longrightarrow> x \<notin> owned (vimg m') (loaded din')"
    "x < freeblock m \<Longrightarrow> x \<notin> owned (vimg m) (loaded din) \<Longrightarrow> img m' x = img m x"
    "dense (vimg m) (loaded din) off \<Longrightarrow> dense (vimg m') (loaded din') (off + length p)"
    "dense (vimg m) (loaded din) off \<Longrightarrow> freeblock m' + need off = freeblock m + need (off + length p)"
  using assms unfolding appended_def kept_meta_def by blast+

lemma appended_nil: "mk_ok m \<Longrightarrow> fwf mk_sb (vimg m) (loaded din) \<Longrightarrow> appended off [] m din m din"
  by (auto simp: appended_def kept_meta_refl overlay_def)

lemma overlay_cong: "c j = c' j \<Longrightarrow> overlay off p c j = overlay off p c' j"
  by (simp add: overlay_def)

lemma appended_trans:
  assumes a: "appended off (take n p) m din m1 d1" and b: "appended (off + n) (drop n p) m1 d1 m2 d2" and n: "n \<le> length p"
  shows "appended off p m din m2 d2"
  unfolding appended_def
proof (intro conjI allI impI)
  note A = appendedD [OF a] and B = appendedD [OF b]
  show "kept_meta m din m2 d2" by (rule kept_meta_trans [OF A(1) B(1)])
  show "fwf mk_sb (vimg m2) (loaded d2)" by (rule B(4))
  show "cbyte (vimg m2) (loaded d2) j = overlay off p (cbyte (vimg m) (loaded din)) j" if "j < MAXFILE * BSIZE" for j
    using overlay_cong [of "cbyte (vimg m1) (loaded d1)" j "overlay off (take n p) (cbyte (vimg m) (loaded din))" "off + n" "drop n p"]
      A(5) [OF that] B(5) [OF that] overlay_take_drop [OF n] by simp
  show "x \<notin> owned (vimg m2) (loaded d2)" "img m2 x = img m x" if "x < freeblock m" "x \<notin> owned (vimg m) (loaded din)" for x
    using B(6,7) [of x] A(6,7) [OF that] A(3) that(1) by simp_all
  assume "dense (vimg m) (loaded din) off"
  from A(8,9) [OF this] show "dense (vimg m2) (loaded d2) (off + length p)" "freeblock m2 + need off = freeblock m + need (off + length p)"
    using B(8,9) n by simp_all
qed

lemma dense_grow:
  assumes d: "dense V i off" and f: "off div BSIZE < MAXFILE" and n: "0 < n" "off mod BSIZE + n \<le> BSIZE"
    and g: "grow mk_sb V i V1 i1 (off div BSIZE) x" and ii: "off div BSIZE < NDIRECT \<Longrightarrow> ind i1 = ind i"
    and p: "\<And>k. ptr V' i1 k = ptr V1 i1 k"
  shows "dense V' i1 (off + n)"
proof -
  define Q R where q: "Q = off div BSIZE" "R = off mod BSIZE"
  have o: "off = BSIZE * Q + R" "R < BSIZE" "R + n \<le> BSIZE" "Q < MAXFILE" using n f by (simp_all add: q)
  note G = growD [OF g, folded q]
  have k: "ptr V' i1 k \<noteq> 0 \<longleftrightarrow> k * BSIZE < off + n" if "k < MAXFILE" for k
  proof (cases "k = Q")
    case True
    then show ?thesis using G(4,5) o n(1) by (simp add: p)
  next
    case False
    then have "k * BSIZE < off \<longleftrightarrow> k * BSIZE < off + n" using o by (cases "k < Q") auto
    then show ?thesis using G(6) [OF that False] d that by (simp add: p dense_def)
  qed
  have "ind i1 \<noteq> 0 \<longleftrightarrow> NDIRECT * BSIZE < off + n"
  proof (cases "Q < NDIRECT")
    case True
    then have "\<not> NDIRECT * BSIZE < off + n" "\<not> NDIRECT * BSIZE < off" using o by auto
    then show ?thesis using ii True d by (simp add: q dense_def)
  next
    case False
    then have "ind i1 \<noteq> 0" using G(4,5) o(4) by (auto simp: ptr_def split: if_splits)
    then show ?thesis using False o n(1) by auto
  qed
  then show ?thesis using k by (simp add: dense_def)
qed

lemma chunk_appended:
  assumes ok: "mk_ok m" and w: "fwf mk_sb (vimg m) (loaded din)" and fbn: "off div BSIZE < MAXFILE"
    and s: "file_block (off div BSIZE) din m = Some (x, d1, m1)" and x: "x < FSSIZE"
    and n: "n \<le> length p" "off mod BSIZE + n \<le> BSIZE" "0 < n"
  shows "appended off (take n p) m din (wsect x (bsplice (off mod BSIZE) (take n p) (img m1 x)) m1) d1"
proof -
  let ?d = "bsplice (off mod BSIZE) (take n p) (img m1 x)"
  let ?V = "vimg m" and ?i = "loaded din" and ?V1 = "vimg m1" and ?i1 = "loaded d1"
  have g: "grow mk_sb ?V ?i ?V1 ?i1 (off div BSIZE) x" and k: "kept_meta m din m1 d1"
    using file_block_grow [OF ok w fbn s x] by simp_all
  note G = growD [OF g]
  have ok1: "mk_ok m1" using k by (simp add: kept_meta_def)
  have px: "ptr ?V1 ?i1 (off div BSIZE) = x" "x \<noteq> 0" by (rule G(4), rule G(5))
  have x58: "58 < x" "x < freeblock m1" "x \<in> owned ?V1 ?i1"
    using fwfD(2) [OF G(2), of "off div BSIZE"] px fbn mk_okD(6) [OF ok1 x] by (auto simp: data_blk_def owned_def)
  have v: "vimg (wsect x ?d m1) = ?V1(x := ?d)" using x58 by (simp add: vimg_wsect)
  have ld: "length ?d = BSIZE" using n mk_okD(4) [OF ok1, of x] by (simp add: length_bsplice)
  note P = put_data [where d = ?d, OF G(1,2) fbn px]
  have ow: "owned (?V1(x := ?d)) ?i1 = owned ?V1 ?i1" by (simp add: owned_def P(3))
  show ?thesis
    unfolding appended_def v ow
  proof (intro conjI allI impI)
    show "kept_meta m din (wsect x ?d m1) d1"
      using k mk_ok_wsect [OF ok1 ld x58(2)] x58(1) by (simp add: kept_meta_def)
    show "fwf mk_sb (?V1(x := ?d)) ?i1" by (rule P(2))
    show "cbyte (?V1(x := ?d)) ?i1 j = overlay off (take n p) (cbyte ?V ?i) j" if j: "j < MAXFILE * BSIZE" for j
    proof -
      have "vimg m1 x = img m1 x" using x58 by (simp add: vimg_def)
      then show ?thesis
        using P(5) [OF j] chunk_overlay [OF n(2,1) mk_okD(4) [OF ok1, of x], of j "cbyte ?V1 ?i1 j"] grow_cbyte [OF g w fbn j] px n
        by (auto simp: overlay_def cbyte_def Let_def)
    qed
    show "dense (?V1(x := ?d)) ?i1 (off + length (take n p))" if "dense ?V ?i off"
      using dense_grow [OF that fbn n(3,2) g file_block_count(2) [OF ok w fbn s] P(3)] n(1) by (simp add: min_absorb2)
    show "freeblock (wsect x ?d m1) + need off = freeblock m + need (off + length (take n p))" if "dense ?V ?i off"
      using file_block_count(1) [OF ok w fbn s] dense_cnt [OF that fbn] need_step [OF n(3,2)] n(1) by (simp add: min_absorb2)
    fix y assume y: "y < freeblock m" "y \<notin> owned ?V ?i"
    have u: "y < sb_size mk_sb" "used mk_sb ?V y" using y mk_okD(2,6) [OF ok] by simp_all
    show no: "y \<notin> owned ?V1 ?i1" by (rule grow_owned [OF g u y(2)])
    have "y = ind ?i \<longrightarrow> y = 0" using y(2) ptr_ind order_refl unfolding owned_def by fastforce
    moreover have "img m1 y = img m y" if "y \<le> 58" using that k by (simp add: kept_meta_def)
    ultimately show "img (wsect x ?d m1) y = img m y" using G(11) [OF u] no x58(3) by (cases "y \<le> 58") (auto simp: vimg_def split: if_splits)
  qed
qed

lemma chunk_bounds:
  fixes off n :: nat
  shows "(0 < n \<longrightarrow> 0 < min n ((off div BSIZE + 1) * BSIZE - off)) \<and> off mod BSIZE + min n ((off div BSIZE + 1) * BSIZE - off) \<le> BSIZE \<and>
    off + min n ((off div BSIZE + 1) * BSIZE - off) \<le> (off div BSIZE + 1) * BSIZE"
proof -
  define Q R where Q_R_def: "Q = off div BSIZE" "R = off mod BSIZE"
  then have "off = Q * BSIZE + R" "R < BSIZE" by simp_all
  then show ?thesis unfolding Q_R_def [symmetric] by auto
qed

lemma iappend_loop_appended:
  assumes "mk_ok m" "fwf mk_sb (vimg m) (loaded din)" "iappend_loop din off p m = Some (din', off', m')"
  shows "appended off p m din m' din' \<and> off' = off + length p \<and> (p \<noteq> [] \<longrightarrow> off' \<le> MAXFILE * BSIZE)"
  using assms
proof (induction din off p m rule: iappend_loop.induct)
  case (1 din off p m)
  show ?case
  proof (cases "p = []")
    case True
    then show ?thesis using 1(4) appended_nil [OF 1(2,3)] by (simp add: iappend_loop.simps)
  next
    case False
    let ?fbn = "off div BSIZE" and ?n = "min (length p) ((off div BSIZE + 1) * BSIZE - off)"
    obtain x d1 m1 where s: "?fbn < MAXFILE" "file_block ?fbn din m = Some (x, d1, m1)" "x < FSSIZE"
      and r: "iappend_loop d1 (off + ?n) (drop ?n p) (wsect x (bsplice (off - ?fbn * BSIZE) (take ?n p) (img m1 x)) m1) = Some (din', off', m')"
      using 1(4) False by (subst (asm) iappend_loop.simps) (auto simp: Let_def rsect_def split: if_splits option.splits)
    have o: "off - ?fbn * BSIZE = off mod BSIZE" by (simp add: minus_div_mult_eq_mod)
    have n: "?n \<le> length p" by simp
    have n2: "off mod BSIZE + ?n \<le> BSIZE" "off + ?n \<le> (?fbn + 1) * BSIZE" "0 < ?n"
      using chunk_bounds [where off = off and n = "length p"] False by simp_all
    note a = chunk_appended [OF 1(2,3) s n n2(1,3), folded o]
    have "off + ?n \<le> MAXFILE * BSIZE" using n2(2) s(1) by simp
    moreover have "appended (off + ?n) (drop ?n p) (wsect x (bsplice (off - ?fbn * BSIZE) (take ?n p) (img m1 x)) m1) d1 m' din' \<and>
        off' = off + ?n + length (drop ?n p) \<and> (drop ?n p \<noteq> [] \<longrightarrow> off' \<le> MAXFILE * BSIZE)"
      by (rule 1(1) [OF False refl _ s(2) refl refl refl _ appendedD(2,4) [OF a] r]) (use s(1,3) in \<open>simp_all add: rsect_def\<close>)
    ultimately show ?thesis using appended_trans [OF a _ n] n by auto
  qed
qed

text \<open>The loop succeeds when the file stays below its largest size and there are blocks enough.\<close>

lemma need_mono: "a \<le> b \<Longrightarrow> need a \<le> need b"
  unfolding need_def by (intro add_mono div_le_mono) auto

lemma iappend_loop_runs:
  assumes "mk_ok m" "fwf mk_sb (vimg m) (loaded din)" "dense (vimg m) (loaded din) off"
    and "off + length p \<le> MAXFILE * BSIZE" "freeblock m + need (off + length p) \<le> FSSIZE + need off"
  shows "\<exists>r. iappend_loop din off p m = Some r"
  using assms
proof (induction din off p m rule: iappend_loop.induct)
  case (1 din off p m)
  show ?case
  proof (cases "p = []")
    case True
    then show ?thesis by (simp add: iappend_loop.simps)
  next
    case False
    let ?fbn = "off div BSIZE" and ?n = "min (length p) ((off div BSIZE + 1) * BSIZE - off)"
    have o: "off - ?fbn * BSIZE = off mod BSIZE" by (simp add: minus_div_mult_eq_mod)
    have n: "?n \<le> length p" by simp
    have n2: "off mod BSIZE + ?n \<le> BSIZE" "0 < ?n" using chunk_bounds [where off = off and n = "length p"] False by simp_all
    have "off < MAXFILE * BSIZE" using 1(5) False by (cases p) simp_all
    then have f: "?fbn < MAXFILE" by (rule block_range)
    have c: "need (off + ?n) = need off + cnt ?fbn (vimg m) (loaded din)" using need_step [OF n2(2,1)] dense_cnt [OF 1(4) f] by simp
    have "need (off + ?n) \<le> need (off + length p)" by (rule need_mono) simp
    then obtain x d1 m1 where s: "file_block ?fbn din m = Some (x, d1, m1)" "x < FSSIZE"
      using file_block_runs [OF 1(2,3) f] 1(6) c by fastforce
    note a = chunk_appended [OF 1(2,3) f s n n2, folded o]
    let ?m = "wsect x (bsplice (off - ?fbn * BSIZE) (take ?n p) (img m1 x)) m1"
    have d: "dense (vimg ?m) (loaded d1) (off + ?n)" "freeblock ?m + need off = freeblock m + need (off + ?n)"
      using appendedD(8,9) [OF a 1(4)] n by (simp_all add: min_absorb2 del: wsect_simps)
    have l: "off + ?n + length (drop ?n p) = off + length p" using n by simp
    have "\<exists>r. iappend_loop d1 (off + ?n) (drop ?n p) ?m = Some r"
      by (rule 1(1) [OF False refl _ s(1) refl refl refl _ appendedD(2,4) [OF a] d(1)])
        (use f s(2) 1(5,6) d(2) in \<open>simp_all only: l rsect_def if_True not_not, linarith?\<close>)
    then show ?thesis using False f s by (subst iappend_loop.simps) (simp add: Let_def rsect_def)
  qed
qed

section \<open>Files\<close>

definition din_at :: "nat \<Rightarrow> mkst \<Rightarrow> dinode" where
  "din_at inum m = dinode_at (img m (IBLOCK inum mk_sb)) inum"

definition kind :: "nat \<Rightarrow> u16" where
  "kind i = (if i = ROOTINO then T_DIR else T_FILE)"

text \<open>
  The inode \<open>d\<close> is a linked file of type \<open>ty\<close> with the bytes \<open>c\<close>, and zeros after them; it has
  blocks for the first \<open>n\<close> bytes.
\<close>

definition file_holds :: "(nat \<Rightarrow> byte list) \<Rightarrow> dinode \<Rightarrow> u16 \<Rightarrow> byte list \<Rightarrow> nat \<Rightarrow> bool" where
  "file_holds V d ty c n \<longleftrightarrow> dense V (loaded d) n \<and> fwf mk_sb V (loaded d) \<and> di_type d = ty \<and> di_nlink d = 1 \<and> di_size d = of_nat (length c) \<and>
     length c \<le> MAXFILE * BSIZE \<and> (\<forall>j<MAXFILE * BSIZE. cbyte V (loaded d) j = (if j < length c then c ! j else 0))"

abbreviation (input) blocks_of :: "mkst \<Rightarrow> nat \<Rightarrow> nat set" where
  "blocks_of m i \<equiv> owned (vimg m) (loaded (din_at i m))"

text \<open>All inodes in use; the last \<open>r\<close> bytes of the root directory have no block of their own.\<close>

definition alen :: "nat \<Rightarrow> (nat \<Rightarrow> byte list) \<Rightarrow> nat \<Rightarrow> nat" where
  "alen r F i = length (F i) - (if i = ROOTINO then r else 0)"

lemma alen_simps [simp]: "alen 0 F i = length (F i)" "k \<noteq> inum \<Longrightarrow> alen r (F(inum := c)) k = alen r F k"
  by (simp_all add: alen_def)

definition holds :: "mkst \<Rightarrow> (nat \<Rightarrow> byte list) \<Rightarrow> nat \<Rightarrow> bool" where
  "holds m F r \<longleftrightarrow> mk_ok m \<and> 0 < freeinode m \<and> freeinode m \<le> NINODES \<and>
     (\<forall>i<freeinode m. 0 < i \<longrightarrow> file_holds (vimg m) (din_at i m) (kind i) (F i) (alen r F i)) \<and>
     (\<forall>i<freeinode m. \<forall>j<freeinode m. 0 < i \<longrightarrow> 0 < j \<longrightarrow> i \<noteq> j \<longrightarrow> blocks_of m i \<inter> blocks_of m j = {}) \<and>
     (\<forall>i<NINODES. freeinode m \<le> i \<longrightarrow> di_type (din_at i m) = 0)"

lemma holdsD:
  assumes "holds m F r"
  shows "mk_ok m" "0 < freeinode m" "freeinode m \<le> NINODES"
    "0 < i \<Longrightarrow> i < freeinode m \<Longrightarrow> file_holds (vimg m) (din_at i m) (kind i) (F i) (alen r F i)"
    "0 < i \<Longrightarrow> i < freeinode m \<Longrightarrow> 0 < j \<Longrightarrow> j < freeinode m \<Longrightarrow> i \<noteq> j \<Longrightarrow> blocks_of m i \<inter> blocks_of m j = {}"
    "freeinode m \<le> i \<Longrightarrow> i < NINODES \<Longrightarrow> di_type (din_at i m) = 0"
  using assms unfolding holds_def by blast+

lemma owned_bounds:
  assumes "mk_ok m" "fwf mk_sb (vimg m) (loaded d)" "x \<in> owned (vimg m) (loaded d)"
  shows "58 < x" "x < freeblock m"
  using fwfD(2) [OF assms(2)] mk_okD(6) [OF assms(1)] assms(3) by (auto simp: owned_def data_blk_def)

text \<open>A file whose blocks are left alone keeps its bytes.\<close>

lemma file_frame:
  assumes ok: "mk_ok m" "mk_ok m'" "freeblock m \<le> freeblock m'" and h: "file_holds (vimg m) d ty c n"
    and same: "\<And>x. x \<in> owned (vimg m) (loaded d) \<Longrightarrow> img m' x = img m x"
  shows "file_holds (vimg m') d ty c n \<and> owned (vimg m') (loaded d) = owned (vimg m) (loaded d)"
proof -
  let ?i = "loaded d" and ?V = "vimg m" and ?V' = "vimg m'"
  have w: "fwf mk_sb ?V ?i" using h by (simp add: file_holds_def)
  have v: "?V' x = ?V x" if "x \<in> owned ?V ?i" for x
    using same [OF that] owned_bounds(1) [OF ok(1) w that] by (simp add: vimg_def)
  have p: "ptr ?V' ?i k = ptr ?V ?i k" for k
  proof (cases "ind ?i = 0")
    case False
    then have "ind ?i \<in> owned ?V ?i" by (auto simp: owned_def intro!: exI [of _ MAXFILE])
    then show ?thesis by (intro ptr_cong v)
  qed (simp add: ptr_def)
  have u: "data_blk mk_sb ?V' x" if "data_blk mk_sb ?V x" for x
    using that mk_okD(6) [OF ok(1), of x] mk_okD(6) [OF ok(2), of x] ok(3) by (auto simp: data_blk_def)
  have f: "fwf mk_sb ?V' ?i" using w u unfolding fwf_def p by blast
  have "cbyte ?V' ?i j = cbyte ?V ?i j" if "j < MAXFILE * BSIZE" for j
  proof (cases "ptr ?V ?i (j div BSIZE) = 0")
    case False
    then have "ptr ?V ?i (j div BSIZE) \<in> owned ?V ?i" using block_range [OF that] by (auto simp: owned_def intro!: exI [of _ "j div BSIZE"])
    then show ?thesis using v by (simp add: cbyte_def p Let_def)
  qed (simp add: cbyte_def p)
  then show ?thesis using h f by (simp add: file_holds_def dense_def owned_def p)
qed

lemma IBLOCK_low: "i < NINODES \<Longrightarrow> 32 \<le> IBLOCK i mk_sb \<and> IBLOCK i mk_sb < 58"
  by (auto simp: IBLOCK_def)

lemma winode_effect:
  assumes ok: "mk_ok m" and i: "inum < NINODES" and d: "length (di_addrs d) = NDIRECT + 1" and w: "winode inum d m = Some m'"
  shows "mk_ok m'" "freeinode m' = freeinode m" "freeblock m' = freeblock m" "din_at inum m' = d"
    "k < NINODES \<Longrightarrow> k \<noteq> inum \<Longrightarrow> din_at k m' = din_at k m" "x < 32 \<or> 58 \<le> x \<Longrightarrow> img m' x = img m x"
proof -
  let ?b = "IBLOCK inum mk_sb"
  note b = IBLOCK_low [OF i]
  have e: "m' = wsect ?b (put_dinode (img m ?b) inum d) m" using w b by (simp add: winode_def rsect_def Let_def)
  have l: "length (put_dinode (img m ?b) inum d) = BSIZE" using mk_okD(4) [OF ok] d by (simp add: length_put_dinode)
  show "mk_ok m'" using mk_ok_wsect [OF ok l, of ?b] b mk_okD(1) [OF ok] e by simp
  show "freeinode m' = freeinode m" "freeblock m' = freeblock m" by (simp_all add: e)
  show "din_at inum m' = d" using dinode_at_put(1) [OF mk_okD(4) [OF ok] d] by (simp add: din_at_def e)
  show "img m' x = img m x" if "x < 32 \<or> 58 \<le> x" using that b by (auto simp: e)
  assume k: "k < NINODES" "k \<noteq> inum"
  show "din_at k m' = din_at k m"
  proof (cases "IBLOCK k mk_sb = ?b")
    case True
    then have "k mod IPB \<noteq> inum mod IPB" using k(2) div_mult_mod_eq [of k IPB] div_mult_mod_eq [of inum IPB] by (auto simp: IBLOCK_def)
    then show ?thesis using dinode_at_put(2) [OF mk_okD(4) [OF ok] d] True by (simp add: din_at_def e)
  qed (simp add: din_at_def e)
qed

text \<open>Writing an inode back gives the files of the image, with that inode's file replaced.\<close>

lemma winode_holds:
  assumes ok: "mk_ok m" and n: "0 < freeinode m" "freeinode m \<le> NINODES" and i: "0 < inum" "inum < freeinode m" and w: "winode inum d m = Some m'"
    and own: "file_holds (vimg m) d (kind inum) c (alen r (F(inum := c)) inum)"
    and files: "\<And>k. 0 < k \<Longrightarrow> k < freeinode m \<Longrightarrow> k \<noteq> inum \<Longrightarrow> file_holds (vimg m) (din_at k m) (kind k) (F k) (alen r F k)"
    and apart: "\<And>k. 0 < k \<Longrightarrow> k < freeinode m \<Longrightarrow> k \<noteq> inum \<Longrightarrow> blocks_of m k \<inter> owned (vimg m) (loaded d) = {}"
    and others: "\<And>k j. 0 < k \<Longrightarrow> k < freeinode m \<Longrightarrow> 0 < j \<Longrightarrow> j < freeinode m \<Longrightarrow> k \<noteq> inum \<Longrightarrow> j \<noteq> inum \<Longrightarrow> k \<noteq> j \<Longrightarrow>
      blocks_of m k \<inter> blocks_of m j = {}"
    and free: "\<And>k. freeinode m \<le> k \<Longrightarrow> k < NINODES \<Longrightarrow> di_type (din_at k m) = 0"
  shows "holds m' (F(inum := c)) r \<and> freeinode m' = freeinode m \<and> freeblock m' = freeblock m \<and> (\<forall>x<32. img m' x = img m x)"
proof -
  have l: "length (di_addrs d) = NDIRECT + 1" "inum < NINODES" using own fwfD(1) [of mk_sb "vimg m" "loaded d"] i n by (simp_all add: file_holds_def)
  note W = winode_effect [OF ok l(2,1) w]
  have frame: "file_holds (vimg m') e ty b n \<and> owned (vimg m') (loaded e) = owned (vimg m) (loaded e)"
    if "file_holds (vimg m) e ty b n" for e ty b n
  proof (rule file_frame [OF ok W(1) _ that])
    show "img m' x = img m x" if "x \<in> owned (vimg m) (loaded e)" for x
      using owned_bounds(1) [OF ok _ that] W(6) [of x] \<open>file_holds (vimg m) e ty b n\<close> by (simp add: file_holds_def)
  qed (simp add: W(3))
  have din: "din_at k m' = din_at k m" if "k < freeinode m" "k \<noteq> inum" for k using W(5) [of k] that n by simp
  note t = frame [OF own]
  have o: "blocks_of m' k = (if k = inum then owned (vimg m) (loaded d) else blocks_of m k)" if "0 < k" "k < freeinode m" for k
    using t W(4) frame [OF files, of k] din [of k] that by simp
  show ?thesis
    unfolding holds_def W(2)
  proof (intro conjI allI impI)
    show "file_holds (vimg m') (din_at k m') (kind k) ((F(inum := c)) k) (alen r (F(inum := c)) k)" if "k < freeinode m" "0 < k" for k
      using t W(4) frame [OF files, of k] din [of k] that by simp
    show "blocks_of m' k \<inter> blocks_of m' j = {}" if "k < freeinode m" "j < freeinode m" "0 < k" "0 < j" "k \<noteq> j" for k j
      using apart [of k] apart [of j] others [of k j] o that by (auto split: if_splits)
    show "di_type (din_at k m') = 0" if "k < NINODES" "freeinode m \<le> k" for k using free [of k] W(5) [of k] that i by simp
  qed (use n W in auto)
qed

lemma overlay_append:
  assumes "c' j = (if j < length c then c ! j else (0 :: byte))"
  shows "overlay (length c) p c' j = (if j < length (c @ p) then (c @ p) ! j else 0)"
  using assms by (auto simp: overlay_def nth_append)

lemma ptr_size: "ptr V (loaded (d\<lparr>di_size := n\<rparr>)) = ptr V (loaded d)"
  by (rule ptr_loaded) simp

lemma appended_file:
  assumes a: "appended (length c) p m d m1 d1" and fh: "file_holds (vimg m) d ty c (length c)"
    and off: "off = length (c @ p)" "p \<noteq> [] \<longrightarrow> off \<le> MAXFILE * BSIZE" and k: "di_type d1 = di_type d" "di_nlink d1 = di_nlink d"
  shows "file_holds (vimg m1) (d1\<lparr>di_size := of_nat off\<rparr>) ty (c @ p) (length (c @ p))"
proof -
  note A = appendedD [OF a]
  let ?d1 = "d1\<lparr>di_size := of_nat off\<rparr>"
  have fw: "fwf mk_sb (vimg m1) (loaded ?d1)" using A(4) by (simp add: fwf_def ptr_size)
  have dn: "dense (vimg m1) (loaded ?d1) (length (c @ p))" using A(8) fh by (simp add: file_holds_def dense_def ptr_size ind_def)
  have "length (c @ p) \<le> MAXFILE * BSIZE" using off fh by (cases "p = []") (auto simp: file_holds_def)
  moreover have "cbyte (vimg m1) (loaded ?d1) j = (if j < length (c @ p) then (c @ p) ! j else 0)" if "j < MAXFILE * BSIZE" for j
    using A(5) [OF that] overlay_append [of "cbyte (vimg m) (loaded d)" j c p] fh that by (simp add: file_holds_def cbyte_def ptr_size)
  ultimately show ?thesis using fw dn fh k off(1) unfolding file_holds_def by simp
qed

lemma iappend_holds:
  assumes h: "holds m F 0" and i: "0 < inum" "inum < freeinode m" and s: "iappend inum p m = Some m'"
  shows "holds m' (F(inum := F inum @ p)) 0 \<and> freeinode m' = freeinode m \<and> (\<forall>x<32. img m' x = img m x) \<and>
    freeblock m' + need (length (F inum)) = freeblock m + need (length (F inum @ p))"
proof -
  note H = holdsD [OF h, unfolded alen_simps]
  let ?d = "din_at inum m" and ?c = "F inum"
  have fh: "file_holds (vimg m) ?d (kind inum) ?c (length ?c)" by (rule H(4) [OF i])
  then have wf: "fwf mk_sb (vimg m) (loaded ?d)" "dense (vimg m) (loaded ?d) (length ?c)" and sz: "unat (di_size ?d) = length ?c"
    by (auto simp: file_holds_def unat_of_nat take_bit_nat_eq_self)
  have "rinode inum m = Some ?d" using IBLOCK_low [of inum] i H(3) by (simp add: rinode_def rsect_def din_at_def)
  then obtain d1 off m1 where l: "iappend_loop ?d (length ?c) p m = Some (d1, off, m1)" and w: "winode inum (d1\<lparr>di_size := of_nat off\<rparr>) m1 = Some m'"
    using s by (auto simp: iappend_def sz split: option.splits)
  have a: "appended (length ?c) p m ?d m1 d1" and off: "off = length (?c @ p)" "p \<noteq> [] \<longrightarrow> off \<le> MAXFILE * BSIZE"
    using iappend_loop_appended [OF H(1) wf(1) l] by auto
  note A = appendedD [OF a]
  have k: "freeinode m1 = freeinode m" "\<And>y. y \<le> 58 \<Longrightarrow> img m1 y = img m y" "di_type d1 = di_type ?d" "di_nlink d1 = di_nlink ?d"
    using A(1) unfolding kept_meta_def by (metis dinode.select_convs dinode.surjective dinode.update_convs)+
  have own: "file_holds (vimg m1) (d1\<lparr>di_size := of_nat off\<rparr>) (kind inum) (?c @ p) (length (?c @ p))"
    by (rule appended_file [OF a fh off k(3,4)])
  have din: "din_at j m1 = din_at j m" if "j < NINODES" for j using k(2) IBLOCK_low [OF that] by (simp add: din_at_def)
  have ow: "owned (vimg m1) (loaded (d1\<lparr>di_size := of_nat off\<rparr>)) = owned (vimg m1) (loaded d1)" by (simp add: owned_def ptr_size)
  have ot: "file_holds (vimg m1) (din_at j m1) (kind j) (F j) (length (F j)) \<and> blocks_of m1 j = blocks_of m j \<and>
      blocks_of m j \<inter> owned (vimg m1) (loaded (d1\<lparr>di_size := of_nat off\<rparr>)) = {}"
    if j: "0 < j" "j < freeinode m" "j \<noteq> inum" for j
  proof -
    have jn: "j < NINODES" using j H(3) by simp
    have d: "x \<notin> blocks_of m inum" "x < freeblock m" if "x \<in> blocks_of m j" for x
      using H(5) [OF j(1,2) i j(3)] owned_bounds(2) [OF H(1) _ that] H(4) [OF j(1,2)] that by (auto simp: file_holds_def)
    show ?thesis unfolding ow using file_frame [OF H(1) A(2,3) H(4) [OF j(1,2)]] A(6,7) d by (auto simp: din [OF jn])
  qed
  have "holds m' (F(inum := ?c @ p)) 0 \<and> freeinode m' = freeinode m1 \<and> freeblock m' = freeblock m1 \<and> (\<forall>x<32. img m' x = img m1 x)"
    by (rule winode_holds [OF A(2) _ _ _ _ w]) (use own H i k(1) ot din in \<open>auto simp del: Int_iff\<close>)
  then show ?thesis using k(1,2) A(9) [OF wf(2)] by simp
qed

lemma iappend_runs:
  assumes h: "holds m F 0" and i: "0 < inum" "inum < freeinode m" and l: "length (F inum @ p) \<le> MAXFILE * BSIZE"
    and b: "freeblock m + need (length (F inum @ p)) \<le> FSSIZE + need (length (F inum))"
  shows "\<exists>m'. iappend inum p m = Some m'"
proof -
  note H = holdsD [OF h, unfolded alen_simps]
  let ?d = "din_at inum m"
  have fh: "file_holds (vimg m) ?d (kind inum) (F inum) (length (F inum))" by (rule H(4) [OF i])
  then have wf: "fwf mk_sb (vimg m) (loaded ?d)" "dense (vimg m) (loaded ?d) (length (F inum))" and sz: "unat (di_size ?d) = length (F inum)"
    by (auto simp: file_holds_def unat_of_nat take_bit_nat_eq_self)
  have x: "IBLOCK inum mk_sb < FSSIZE" using IBLOCK_low [of inum] i H(3) by simp
  then have "rinode inum m = Some ?d" by (simp add: rinode_def rsect_def din_at_def)
  moreover obtain r where "iappend_loop ?d (length (F inum)) p m = Some r"
    using iappend_loop_runs [OF H(1) wf, of p] l b by auto
  ultimately show ?thesis using x by (cases r) (simp add: iappend_def sz winode_def rsect_def Let_def)
qed

lemma new_file:
  fixes V :: "nat \<Rightarrow> byte list"
  assumes "d = (new_dinode ty)\<lparr>di_nlink := 1\<rparr>"
  shows "file_holds V d ty [] 0" "owned V (loaded d) = {}"
proof -
  have a: "di_addrs d = replicate (NDIRECT + 1) 0" "di_type d = ty" "di_nlink d = 1" "di_size d = 0" by (simp_all add: assms new_dinode_def)
  have "di_addrs d ! k = 0" if "k \<le> NDIRECT" for k unfolding a(1) using that by (intro nth_replicate) simp
  then have p: "ptr V (loaded d) k = 0" for k by (simp add: ptr_def ind_def)
  then show "owned V (loaded d) = {}" by (simp add: owned_def)
  have "ind (loaded d) = 0" using p [of MAXFILE] by simp
  then show "file_holds V d ty [] 0" using a by (simp add: file_holds_def dense_def fwf_def p cbyte_def)
qed

lemma ialloc_holds:
  assumes h: "holds m F 0" and n: "freeinode m < NINODES" "ty = kind (freeinode m)" and s: "mk_ialloc ty m = Some (inum, m')"
  shows "inum = freeinode m \<and> freeinode m' = Suc inum \<and> holds m' (F(inum := [])) 0 \<and> (\<forall>x<32. img m' x = img m x) \<and> freeblock m' = freeblock m"
proof -
  note H = holdsD [OF h, unfolded alen_simps]
  define m0 where "m0 = m\<lparr>freeinode := freeinode m + 1\<rparr>"
  define d where "d = (new_dinode ty)\<lparr>di_nlink := 1\<rparr>"
  have e: "inum = freeinode m" and w: "winode inum d m0 = Some m'" using s by (auto simp: mk_ialloc_def Let_def m0_def d_def)
  have v: "vimg m0 = vimg m" "din_at k m0 = din_at k m" "freeinode m0 = Suc inum" "img m0 = img m" "freeblock m0 = freeblock m" for k
    by (simp_all add: m0_def vimg_def din_at_def fun_eq_iff e)
  have ok: "mk_ok m0" using H(1) by (simp add: mk_ok_def m0_def)
  have own: "file_holds (vimg m0) d (kind inum) [] 0" using new_file(1) [OF d_def] n(2) e by simp
  have "holds m' (F(inum := [])) 0 \<and> freeinode m' = freeinode m0 \<and> freeblock m' = freeblock m0 \<and> (\<forall>x<32. img m' x = img m0 x)"
  proof (rule winode_holds [OF ok _ _ _ _ w], goal_cases)
    case (8 k j)
    then show ?case using H(5) [of k j] by (simp add: v e)
  qed (use own H n e new_file(2) [OF d_def, of "vimg m"] in \<open>auto simp: v\<close>)
  then show ?thesis using e by (simp add: v)
qed

lemma ialloc_runs:
  assumes "holds m F 0" "freeinode m < NINODES"
  shows "\<exists>m'. mk_ialloc ty m = Some (freeinode m, m')"
  using IBLOCK_low [OF assms(2)] by (simp add: mk_ialloc_def Let_def winode_def rsect_def)

lemma copy_file_holds:
  assumes "holds m F 0" "0 < inum" "inum < freeinode m" "length (F inum @ d) \<le> MAXFILE * BSIZE"
    and "freeblock m + need (length (F inum @ d)) \<le> FSSIZE + need (length (F inum))"
  shows "\<exists>m'. copy_file inum d m = Some m' \<and> holds m' (F(inum := F inum @ d)) 0 \<and> freeinode m' = freeinode m \<and>
    (\<forall>x<32. img m' x = img m x) \<and> freeblock m' + need (length (F inum)) = freeblock m + need (length (F inum @ d))"
  using assms
proof (induction inum d m arbitrary: F rule: copy_file.induct)
  case (1 inum d m)
  show ?case
  proof (cases "d = []")
    case True
    then show ?thesis using 1(2) by (simp add: copy_file.simps)
  next
    case False
    let ?F = "F(inum := F inum @ take BSIZE d)"
    have l: "length (F inum @ take BSIZE d) \<le> length (F inum @ d)" by simp
    then obtain m1 where a: "iappend inum (take BSIZE d) m = Some m1"
      using iappend_runs [OF 1(2,3,4), of "take BSIZE d"] need_mono [OF l] 1(5,6) by fastforce
    have i: "holds m1 ?F 0" "freeinode m1 = freeinode m" "\<forall>x<32. img m1 x = img m x"
        "freeblock m1 + need (length (F inum)) = freeblock m + need (length (?F inum))"
      using iappend_holds [OF 1(2,3,4) a] by simp_all
    have e: "?F inum @ drop BSIZE d = F inum @ d" by simp
    have "inum < freeinode m1" "freeblock m1 + need (length (?F inum @ drop BSIZE d)) \<le> FSSIZE + need (length (?F inum))"
      using 1(4,6) i(2,4) unfolding e by linarith+
    from 1(1) [OF False a i(1) 1(3) this(1) _ this(2), unfolded e fun_upd_upd] 1(5) obtain m' where
      "copy_file inum (drop BSIZE d) m1 = Some m'" "holds m' (F(inum := F inum @ d)) 0" "freeinode m' = freeinode m1"
      "\<forall>x<32. img m' x = img m1 x" "freeblock m' + need (length (?F inum)) = freeblock m1 + need (length (F inum @ d))" by blast
    then show ?thesis using i(2,3,4) False a by (intro exI [of _ m']) (subst copy_file.simps, simp)
  qed
qed

lemma length_mk_dirent [simp]: "length (mk_dirent i name) = DIRENTSZ"
  using length_enc_dirent [of "\<lparr>de_inum = of_nat i, de_name = strncpy (of_list name) DIRSIZ\<rparr>"] by (simp add: mk_dirent_def)

lemma add_file_holds:
  assumes h: "holds m F 0" and n: "1 < freeinode m" "freeinode m < NINODES" and f: "47 \<notin> set name" "length d \<le> MAXFILE * BSIZE"
    and r: "length (F ROOTINO) + DIRENTSZ \<le> MAXFILE * BSIZE"
    and b: "freeblock m + need (length (F ROOTINO) + DIRENTSZ) + need (length d) \<le> FSSIZE + need (length (F ROOTINO))"
  shows "\<exists>m'. add_file (name, d) m = Some m' \<and>
    holds m' (F(ROOTINO := F ROOTINO @ mk_dirent (freeinode m) (skip_underscore name), freeinode m := d)) 0 \<and>
    freeinode m' = Suc (freeinode m) \<and> (\<forall>x<32. img m' x = img m x) \<and>
    freeblock m' + need (length (F ROOTINO)) = freeblock m + need (length (F ROOTINO) + DIRENTSZ) + need (length d)"
proof -
  let ?i = "freeinode m"
  obtain m1 where a: "mk_ialloc T_FILE m = Some (?i, m1)" using ialloc_runs [OF h n(2)] by blast
  have 1: "freeinode m1 = Suc ?i" "holds m1 (F(?i := [])) 0" "\<forall>x<32. img m1 x = img m x" "freeblock m1 = freeblock m"
    using ialloc_holds [OF h n(2) _ a] n(1) by (auto simp: kind_def)
  have i: "ROOTINO < freeinode m1" "?i < freeinode m1" "?i \<noteq> ROOTINO" using n 1 by simp_all
  let ?e = "mk_dirent ?i (skip_underscore name)" let ?F = "F(?i := [], ROOTINO := F ROOTINO @ ?e)"
  obtain m2 where c: "iappend ROOTINO ?e m1 = Some m2" using iappend_runs [OF 1(2) _ i(1), of ?e] i(3) r b 1(4) by auto
  have 2: "holds m2 ?F 0" "freeinode m2 = freeinode m1" "\<forall>x<32. img m2 x = img m1 x"
      "freeblock m2 + need (length (F ROOTINO)) = freeblock m1 + need (length (F ROOTINO) + DIRENTSZ)"
    using iappend_holds [OF 1(2) _ i(1) c] i(3) by simp_all
  have F: "?F ?i = []" "?F(?i := ?F ?i @ d) = F(ROOTINO := F ROOTINO @ ?e, ?i := d)" using i(3) by (auto simp: fun_eq_iff)
  have "freeblock m2 + need (length d) \<le> FSSIZE" using 2(4) 1(4) b by linarith
  then obtain m' where m': "copy_file ?i d m2 = Some m'" "holds m' (F(ROOTINO := F ROOTINO @ ?e, ?i := d)) 0" "freeinode m' = freeinode m2"
      "\<forall>x<32. img m' x = img m2 x" "freeblock m' = freeblock m2 + need (length d)"
    using copy_file_holds [OF 2(1), of ?i d, unfolded F] i(2) 2(2) f(2) n(1) by (auto simp: F(1))
  then show ?thesis using f(1) a c 1 2 by (intro exI [of _ m']) (simp add: add_file_def)
qed

text \<open>The entries of the root directory for the files, numbered from \<open>i\<close>.\<close>

fun entries :: "nat \<Rightarrow> (byte list \<times> byte list) list \<Rightarrow> byte list" where
  "entries i [] = []"
| "entries i (f # fs) = mk_dirent i (skip_underscore (fst f)) @ entries (Suc i) fs"

lemma length_entries: "length (entries i fs) = DIRENTSZ * length fs"
  by (induction fs arbitrary: i) simp_all

text \<open>The blocks of the files, and the arguments \<open>mkfs\<close> accepts.\<close>

definition files_need :: "(byte list \<times> byte list) list \<Rightarrow> nat" where
  "files_need fs = sum_list (map (\<lambda>f. need (length (snd f))) fs)"

definition args_ok :: "(byte list \<times> byte list) list \<Rightarrow> bool" where
  "args_ok fs \<longleftrightarrow> (\<forall>f\<in>set fs. 47 \<notin> set (fst f) \<and> length (snd f) \<le> MAXFILE * BSIZE)"

lemma add_files_holds:
  assumes "holds m F 0" "1 < freeinode m" "freeinode m + length fs \<le> NINODES" "args_ok fs"
    and "length (F ROOTINO) + DIRENTSZ * length fs \<le> MAXFILE * BSIZE"
    and "freeblock m + need (length (F ROOTINO) + DIRENTSZ * length fs) + files_need fs \<le> FSSIZE + need (length (F ROOTINO))"
  shows "\<exists>m' F'. add_files fs m = Some m' \<and> holds m' F' 0 \<and> freeinode m' = freeinode m + length fs \<and> (\<forall>x<32. img m' x = img m x) \<and>
    freeblock m' + need (length (F ROOTINO)) = freeblock m + need (length (F ROOTINO) + DIRENTSZ * length fs) + files_need fs \<and>
    F' ROOTINO = F ROOTINO @ entries (freeinode m) fs \<and> (\<forall>i<freeinode m. i \<noteq> ROOTINO \<longrightarrow> F' i = F i) \<and>
    (\<forall>k<length fs. F' (freeinode m + k) = snd (fs ! k))"
  using assms
proof (induction fs arbitrary: m F)
  case Nil
  then show ?case by (auto simp: files_need_def)
next
  case (Cons f fs)
  let ?i = "freeinode m" and ?r = "length (F ROOTINO)"
  obtain name d where f: "f = (name, d)" by (cases f)
  have fo: "47 \<notin> set name" "length d \<le> MAXFILE * BSIZE" "args_ok fs" using Cons.prems(4) by (auto simp: f args_ok_def)
  have sz: "?r + DIRENTSZ + DIRENTSZ * length fs = ?r + DIRENTSZ * length (f # fs)" "files_need (f # fs) = need (length d) + files_need fs"
    by (simp_all add: f files_need_def)
  have le: "need (?r + DIRENTSZ) \<le> need (?r + DIRENTSZ * length (f # fs))" by (rule need_mono) simp
  let ?F = "F(ROOTINO := F ROOTINO @ mk_dirent ?i (skip_underscore name), ?i := d)"
  have ne: "?i \<noteq> ROOTINO" using Cons.prems(2) by simp
  have "\<exists>m1. add_file (name, d) m = Some m1 \<and> holds m1 ?F 0 \<and> freeinode m1 = Suc ?i \<and> (\<forall>x<32. img m1 x = img m x) \<and>
      freeblock m1 + need ?r = freeblock m + need (?r + DIRENTSZ) + need (length d)"
    by (rule add_file_holds [OF Cons.prems(1,2) _ fo(1,2)]) (use Cons.prems(3,5,6) sz le in simp_all)
  then obtain m1 where 1: "add_file f m = Some m1" "holds m1 ?F 0" "freeinode m1 = Suc ?i" "\<forall>x<32. img m1 x = img m x"
      "freeblock m1 + need ?r = freeblock m + need (?r + DIRENTSZ) + need (length d)"
    unfolding f by blast
  have r: "length (?F ROOTINO) = ?r + DIRENTSZ" using ne by simp
  have "freeblock m1 + need (?r + DIRENTSZ * length (f # fs)) + files_need fs \<le> FSSIZE + need (?r + DIRENTSZ)"
    using 1(5) Cons.prems(6) unfolding sz(2) by linarith
  then obtain m' F' where F': "add_files fs m1 = Some m'" "holds m' F' 0" "freeinode m' = Suc ?i + length fs" "\<forall>x<32. img m' x = img m1 x"
    "freeblock m' + need (?r + DIRENTSZ) = freeblock m1 + need (?r + DIRENTSZ * length (f # fs)) + files_need fs"
    "F' ROOTINO = ?F ROOTINO @ entries (Suc ?i) fs" "\<forall>i<Suc ?i. i \<noteq> ROOTINO \<longrightarrow> F' i = ?F i"
    "\<forall>k<length fs. F' (Suc ?i + k) = snd (fs ! k)"
    using Cons.IH [OF 1(2)] 1(3) Cons.prems(2,3,5) fo(3) unfolding r sz(1) by auto
  have "F' (?i + k) = snd ((f # fs) ! k)" if "k < length (f # fs)" for k
    using F'(7) [rule_format, of ?i] F'(8) [rule_format, of "k - 1"] that ne by (cases k) (simp_all add: f)
  moreover have "freeblock m' + need ?r = freeblock m + need (?r + DIRENTSZ * length (f # fs)) + files_need (f # fs)"
    using F'(5) 1(5) unfolding sz(2) by linarith
  ultimately show ?case using F' 1 ne by (intro exI [of _ m'] exI [of _ F']) (simp add: f)
qed

section \<open>The whole run\<close>

text \<open>The directory is padded with zeros to the next multiple of a block.\<close>

definition pad_block :: "byte list \<Rightarrow> byte list" where
  "pad_block c = c @ replicate (BSIZE - length c mod BSIZE) 0"

lemma length_pad_block: "length (pad_block c) = (length c div BSIZE + 1) * BSIZE"
proof -
  define Q R where q: "Q = length c div BSIZE" "R = length c mod BSIZE"
  then have "length c = Q * BSIZE + R" "R < BSIZE" by simp_all
  then show ?thesis unfolding pad_block_def length_append length_replicate q [symmetric] by simp
qed

lemma word_round_up:
  assumes "n < 71680"
  shows "((of_nat n :: u32) div of_nat BSIZE + 1) * of_nat BSIZE = of_nat ((n div BSIZE + 1) * BSIZE)"
proof -
  have "(of_nat n :: u32) div of_nat BSIZE = of_nat (n div BSIZE)"
    using assms by (simp add: word_unat_eq_iff unat_div unat_of_nat take_bit_nat_eq_self)
  then show ?thesis by simp
qed

lemma fix_root_holds:
  assumes h: "holds m F 0" and n: "ROOTINO < freeinode m" "length (F ROOTINO) < MAXFILE * BSIZE"
  shows "\<exists>m'. fix_root m = Some m' \<and> freeinode m' = freeinode m \<and> (\<forall>x<32. img m' x = img m x) \<and> freeblock m' = freeblock m \<and>
    holds m' (F(ROOTINO := pad_block (F ROOTINO))) (length (pad_block (F ROOTINO)) - length (F ROOTINO))"
proof -
  note H = holdsD [OF h, unfolded alen_simps]
  let ?c = "F ROOTINO" and ?d = "din_at ROOTINO m"
  let ?d1 = "?d\<lparr>di_size := of_nat (length (pad_block ?c))\<rparr>" and ?r = "length (pad_block ?c) - length ?c"
  have f: "file_holds (vimg m) ?d (kind ROOTINO) ?c (length ?c)" using H(4) [of ROOTINO] n by simp
  then have sz: "di_size ?d = of_nat (length ?c)" by (simp add: file_holds_def)
  have b: "IBLOCK ROOTINO mk_sb < FSSIZE" using IBLOCK_low [of ROOTINO] by simp
  then have "rinode ROOTINO m = Some ?d" by (simp add: rinode_def rsect_def din_at_def)
  then obtain m' where s: "fix_root m = Some m'" and w: "winode ROOTINO ?d1 m = Some m'"
    using word_round_up [of "length ?c"] n(2) b unfolding fix_root_def by (simp add: sz length_pad_block winode_def rsect_def Let_def)
  have "length ?c div BSIZE + 1 \<le> MAXFILE" using block_range [OF n(2)] by linarith
  then have l: "length (pad_block ?c) \<le> MAXFILE * BSIZE" unfolding length_pad_block using mult_le_mono1 by blast
  have c: "(if j < length (pad_block ?c) then pad_block ?c ! j else 0) = (if j < length ?c then ?c ! j else 0)" for j
    using mod_less_divisor [of BSIZE "length ?c"] by (auto simp: pad_block_def nth_append)
  have fw: "fwf mk_sb (vimg m) (loaded ?d1)" "dense (vimg m) (loaded ?d1) (length ?c)"
    using f by (simp_all add: file_holds_def fwf_def dense_def ind_def ptr_size)
  have "file_holds (vimg m) ?d1 (kind ROOTINO) (pad_block ?c) (length ?c)"
    using f fw l unfolding file_holds_def c by (simp add: cbyte_def ptr_size)
  moreover have "alen ?r (F(ROOTINO := pad_block ?c)) ROOTINO = length ?c" by (simp add: alen_def pad_block_def)
  ultimately have own: "file_holds (vimg m) ?d1 (kind ROOTINO) (pad_block ?c) (alen ?r (F(ROOTINO := pad_block ?c)) ROOTINO)" by simp
  have ow: "owned (vimg m) (loaded ?d1) = owned (vimg m) (loaded ?d)" by (simp add: owned_def ptr_size)
  have "holds m' (F(ROOTINO := pad_block ?c)) ?r \<and> freeinode m' = freeinode m \<and> freeblock m' = freeblock m \<and> (\<forall>x<32. img m' x = img m x)"
  proof (rule winode_holds [OF H(1,2,3) _ n(1) w own], goal_cases)
    case (2 k)
    then show ?case using H(4) [of k] by (simp add: alen_def)
  next
    case (3 k)
    then show ?case using H(5) [of k ROOTINO] n(1) by (simp add: ow)
  next
    case (4 k j)
    then show ?case using H(5) [of k j] by simp
  qed (use H in simp_all)
  then show ?thesis using s by blast
qed

lemma mk_start_holds: "holds mk_start F 0"
proof -
  have l: "length (bsplice 0 (enc_superblock mk_sb) (replicate BSIZE 0)) = BSIZE" by (simp add: length_bsplice enc_superblock_def cu32.enc_length)
  have ok: "mk_ok mk_start" using l by (simp add: mk_ok_def mk_start_def wsect_def)
  have "di_type (din_at i mk_start) = 0" if "i < NINODES" for i
  proof -
    have "img mk_start (IBLOCK i mk_sb) = replicate BSIZE 0" using IBLOCK_low [OF that] by (simp add: mk_start_def wsect_def)
    moreover have "i mod IPB * DINODESZ + DINODESZ \<le> BSIZE" using mod_less_divisor [of IPB i] by linarith
    ultimately have "din_at i mk_start = dec_dinode (replicate DINODESZ 0)" by (simp add: din_at_def dinode_at_def bslice_def)
    then show ?thesis by (simp add: dec_dinode_def) code_simp
  qed
  then show ?thesis using ok by (simp add: holds_def) (simp add: mk_start_def wsect_def)
qed

definition root_bytes :: "(byte list \<times> byte list) list \<Rightarrow> byte list" where
  "root_bytes fs = pad_block (mk_dirent ROOTINO [46] @ mk_dirent ROOTINO [46, 46] @ entries 2 fs)"

text \<open>The blocks \<open>mkfs\<close> has used up at the end.\<close>

definition image_need :: "(byte list \<times> byte list) list \<Rightarrow> nat" where
  "image_need fs = nmeta + need (DIRENTSZ * (length fs + 2)) + files_need fs"

lemma mkfs_holds:
  assumes n: "length fs + 2 \<le> NINODES" and f: "args_ok fs" and b: "image_need fs \<le> FSSIZE"
  shows "\<exists>F m1 r. mkfs fs = Some (m1\<lparr>img := vimg m1\<rparr>) \<and> holds m1 F r \<and> freeinode m1 = length fs + 2 \<and> (\<forall>x<32. img m1 x = img mk_start x) \<and>
     freeblock m1 = image_need fs \<and> F ROOTINO = root_bytes fs \<and> alen r F ROOTINO = DIRENTSZ * (length fs + 2) \<and>
     (\<forall>k<length fs. F (k + 2) = snd (fs ! k))"
proof -
  have st: "freeinode mk_start = ROOTINO" "freeblock mk_start = nmeta" by (simp_all add: mk_start_def wsect_def)
  let ?E = "\<lambda>_ :: nat. [] :: byte list" and ?a = "mk_dirent ROOTINO [46]" and ?b = "mk_dirent ROOTINO [46, 46]"
  have c: "nmeta + need (DIRENTSZ + DIRENTSZ) \<le> FSSIZE" "need DIRENTSZ = 1" "need (DIRENTSZ + DIRENTSZ) = 1" by (simp_all add: need_def)
  obtain m0 where e0: "mk_ialloc T_DIR mk_start = Some (ROOTINO, m0)" using ialloc_runs [OF mk_start_holds [of ?E], of T_DIR] st(1) by auto
  have 0: "freeinode m0 = 2" "holds m0 ?E 0" "\<forall>x<32. img m0 x = img mk_start x" "freeblock m0 = nmeta"
    using ialloc_holds [OF mk_start_holds [of ?E] _ _ e0] st by (simp_all add: kind_def fun_upd_idem)
  obtain ma where ea: "iappend ROOTINO ?a m0 = Some ma" using iappend_runs [OF 0(2), of ROOTINO ?a] 0(1,4) c by auto
  have a: "holds ma (?E(ROOTINO := ?a)) 0" "freeinode ma = 2" "\<forall>x<32. img ma x = img mk_start x" "freeblock ma = nmeta + 1"
    using iappend_holds [OF 0(2) _ _ ea] 0(1,3,4) c by simp_all
  obtain mb where eb: "iappend ROOTINO ?b ma = Some mb" using iappend_runs [OF a(1), of ROOTINO ?b] a(2,4) c by auto
  have b': "holds mb (?E(ROOTINO := ?a @ ?b)) 0" "freeinode mb = 2" "\<forall>x<32. img mb x = img mk_start x" "freeblock mb = nmeta + 1"
    using iappend_holds [OF a(1) _ _ eb] a(2,3,4) c by simp_all
  have l: "length ((?E(ROOTINO := ?a @ ?b)) ROOTINO) + DIRENTSZ * length fs = DIRENTSZ * (length fs + 2)" by simp
  have sp: "freeblock mb + need (DIRENTSZ * (length fs + 2)) + files_need fs \<le> FSSIZE + need (length ((?E(ROOTINO := ?a @ ?b)) ROOTINO))"
    using b'(4) b c(3) by (simp add: image_need_def)
  obtain mc F where F: "add_files fs mb = Some mc" "holds mc F 0" "freeinode mc = 2 + length fs" "\<forall>x<32. img mc x = img mk_start x"
    "freeblock mc = image_need fs" "F ROOTINO = ?a @ ?b @ entries 2 fs" "\<forall>k<length fs. F (2 + k) = snd (fs ! k)"
    using add_files_holds [OF b'(1) _ _ f, unfolded l, OF _ _ _ sp] b' n c(3) by (auto simp: image_need_def)
  have lr: "length (F ROOTINO) = DIRENTSZ * (length fs + 2)" using F(6) by (simp add: length_entries)
  obtain md where d: "fix_root mc = Some md" "freeinode md = 2 + length fs" "\<forall>x<32. img md x = img mk_start x" "freeblock md = image_need fs"
    "holds md (F(ROOTINO := root_bytes fs)) (length (pad_block (F ROOTINO)) - length (F ROOTINO))"
    using fix_root_holds [OF F(2)] F(3,4,5,6) lr n by (auto simp: root_bytes_def)
  have "mk_balloc (freeblock md) md = Some (md\<lparr>img := vimg md\<rparr>)"
    using d(4) b by (simp add: mk_balloc_def wsect_def vimg_def bitmap_def)
  then have "mkfs fs = Some (md\<lparr>img := vimg md\<rparr>)" using e0 ea eb F(1) d(1) by (simp add: mkfs_def)
  moreover have "alen (length (pad_block (F ROOTINO)) - length (F ROOTINO)) (F(ROOTINO := root_bytes fs)) ROOTINO = DIRENTSZ * (length fs + 2)"
    using lr F(6) by (simp add: alen_def root_bytes_def pad_block_def)
  ultimately show ?thesis using d F(7)
    by (intro exI [of _ "F(ROOTINO := root_bytes fs)"] exI [of _ md] exI [of _ "length (pad_block (F ROOTINO)) - length (F ROOTINO)"])
      (simp add: add.commute)
qed

lemma dec_mk_sb: "dec_superblock (img mk_start 1) = mk_sb"
  by (simp add: mk_start_def wsect_def) code_simp

section \<open>Properties\<close>

text \<open>
  C40: \<open>mkfs\<close> writes a file system. When the files fit the inode table and the disk, none is
  longer than the largest file and no name has a slash, it succeeds, and the kernel finds
  the superblock, boots from the image with an empty log and sees the image itself. The free
  map marks exactly the blocks in use, as many as the files and the directory need; the root
  directory has \<open>.\<close>, \<open>..\<close> and an entry for each file, padded with zeros to a whole block;
  inode \<open>k + 2\<close> is the \<open>k\<close>-th file, with its bytes and its size; no two inodes share a block,
  and all other inodes are free.
\<close>
theorem mkfs_image:
  assumes "length fs + 2 \<le> NINODES" and "args_ok fs" and "image_need fs \<le> FSSIZE"
  shows "\<exists>m. mkfs fs = Some m \<and>
     dec_superblock (img m 1) = mk_sb \<and> recovers 2 LOGSIZE (img m) (img m) \<and> fs_ok mk_sb (img m) \<and>
     (\<forall>x<FSSIZE. used mk_sb (img m) x \<longleftrightarrow> x < image_need fs) \<and>
     file_holds (img m) (din_at ROOTINO m) T_DIR (root_bytes fs) (DIRENTSZ * (length fs + 2)) \<and>
     (\<forall>k<length fs. file_holds (img m) (din_at (k + 2) m) T_FILE (snd (fs ! k)) (length (snd (fs ! k)))) \<and>
     (\<forall>i<length fs + 2. \<forall>j<length fs + 2. 0 < i \<and> 0 < j \<and> i \<noteq> j \<longrightarrow>
        owned (img m) (loaded (din_at i m)) \<inter> owned (img m) (loaded (din_at j m)) = {}) \<and>
     (\<forall>i<NINODES. length fs + 2 \<le> i \<longrightarrow> di_type (din_at i m) = 0)"
proof -
  obtain F m1 r where s: "mkfs fs = Some (m1\<lparr>img := vimg m1\<rparr>)" and h: "holds m1 F r" and f: "freeinode m1 = length fs + 2"
    "\<forall>x<32. img m1 x = img mk_start x" "freeblock m1 = image_need fs" "F ROOTINO = root_bytes fs"
    "alen r F ROOTINO = DIRENTSZ * (length fs + 2)" "\<forall>k<length fs. F (k + 2) = snd (fs ! k)"
    using mkfs_holds [OF assms] by blast
  define m where m: "m = m1\<lparr>img := vimg m1\<rparr>"
  note H = holdsD [OF h, unfolded f(1)] and ok = mk_okD [OF holdsD(1) [OF h]]
  have im: "img m = vimg m1" by (simp add: m)
  have din: "din_at i m = din_at i m1" if "i < NINODES" for i using IBLOCK_low [OF that] by (simp add: din_at_def im vimg_def)
  have low: "img m x = img mk_start x" if "x < 32" for x using f(2) that by (simp add: im vimg_def)
  then have sb: "dec_superblock (img m 1) = mk_sb" by (simp add: dec_mk_sb)
  have "img m 2 = replicate BSIZE 0" using low [of 2] by (simp add: mk_start_def wsect_def)
  then have "dec_n (img m 2) = 0" by (simp add: dec_n_def get32_zeros)
  then have "recovers 2 LOGSIZE (img m) (img m)"
    using ok(3) sb by (intro recovers_clear) (simp_all add: image_ok_def im, simp add: mk_sb_def)
  moreover have "file_holds (img m) (din_at ROOTINO m) T_DIR (root_bytes fs) (DIRENTSZ * (length fs + 2))"
    using H(4) [of ROOTINO] f(4,5) by (simp add: im din kind_def)
  moreover have "file_holds (img m) (din_at (k + 2) m) T_FILE (snd (fs ! k)) (length (snd (fs ! k)))" if "k < length fs" for k
    using H(4) [of "k + 2"] f(6) that assms(1) by (simp add: im din kind_def alen_def)
  moreover have "owned (img m) (loaded (din_at i m)) \<inter> owned (img m) (loaded (din_at j m)) = {}"
    if "i < length fs + 2" "j < length fs + 2" "0 < i" "0 < j" "i \<noteq> j" for i j
    using H(5) [of i j] that assms(1) by (simp add: im din)
  moreover have "di_type (din_at i m) = 0" if "i < NINODES" "length fs + 2 \<le> i" for i using H(6) [of i] that by (simp add: din)
  ultimately show ?thesis using s sb ok(6,7) f(3) by (intro exI [of _ m]) (simp add: im m)
qed

theorem mkfs_image_witness:
  "\<exists>m. mkfs [([95, 97], [1, 2, 3]), ([98], replicate 7000 9)] = Some m \<and> recovers 2 LOGSIZE (img m) (img m) \<and>
     file_holds (img m) (din_at 2 m) T_FILE [1, 2, 3] 3 \<and> file_holds (img m) (din_at 3 m) T_FILE (replicate 7000 9) 7000 \<and>
     (\<forall>x<FSSIZE. used mk_sb (img m) x \<longleftrightarrow> x < 76)"
proof -
  let ?fs = "[([95, 97], [1, 2, 3]), ([98], replicate 7000 9)] :: (byte list \<times> byte list) list"
  have n: "image_need ?fs = 76" by (simp add: image_need_def files_need_def need_def)
  have "length ?fs + 2 \<le> NINODES" "args_ok ?fs" "image_need ?fs \<le> FSSIZE" using n by (simp_all add: args_ok_def)
  from mkfs_image [OF this] obtain m where m: "mkfs ?fs = Some m" "recovers 2 LOGSIZE (img m) (img m)"
    "\<forall>x<FSSIZE. used mk_sb (img m) x \<longleftrightarrow> x < image_need ?fs"
    "\<forall>k<length ?fs. file_holds (img m) (din_at (k + 2) m) T_FILE (snd (?fs ! k)) (length (snd (?fs ! k)))" by blast
  have e: "0 + 2 = (2 :: nat)" "Suc 0 + 2 = (3 :: nat)" "snd (?fs ! 0) = [1, 2, 3]" "snd (?fs ! Suc 0) = replicate 7000 9" by simp_all
  have l: "length [1, 2, 3 :: byte] = 3" "length (replicate 7000 (9 :: byte)) = 7000" by simp_all
  have "file_holds (img m) (din_at 2 m) T_FILE [1, 2, 3] 3" "file_holds (img m) (din_at 3 m) T_FILE (replicate 7000 9) 7000"
    using m(4) [rule_format, of 0] m(4) [rule_format, of "Suc 0"] unfolding e l by simp_all
  then show ?thesis using m(1,2) m(3) [unfolded n] by blast
qed

end
