(* ===== verification/Spec2Isabelle.thy ===== *)
theory Spec2Isabelle
  imports Trap JFault FileSpec Family Grep Sh Mkfs
begin

text \<open>
  A verification of the kernel under \<open>src/\<close>: xv6 for the x86 with a write-ahead journal
  that logs byte ranges, protects them by CRC-32, separates the log from its commit record
  by a drive cache flush, batches operations into one commit and keeps statistics. The user
  programs that contain algorithms of their own and the program that makes the first disk
  image follow at the end.

  \<^bold>\<open>The program and its parts.\<close> A system call enters through \<open>trap.c\<close> and \<open>syscall.c\<close>,
  which fetch arguments from user memory, and runs one of the handlers in \<open>sysfile.c\<close> and
  \<open>sysproc.c\<close>. File system calls go down through the file table (\<open>file.c\<close>, \<open>pipe.c\<close>), inodes,
  directories and paths (\<open>fs.c\<close>), the journal (\<open>log.c\<close>), the buffer cache (\<open>bio.c\<close>) and the
  disk driver (\<open>ide.c\<close>, or \<open>memide.c\<close>). Process calls use \<open>proc.c\<close>, \<open>exec.c\<close> and the page tables of
  \<open>vm.c\<close> over the page allocator \<open>kalloc.c\<close>. Every part uses the locks of \<open>spinlock.c\<close> and
  \<open>sleeplock.c\<close>, and \<open>sleep\<close> and \<open>wakeup\<close> of \<open>proc.c\<close>.

  \<^bold>\<open>How the code is modelled.\<close> An operation is a function from a state to an \<open>outcome\<close>
  (theory \<open>Prelude\<close>): \<open>Ok\<close> a result and a state, \<open>Panic\<close> with the message of the C call,
  \<open>Block\<close> when the process gives up the processor in \<open>sched\<close>, and \<open>Fault\<close> where C would
  go on with an undefined value. \<open>bnd\<close>, \<open>seq\<close>, \<open>whenc\<close>, \<open>for_each\<close> and \<open>search_each\<close> compose
  operations the way the statements do. The state is a chain of extensible records, one
  link per layer, so that an operation of a lower layer runs unchanged in the state of a
  higher one: \<open>kst\<close> (locks held, process table, current process), \<open>bst\<close> (buffers, disk queue,
  disk, trace of disk commands), \<open>lst\<close> (journal), \<open>ist\<close> (inode cache), \<open>mst\<close> (physical memory),
  \<open>vst\<close>, \<open>cst\<close> (console), \<open>fls\<close> (file table, pipes), \<open>pst\<close> (processes). Global variables are
  fields, structs are records, enums are datatypes, and C integers are words of their width
  wherever the code relies on wrapping. Loops over arrays recurse on indices; loops
  without an obvious end (\<open>strlen\<close>) are partial functions of which we prove that they return.

  \<^bold>\<open>Theories.\<close>
  \<^item> \<open>Prelude\<close>, \<open>Params\<close>: outcomes, their rules (\<open>wp\<close> and the collection \<open>kop\<close>), byte arrays,
    reachability of step relations; the constants and on-disk structures of \<open>param.h\<close>, \<open>fs.h\<close>.
  \<^item> \<open>Kernel\<close>, \<open>Spinlock\<close>: \<open>sleep\<close>, \<open>wakeup\<close>, \<open>sched\<close> and sleep-locks of \<open>proc.c\<close> and \<open>sleeplock.c\<close> over
    locks that are a list of held names; \<open>spinlock.c\<close> itself over several processors
    (\<open>pushcli\<close>, \<open>popcli\<close>, \<open>acquire\<close>, \<open>release\<close>), which refines that list.
  \<^item> \<open>Ide\<close>, \<open>Bio\<close>: \<open>ide.c\<close>, \<open>memide.c\<close>, \<open>bio.c\<close>. A request is served when it is issued: \<open>iderw\<close> runs as many
    interrupts as the queue is long (\<open>ide_interrupts\<close>), and \<open>iderw_wait\<close> needs one turn more
    than that; with these bounds the wait loop is proved to end. Every write and flush is
    appended to a trace, which is what crashes are defined on. The cache is proved to be a
    view of the disk in which held and dirty buffers are never recycled.
  \<^item> \<open>Crc32\<close>, \<open>JLog\<close>, \<open>JCommit\<close>, \<open>JCrash\<close>, \<open>JTxn\<close>, \<open>JFault\<close>, \<open>JStore\<close>: \<open>log.c\<close>. The table-driven CRC is
    the bit-serial one and detects every change of a byte. \<open>commit\<close> and \<open>recover_from_log\<close> are
    proved by weakest preconditions against the abstract log; a crash after any prefix of
    the disk trace, followed by \<open>initlog\<close>, gives the disk before or after the transaction;
    with a volatile drive cache any subset of the writes since the last flush may be lost.
    \<open>JTxn\<close> adds \<open>begin_op\<close>, \<open>log_write\<close> and \<open>end_op\<close>; the reservation of log space is proved over
    the step relation \<open>rstep\<close>, whose steps run these operations on the kernel state; \<open>JFault\<close>
    is about the fault injection; \<open>JStore\<close> packages the journal as the store the file system
    runs on (a locale, interpreted on \<open>log.c\<close>).
  \<^item> \<open>Fs\<close>, \<open>FsAlloc\<close>, \<open>FsData\<close>, \<open>FsFile\<close>, \<open>FsSpec\<close>, \<open>FsDir\<close>: \<open>fs.c\<close>. Bitmap, block map with its indirect block,
    \<open>readi\<close> and \<open>writei\<close> against the content of a file as a byte list, directories as tables
    of names, paths.
  \<^item> \<open>Kalloc\<close>, \<open>Vm\<close>, \<open>VmSpec\<close>: \<open>kalloc.c\<close>, \<open>vm.c\<close> and the macros of \<open>mmu.h\<close>, over byte-addressed memory.
    The free list is a chain of pages in memory; the page tables are read by the two-level
    walk of the processor, which \<open>mappages\<close>, \<open>allocuvm\<close> and \<open>copyout\<close> are specified against.
  \<^item> \<open>Ring\<close>, \<open>Console\<close>, \<open>Pipe\<close>, \<open>File\<close>: ring buffers with wrapping counters, \<open>console.c\<close>, \<open>pipe.c\<close>, \<open>file.c\<close>.
    The console refines an abstract line editor; readers and writers of a pipe are a step
    relation with an invariant.
  \<^item> \<open>CString\<close>, \<open>Syscall\<close>, \<open>SyscallSpec\<close>, \<open>Exec\<close>, \<open>Sysfile\<close>, \<open>Trap\<close>: \<open>string.c\<close>, \<open>syscall.c\<close>, \<open>exec.c\<close>, \<open>sysfile.c\<close>,
    \<open>sysproc.c\<close>, \<open>trap.c\<close>.
  \<^item> \<open>Proc\<close>, \<open>ProcSpec\<close>, \<open>Frame\<close>, \<open>Family\<close>, \<open>FileSpec\<close>: \<open>proc.c\<close>; fairness of the scheduler; what operations
    leave alone, as locales interpreted once per relation; \<open>fork\<close>, \<open>exit\<close> and \<open>wait\<close> under every
    schedule; reference counts of open files.
  \<^item> \<open>ULib\<close>, \<open>Grep\<close>, \<open>Sh\<close>: strings and \<open>printf\<close> of \<open>ulib.c\<close> and \<open>printf.c\<close>; the matcher of \<open>grep.c\<close>
    against the language of its pattern and its line loop against the lines of the input,
    given as the pieces that \<open>read\<close> returns; the parser of \<open>sh.c\<close>, with fuel of four units per
    byte of the line, which is proved to be enough on every line.
  \<^item> \<open>Mkfs\<close>: \<open>mkfs.c\<close>, whose image is proved to satisfy what the theorems on \<open>fs.c\<close> and \<open>log.c\<close> ask
    of a disk.

  \<^bold>\<open>Abstractions.\<close> The processor and devices appear only where code depends on them: the
  interrupt flag, \<open>xchg\<close>, the ports of the disk and the screen, the address translation.
  \<open>swtch\<close> is the outcome \<open>Block\<close>; the step relations (\<open>pstep\<close>, \<open>rstep\<close>, \<open>wstep\<close>, the scheduler)
  run the processes in any order, one call or one part of a call up to its \<open>sleep\<close> at a
  time. Within such a part the code holds the locks that make it atomic. The kernel
  locks are a list of names in all theories but \<open>Spinlock\<close>. The table of \<open>crc32\<close> is optional,
  absent until \<open>crc32_init\<close> has run (\<open>crc32_ready\<close>). The counters of \<open>journal_stats\<close> are unbounded
  integers, which the code's 32-bit ones are until they wrap. The console is a layer above
  the journal, the file system and the page tables, so the messages that \<open>log.c\<close>, \<open>iinit\<close> and
  \<open>allocuvm\<close> print are left out; those of panics are kept.

  \<^bold>\<open>Not modelled.\<close> Assembly (\<open>swtch.S\<close>, \<open>trapasm.S\<close>, \<open>entry.S\<close>, boot code) and \<open>main.c\<close>, which only
  calls initialisers in order; interrupt controllers, CPU discovery and
  the serial line's registers beyond output (\<open>lapic.c\<close>, \<open>ioapic.c\<close>, \<open>picirq.c\<close>, \<open>mp.c\<close>), whose
  behaviour is that of the devices; the decoding of keys (\<open>kbd.c\<close>), whose result is the list of
  characters given to the console; initialisers that only set up a lock; \<open>umalloc.c\<close>; of the
  shell and of \<open>grep.c\<close>, the parts that only make system calls (\<open>runcmd\<close>, \<open>getcmd\<close>, \<open>main\<close>); of
  \<open>mkfs.c\<close>, opening the host files and its messages; test programs and user programs that
  are a loop around one system call.
\<close>

end
